(* ===== verification/Kernel_Base.thy ===== *)
theory Kernel_Base
  imports Main "HOL-Library.Word"
begin

unbundle bit_operations_syntax

text \<open>
  The prelude of the development: the machine types of \<^verbatim>\<open>types.h\<close>, the outcome type of
  kernel functions (a value, a \<^verbatim>\<open>panic\<close> or a call to \<^verbatim>\<open>sleep\<close> that only another thread
  can end), the little-endian reading of bytes that the C casts rely on, and the generic
  lemmas on lists and words that the components share.
\<close>

section \<open>Machine types\<close>

type_synonym u8 = "8 word"
type_synonym u16 = "16 word"
type_synonym u32 = "32 word"

text \<open>Byte-addressed memory of a 32-bit machine.\<close>

type_synonym memory = "u32 \<Rightarrow> u8"

section \<open>Outcomes of kernel functions\<close>

text \<open>
  A kernel function returns, panics with a message, goes to sleep on a channel from which only
  another process or an interrupt can wake it, or runs a loop whose address or counter has
  wrapped around without reaching its bound, so that the loop starts over (\<open>Hang\<close>).
\<close>

datatype 'a res = Ok 'a | Panic string | Blocked | Hang

primrec bnd :: "'a res \<Rightarrow> ('a \<Rightarrow> 'b res) \<Rightarrow> 'b res" where
  "bnd (Ok x) f = f x"
| "bnd (Panic e) f = Panic e"
| "bnd Blocked f = Blocked"
| "bnd Hang f = Hang"

named_theorems outcome_simps \<open>inversion of composed outcomes\<close>

lemma bnd_eq_Ok [outcome_simps]: "bnd m f = Ok y \<longleftrightarrow> (\<exists>x. m = Ok x \<and> f x = Ok y)"
  by (cases m) auto

lemma bnd_eq_Panic [outcome_simps]:
  "bnd m f = Panic e \<longleftrightarrow> m = Panic e \<or> (\<exists>x. m = Ok x \<and> f x = Panic e)"
  by (cases m) auto

lemma bnd_eq_Blocked [outcome_simps]:
  "bnd m f = Blocked \<longleftrightarrow> m = Blocked \<or> (\<exists>x. m = Ok x \<and> f x = Blocked)"
  by (cases m) auto

lemma bnd_eq_Hang [outcome_simps]:
  "bnd m f = Hang \<longleftrightarrow> m = Hang \<or> (\<exists>x. m = Ok x \<and> f x = Hang)"
  by (cases m) auto

lemma bnd_assoc: "bnd (bnd m f) g = bnd m (\<lambda>x. bnd (f x) g)"
  by (cases m) auto

lemma bnd_cong [fundef_cong]:
  "m = m' \<Longrightarrow> (\<And>x. m' = Ok x \<Longrightarrow> f x = g x) \<Longrightarrow> bnd m f = bnd m' g"
  by (cases m') auto

section \<open>Little-endian words\<close>

definition byte_of :: "nat \<Rightarrow> u32 \<Rightarrow> u8" where
  "byte_of k v = ucast (drop_bit (8 * k) v)"

definition join4 :: "u8 \<Rightarrow> u8 \<Rightarrow> u8 \<Rightarrow> u8 \<Rightarrow> u32" where
  "join4 a b c d =
     ucast a OR push_bit 8 (ucast b) OR push_bit 16 (ucast c) OR push_bit 24 (ucast d)"

lemma join4_bytes [simp]: "join4 (byte_of 0 v) (byte_of (Suc 0) v) (byte_of 2 v) (byte_of 3 v) = v"
proof (rule bit_word_eqI)
  fix n :: nat
  assume "n < LENGTH(32)"
  then have n: "n < 32" by simp
  consider "n < 8" | "8 \<le> n \<and> n < 16" | "16 \<le> n \<and> n < 24" | "24 \<le> n \<and> n < 32"
    using n by linarith
  then show "bit (join4 (byte_of 0 v) (byte_of (Suc 0) v) (byte_of 2 v) (byte_of 3 v)) n = bit v n"
    by cases (auto simp: join4_def byte_of_def bit_simps)
qed

lemma byte_join4 [simp]:
  "byte_of 0 (join4 a b c d) = a" "byte_of (Suc 0) (join4 a b c d) = b"
  "byte_of 2 (join4 a b c d) = c" "byte_of 3 (join4 a b c d) = d"
  by (rule bit_word_eqI, force simp: join4_def byte_of_def bit_simps dest: bit_imp_le_length)+

section \<open>Distances between addresses\<close>

text \<open>
  \<open>unat (x - a)\<close> is how far \<open>x\<close> lies above \<open>a\<close> on the ring of addresses; a range of \<open>n\<close> bytes
  at \<open>a\<close> is the set of \<open>x\<close> with \<open>unat (x - a) < n\<close>.
\<close>

lemma unat_u32_le: "unat (n :: u32) \<le> 2 ^ 32"
proof -
  have "unat n < 2 ^ LENGTH(32)" by (rule unsigned_less)
  then show ?thesis by simp
qed

lemma uint_eq: "uint a = uint b \<longleftrightarrow> a = b"
  by (simp add: word_uint_eq_iff)

lemma unat_distance_step: "x \<noteq> a \<Longrightarrow> unat (x - (a + 1) :: u32) = unat (x - a) - 1"
proof -
  assume "x \<noteq> a"
  then have "x - a \<noteq> 0" by simp
  then have "unat (x - a - 1) = unat (x - a) - 1" by (rule unat_minus_one)
  moreover have "x - (a + 1) = x - a - 1" by (simp only: diff_diff_eq)
  ultimately show ?thesis by (simp only:)
qed

lemma unat_distance_pos: "x \<noteq> a \<Longrightarrow> 0 < unat (x - a :: u32)"
  by (simp add: unat_gt_0)

lemma unat_distance_back: "unat (a - (a + 1) :: u32) = 2 ^ 32 - 1"
proof -
  have "a - (a + 1) = - 1" by simp
  then show ?thesis by (simp add: unsigned_minus_1_eq_mask mask_eq_exp_minus_1)
qed

section \<open>Pages\<close>

definition page_aligned :: "u32 \<Rightarrow> bool" where
  "page_aligned a \<longleftrightarrow> unat a mod 4096 = 0"

definition in_page :: "u32 \<Rightarrow> u32 \<Rightarrow> bool" where
  "in_page p a \<longleftrightarrow> unat (a - p) < 4096"

lemma page_aligned_mod: "a mod 4096 = 0 \<longleftrightarrow> page_aligned a"
proof -
  have "a mod 4096 = 0 \<longleftrightarrow> unat (a mod 4096) = 0" by (simp add: unat_eq_0)
  then show ?thesis by (simp add: page_aligned_def unat_mod)
qed

lemma page_aligned_diff: "page_aligned a \<Longrightarrow> page_aligned b \<Longrightarrow> page_aligned (a - b)"
proof -
  assume a: "page_aligned a" and b: "page_aligned b"
  then obtain i j where i: "unat a = 4096 * i" and j: "unat b = 4096 * j"
    by (auto simp: page_aligned_def elim!: dvdE)
  have "unat (a - b) = (if b \<le> a then 4096 * (i - j) else 4096 * (i + 2 ^ 20 - j))"
    using i j by (auto simp: unat_sub_if' word_le_nat_alt diff_mult_distrib2)
  then show ?thesis by (auto simp: page_aligned_def)
qed

lemma page_aligned_add: "page_aligned a \<Longrightarrow> page_aligned b \<Longrightarrow> page_aligned (a + b)"
  by (auto simp: page_aligned_def unat_word_ariths mod_mod_cancel mod_add_eq
      intro: mod_eq_0_iff_dvd [THEN iffD2] dvd_add)

lemma page_distance:
  assumes "page_aligned p" "page_aligned q" "p \<noteq> q"
  shows "4096 \<le> unat (p - q) \<and> unat (p - q) \<le> 2 ^ 32 - 4096"
proof -
  have "page_aligned (p - q)" using assms by (simp add: page_aligned_diff)
  then obtain k where k: "unat (p - q) = 4096 * k" by (auto simp: page_aligned_def)
  moreover have "0 < unat (p - q)" using assms(3) by (rule unat_distance_pos)
  moreover have "unat (p - q) < 2 ^ LENGTH(32)" by (rule unsigned_less)
  ultimately show ?thesis by auto
qed

lemma in_page_unique:
  assumes "page_aligned p" "page_aligned q" "in_page p a" "in_page q a"
  shows "p = q"
proof (rule ccontr)
  assume ne: "p \<noteq> q"
  have "unat (a - p) + unat (p - q) < 2 ^ LENGTH(32)"
    using page_distance [OF assms(1,2) ne] assms(3) by (simp add: in_page_def)
  then have "unat ((a - p) + (p - q)) = unat (a - p) + unat (p - q)"
    by (rule unat_add_lem [THEN iffD1])
  then have "unat (a - q) = unat (a - p) + unat (p - q)" by simp
  then show False
    using page_distance [OF assms(1,2) ne] assms(4) by (simp add: in_page_def)
qed

lemma in_page_off: "off < 4096 \<Longrightarrow> in_page p (p + of_nat off)"
  by (simp add: in_page_def unat_of_nat)

lemma round_4096: "k div 4096 * 4096 \<le> (k :: nat)" "k < k div 4096 * 4096 + 4096"
  using dividend_less_div_times [of 4096 k] by simp_all

lemma and_not_mask12: "(a::u32) AND NOT 4095 = push_bit 12 (drop_bit 12 a)"
proof -
  have m: "(4095::u32) = mask 12" by (simp add: mask_eq_exp_minus_1)
  show ?thesis unfolding m by (rule bit_word_eqI) (auto simp: bit_simps)
qed

lemma unat_and_not_mask12: "unat ((a::u32) AND - 4096) = unat a div 4096 * 4096"
proof -
  have e: "(a::u32) AND - 4096 = push_bit 12 (drop_bit 12 a)" using and_not_mask12 [of a] by simp
  have "unat a div 4096 * 4096 \<le> unat a" by simp
  moreover have "unat a < 2^32" using unsigned_less[of a] by simp
  ultimately have "unat a div 4096 * 4096 < 2^32" by linarith
  then show ?thesis
  unfolding e
  by (simp add: unsigned_push_bit_eq unsigned_drop_bit_eq drop_bit_eq_div push_bit_eq_mult take_bit_eq_mod unat_word_ariths unat_div)
qed

end
