(* ===== verification/Mem_String.thy ===== *)
theory Mem_String
  imports Kernel_Base
begin

text \<open>
  The routines of \<^verbatim>\<open>string.c\<close>. \<^verbatim>\<open>memset\<close> and \<^verbatim>\<open>memmove\<close> work on the byte-addressed memory,
  since what they compute depends on the addresses (alignment, overlap). The string routines
  read through \<^emph>\<open>readers\<close>: a \<^verbatim>\<open>const char *p\<close> is the function \<open>i \<mapsto> p[i]\<close>, and a buffer that is
  written is such a function returned updated.
\<close>

section \<open>Definitions\<close>

type_synonym reader = "nat \<Rightarrow> u8"

text \<open>The string instructions of \<^verbatim>\<open>x86.h\<close>.\<close>

primrec stosb :: "memory \<Rightarrow> u32 \<Rightarrow> u8 \<Rightarrow> nat \<Rightarrow> memory" where
  "stosb m a v 0 = m"
| "stosb m a v (Suc n) = stosb (m(a := v)) (a + 1) v n"

definition st32 :: "memory \<Rightarrow> u32 \<Rightarrow> u32 \<Rightarrow> memory" where
  "st32 m a v = m(a := byte_of 0 v, a + 1 := byte_of 1 v, a + 2 := byte_of 2 v, a + 3 := byte_of 3 v)"

definition ld32 :: "memory \<Rightarrow> u32 \<Rightarrow> u32" where
  "ld32 m a = join4 (m a) (m (a + 1)) (m (a + 2)) (m (a + 3))"

primrec stosl :: "memory \<Rightarrow> u32 \<Rightarrow> u32 \<Rightarrow> nat \<Rightarrow> memory" where
  "stosl m a w 0 = m"
| "stosl m a w (Suc n) = stosl (st32 m a w) (a + 4) w n"

definition memset :: "memory \<Rightarrow> u32 \<Rightarrow> u32 \<Rightarrow> u32 \<Rightarrow> memory" where
  "memset m dst c n =
     (if dst mod 4 = 0 \<and> n mod 4 = 0
      then let c = c AND 0xFF
           in stosl m dst (push_bit 24 c OR push_bit 16 c OR push_bit 8 c OR c) (unat (n div 4))
      else stosb m dst (ucast c) (unat n))"

primrec memcmp :: "reader \<Rightarrow> reader \<Rightarrow> nat \<Rightarrow> int" where
  "memcmp s1 s2 0 = 0"
| "memcmp s1 s2 (Suc n) =
     (if s1 0 \<noteq> s2 0 then uint (s1 0) - uint (s2 0)
      else memcmp (\<lambda>i. s1 (Suc i)) (\<lambda>i. s2 (Suc i)) n)"

primrec copy_down :: "memory \<Rightarrow> u32 \<Rightarrow> u32 \<Rightarrow> nat \<Rightarrow> memory" where
  "copy_down m d s 0 = m"
| "copy_down m d s (Suc n) = copy_down (m(d - 1 := m (s - 1))) (d - 1) (s - 1) n"

primrec copy_up :: "memory \<Rightarrow> u32 \<Rightarrow> u32 \<Rightarrow> nat \<Rightarrow> memory" where
  "copy_up m d s 0 = m"
| "copy_up m d s (Suc n) = copy_up (m(d := m s)) (d + 1) (s + 1) n"

definition memmove :: "memory \<Rightarrow> u32 \<Rightarrow> u32 \<Rightarrow> u32 \<Rightarrow> memory" where
  "memmove m dst src n =
     (if src < dst \<and> src + n > dst
      then copy_down m (dst + n) (src + n) (unat n)
      else copy_up m dst src (unat n))"

definition memcpy :: "memory \<Rightarrow> u32 \<Rightarrow> u32 \<Rightarrow> u32 \<Rightarrow> memory" where
  "memcpy m dst src n = memmove m dst src n"

primrec strncmp :: "reader \<Rightarrow> reader \<Rightarrow> nat \<Rightarrow> int" where
  "strncmp p q 0 = 0"
| "strncmp p q (Suc n) =
     (if p 0 \<noteq> 0 \<and> p 0 = q 0 then strncmp (\<lambda>i. p (Suc i)) (\<lambda>i. q (Suc i)) n
      else uint (p 0) - uint (q 0))"

text \<open>
  \<^verbatim>\<open>strncpy\<close>: the first loop copies up to and including the terminator, the second fills the
  rest of the \<open>n\<close> bytes; \<open>k\<close> is the distance the two pointers have moved.
\<close>

fun strncpy_fill :: "reader \<Rightarrow> nat \<Rightarrow> nat \<Rightarrow> reader" where
  "strncpy_fill s k 0 = s"
| "strncpy_fill s k (Suc n) = strncpy_fill (s(k := 0)) (Suc k) n"

fun strncpy_loop :: "reader \<Rightarrow> reader \<Rightarrow> nat \<Rightarrow> nat \<Rightarrow> reader" where
  "strncpy_loop s t k 0 = s"
| "strncpy_loop s t k (Suc n) =
     (if t k \<noteq> 0 then strncpy_loop (s(k := t k)) t (Suc k) n
      else strncpy_fill (s(k := t k)) (Suc k) n)"

definition strncpy :: "reader \<Rightarrow> reader \<Rightarrow> int \<Rightarrow> reader" where
  "strncpy s t n = strncpy_loop s t 0 (nat n)"

text \<open>
  \<^verbatim>\<open>safestrcpy\<close>: the loop runs while \<^verbatim>\<open>--n > 0\<close>; the final \<^verbatim>\<open>*s = 0\<close> is written where the
  destination pointer stands, which is one past the terminator when the loop copied it.
\<close>

fun safestrcpy_loop :: "reader \<Rightarrow> reader \<Rightarrow> nat \<Rightarrow> nat \<Rightarrow> reader" where
  "safestrcpy_loop s t k 0 = s(k := 0)"
| "safestrcpy_loop s t k (Suc n) =
     (if t k \<noteq> 0 then safestrcpy_loop (s(k := t k)) t (Suc k) n
      else (s(k := t k))(Suc k := 0))"

definition safestrcpy :: "reader \<Rightarrow> reader \<Rightarrow> int \<Rightarrow> reader" where
  "safestrcpy s t n = (if n \<le> 0 then s else safestrcpy_loop s t 0 (nat (n - 1)))"

text \<open>\<^verbatim>\<open>strlen\<close> does not return on a string with no terminator.\<close>

partial_function (option) strlen_from :: "reader \<Rightarrow> nat \<Rightarrow> nat option" where
  "strlen_from s n = (if s n = 0 then Some n else strlen_from s (Suc n))"

definition strlen :: "reader \<Rightarrow> nat option" where
  "strlen s = strlen_from s 0"

section \<open>Memory\<close>

lemma stosb_range:
  "n \<le> 2 ^ 32 \<Longrightarrow> stosb m a v n = (\<lambda>x. if unat (x - a) < n then v else m x)"
proof (induction n arbitrary: m a)
  case 0
  then show ?case by simp
next
  case (Suc n)
  show ?case
  proof
    fix x
    have ih: "stosb (m(a := v)) (a + 1) v n x = (if unat (x - (a + 1)) < n then v else (m(a := v)) x)"
      using Suc by simp
    show "stosb m a v (Suc n) x = (if unat (x - a) < Suc n then v else m x)"
    proof (cases "x = a")
      case True
      with ih show ?thesis using Suc.prems by simp
    next
      case False
      then show ?thesis
        using ih unat_distance_step [OF False] unat_distance_pos [OF False] by auto
    qed
  qed
qed

lemma st32_stosb:
  assumes "byte_of 0 w = v" "byte_of (Suc 0) w = v" "byte_of 2 w = v" "byte_of 3 w = v"
  shows "st32 m a w = stosb m a v 4"
proof -
  have "stosb m a v 4 = m(a := v, a + 1 := v, a + 1 + 1 := v, a + 1 + 1 + 1 := v)"
    by (simp add: eval_nat_numeral)
  moreover have "a + 1 + 1 = a + 2" "a + 2 + 1 = a + 3" by simp_all
  ultimately show ?thesis by (simp add: st32_def assms)
qed

lemma stosb_add: "stosb m a v (k + n) = stosb (stosb m a v k) (a + of_nat k) v n"
  by (induction k arbitrary: m a) (simp_all add: algebra_simps)

lemma stosl_stosb:
  assumes "byte_of 0 w = v" "byte_of (Suc 0) w = v" "byte_of 2 w = v" "byte_of 3 w = v"
  shows "stosl m a w n = stosb m a v (4 * n)"
proof (induction n arbitrary: m a)
  case 0
  show ?case by simp
next
  case (Suc n)
  have "stosl m a w (Suc n) = stosb (stosb m a v 4) (a + of_nat 4) v (4 * n)"
    by (simp add: st32_stosb [OF assms] Suc.IH)
  also have "\<dots> = stosb m a v (4 + 4 * n)" by (simp only: stosb_add)
  finally show ?case by simp
qed

lemma replicated_byte:
  fixes c :: u32
  assumes "k < 4"
  shows "byte_of k (push_bit 24 (c AND 0xFF) OR push_bit 16 (c AND 0xFF)
           OR push_bit 8 (c AND 0xFF) OR (c AND 0xFF)) = ucast c"
proof -
  have m: "(0xFF :: u32) = mask 8" by (simp add: mask_eq_exp_minus_1)
  consider "k = 0" | "k = 1" | "k = 2" | "k = 3" using assms by linarith
  then show ?thesis
    by cases (rule bit_word_eqI, auto simp: byte_of_def m bit_simps)+
qed

lemma ld32_st32_same [simp]: "ld32 (st32 m a v) a = v"
  by (simp add: ld32_def st32_def)

section \<open>Copies\<close>

definition range_copy :: "memory \<Rightarrow> u32 \<Rightarrow> u32 \<Rightarrow> nat \<Rightarrow> memory" where
  "range_copy m d s n = (\<lambda>x. if unat (x - d) < n then m (s + (x - d)) else m x)"

lemma copy_up_range:
  "n \<le> 2 ^ 32 \<Longrightarrow> d = s \<or> n \<le> unat (d - s) \<Longrightarrow> copy_up m d s n = range_copy m d s n"
proof (induction n arbitrary: m d s)
  case 0
  then show ?case by (simp add: range_copy_def)
next
  case (Suc n)
  show ?case
  proof
    fix x
    have ih: "copy_up (m(d := m s)) (d + 1) (s + 1) n x = range_copy (m(d := m s)) (d + 1) (s + 1) n x"
      using Suc by (subst Suc.IH) auto
    show "copy_up m d s (Suc n) x = range_copy m d s (Suc n) x"
    proof (cases "x = d")
      case True
      then show ?thesis using Suc.prems ih by (simp add: range_copy_def)
    next
      case False
      have y: "s + 1 + (x - (d + 1)) = s + (x - d)" by simp
      have ne: "s + (x - d) \<noteq> d" if "unat (x - d) < Suc n"
      proof
        assume e: "s + (x - d) = d"
        then have "d - s = x - d" by (simp add: algebra_simps)
        with that Suc.prems(2) e False show False by auto
      qed
      show ?thesis
        using ih False ne unat_distance_step [OF False] unat_distance_pos [OF False] y
        by (auto simp: range_copy_def)
    qed
  qed
qed

lemma copy_down_range:
  "n \<le> 2 ^ 32 \<Longrightarrow> d = s \<or> n \<le> unat (s - d) \<Longrightarrow>
     copy_down m (d + of_nat n) (s + of_nat n) n = range_copy m d s n"
proof (induction n arbitrary: m)
  case 0
  then show ?case by (simp add: range_copy_def)
next
  case (Suc n)
  let ?m = "m(d + of_nat n := m (s + of_nat n))"
  have n: "unat (of_nat n :: u32) = n"
    using Suc.prems by (simp add: unat_of_nat)
  have ih: "copy_down ?m (d + of_nat n) (s + of_nat n) n = range_copy ?m d s n"
    using Suc by auto
  have ne: "s + (x - d) \<noteq> d + of_nat n" if x: "unat (x - d) < n" for x
  proof
    assume "s + (x - d) = d + of_nat n"
    then have e: "s - d = of_nat n - (x - d)" by (simp add: algebra_simps)
    have "x - d \<le> of_nat n" using x n by (simp add: word_le_nat_alt)
    then have "unat (s - d) = n - unat (x - d)" unfolding e by (simp add: unat_sub n)
    moreover have "s \<noteq> d"
    proof
      assume "s = d"
      with e have "of_nat n = x - d" by simp
      with x n show False by (metis less_irrefl)
    qed
    ultimately show False using Suc.prems(2) by auto
  qed
  have "copy_down m (d + of_nat (Suc n)) (s + of_nat (Suc n)) (Suc n)
      = copy_down ?m (d + of_nat n) (s + of_nat n) n"
    by (simp add: algebra_simps)
  also have "\<dots> = range_copy m d s (Suc n)"
  proof
    fix x
    show "copy_down ?m (d + of_nat n) (s + of_nat n) n x = range_copy m d s (Suc n) x"
    proof (cases "x = d + of_nat n")
      case True
      then show ?thesis by (simp add: ih range_copy_def n)
    next
      case False
      then have "x - d \<noteq> of_nat n" by (auto simp: algebra_simps)
      then have "unat (x - d) \<noteq> n" using n by (metis word_unat_eq_iff)
      then show ?thesis using ne False by (auto simp: ih range_copy_def less_Suc_eq)
    qed
  qed
  finally show ?case .
qed

lemma unat_diff_wrap: "a < b \<Longrightarrow> unat (a - b :: u32) = 2 ^ 32 - (unat b - unat a)"
  by (simp add: unat_sub_if' word_less_nat_alt) 

lemma memmove_apply:
  assumes "unat src + unat n < 2 ^ 32" and "unat dst + unat n < 2 ^ 32"
  shows "memmove m dst src n x =
           (if unat (x - dst) < unat n then m (src + (x - dst)) else m x)"
proof -
  have nb: "unat n \<le> 2 ^ 32" using assms by simp
  have add: "unat (src + n) = unat src + unat n"
    using assms(1) by (simp add: unat_add_lem [THEN iffD1])
  have "memmove m dst src n = range_copy m dst src (unat n)"
  proof (cases "src < dst \<and> src + n > dst")
    case True
    then have "unat n \<le> unat (src - dst)"
      using assms unat_diff_wrap [of src dst] by simp
    then show ?thesis
      using True copy_down_range [OF nb, of dst src m] by (simp add: memmove_def)
  next
    case False
    have "dst = src \<or> unat n \<le> unat (dst - src)"
    proof (cases "src \<le> dst")
      case le: True
      show ?thesis
      proof (cases "src = dst")
        case False2: False
        with le False have "src + n \<le> dst" by (simp add: not_less order.order_iff_strict)
        then have "unat src + unat n \<le> unat dst" using add by (simp add: word_le_nat_alt)
        then have "unat n \<le> unat (dst - src)" using le by (simp add: unat_sub)
        then show ?thesis ..
      qed simp
    next
      case nle: False
      then have "unat n \<le> unat (dst - src)"
        using assms unat_diff_wrap [of dst src] by (simp add: not_le)
      then show ?thesis ..
    qed
    then have "copy_up m dst src (unat n) = range_copy m dst src (unat n)"
      by (rule copy_up_range [OF nb])
    with False show ?thesis by (auto simp: memmove_def)
  qed
  then show ?thesis by (simp add: range_copy_def)
qed

text \<open>
  C1. \<^verbatim>\<open>memmove\<close> copies as if all of the source were read before any of the destination is
  written, whether or not the two ranges overlap and in either direction, and changes no other
  byte; both ranges lie below the top of the address space.
\<close>

theorem memmove_correct:
  assumes "unat src + unat n < 2 ^ 32" and "unat dst + unat n < 2 ^ 32"
  shows "memmove m dst src n x =
           (if unat (x - dst) < unat n then m (src + (x - dst)) else m x)"
  using assms by (rule memmove_apply)

theorem memmove_correct_witness:
  "unat (16 :: u32) + unat (8 :: u32) < 2 ^ 32 \<and> unat (20 :: u32) + unat (8 :: u32) < 2 ^ 32
   \<and> memmove (\<lambda>a. ucast a) 20 16 8 27 = 23"
  using memmove_correct [of 16 8 20 "\<lambda>a. ucast a" 27] by simp

lemma memset_apply:
  "memset m dst c n x = (if unat (x - dst) < unat n then ucast c else m x)"
proof -
  have bound: "unat n \<le> 2 ^ 32" by (rule unat_u32_le)
  have "memset m dst c n = stosb m dst (ucast c) (unat n)"
  proof (cases "dst mod 4 = 0 \<and> n mod 4 = 0")
    case True
    then have "unat (n mod 4) = 0" by simp
    then have "unat n mod 4 = 0" by (simp add: unat_mod)
    then have "4 * unat (n div 4) = unat n" by (auto simp: unat_div)
    then show ?thesis
      using True stosl_stosb [OF replicated_byte [of 0 c] replicated_byte [of "Suc 0" c]
          replicated_byte [of 2 c] replicated_byte [of 3 c], of m dst "unat (n div 4)"]
      by (simp add: memset_def Let_def)
  qed (auto simp: memset_def)
  then show ?thesis by (simp add: stosb_range [OF bound])
qed

text \<open>
  C2. Whichever of its two paths it takes (four bytes at a time on aligned ranges, one byte at
  a time otherwise), \<^verbatim>\<open>memset\<close> stores the low byte of \<open>c\<close> in exactly the \<open>n\<close> bytes at \<open>dst\<close>.
\<close>

theorem memset_correct:
  "memset m dst c n x = (if unat (x - dst) < unat n then ucast c else m x)"
  by (rule memset_apply)

section \<open>Strings\<close>

lemma memcmp_eq_0: "memcmp p q n = 0 \<longleftrightarrow> (\<forall>i<n. p i = q i)"
proof (induction n arbitrary: p q)
  case (Suc n)
  then show ?case by (auto simp: less_Suc_eq_0_disj uint_eq)
qed simp

text \<open>The comparison that \<^verbatim>\<open>strncmp\<close> decides: equal up to \<open>n\<close> bytes or a common terminator.\<close>

definition same_prefix :: "reader \<Rightarrow> reader \<Rightarrow> nat \<Rightarrow> bool" where
  "same_prefix p q n \<longleftrightarrow>
     (\<exists>k\<le>n. (\<forall>i<k. p i = q i \<and> p i \<noteq> 0) \<and> (k = n \<or> (p k = 0 \<and> q k = 0)))"

lemma same_prefix_Suc:
  "same_prefix p q (Suc n) \<longleftrightarrow>
     (if p 0 \<noteq> 0 \<and> p 0 = q 0 then same_prefix (\<lambda>i. p (Suc i)) (\<lambda>i. q (Suc i)) n else p 0 = q 0)"
  (is "?l = ?r")
proof
  assume ?l
  then obtain k where k: "k \<le> Suc n" "\<forall>i<k. p i = q i \<and> p i \<noteq> 0"
    "k = Suc n \<or> (p k = 0 \<and> q k = 0)" by (auto simp: same_prefix_def)
  show ?r
  proof (cases k)
    case 0
    then show ?thesis using k by auto
  next
    case (Suc j)
    then have "same_prefix (\<lambda>i. p (Suc i)) (\<lambda>i. q (Suc i)) n"
      using k by (auto simp: same_prefix_def intro!: exI [of _ j])
    then show ?thesis using k Suc by auto
  qed
next
  assume r: ?r
  show ?l
  proof (cases "p 0 \<noteq> 0 \<and> p 0 = q 0")
    case True
    with r have "same_prefix (\<lambda>i. p (Suc i)) (\<lambda>i. q (Suc i)) n" by (simp split: if_splits)
    then obtain j where "j \<le> n" "\<forall>i<j. p (Suc i) = q (Suc i) \<and> p (Suc i) \<noteq> 0"
      "j = n \<or> (p (Suc j) = 0 \<and> q (Suc j) = 0)" unfolding same_prefix_def by blast
    with True show ?thesis
      by (auto simp: same_prefix_def less_Suc_eq_0_disj intro!: exI [of _ "Suc j"])
  next
    case False
    with r show ?thesis by (auto simp: same_prefix_def intro!: exI [of _ 0])
  qed
qed

lemma strncmp_eq_0: "strncmp p q n = 0 \<longleftrightarrow> same_prefix p q n"
proof (induction n arbitrary: p q)
  case 0
  show ?case by (simp add: same_prefix_def)
next
  case (Suc n)
  then show ?case by (auto simp: same_prefix_Suc uint_eq uint_0_iff)
qed

lemma strncpy_fill_apply:
  "strncpy_fill s k n i = (if k \<le> i \<and> i < k + n then 0 else s i)"
  by (induction n arbitrary: s k) auto

lemma strncpy_loop_apply:
  "strncpy_loop s t k n i =
     (if k \<le> i \<and> i < k + n then (if \<exists>j. k \<le> j \<and> j \<le> i \<and> t j = 0 then 0 else t i) else s i)"
proof (induction n arbitrary: s k i)
  case (Suc n)
  show ?case
  proof (cases "t k = 0")
    case True
    then show ?thesis by (auto simp: strncpy_fill_apply)
  next
    case False
    have "(\<exists>j. k \<le> j \<and> j \<le> i \<and> t j = 0) \<longleftrightarrow> (\<exists>j. Suc k \<le> j \<and> j \<le> i \<and> t j = 0)"
      using False by (metis Suc_leI le_neq_implies_less Suc_leD)
    with False show ?thesis by (cases "i = k") (auto simp: Suc.IH)
  qed
qed auto

lemma strncpy_apply:
  "strncpy s t n i = (if i < nat n then (if \<exists>j\<le>i. t j = 0 then 0 else t i) else s i)"
  by (simp add: strncpy_def strncpy_loop_apply)

lemma safestrcpy_loop_apply:
  "(\<exists>j. k \<le> j \<and> j \<le> k + n \<and> safestrcpy_loop s t k n j = 0
      \<and> (\<forall>i. k \<le> i \<and> i < j \<longrightarrow> safestrcpy_loop s t k n i = t i \<and> t i \<noteq> 0))
   \<and> (\<forall>i. i < k \<or> k + n < i \<longrightarrow> safestrcpy_loop s t k n i = s i)"
proof (induction n arbitrary: s k)
  case 0
  show ?case by (auto intro!: exI [of _ k])
next
  case (Suc n)
  show ?case
  proof (cases "t k = 0")
    case True
    then show ?thesis by (auto intro!: exI [of _ k])
  next
    case False
    from Suc.IH [of "Suc k" "s(k := t k)"] obtain j where j: "Suc k \<le> j" "j \<le> Suc k + n"
      "safestrcpy_loop (s(k := t k)) t (Suc k) n j = 0"
      "\<forall>i. Suc k \<le> i \<and> i < j \<longrightarrow> safestrcpy_loop (s(k := t k)) t (Suc k) n i = t i \<and> t i \<noteq> 0"
      and rest: "\<forall>i. i < Suc k \<or> Suc k + n < i \<longrightarrow>
        safestrcpy_loop (s(k := t k)) t (Suc k) n i = (s(k := t k)) i"
      by blast
    have k: "safestrcpy_loop (s(k := t k)) t (Suc k) n k = t k" using rest by simp
    have "\<forall>i. k \<le> i \<and> i < j \<longrightarrow> safestrcpy_loop (s(k := t k)) t (Suc k) n i = t i \<and> t i \<noteq> 0"
      using j(4) k False by (metis le_neq_implies_less Suc_leI)
    then show ?thesis using False j rest by (auto intro!: exI [of _ j])
  qed
qed

text \<open>
  \<^verbatim>\<open>safestrcpy\<close> always leaves a terminated copy: some byte \<open>j\<close> of the first \<open>n\<close> is the
  terminator, the bytes before it are those of the source, and nothing is written from
  \<open>n\<close> on.
\<close>

theorem safestrcpy_terminates_string:
  assumes "0 < n"
  shows "\<exists>j<nat n. safestrcpy s t n j = 0 \<and> (\<forall>i<j. safestrcpy s t n i = t i \<and> t i \<noteq> 0)
           \<and> (\<forall>i\<ge>nat n. safestrcpy s t n i = s i)"
proof -
  let ?k = "nat (n - 1)"
  have n: "nat n = Suc ?k" using assms by simp
  obtain j where "j \<le> ?k" "safestrcpy s t n j = 0"
    "\<forall>i<j. safestrcpy s t n i = t i \<and> t i \<noteq> 0" "\<forall>i>?k. safestrcpy s t n i = s i"
    using safestrcpy_loop_apply [of 0 ?k s t] assms by (auto simp: safestrcpy_def)
  then show ?thesis unfolding n by (auto intro!: exI [of _ j])
qed

theorem safestrcpy_terminates_string_witness:
  "(0::int) < 3 \<and> (\<exists>j<nat 3. safestrcpy (\<lambda>_. 7) (\<lambda>i. 65) 3 j = 0)"
  using safestrcpy_terminates_string [of 3 "\<lambda>_. 7" "\<lambda>i. 65"] by auto

lemma strlen_from_first:
  assumes "s (n + k) = 0" and "\<forall>i<k. s (n + i) \<noteq> 0"
  shows "strlen_from s n = Some (n + k)"
  using assms
proof (induction k arbitrary: n)
  case 0
  then show ?case by (simp add: strlen_from.simps)
next
  case (Suc k)
  have "strlen_from s (Suc n) = Some (Suc n + k)"
    using Suc.prems by (intro Suc.IH) auto
  moreover have "s n \<noteq> 0" using Suc.prems(2) by force
  ultimately show ?case by (subst strlen_from.simps) simp
qed

lemma strlen_first: "s k = 0 \<Longrightarrow> (\<And>i. i < k \<Longrightarrow> s i \<noteq> 0) \<Longrightarrow> strlen s = Some k"
  using strlen_from_first [of s 0 k] by (simp add: strlen_def)

end
