(* ===== verification/Kalloc.thy ===== *)
theory Kalloc
  imports Mem_String
begin

text \<open>
  The physical page allocator of \<^verbatim>\<open>kalloc.c\<close>. Free pages form a linked list threaded through
  the pages themselves: the first four bytes of a free page hold the address of the next one.
  The linker symbol \<^verbatim>\<open>end\<close> is the parameter \<open>kend\<close>. The bodies run under \<^verbatim>\<open>kmem.lock\<close> (or
  before the other processors start), so each call is one atomic step of the model.
\<close>

section \<open>Memory layout\<close>

definition PGSIZE :: u32 where "PGSIZE = 4096"
definition EXTMEM :: u32 where "EXTMEM = 0x100000"
definition PHYSTOP :: u32 where "PHYSTOP = 0xE000000"
definition DEVSPACE :: u32 where "DEVSPACE = 0xFE000000"
definition KERNBASE :: u32 where "KERNBASE = 0x80000000"
definition KERNLINK :: u32 where "KERNLINK = KERNBASE + EXTMEM"

definition V2P :: "u32 \<Rightarrow> u32" where "V2P a = a - KERNBASE"
definition P2V :: "u32 \<Rightarrow> u32" where "P2V a = a + KERNBASE"

definition PGROUNDUP :: "u32 \<Rightarrow> u32" where
  "PGROUNDUP sz = (sz + PGSIZE - 1) AND NOT (PGSIZE - 1)"

definition PGROUNDDOWN :: "u32 \<Rightarrow> u32" where
  "PGROUNDDOWN a = a AND NOT (PGSIZE - 1)"

section \<open>The allocator\<close>

record kmem =
  km_mem :: memory
  use_lock :: bool
  freelist :: u32

definition kfree :: "u32 \<Rightarrow> u32 \<Rightarrow> kmem \<Rightarrow> kmem res" where
  "kfree kend v s =
     (if v mod PGSIZE \<noteq> 0 \<or> v < kend \<or> V2P v \<ge> PHYSTOP then Panic ''kfree''
      else let m = memset (km_mem s) v 1 PGSIZE
           in Ok (s\<lparr>km_mem := st32 m v (freelist s), freelist := v\<rparr>))"

definition kalloc :: "kmem \<Rightarrow> u32 \<times> kmem" where
  "kalloc s =
     (let r = freelist s
      in (r, if r \<noteq> 0 then s\<lparr>freelist := ld32 (km_mem s) r\<rparr> else s))"

lemma kfree_Ok_bound:
  "kfree kend p s = Ok s' \<Longrightarrow> 2 ^ 31 \<le> unat p \<and> unat p < 2 ^ 31 + 0xE000000"
proof -
  assume "kfree kend p s = Ok s'"
  then have "p - KERNBASE < PHYSTOP"
    by (auto simp: kfree_def V2P_def not_le split: if_splits)
  then have "unat (p - 0x80000000) < 0xE000000"
    by (simp add: KERNBASE_def PHYSTOP_def word_less_nat_alt)
  then show ?thesis by (auto simp: unat_sub_if' split: if_splits)
qed

text \<open>
  The loop of \<^verbatim>\<open>freerange\<close> ends even where \<open>p + PGSIZE\<close> would wrap around: \<^verbatim>\<open>kfree\<close> panics at
  \<^verbatim>\<open>PHYSTOP\<close> first.
\<close>

function freerange_loop :: "u32 \<Rightarrow> u32 \<Rightarrow> u32 \<Rightarrow> kmem \<Rightarrow> kmem res" where
  "freerange_loop kend p vend s =
     (if p + PGSIZE \<le> vend
      then bnd (kfree kend p s) (\<lambda>s. freerange_loop kend (p + PGSIZE) vend s)
      else Ok s)"
  by pat_completeness auto
termination
proof (relation "measure (\<lambda>(kend, p, vend, s). 2 ^ 32 - unat p)", goal_cases)
  case 1
  show ?case by simp
next
  case (2 kend p vend s x)
  then have "unat p < 2 ^ 31 + 0xE000000" using kfree_Ok_bound by blast
  then show ?case by (simp add: PGSIZE_def unat_word_ariths)
qed

declare freerange_loop.simps [simp del]

definition freerange :: "u32 \<Rightarrow> u32 \<Rightarrow> u32 \<Rightarrow> kmem \<Rightarrow> kmem res" where
  "freerange kend vstart vend s = freerange_loop kend (PGROUNDUP vstart) vend s"

definition kinit1 :: "u32 \<Rightarrow> u32 \<Rightarrow> u32 \<Rightarrow> kmem \<Rightarrow> kmem res" where
  "kinit1 kend vstart vend s = freerange kend vstart vend (s\<lparr>use_lock := False\<rparr>)"

definition kinit2 :: "u32 \<Rightarrow> u32 \<Rightarrow> u32 \<Rightarrow> kmem \<Rightarrow> kmem res" where
  "kinit2 kend vstart vend s =
     bnd (freerange kend vstart vend s) (\<lambda>s. Ok (s\<lparr>use_lock := True\<rparr>))"

section \<open>Effects on memory\<close>

lemma page_word_bytes:
  "in_page p p" "in_page p (p + 1)" "in_page p (p + 2)" "in_page p (p + 3)"
  by (simp_all add: in_page_def)

lemma in_page_PGSIZE: "unat (a - p) < unat PGSIZE \<longleftrightarrow> in_page p a"
  by (simp add: in_page_def PGSIZE_def)

lemma st32_frame: "\<not> in_page p a \<Longrightarrow> st32 m p v a = m a"
  using page_word_bytes [of p] by (auto simp: st32_def)

lemma ld32_cong:
  "m a = m' a \<Longrightarrow> m (a + 1) = m' (a + 1) \<Longrightarrow> m (a + 2) = m' (a + 2) \<Longrightarrow> m (a + 3) = m' (a + 3)
     \<Longrightarrow> ld32 m a = ld32 m' a"
  by (simp add: ld32_def)

text \<open>A page the allocator may hand out: aligned, above the kernel image, below \<^verbatim>\<open>PHYSTOP\<close>.\<close>

definition valid_page :: "u32 \<Rightarrow> u32 \<Rightarrow> bool" where
  "valid_page kend v \<longleftrightarrow> page_aligned v \<and> kend \<le> v \<and> V2P v < PHYSTOP"

lemma valid_page_aligned [intro]: "valid_page kend v \<Longrightarrow> page_aligned v"
  by (simp add: valid_page_def)

lemma valid_page_nonzero: "valid_page kend v \<Longrightarrow> v \<noteq> 0"
  by (auto simp: valid_page_def V2P_def KERNBASE_def PHYSTOP_def)

lemma kfree_Panic_iff: "kfree kend v s = Panic e \<longleftrightarrow> e = ''kfree'' \<and> \<not> valid_page kend v"
  by (auto simp: kfree_def valid_page_def PGSIZE_def page_aligned_mod not_le not_less Let_def)

lemma kfree_valid:
  assumes "valid_page kend v"
  obtains s' where "kfree kend v s = Ok s'" "freelist s' = v" "use_lock s' = use_lock s"
    "ld32 (km_mem s') v = freelist s" "\<And>a. \<not> in_page v a \<Longrightarrow> km_mem s' a = km_mem s a"
proof
  let ?m = "memset (km_mem s) v 1 PGSIZE"
  let ?s = "s\<lparr>km_mem := st32 ?m v (freelist s), freelist := v\<rparr>"
  show "kfree kend v s = Ok ?s"
    using assms
    by (auto simp: kfree_def valid_page_def PGSIZE_def page_aligned_mod not_le not_less Let_def)
  show "freelist ?s = v" "use_lock ?s = use_lock s" "ld32 (km_mem ?s) v = freelist s" by simp_all
  show "km_mem ?s a = km_mem s a" if "\<not> in_page v a" for a
    using that by (simp add: st32_frame memset_apply in_page_PGSIZE)
qed

section \<open>The free list\<close>

primrec flist :: "memory \<Rightarrow> u32 \<Rightarrow> u32 list \<Rightarrow> bool" where
  "flist m p [] \<longleftrightarrow> p = 0"
| "flist m p (x # xs) \<longleftrightarrow> p = x \<and> p \<noteq> 0 \<and> flist m (ld32 m p) xs"

definition kmem_inv :: "u32 \<Rightarrow> kmem \<Rightarrow> u32 list \<Rightarrow> bool" where
  "kmem_inv kend s xs \<longleftrightarrow>
     flist (km_mem s) (freelist s) xs \<and> distinct xs \<and> (\<forall>x\<in>set xs. valid_page kend x)"

lemma flist_frame:
  assumes "\<And>x a. x \<in> set xs \<Longrightarrow> in_page x a \<Longrightarrow> m' a = m a"
  shows "flist m' p xs = flist m p xs"
  using assms
proof (induction xs arbitrary: p)
  case (Cons x xs)
  have "ld32 m' x = ld32 m x"
    by (rule ld32_cong) (auto intro!: Cons.prems page_word_bytes)
  moreover have "flist m' q xs = flist m q xs" for q
    by (rule Cons.IH) (auto intro: Cons.prems)
  ultimately show ?case by (cases "p = x") simp_all
qed simp

lemma flist_unique: "flist m p xs \<Longrightarrow> flist m p ys \<Longrightarrow> xs = ys"
proof (induction xs arbitrary: p ys)
  case Nil
  then show ?case by (cases ys) auto
next
  case (Cons x xs)
  then show ?case by (cases ys) auto
qed

lemma kmem_inv_unique: "kmem_inv kend s xs \<Longrightarrow> kmem_inv kend s ys \<Longrightarrow> xs = ys"
  by (auto simp: kmem_inv_def dest: flist_unique)

lemma kalloc_empty: "kmem_inv kend s [] \<Longrightarrow> kalloc s = (0, s)"
  by (simp add: kmem_inv_def kalloc_def)

lemma kalloc_Cons:
  assumes "kmem_inv kend s (x # xs)"
  obtains s' where "kalloc s = (x, s')" "kmem_inv kend s' xs" "km_mem s' = km_mem s"
    "use_lock s' = use_lock s" "x \<noteq> 0" "valid_page kend x" "x \<notin> set xs"
proof
  let ?s = "s\<lparr>freelist := ld32 (km_mem s) x\<rparr>"
  from assms have x: "freelist s = x" "x \<noteq> 0" "flist (km_mem s) (ld32 (km_mem s) x) xs"
    "distinct xs" "x \<notin> set xs" "valid_page kend x" "\<forall>y\<in>set xs. valid_page kend y"
    unfolding kmem_inv_def by auto
  show "kalloc s = (x, ?s)" using x(1,2) by (simp add: kalloc_def Let_def)
  show "kmem_inv kend ?s xs" using x by (simp add: kmem_inv_def)
  show "x \<noteq> 0" "valid_page kend x" "x \<notin> set xs" by (rule x)+
qed simp_all

lemma kalloc_zero_iff:
  assumes "kmem_inv kend s xs"
  shows "fst (kalloc s) = 0 \<longleftrightarrow> xs = []"
proof (cases xs)
  case Nil
  then show ?thesis using assms kalloc_empty by fastforce
next
  case (Cons x ys)
  then show ?thesis using assms by (auto elim: kalloc_Cons)
qed

text \<open>Writes outside the free pages keep the allocator's invariant.\<close>

lemma kmem_inv_frame:
  assumes "kmem_inv kend s xs" and "\<And>x a. x \<in> set xs \<Longrightarrow> in_page x a \<Longrightarrow> m a = km_mem s a"
  shows "kmem_inv kend (s\<lparr>km_mem := m\<rparr>) xs"
proof -
  have "flist m (freelist s) xs = flist (km_mem s) (freelist s) xs"
    by (rule flist_frame) (rule assms(2))
  then show ?thesis using assms(1) by (simp add: kmem_inv_def)
qed

lemma kfree_inv:
  assumes inv: "kmem_inv kend s xs" and v: "valid_page kend v" "v \<notin> set xs"
  obtains s' where "kfree kend v s = Ok s'" "kmem_inv kend s' (v # xs)"
    "use_lock s' = use_lock s" "\<And>a. \<not> in_page v a \<Longrightarrow> km_mem s' a = km_mem s a"
proof -
  obtain s' where s': "kfree kend v s = Ok s'" "freelist s' = v" "use_lock s' = use_lock s"
    "ld32 (km_mem s') v = freelist s" and frame: "\<And>a. \<not> in_page v a \<Longrightarrow> km_mem s' a = km_mem s a"
    using kfree_valid [OF v(1)] by blast
  have "flist (km_mem s') (freelist s) xs = flist (km_mem s) (freelist s) xs"
  proof (rule flist_frame)
    fix x a assume x: "x \<in> set xs" "in_page x a"
    then have "valid_page kend x" using inv by (simp add: kmem_inv_def)
    then have "\<not> in_page v a" using x v in_page_unique by (metis valid_page_aligned)
    then show "km_mem s' a = km_mem s a" by (rule frame)
  qed
  then have "kmem_inv kend s' (v # xs)"
    using inv v s' by (auto simp: kmem_inv_def valid_page_nonzero)
  then show thesis using s' frame that by blast
qed

section \<open>Page rounding and runs of pages\<close>

lemma PGROUNDDOWN_unat: "unat (PGROUNDDOWN a) = unat a div 4096 * 4096"
  by (simp add: PGROUNDDOWN_def PGSIZE_def unat_and_not_mask12)

lemma PGROUNDUP_unat:
  assumes "unat a + 4095 < 2 ^ 32"
  shows "unat (PGROUNDUP a) = (unat a + 4095) div 4096 * 4096"
proof -
  have "unat (4095 + a) = unat a + 4095" using assms by (simp add: unat_word_ariths)
  then show ?thesis by (simp add: PGROUNDUP_def PGSIZE_def unat_and_not_mask12 )
qed

lemma PGROUNDUP_aligned: "page_aligned (PGROUNDUP a)"
  by (simp add: PGROUNDUP_def PGSIZE_def page_aligned_def unat_and_not_mask12)

lemma PGROUNDDOWN_aligned: "page_aligned (PGROUNDDOWN a)"
  by (simp add: PGROUNDDOWN_def PGSIZE_def page_aligned_def unat_and_not_mask12)

lemma PGROUNDDOWN_in_page: "in_page (PGROUNDDOWN a) a"
proof -
  have "PGROUNDDOWN a \<le> a" by (simp add: word_le_nat_alt PGROUNDDOWN_unat)
  then have "unat (a - PGROUNDDOWN a) = unat a - unat (PGROUNDDOWN a)" by (rule unat_sub)
  then show ?thesis by (simp add: in_page_def PGROUNDDOWN_unat minus_div_mult_eq_mod)
qed

definition page_seq :: "u32 \<Rightarrow> nat \<Rightarrow> u32 list" where
  "page_seq p n = map (\<lambda>i. p + of_nat i * PGSIZE) [0..<n]"

lemma page_seq_Suc: "page_seq p (Suc n) = p # page_seq (p + PGSIZE) n"
  by (simp add: page_seq_def upt_conv_Cons map_Suc_upt [symmetric] del: upt_Suc) (simp add: algebra_simps)

lemma freerange_loop_pages:
  assumes "kmem_inv kend s xs" "\<forall>v\<in>set (page_seq p n). valid_page kend v" "distinct (page_seq p n)"
    "set (page_seq p n) \<inter> set xs = {}"
    "unat p + 4096 * n \<le> unat vend" "unat vend < unat p + 4096 * Suc n" "unat p + 4096 < 2 ^ 32"
  shows "\<exists>s'. freerange_loop kend p vend s = Ok s' \<and> kmem_inv kend s' (rev (page_seq p n) @ xs)
    \<and> use_lock s' = use_lock s"
  using assms
proof (induction n arbitrary: p s xs)
  case 0
  then have "unat (p + PGSIZE) = unat p + 4096" by (simp add: PGSIZE_def unat_word_ariths)
  then have "\<not> p + PGSIZE \<le> vend" using 0 by (simp add: word_le_nat_alt)
  then show ?case using 0 by (simp add: freerange_loop.simps [of kend p] page_seq_def)
next
  case (Suc n)
  have p: "unat (p + PGSIZE) = unat p + 4096" using Suc.prems by (simp add: PGSIZE_def unat_word_ariths)
  have le: "p + PGSIZE \<le> vend" using Suc.prems p by (simp add: word_le_nat_alt)
  have v: "valid_page kend p" "p \<notin> set xs" using Suc.prems by (simp_all add: page_seq_Suc)
  obtain s1 where s1: "kfree kend p s = Ok s1" "kmem_inv kend s1 (p # xs)" "use_lock s1 = use_lock s"
    using kfree_inv [OF Suc.prems(1) v] by metis
  have "unat p < 2 ^ 31 + 0xE000000" using kfree_Ok_bound s1 by blast
  then have "\<exists>s'. freerange_loop kend (p + PGSIZE) vend s1 = Ok s' \<and>
     kmem_inv kend s' (rev (page_seq (p + PGSIZE) n) @ p # xs) \<and> use_lock s' = use_lock s1"
    using Suc.prems s1 p by (intro Suc.IH) (auto simp: page_seq_Suc)
  then show ?case using s1 le by (auto simp: freerange_loop.simps [of kend p] page_seq_Suc)
qed

lemma page_seq_nth_unat:
  assumes "i < n" "unat p + 4096 * n \<le> 2 ^ 32"
  shows "unat (p + of_nat i * PGSIZE) = unat p + 4096 * i"
proof -
  have i: "unat p + 4096 * i < 2 ^ 32" using assms by linarith
  have "unat (of_nat i * PGSIZE) = 4096 * i"
    using i by (simp add: PGSIZE_def unat_word_ariths unat_of_nat)
  then show ?thesis using i by (simp add: unat_word_ariths)
qed

lemma page_seq_distinct:
  assumes "unat p + 4096 * n \<le> 2 ^ 32"
  shows "distinct (page_seq p n)"
proof -
  have "inj_on (\<lambda>i. p + of_nat i * PGSIZE) {0..<n}"
  proof (rule inj_onI)
    fix i j assume ij: "i \<in> {0..<n}" "j \<in> {0..<n}" and e: "p + of_nat i * PGSIZE = p + of_nat j * PGSIZE"
    have "unat (p + of_nat i * PGSIZE) = unat (p + of_nat j * PGSIZE)" using e by (rule arg_cong)
    moreover have "i < n" "j < n" using ij by simp_all
    ultimately show "i = j" using assms by (simp only: page_seq_nth_unat)
  qed
  then show ?thesis by (simp add: page_seq_def distinct_map)
qed

lemma page_seq_valid:
  assumes "page_aligned p" "kend \<le> p" "KERNBASE \<le> p" "unat p + 4096 * n \<le> 2 ^ 31 + 0xE000000"
    "v \<in> set (page_seq p n)"
  shows "valid_page kend v"
proof -
  from assms(5) obtain i where i: "i < n" and v: "v = p + of_nat i * PGSIZE"
    by (auto simp: page_seq_def)
  have u: "unat v = unat p + 4096 * i"
    unfolding v using page_seq_nth_unat [OF i, of p] assms by simp
  have k: "KERNBASE \<le> v" using assms(3) u by (simp add: word_le_nat_alt)
  have "unat (v - KERNBASE) = unat v - 2 ^ 31"
    using k by (simp add: unat_sub KERNBASE_def)
  moreover have "unat v < 2 ^ 31 + 0xE000000" using u i assms(4) by linarith
  moreover have "2 ^ 31 \<le> unat v" using k by (simp add: word_le_nat_alt KERNBASE_def)
  ultimately have "V2P v < PHYSTOP" by (simp add: V2P_def PHYSTOP_def word_less_nat_alt)
  moreover have "page_aligned v" using assms(1) u by (auto simp: page_aligned_def)
  moreover have "kend \<le> v" using assms(2) u by (simp add: word_le_nat_alt)
  ultimately show ?thesis by (simp add: valid_page_def)
qed

section \<open>The allocator as an abstract set of free pages\<close>

text \<open>
  The contract the rest of the kernel relies on: \<open>alloc\<close> hands out a page that was free and is
  free no longer, or 0 exactly when none is left; \<open>release\<close> takes back a page that is not free.
\<close>

locale page_pool =
  fixes alloc :: "'s \<Rightarrow> u32 \<times> 's"
    and release :: "u32 \<Rightarrow> 's \<Rightarrow> 's res"
    and avail :: "'s \<Rightarrow> u32 list \<Rightarrow> bool"
    and usable :: "u32 \<Rightarrow> bool"
  assumes alloc_none: "avail s [] \<Longrightarrow> alloc s = (0, s)"
    and alloc_some: "avail s (x # xs) \<Longrightarrow> \<exists>s'. alloc s = (x, s') \<and> avail s' xs"
    and avail_usable: "avail s xs \<Longrightarrow> x \<in> set xs \<Longrightarrow> usable x"
    and avail_distinct: "avail s xs \<Longrightarrow> distinct xs"
    and usable_nonzero: "usable x \<Longrightarrow> x \<noteq> 0"
    and release_ok: "avail s xs \<Longrightarrow> usable x \<Longrightarrow> x \<notin> set xs \<Longrightarrow>
      \<exists>s'. release x s = Ok s' \<and> avail s' (x # xs)"
begin

primrec alloc_many :: "nat \<Rightarrow> 's \<Rightarrow> u32 list \<times> 's" where
  "alloc_many 0 s = ([], s)"
| "alloc_many (Suc n) s =
     (let (x, s) = alloc s; (xs, s) = alloc_many n s in (x # xs, s))"

primrec release_many :: "u32 list \<Rightarrow> 's \<Rightarrow> 's res" where
  "release_many [] s = Ok s"
| "release_many (x # xs) s = bnd (release x s) (release_many xs)"

lemma alloc_many_avail:
  "avail s (xs @ ys) \<Longrightarrow> \<exists>s'. alloc_many (length xs) s = (xs, s') \<and> avail s' ys"
proof (induction xs arbitrary: s)
  case (Cons x xs)
  then obtain s1 where s1: "alloc s = (x, s1)" "avail s1 (xs @ ys)"
    using alloc_some [of s x "xs @ ys"] by auto
  with Cons.IH obtain s2 where "alloc_many (length xs) s1 = (xs, s2)" "avail s2 ys" by blast
  with s1 show ?case by auto
qed auto

lemma release_many_avail:
  "avail s ys \<Longrightarrow> distinct xs \<Longrightarrow> set xs \<inter> set ys = {} \<Longrightarrow> \<forall>x\<in>set xs. usable x \<Longrightarrow>
     \<exists>s'. release_many xs s = Ok s' \<and> avail s' (rev xs @ ys)"
proof (induction xs arbitrary: s ys)
  case (Cons x xs)
  then obtain s1 where s1: "release x s = Ok s1" "avail s1 (x # ys)"
    using release_ok [of s ys x] by auto
  have "set xs \<inter> set (x # ys) = {}" using Cons.prems by auto
  then obtain s2 where "release_many xs s1 = Ok s2" "avail s2 (rev xs @ x # ys)"
    using Cons.IH [OF s1(2)] Cons.prems by auto
  with s1 show ?case by auto
qed auto

text \<open>
  Any number of pages taken together are distinct, usable and no longer available, and giving
  them all back restores the pool.
\<close>

lemma alloc_release_many:
  assumes "avail s (xs @ ys)"
  shows "\<exists>s1 s2. alloc_many (length xs) s = (xs, s1) \<and> avail s1 ys \<and> distinct xs
           \<and> set xs \<inter> set ys = {} \<and> release_many xs s1 = Ok s2 \<and> avail s2 (rev xs @ ys)"
proof -
  obtain s1 where s1: "alloc_many (length xs) s = (xs, s1)" "avail s1 ys"
    using alloc_many_avail [OF assms] by blast
  have d: "distinct xs" "set xs \<inter> set ys = {}" "\<forall>x\<in>set xs. usable x"
    using avail_distinct [OF assms] avail_usable [OF assms] by auto
  with release_many_avail [OF s1(2)] s1 show ?thesis by blast
qed

end

interpretation kpool: page_pool kalloc "kfree kend" "kmem_inv kend" "valid_page kend" for kend
proof unfold_locales
  fix s xs x
  show "kmem_inv kend s [] \<Longrightarrow> kalloc s = (0, s)" by (rule kalloc_empty)
  show "kmem_inv kend s (x # xs) \<Longrightarrow> \<exists>s'. kalloc s = (x, s') \<and> kmem_inv kend s' xs"
    by (metis kalloc_Cons)
  show "kmem_inv kend s xs \<Longrightarrow> x \<in> set xs \<Longrightarrow> valid_page kend x" by (simp add: kmem_inv_def)
  show "kmem_inv kend s xs \<Longrightarrow> distinct xs" by (simp add: kmem_inv_def)
  show "valid_page kend x \<Longrightarrow> x \<noteq> 0" by (rule valid_page_nonzero)
  show "kmem_inv kend s xs \<Longrightarrow> valid_page kend x \<Longrightarrow> x \<notin> set xs \<Longrightarrow>
      \<exists>s'. kfree kend x s = Ok s' \<and> kmem_inv kend s' (x # xs)"
    by (metis kfree_inv)
qed

section \<open>Properties\<close>

text \<open>
  C3. The page allocator keeps its free list well formed (a duplicate-free chain of valid pages
  threaded through the pages) and serves it as a stack: \<^verbatim>\<open>kalloc\<close> pops the head page without
  touching memory and returns 0 exactly when the list is empty, \<^verbatim>\<open>kfree\<close> pushes a page and
  writes to no other page, and \<^verbatim>\<open>kfree\<close> panics on an address that is no valid page.
\<close>

theorem kalloc_kfree_correct:
  assumes "kmem_inv kend s xs"
  shows "(case xs of
            [] \<Rightarrow> kalloc s = (0, s)
          | x # ys \<Rightarrow> \<exists>s'. kalloc s = (x, s') \<and> x \<noteq> 0 \<and> kmem_inv kend s' ys \<and> km_mem s' = km_mem s)
    \<and> (valid_page kend v \<and> v \<notin> set xs \<longrightarrow>
         (\<exists>s'. kfree kend v s = Ok s' \<and> kmem_inv kend s' (v # xs)
            \<and> (\<forall>a. \<not> in_page v a \<longrightarrow> km_mem s' a = km_mem s a)))
    \<and> (\<not> valid_page kend v \<longrightarrow> kfree kend v s = Panic ''kfree'')"
proof (intro conjI impI)
  show "case xs of
            [] \<Rightarrow> kalloc s = (0, s)
          | x # ys \<Rightarrow> \<exists>s'. kalloc s = (x, s') \<and> x \<noteq> 0 \<and> kmem_inv kend s' ys \<and> km_mem s' = km_mem s"
  proof (cases xs)
    case Nil
    then show ?thesis using assms by (simp add: kalloc_empty)
  next
    case (Cons x ys)
    with assms have "kmem_inv kend s (x # ys)" by simp
    then obtain s' where "kalloc s = (x, s')" "kmem_inv kend s' ys" "km_mem s' = km_mem s" "x \<noteq> 0"
      by (rule kalloc_Cons)
    with Cons show ?thesis by simp
  qed
  show "valid_page kend v \<and> v \<notin> set xs \<Longrightarrow>
      \<exists>s'. kfree kend v s = Ok s' \<and> kmem_inv kend s' (v # xs)
         \<and> (\<forall>a. \<not> in_page v a \<longrightarrow> km_mem s' a = km_mem s a)"
    using assms by (metis kfree_inv)
  show "\<not> valid_page kend v \<Longrightarrow> kfree kend v s = Panic ''kfree''"
    by (simp add: kfree_Panic_iff)
qed

definition kmem0 :: kmem where
  "kmem0 = \<lparr>km_mem = (\<lambda>_. 0), use_lock = False, freelist = 0\<rparr>"

lemma kmem0_inv [simp]: "kmem_inv kend kmem0 []"
  by (simp add: kmem_inv_def kmem0_def)

theorem kalloc_kfree_correct_witness:
  "kmem_inv 0x80100000 kmem0 [] \<and> valid_page 0x80100000 0x80200000
   \<and> (\<exists>s'. kfree 0x80100000 0x80200000 kmem0 = Ok s' \<and> kmem_inv 0x80100000 s' [0x80200000])"
proof -
  have v: "valid_page 0x80100000 0x80200000"
    by (simp add: valid_page_def page_aligned_def V2P_def KERNBASE_def PHYSTOP_def)
  show ?thesis
    using kalloc_kfree_correct [OF kmem0_inv, of "0x80100000" "0x80200000"] v by auto
qed

text \<open>
  \<^verbatim>\<open>freerange\<close> frees exactly the whole pages between its bounds: from the round-up of
  \<open>vstart\<close>, every page that fits below \<open>vend\<close> is pushed on the free list, none panics and no
  page is freed twice.
\<close>

theorem freerange_frees_pages:
  assumes inv: "kmem_inv kend s xs"
    and range: "KERNBASE \<le> kend" "kend \<le> vstart" "vstart \<le> vend" "vend \<le> P2V PHYSTOP"
    and pages: "pages = page_seq (PGROUNDUP vstart) ((unat vend - unat (PGROUNDUP vstart)) div 4096)"
    and fresh: "set pages \<inter> set xs = {}"
  shows "\<exists>s'. freerange kend vstart vend s = Ok s' \<and> kmem_inv kend s' (rev pages @ xs)
           \<and> use_lock s' = use_lock s"
proof -
  let ?p = "PGROUNDUP vstart" and ?n = "(unat vend - unat (PGROUNDUP vstart)) div 4096"
  have top: "unat vend \<le> 2 ^ 31 + 0xE000000"
    using range(4) by (simp add: P2V_def PHYSTOP_def KERNBASE_def word_le_nat_alt)
  have vs: "unat vstart \<le> unat vend" using range(3) by (simp add: word_le_nat_alt)
  have up: "unat ?p = (unat vstart + 4095) div 4096 * 4096" using top vs by (intro PGROUNDUP_unat) simp
  then have ge: "unat vstart \<le> unat ?p" "unat ?p < unat vstart + 4096"
    using round_4096 [of "unat vstart + 4095"] by linarith+
  have "vstart \<le> ?p" using ge by (simp add: word_le_nat_alt)
  then have kp: "kend \<le> ?p" "KERNBASE \<le> ?p" using range by auto
  show ?thesis
  proof (cases "unat ?p \<le> unat vend")
    case True
    then have n: "unat ?p + 4096 * ?n \<le> unat vend" "unat vend < unat ?p + 4096 * Suc ?n"
      using round_4096 [of "unat vend - unat ?p"] by simp_all
    have nb: "unat ?p + 4096 * ?n \<le> 2 ^ 31 + 0xE000000" using n top by linarith
    have "\<forall>v\<in>set pages. valid_page kend v"
      using page_seq_valid [OF PGROUNDUP_aligned kp nb] pages by blast
    moreover have "distinct pages" using page_seq_distinct [of ?p ?n] n top pages by auto
    ultimately show ?thesis
      unfolding freerange_def pages
      using inv fresh pages n ge top vs by (intro freerange_loop_pages) auto
  next
    case False
    have "unat (?p + PGSIZE) = unat ?p + 4096"
      using ge top vs by (simp add: PGSIZE_def unat_word_ariths)
    then have "\<not> ?p + PGSIZE \<le> vend" using False by (simp add: word_le_nat_alt)
    then show ?thesis using inv False pages
      by (simp add: freerange_def freerange_loop.simps [of kend ?p] page_seq_def)
  qed
qed

theorem freerange_frees_pages_witness:
  "\<exists>s'. freerange 0x80100000 0x80100800 0x80103000 kmem0 = Ok s'
      \<and> kmem_inv 0x80100000 s' [0x80102000, 0x80101000] \<and> use_lock s' = use_lock kmem0"
proof -
  have p: "PGROUNDUP 0x80100800 = 0x80101000" by (simp add: PGROUNDUP_def PGSIZE_def)
  have "page_seq 0x80101000 2 = [0x80101000, 0x80102000]"
    by (simp add: page_seq_def PGSIZE_def upt_rec)
  then show ?thesis
    using freerange_frees_pages [where kend = "0x80100000" and vstart = "0x80100800"
        and vend = "0x80103000" and s = kmem0 and xs = "[]" and pages = "[0x80101000, 0x80102000]"]
    by (simp add: p KERNBASE_def P2V_def PHYSTOP_def)
qed

end
