(* ===== verification/Vm.thy ===== *)
theory Vm
  imports Kalloc
begin

unbundle bit_operations_syntax

text \<open>
  Page tables, from \<^verbatim>\<open>vm.c\<close> and the macros of \<^verbatim>\<open>mmu.h\<close>. Page directories and page tables are
  pages of the modelled memory, read and written one 32-bit entry at a time, so every function
  works on the state of the page allocator. The linker symbols \<^verbatim>\<open>end\<close> and \<^verbatim>\<open>data\<close> are the
  parameters \<open>kend\<close> and \<open>kdata\<close>. A C pointer result of 0 is the word 0.
\<close>

section \<open>Page table entries\<close>

definition PDX :: "u32 \<Rightarrow> u32" where "PDX va = drop_bit 22 va AND 0x3FF"
definition PTX :: "u32 \<Rightarrow> u32" where "PTX va = drop_bit 12 va AND 0x3FF"

definition PGADDR :: "u32 \<Rightarrow> u32 \<Rightarrow> u32 \<Rightarrow> u32" where
  "PGADDR d t off = push_bit 22 d OR push_bit 12 t OR off"

definition PTE_P :: u32 where "PTE_P = 1"
definition PTE_W :: u32 where "PTE_W = 2"
definition PTE_U :: u32 where "PTE_U = 4"

definition PTE_ADDR :: "u32 \<Rightarrow> u32" where "PTE_ADDR pte = pte AND NOT 0xFFF"
definition PTE_FLAGS :: "u32 \<Rightarrow> u32" where "PTE_FLAGS pte = pte AND 0xFFF"

definition NPDENTRIES :: nat where "NPDENTRIES = 1024"

text \<open>Entry \<open>i\<close> of the array of 32-bit entries at \<open>p\<close>.\<close>

definition slot :: "u32 \<Rightarrow> u32 \<Rightarrow> u32" where "slot p i = p + 4 * i"

section \<open>Walking and mapping\<close>

definition walkpgdir :: "u32 \<Rightarrow> u32 \<Rightarrow> bool \<Rightarrow> kmem \<Rightarrow> u32 \<times> kmem" where
  "walkpgdir pgdir va alloc s =
     (let pde = slot pgdir (PDX va); e = ld32 (km_mem s) pde
      in if e AND PTE_P \<noteq> 0 then (slot (P2V (PTE_ADDR e)) (PTX va), s)
         else if \<not> alloc then (0, s)
         else let (pgtab, s) = kalloc s
              in if pgtab = 0 then (0, s)
                 else let m = memset (km_mem s) pgtab 0 PGSIZE;
                          m = st32 m pde (V2P pgtab OR PTE_P OR PTE_W OR PTE_U)
                      in (slot pgtab (PTX va), s\<lparr>km_mem := m\<rparr>))"

definition getFlags :: "u32 \<Rightarrow> u32 \<Rightarrow> kmem \<Rightarrow> u32" where
  "getFlags pgdir va s = PTE_FLAGS (fst (walkpgdir pgdir va False s))"

text \<open>
  \<^verbatim>\<open>mappages\<close>: the loop leaves when \<open>a\<close> reaches \<open>last\<close>; both are page aligned, so it runs
  \<open>(last - a) / PGSIZE\<close> more times, which is the counter \<open>n\<close>.
\<close>

fun mappages_loop :: "u32 \<Rightarrow> u32 \<Rightarrow> nat \<Rightarrow> u32 \<Rightarrow> u32 \<Rightarrow> kmem \<Rightarrow> (int \<times> kmem) res" where
  "mappages_loop pgdir a n pa perm s =
     (let (pte, s) = walkpgdir pgdir a True s
      in if pte = 0 then Ok (-1, s)
         else if ld32 (km_mem s) pte AND PTE_P \<noteq> 0 then Panic ''remap''
         else let s = s\<lparr>km_mem := st32 (km_mem s) pte (pa OR perm OR PTE_P)\<rparr>
              in case n of 0 \<Rightarrow> Ok (0, s)
                 | Suc n' \<Rightarrow> mappages_loop pgdir (a + PGSIZE) n' (pa + PGSIZE) perm s)"

declare mappages_loop.simps [simp del]

definition mappages :: "u32 \<Rightarrow> u32 \<Rightarrow> u32 \<Rightarrow> u32 \<Rightarrow> u32 \<Rightarrow> kmem \<Rightarrow> (int \<times> kmem) res" where
  "mappages pgdir va sz pa perm s =
     (let a = PGROUNDDOWN va; last = PGROUNDDOWN (va + sz - 1)
      in mappages_loop pgdir a (unat (last - a) div 4096) pa perm s)"

section \<open>Removing mappings\<close>

text \<open>
  \<^verbatim>\<open>deallocuvm\<close>: an absent page table skips to the next directory entry. The step is taken only
  upwards; where the address wraps around the top of the address space the loop of the source
  starts over from the bottom, which is \<open>Hang\<close>.
\<close>

function deallocuvm_loop :: "u32 \<Rightarrow> u32 \<Rightarrow> u32 \<Rightarrow> u32 \<Rightarrow> kmem \<Rightarrow> kmem res" where
  "deallocuvm_loop kend pgdir a oldsz s =
     (if a < oldsz
      then let pte = fst (walkpgdir pgdir a False s); e = ld32 (km_mem s) pte
           in if pte = 0
              then let a' = PGADDR (PDX a + 1) 0 0 - PGSIZE + PGSIZE
                   in if a < a' then deallocuvm_loop kend pgdir a' oldsz s else Hang
              else if e AND PTE_P \<noteq> 0
              then if PTE_ADDR e = 0 then Panic ''kfree''
                   else bnd (kfree kend (P2V (PTE_ADDR e)) s)
                     (\<lambda>s. let s = s\<lparr>km_mem := st32 (km_mem s) pte 0\<rparr>
                      in if a < a + PGSIZE then deallocuvm_loop kend pgdir (a + PGSIZE) oldsz s
                         else Hang)
              else if a < a + PGSIZE then deallocuvm_loop kend pgdir (a + PGSIZE) oldsz s
                   else Hang
      else Ok s)"
  by pat_completeness auto
termination
  by (relation "measure (\<lambda>(kend, pgdir, a, oldsz, s). unat oldsz - unat a)")
    (auto simp: word_less_nat_alt)

declare deallocuvm_loop.simps [simp del]

definition deallocuvm :: "u32 \<Rightarrow> u32 \<Rightarrow> u32 \<Rightarrow> u32 \<Rightarrow> kmem \<Rightarrow> (u32 \<times> kmem) res" where
  "deallocuvm kend pgdir oldsz newsz s =
     (if newsz \<ge> oldsz then Ok (oldsz, s)
      else bnd (deallocuvm_loop kend pgdir (PGROUNDUP newsz) oldsz s) (\<lambda>s. Ok (newsz, s)))"

fun freevm_loop :: "u32 \<Rightarrow> u32 \<Rightarrow> u32 list \<Rightarrow> kmem \<Rightarrow> kmem res" where
  "freevm_loop kend pgdir [] s = Ok s"
| "freevm_loop kend pgdir (i # is) s =
     (let e = ld32 (km_mem s) (slot pgdir i)
      in if e AND PTE_P \<noteq> 0
         then bnd (kfree kend (P2V (PTE_ADDR e)) s) (freevm_loop kend pgdir is)
         else freevm_loop kend pgdir is s)"

definition freevm :: "u32 \<Rightarrow> u32 \<Rightarrow> bool \<Rightarrow> kmem \<Rightarrow> kmem res" where
  "freevm kend pgdir dodeallocuvm s =
     (if pgdir = 0 then Panic ''freevm: no pgdir''
      else bnd (if dodeallocuvm
                then bnd (deallocuvm kend pgdir KERNBASE 0 s) (\<lambda>(_, s). Ok s) else Ok s)
        (\<lambda>s. bnd (freevm_loop kend pgdir (map of_nat [0..<NPDENTRIES]) s)
           (\<lambda>s. kfree kend pgdir s)))"

section \<open>The kernel's mappings\<close>

record kmap_entry =
  kvirt :: u32
  phys_start :: u32
  phys_end :: u32
  kperm :: u32

definition kmap :: "u32 \<Rightarrow> kmap_entry list" where
  "kmap kdata =
     [\<lparr>kvirt = KERNBASE, phys_start = 0, phys_end = EXTMEM, kperm = PTE_W\<rparr>,
      \<lparr>kvirt = KERNLINK, phys_start = V2P KERNLINK, phys_end = V2P kdata, kperm = 0\<rparr>,
      \<lparr>kvirt = kdata, phys_start = V2P kdata, phys_end = PHYSTOP, kperm = PTE_W\<rparr>,
      \<lparr>kvirt = DEVSPACE, phys_start = DEVSPACE, phys_end = 0, kperm = PTE_W\<rparr>]"

fun setupkvm_loop :: "u32 \<Rightarrow> u32 \<Rightarrow> kmap_entry list \<Rightarrow> kmem \<Rightarrow> (u32 \<times> kmem) res" where
  "setupkvm_loop kend pgdir [] s = Ok (pgdir, s)"
| "setupkvm_loop kend pgdir (k # ks) s =
     bnd (mappages pgdir (kvirt k) (phys_end k - phys_start k) (phys_start k) (kperm k) s)
       (\<lambda>(r, s). if r < 0 then bnd (freevm kend pgdir False s) (\<lambda>s. Ok (0, s))
                 else setupkvm_loop kend pgdir ks s)"

definition setupkvm :: "u32 \<Rightarrow> u32 \<Rightarrow> kmem \<Rightarrow> (u32 \<times> kmem) res" where
  "setupkvm kend kdata s =
     (let (pgdir, s) = kalloc s
      in if pgdir = 0 then Ok (0, s)
         else let s = s\<lparr>km_mem := memset (km_mem s) pgdir 0 PGSIZE\<rparr>
              in if P2V PHYSTOP > DEVSPACE then Panic ''PHYSTOP too high''
                 else setupkvm_loop kend pgdir (kmap kdata) s)"

section \<open>User memory\<close>

text \<open>
  \<open>store_bytes\<close> is the \<^verbatim>\<open>memmove\<close> of a block that does not overlap its destination (the initial
  program image, an argument block): its bytes are given as a list.
\<close>

primrec store_bytes :: "memory \<Rightarrow> u32 \<Rightarrow> u8 list \<Rightarrow> memory" where
  "store_bytes m a [] = m"
| "store_bytes m a (b # bs) = store_bytes (m(a := b)) (a + 1) bs"

definition inituvm :: "u32 \<Rightarrow> u8 list \<Rightarrow> kmem \<Rightarrow> kmem res" where
  "inituvm pgdir init s =
     (if length init \<ge> 4096 then Panic ''inituvm: more than a page''
      else let (mem, s) = kalloc s
           in if mem = 0 then Panic ''trap''
              else let s = s\<lparr>km_mem := memset (km_mem s) mem 0 PGSIZE\<rparr>
           in bnd (mappages pgdir 0 PGSIZE (V2P mem) (PTE_W OR PTE_U) s)
                (\<lambda>(_, s). Ok (s\<lparr>km_mem := store_bytes (km_mem s) mem init\<rparr>)))"

text \<open>
  \<^verbatim>\<open>allocuvm\<close>: \<open>n\<close> counts the pages left between \<open>a\<close> and \<open>newsz\<close>. The result is the new size, 0
  when memory runs out, in which case the pages of this call are given back.
\<close>

fun allocuvm_loop :: "u32 \<Rightarrow> u32 \<Rightarrow> nat \<Rightarrow> u32 \<Rightarrow> u32 \<Rightarrow> u32 \<Rightarrow> kmem \<Rightarrow> (u32 \<times> kmem) res" where
  "allocuvm_loop kend pgdir 0 a oldsz newsz s = Ok (newsz, s)"
| "allocuvm_loop kend pgdir (Suc n) a oldsz newsz s =
     (let (mem, s) = kalloc s
      in if mem = 0
         then bnd (deallocuvm kend pgdir newsz oldsz s) (\<lambda>(_, s). Ok (0, s))
         else let s = s\<lparr>km_mem := memset (km_mem s) mem 0 PGSIZE\<rparr>
              in bnd (mappages pgdir a PGSIZE (V2P mem) (PTE_W OR PTE_U) s)
                (\<lambda>(r, s). if r < 0
                   then bnd (deallocuvm kend pgdir newsz oldsz s)
                     (\<lambda>(_, s). bnd (kfree kend mem s) (\<lambda>s. Ok (0, s)))
                   else allocuvm_loop kend pgdir n (a + PGSIZE) oldsz newsz s))"

definition pages_between :: "u32 \<Rightarrow> u32 \<Rightarrow> nat" where
  "pages_between a newsz = (unat newsz + 4095 - unat a) div 4096"

definition allocuvm :: "u32 \<Rightarrow> u32 \<Rightarrow> u32 \<Rightarrow> u32 \<Rightarrow> kmem \<Rightarrow> (u32 \<times> kmem) res" where
  "allocuvm kend pgdir oldsz newsz s =
     (if newsz \<ge> KERNBASE then Ok (0, s)
      else if newsz < oldsz then Ok (oldsz, s)
      else let a = PGROUNDUP oldsz
           in allocuvm_loop kend pgdir (pages_between a newsz) a oldsz newsz s)"

definition clearpteu :: "u32 \<Rightarrow> u32 \<Rightarrow> kmem \<Rightarrow> kmem res" where
  "clearpteu pgdir uva s =
     (let pte = fst (walkpgdir pgdir uva False s)
      in if pte = 0 then Panic ''clearpteu''
         else Ok (s\<lparr>km_mem := st32 (km_mem s) pte (ld32 (km_mem s) pte AND NOT PTE_U)\<rparr>))"

text \<open>
  \<^verbatim>\<open>copyuvm\<close> copies the pages below \<open>sz\<close> that are present; pages promised by \<^verbatim>\<open>sbrk\<close> and not
  yet touched are skipped.
\<close>

function copyuvm_loop :: "u32 \<Rightarrow> u32 \<Rightarrow> u32 \<Rightarrow> u32 \<Rightarrow> u32 \<Rightarrow> kmem \<Rightarrow> (u32 \<times> kmem) res" where
  "copyuvm_loop kend pgdir d i sz s =
     (if i < sz
      then let pte = fst (walkpgdir pgdir i False s); e = ld32 (km_mem s) pte
           in if pte \<noteq> 0 \<and> e AND PTE_P \<noteq> 0
              then let (mem, s) = kalloc s
                   in if mem = 0 then bnd (freevm kend d True s) (\<lambda>s. Ok (0, s))
                      else let s = s\<lparr>km_mem := memmove (km_mem s) mem (P2V (PTE_ADDR e)) PGSIZE\<rparr>
                           in bnd (mappages d i PGSIZE (V2P mem) (PTE_FLAGS e) s)
                             (\<lambda>(r, s). if r < 0
                                then bnd (kfree kend mem s)
                                  (\<lambda>s. bnd (freevm kend d True s) (\<lambda>s. Ok (0, s)))
                                else if i < i + PGSIZE
                                then copyuvm_loop kend pgdir d (i + PGSIZE) sz s else Hang)
              else if i < i + PGSIZE then copyuvm_loop kend pgdir d (i + PGSIZE) sz s else Hang
      else Ok (d, s))"
  by pat_completeness auto
termination
  by (relation "measure (\<lambda>(kend, pgdir, d, i, sz, s). unat sz - unat i)")
    (auto simp: word_less_nat_alt)

declare copyuvm_loop.simps [simp del]

definition copyuvm :: "u32 \<Rightarrow> u32 \<Rightarrow> u32 \<Rightarrow> u32 \<Rightarrow> kmem \<Rightarrow> (u32 \<times> kmem) res" where
  "copyuvm kend kdata pgdir sz s =
     bnd (setupkvm kend kdata s)
       (\<lambda>(d, s). if d = 0 then Ok (0, s) else copyuvm_loop kend pgdir d 0 sz s)"

text \<open>
  \<^verbatim>\<open>uva2ka\<close> does not check the result of \<^verbatim>\<open>walkpgdir\<close>: with no page table it reads the entry
  through the null pointer. \<open>nullw\<close> is the word at virtual address 0 of the address space that is
  loaded, \<open>None\<close> where that page is not mapped and the access traps.
\<close>

definition uva2ka :: "u32 option \<Rightarrow> u32 \<Rightarrow> u32 \<Rightarrow> kmem \<Rightarrow> u32 res" where
  "uva2ka nullw pgdir uva s =
     (let pte = fst (walkpgdir pgdir uva False s)
      in case (if pte = 0 then nullw else Some (ld32 (km_mem s) pte)) of
           None \<Rightarrow> Panic ''trap''
         | Some e \<Rightarrow>
             if e AND PTE_P = 0 then Ok 0
             else if e AND PTE_U = 0 then Ok 0
             else Ok (P2V (PTE_ADDR e)))"

text \<open>\<^verbatim>\<open>copyout\<close>: the bytes of the kernel buffer \<open>p\<close> are the list \<open>buf\<close>, \<^verbatim>\<open>len\<close> its length.\<close>

function copyout :: "u32 option \<Rightarrow> u32 \<Rightarrow> u32 \<Rightarrow> u8 list \<Rightarrow> kmem \<Rightarrow> (int \<times> kmem) res" where
  "copyout nullw pgdir va buf s =
     (if length buf > 0
      then let va0 = PGROUNDDOWN va
           in bnd (uva2ka nullw pgdir va0 s)
             (\<lambda>pa0. if pa0 = 0 then Ok (-1, s)
                else let n = min (unat (PGSIZE - (va - va0))) (length buf)
                     in if n = 0 then Hang
                        else copyout nullw pgdir (va0 + PGSIZE) (drop n buf)
                          (s\<lparr>km_mem := store_bytes (km_mem s) (pa0 + (va - va0)) (take n buf)\<rparr>))
      else Ok (0, s))"
  by pat_completeness auto
termination
  by (relation "measure (\<lambda>(nullw, pgdir, va, buf, s). length buf)") auto

declare copyout.simps [simp del]

section \<open>Entries and slots\<close>

lemma page_aligned_take_bit: "page_aligned a \<longleftrightarrow> take_bit 12 a = 0"
proof -
  have "unat (take_bit 12 a) = unat a mod 4096"
    by (simp add: take_bit_eq_mod unat_mod)
  then show ?thesis by (simp add: page_aligned_def unat_eq_0 flip: unat_eq_zero)
qed

lemma mask12: "(4095 :: u32) = mask 12" by (simp add: mask_eq_exp_minus_1)
lemma mask10: "(1023 :: u32) = mask 10" by (simp add: mask_eq_exp_minus_1)

lemma small_take_bit: "f < 4096 \<Longrightarrow> take_bit 12 f = (f :: u32)"
proof -
  assume "f < 4096"
  then have "unat f < 4096" by (simp add: word_less_nat_alt)
  then have "unat (take_bit 12 f) = unat f" by (simp add: take_bit_eq_mod unat_mod)
  then show ?thesis by (simp only: word_unat_eq_iff)
qed

lemma PTE_ADDR_or: "page_aligned a \<Longrightarrow> f < 4096 \<Longrightarrow> PTE_ADDR (a OR f) = a"
proof -
  assume "page_aligned a" "f < 4096"
  then have a: "take_bit 12 a = 0" and f: "take_bit 12 f = f"
    by (simp_all add: page_aligned_take_bit small_take_bit)
  show ?thesis unfolding PTE_ADDR_def mask12
  proof (rule bit_word_eqI)
    fix n assume n: "n < LENGTH(32)"
    have "bit (take_bit 12 a) n = bit (0::u32) n" "bit (take_bit 12 f) n = bit f n"
      using a f by simp_all
    then show "bit ((a OR f) AND NOT (mask 12)) n = bit a n" using n by (auto simp: bit_simps)
  qed
qed

lemma PTE_FLAGS_or: "page_aligned a \<Longrightarrow> f < 4096 \<Longrightarrow> PTE_FLAGS (a OR f) = f"
proof -
  assume "page_aligned a" "f < 4096"
  then have a: "take_bit 12 a = 0" and f: "take_bit 12 f = f"
    by (simp_all add: page_aligned_take_bit small_take_bit)
  show ?thesis unfolding PTE_FLAGS_def mask12
    by (simp add: take_bit_eq_mask [symmetric] take_bit_or a f)
qed

lemma PTE_ADDR_aligned: "page_aligned (PTE_ADDR e)"
  unfolding page_aligned_take_bit PTE_ADDR_def mask12 by (rule bit_word_eqI) (auto simp: bit_simps)

lemma PTE_FLAGS_less: "PTE_FLAGS e < 4096"
proof -
  have "unat (PTE_FLAGS e) = unat e mod 4096"
    unfolding PTE_FLAGS_def mask12
    by (simp add: take_bit_eq_mask [symmetric] take_bit_eq_mod unat_mod)
  then show ?thesis by (simp add: word_less_nat_alt)
qed

lemma PTE_split: "PTE_ADDR e OR PTE_FLAGS e = e"
  unfolding PTE_ADDR_def PTE_FLAGS_def by (rule bit_word_eqI) (auto simp: bit_simps)

lemma P2V_V2P [simp]: "P2V (V2P a) = a" and V2P_P2V [simp]: "V2P (P2V a) = a"
  by (simp_all add: P2V_def V2P_def)

lemma page_aligned_KERNBASE: "page_aligned KERNBASE" by (simp add: page_aligned_def KERNBASE_def)

lemma V2P_aligned: "page_aligned a \<Longrightarrow> page_aligned (V2P a)"
  unfolding V2P_def by (rule page_aligned_diff [OF _ page_aligned_KERNBASE])

lemma P2V_aligned: "page_aligned a \<Longrightarrow> page_aligned (P2V a)"
  unfolding P2V_def by (rule page_aligned_add [OF _ page_aligned_KERNBASE])

lemma PDX_less: "PDX va < 1024" and PTX_less: "PTX va < 1024"
  unfolding PDX_def PTX_def mask10
  by (simp_all add: take_bit_eq_mask [symmetric] word_less_nat_alt take_bit_eq_mod unat_mod)

lemma unat_PTX: "unat (PTX va) = unat va div 4096 mod 1024"
  and unat_PDX: "unat (PDX va) = unat va div 4194304 mod 1024"
  unfolding PDX_def PTX_def mask10
  by (simp_all add: take_bit_eq_mask [symmetric] take_bit_eq_mod unat_mod
      drop_bit_eq_div unat_div)

lemma same_page_iff: "PDX a = PDX b \<and> PTX a = PTX b \<longleftrightarrow> PGROUNDDOWN a = PGROUNDDOWN b"
proof -
  have lt: "unat a < 2 ^ 32" "unat b < 2 ^ 32" using unsigned_less [of a] unsigned_less [of b] by simp_all
  have split: "unat x div 4096 = unat (PDX x) * 1024 + unat (PTX x)" if "unat x < 2 ^ 32" for x :: u32
  proof -
    have "unat x div 4194304 = unat x div 4096 div 1024" by (simp add: div_mult2_eq [symmetric])
    moreover have "unat x div 4194304 < 1024" using that by (simp add: less_mult_imp_div_less)
    ultimately show ?thesis by (simp add: unat_PTX unat_PDX)
  qed
  have "PGROUNDDOWN a = PGROUNDDOWN b \<longleftrightarrow> unat a div 4096 = unat b div 4096"
    by (simp add: word_unat_eq_iff PGROUNDDOWN_unat)
  also have "\<dots> \<longleftrightarrow> PDX a = PDX b \<and> PTX a = PTX b"
  proof
    assume e: "unat a div 4096 = unat b div 4096"
    then have "unat (PTX a) = unat (PTX b)" by (simp add: unat_PTX)
    then show "PDX a = PDX b \<and> PTX a = PTX b"
      using split [OF lt(1)] split [OF lt(2)] e by (simp add: word_unat_eq_iff)
  qed (simp add: split [OF lt(1)] split [OF lt(2)])
  finally show ?thesis by simp
qed

lemma slot_distance:
  assumes "i < 1024" "j < 4"
  shows "unat (slot p i + j - p) = 4 * unat i + unat j"
proof -
  have b: "unat i < 1024" "unat j < 4" using assms by (simp_all add: word_less_nat_alt)
  then have "unat (4 * i) = 4 * unat i" by (simp add: unat_word_ariths)
  then have "unat (4 * i + j) = 4 * unat i + unat j" using b by (simp add: unat_word_ariths)
  then show ?thesis by (simp add: slot_def)
qed

lemma slot_in_page:
  assumes "i < 1024" "j < 4"
  shows "in_page p (slot p i + j)"
proof -
  have "unat i < 1024" "unat j < 4" using assms by (simp_all add: word_less_nat_alt)
  then show ?thesis by (simp add: in_page_def slot_distance [OF assms])
qed

lemma slot_bytes:
  assumes "i < 1024"
  shows "in_page p (slot p i)" "in_page p (slot p i + 1)" "in_page p (slot p i + 2)"
    "in_page p (slot p i + 3)"
  using slot_in_page [OF assms, of 0] slot_in_page [OF assms, of 1] slot_in_page [OF assms, of 2]
    slot_in_page [OF assms, of 3] by simp_all

lemma slot_neq:
  assumes "i < 1024" "k < 1024" "i \<noteq> k" "j < 4" "l < 4"
  shows "slot p i + j \<noteq> slot p k + l"
proof
  assume "slot p i + j = slot p k + l"
  then have "4 * unat i + unat j = 4 * unat k + unat l"
    using slot_distance [OF assms(1,4), of p] slot_distance [OF assms(2,5), of p] by simp
  moreover have "unat j < 4" "unat l < 4" using assms by (simp_all add: word_less_nat_alt)
  ultimately have "unat i = unat k" by presburger
  then show False using assms(3) by (simp add: word_unat_eq_iff)
qed

lemma st32_slot_frame: "i < 1024 \<Longrightarrow> \<not> in_page p a \<Longrightarrow> st32 m (slot p i) v a = m a"
  using slot_bytes [of i p] by (auto simp: st32_def)

lemma ld32_slot_frame:
  assumes "i < 1024" "\<And>a. in_page p a \<Longrightarrow> m' a = m a"
  shows "ld32 m' (slot p i) = ld32 m (slot p i)"
  by (rule ld32_cong) (auto intro!: assms(2) slot_bytes assms(1))

lemma ld32_st32_slot:
  assumes "i < 1024" "k < 1024" "i \<noteq> k"
  shows "ld32 (st32 m (slot p i) v) (slot p k) = ld32 m (slot p k)"
proof (rule ld32_cong)
  have ne: "slot p k + l \<noteq> slot p i + j" if "j < 4" "l < 4" for j l
    using slot_neq [of k i l j p] assms that by simp
  have e: "st32 m (slot p i) v (slot p k + l) = m (slot p k + l)" if "l < 4" for l
    using ne [of 0 l] ne [of 1 l] ne [of 2 l] ne [of 3 l] that by (simp add: st32_def)
  show "st32 m (slot p i) v (slot p k) = m (slot p k)" using e [of 0] by simp
  show "st32 m (slot p i) v (slot p k + 1) = m (slot p k + 1)" by (rule e) simp
  show "st32 m (slot p i) v (slot p k + 2) = m (slot p k + 2)" by (rule e) simp
  show "st32 m (slot p i) v (slot p k + 3) = m (slot p k + 3)" by (rule e) simp
qed

lemma slot_nonzero:
  assumes "valid_page kend p" "i < 1024"
  shows "slot p i \<noteq> 0"
proof
  assume z: "slot p i = 0"
  have "in_page p (slot p i)" using slot_bytes assms(2) by blast
  moreover have "in_page 0 (0 :: u32)" "page_aligned 0" by (simp_all add: in_page_def page_aligned_def)
  ultimately have "p = 0" using z in_page_unique assms(1) by (metis valid_page_aligned)
  then show False using valid_page_nonzero assms(1) by blast
qed

section \<open>Page tables as partial maps\<close>

text \<open>
  The entry that translates \<open>va\<close> (0 where no page table covers it), the pages the tables
  themselves occupy, and the well-formedness of a page directory: every present directory entry
  points to a page table of its own.
\<close>

definition ptab :: "memory \<Rightarrow> u32 \<Rightarrow> u32 \<Rightarrow> u32" where
  "ptab m pgdir i = P2V (PTE_ADDR (ld32 m (slot pgdir i)))"

definition pde_present :: "memory \<Rightarrow> u32 \<Rightarrow> u32 \<Rightarrow> bool" where
  "pde_present m pgdir i \<longleftrightarrow> ld32 m (slot pgdir i) AND PTE_P \<noteq> 0"

definition lookup_pte :: "memory \<Rightarrow> u32 \<Rightarrow> u32 \<Rightarrow> u32" where
  "lookup_pte m pgdir va =
     (if pde_present m pgdir (PDX va) then ld32 m (slot (ptab m pgdir (PDX va)) (PTX va)) else 0)"

definition pt_pages :: "memory \<Rightarrow> u32 \<Rightarrow> u32 set" where
  "pt_pages m pgdir = insert pgdir (ptab m pgdir ` {i. i < 1024 \<and> pde_present m pgdir i})"

definition pt_wf :: "u32 \<Rightarrow> memory \<Rightarrow> u32 \<Rightarrow> bool" where
  "pt_wf kend m pgdir \<longleftrightarrow> valid_page kend pgdir \<and>
     (\<forall>i<1024. pde_present m pgdir i \<longrightarrow> valid_page kend (ptab m pgdir i) \<and> ptab m pgdir i \<noteq> pgdir) \<and>
     (\<forall>i<1024. \<forall>j<1024. pde_present m pgdir i \<longrightarrow> pde_present m pgdir j \<longrightarrow>
        ptab m pgdir i = ptab m pgdir j \<longrightarrow> i = j)"

lemma pt_wf_dir: "pt_wf kend m pgdir \<Longrightarrow> valid_page kend pgdir"
  by (simp add: pt_wf_def)

lemma pt_wf_tab:
  "pt_wf kend m pgdir \<Longrightarrow> i < 1024 \<Longrightarrow> pde_present m pgdir i \<Longrightarrow>
     valid_page kend (ptab m pgdir i) \<and> ptab m pgdir i \<noteq> pgdir"
  by (simp add: pt_wf_def)

lemma pt_wf_inj:
  "pt_wf kend m pgdir \<Longrightarrow> i < 1024 \<Longrightarrow> j < 1024 \<Longrightarrow> pde_present m pgdir i \<Longrightarrow>
     pde_present m pgdir j \<Longrightarrow> ptab m pgdir i = ptab m pgdir j \<Longrightarrow> i = j"
  by (simp add: pt_wf_def)

lemma pt_pages_valid: "pt_wf kend m pgdir \<Longrightarrow> p \<in> pt_pages m pgdir \<Longrightarrow> valid_page kend p"
  by (auto simp: pt_pages_def dest: pt_wf_dir pt_wf_tab)

lemma ptab_in_pages: "i < 1024 \<Longrightarrow> pde_present m pgdir i \<Longrightarrow> ptab m pgdir i \<in> pt_pages m pgdir"
  by (simp add: pt_pages_def)

text \<open>Whatever leaves the directory page alone leaves its entries alone.\<close>

lemma pde_cong:
  assumes "\<And>a. in_page pgdir a \<Longrightarrow> m' a = m a" "i < 1024"
  shows "pde_present m' pgdir i = pde_present m pgdir i" "ptab m' pgdir i = ptab m pgdir i"
  using ld32_slot_frame [OF assms(2), of pgdir m' m] assms(1)
  by (simp_all add: pde_present_def ptab_def)

lemma pt_frame_dir:
  assumes "\<And>a. in_page pgdir a \<Longrightarrow> m' a = m a"
  shows "pt_wf kend m' pgdir = pt_wf kend m pgdir" "pt_pages m' pgdir = pt_pages m pgdir"
proof -
  note c = pde_cong [of pgdir m' m, OF assms]
  show "pt_wf kend m' pgdir = pt_wf kend m pgdir" by (simp add: pt_wf_def c)
  have "{i. i < 1024 \<and> pde_present m' pgdir i} = {i. i < 1024 \<and> pde_present m pgdir i}"
    by (auto simp: c)
  then show "pt_pages m' pgdir = pt_pages m pgdir" by (auto simp: pt_pages_def c)
qed

lemma lookup_pte_frame:
  assumes "\<And>p a. p \<in> pt_pages m pgdir \<Longrightarrow> in_page p a \<Longrightarrow> m' a = m a"
  shows "lookup_pte m' pgdir va = lookup_pte m pgdir va"
proof -
  have d: "m' a = m a" if "in_page pgdir a" for a
    using assms [of pgdir] that by (simp add: pt_pages_def)
  note c = pde_cong [of pgdir m' m, OF d PDX_less]
  show ?thesis
  proof (cases "pde_present m pgdir (PDX va)")
    case True
    have "ld32 m' (slot (ptab m pgdir (PDX va)) (PTX va)) = ld32 m (slot (ptab m pgdir (PDX va)) (PTX va))"
      by (rule ld32_slot_frame [OF PTX_less], rule assms, rule ptab_in_pages [OF PDX_less True])
    then show ?thesis using True by (simp add: lookup_pte_def c)
  qed (simp add: lookup_pte_def c)
qed

text \<open>Storing the entry of \<open>va\<close> changes the translation of its page and of no other.\<close>

lemma set_pte:
  fixes v :: u32
  assumes wf: "pt_wf kend m pgdir" and pr: "pde_present m pgdir (PDX va)"
  defines "m' \<equiv> st32 m (slot (ptab m pgdir (PDX va)) (PTX va)) v"
  shows "pt_wf kend m' pgdir" "pt_pages m' pgdir = pt_pages m pgdir"
    "lookup_pte m' pgdir va' = (if PGROUNDDOWN va' = PGROUNDDOWN va then v else lookup_pte m pgdir va')"
    "\<not> in_page (ptab m pgdir (PDX va)) a \<Longrightarrow> m' a = m a"
proof -
  let ?t = "ptab m pgdir (PDX va)"
  have t: "valid_page kend ?t" "?t \<noteq> pgdir" using pt_wf_tab [OF wf PDX_less pr] by simp_all
  have fr: "m' a = m a" if "\<not> in_page ?t a" for a
    unfolding m'_def using that by (rule st32_slot_frame [OF PTX_less])
  have d: "m' a = m a" if "in_page pgdir a" for a
    using that t in_page_unique pt_wf_dir [OF wf] by (intro fr) (metis valid_page_aligned)
  show "\<not> in_page ?t a \<Longrightarrow> m' a = m a" by (rule fr)
  show "pt_wf kend m' pgdir" using pt_frame_dir(1) [of pgdir m' m, OF d] wf by simp
  show "pt_pages m' pgdir = pt_pages m pgdir" by (rule pt_frame_dir(2) [of pgdir m' m, OF d])
  note c = pde_cong [of pgdir m' m, OF d PDX_less]
  consider (dir) "PDX va' \<noteq> PDX va" | (tab) "PDX va' = PDX va" "PTX va' \<noteq> PTX va"
    | (same) "PDX va' = PDX va" "PTX va' = PTX va" by blast
  then show "lookup_pte m' pgdir va' =
      (if PGROUNDDOWN va' = PGROUNDDOWN va then v else lookup_pte m pgdir va')"
  proof cases
    case dir
    have "ld32 m' (slot (ptab m pgdir (PDX va')) (PTX va')) = ld32 m (slot (ptab m pgdir (PDX va')) (PTX va'))"
      if p: "pde_present m pgdir (PDX va')"
    proof (rule ld32_slot_frame [OF PTX_less])
      fix a assume a: "in_page (ptab m pgdir (PDX va')) a"
      have "ptab m pgdir (PDX va') \<noteq> ?t"
        using pt_wf_inj [OF wf PDX_less PDX_less p pr] dir by blast
      then have "\<not> in_page ?t a"
        using a t(1) pt_wf_tab [OF wf PDX_less p] in_page_unique by (metis valid_page_aligned)
      then show "m' a = m a" by (rule fr)
    qed
    then show ?thesis using dir by (auto simp: lookup_pte_def c simp flip: same_page_iff)
  next
    case tab
    have "ld32 m' (slot ?t (PTX va')) = ld32 m (slot ?t (PTX va'))"
      unfolding m'_def using tab by (intro ld32_st32_slot PTX_less) simp
    then show ?thesis using tab by (simp add: lookup_pte_def c flip: same_page_iff)
  next
    case same
    have "ld32 m' (slot ?t (PTX va')) = v" unfolding m'_def same by simp
    then show ?thesis using same pr by (simp add: lookup_pte_def c flip: same_page_iff)
  qed
qed

section \<open>Page tables and the allocator\<close>

definition vm_inv :: "u32 \<Rightarrow> kmem \<Rightarrow> u32 \<Rightarrow> u32 list \<Rightarrow> bool" where
  "vm_inv kend s pgdir xs \<longleftrightarrow> kmem_inv kend s xs \<and> pt_wf kend (km_mem s) pgdir \<and>
     pt_pages (km_mem s) pgdir \<inter> set xs = {}"

lemma walkpgdir_present:
  "pde_present (km_mem s) pgdir (PDX va) \<Longrightarrow>
     walkpgdir pgdir va alloc s = (slot (ptab (km_mem s) pgdir (PDX va)) (PTX va), s)"
  by (simp add: walkpgdir_def pde_present_def ptab_def Let_def)

lemma walkpgdir_absent:
  "\<not> pde_present (km_mem s) pgdir (PDX va) \<Longrightarrow> walkpgdir pgdir va False s = (0, s)"
  by (simp add: walkpgdir_def pde_present_def Let_def)

lemma walkpgdir_no_memory:
  "\<not> pde_present (km_mem s) pgdir (PDX va) \<Longrightarrow> kmem_inv kend s [] \<Longrightarrow>
     walkpgdir pgdir va True s = (0, s)"
  by (simp add: walkpgdir_def pde_present_def Let_def kalloc_empty)

lemma pde_value:
  assumes "page_aligned x"
  shows "PTE_ADDR (V2P x OR PTE_P OR PTE_W OR PTE_U) = V2P x"
    "(V2P x OR PTE_P OR PTE_W OR PTE_U) AND PTE_P \<noteq> 0"
proof -
  have e: "V2P x OR PTE_P OR PTE_W OR PTE_U = V2P x OR 7"
    by (simp add: PTE_P_def PTE_W_def PTE_U_def or.assoc)
  show "PTE_ADDR (V2P x OR PTE_P OR PTE_W OR PTE_U) = V2P x"
    unfolding e by (rule PTE_ADDR_or [OF V2P_aligned [OF assms]]) simp
  have b: "bit ((V2P x OR 7) AND 1) 0" by (simp add: bit_simps)
  have "(V2P x OR 7) AND 1 \<noteq> 0"
  proof
    assume "(V2P x OR 7) AND 1 = 0"
    then show False using b by simp
  qed
  then show "(V2P x OR PTE_P OR PTE_W OR PTE_U) AND PTE_P \<noteq> 0"
    by (simp only: e) (simp add: PTE_P_def)
qed

lemma zero_page_slot:
  assumes "i < 1024" "\<And>a. in_page p a \<Longrightarrow> m a = 0"
  shows "ld32 m (slot p i) = 0"
  using slot_bytes [OF assms(1), of p] by (simp add: ld32_def assms(2) join4_def)

text \<open>
  A new, zeroed page table: the page leaves the free list and joins the tables, and no address
  changes its translation.
\<close>

definition add_table :: "memory \<Rightarrow> u32 \<Rightarrow> u32 \<Rightarrow> u32 \<Rightarrow> memory" where
  "add_table m pgdir i x =
     st32 (memset m x 0 PGSIZE) (slot pgdir i) (V2P x OR PTE_P OR PTE_W OR PTE_U)"

lemma add_table_entries:
  assumes wf: "pt_wf kend m pgdir" and i: "i < 1024"
    and x: "valid_page kend x" "x \<notin> pt_pages m pgdir"
  defines "m' \<equiv> add_table m pgdir i x"
  shows "in_page x a \<Longrightarrow> m' a = 0"
    "\<not> in_page x a \<Longrightarrow> \<not> in_page pgdir a \<Longrightarrow> m' a = m a"
    "pde_present m' pgdir i" "ptab m' pgdir i = x"
    "j < 1024 \<Longrightarrow> j \<noteq> i \<Longrightarrow> pde_present m' pgdir j = pde_present m pgdir j"
    "j < 1024 \<Longrightarrow> j \<noteq> i \<Longrightarrow> ptab m' pgdir j = ptab m pgdir j"
proof -
  have ne: "x \<noteq> pgdir" using x by (auto simp: pt_pages_def)
  have al: "page_aligned x" "page_aligned pgdir" using x pt_wf_dir [OF wf] by auto
  have disj: "\<not> in_page pgdir a" if "in_page x a" for a using al ne that in_page_unique by blast
  show "m' a = 0" if "in_page x a"
    using that disj [OF that] st32_slot_frame [OF i, of pgdir a]
    by (simp add: m'_def add_table_def memset_apply in_page_PGSIZE)
  show "m' a = m a" if "\<not> in_page x a" "\<not> in_page pgdir a"
    using that st32_slot_frame [OF i, of pgdir a]
    by (simp add: m'_def add_table_def memset_apply in_page_PGSIZE)
  show "pde_present m' pgdir i" "ptab m' pgdir i = x"
    using pde_value [OF al(1)] by (simp_all add: pde_present_def ptab_def m'_def add_table_def)
  have "ld32 m' (slot pgdir j) = ld32 m (slot pgdir j)" if "j < 1024" "j \<noteq> i"
  proof -
    have "ld32 m' (slot pgdir j) = ld32 (memset m x 0 PGSIZE) (slot pgdir j)"
      unfolding m'_def add_table_def using that i by (intro ld32_st32_slot) auto
    also have "\<dots> = ld32 m (slot pgdir j)"
      by (rule ld32_slot_frame [OF that(1)])
        (use disj in \<open>auto simp: memset_apply in_page_PGSIZE\<close>)
    finally show ?thesis .
  qed
  then show "j < 1024 \<Longrightarrow> j \<noteq> i \<Longrightarrow> pde_present m' pgdir j = pde_present m pgdir j"
    "j < 1024 \<Longrightarrow> j \<noteq> i \<Longrightarrow> ptab m' pgdir j = ptab m pgdir j"
    by (simp_all add: pde_present_def ptab_def)
qed

lemma add_table_wf:
  assumes wf: "pt_wf kend m pgdir" and i: "i < 1024" "\<not> pde_present m pgdir i"
    and x: "valid_page kend x" "x \<notin> pt_pages m pgdir"
  shows "pt_wf kend (add_table m pgdir i x) pgdir"
    "pt_pages (add_table m pgdir i x) pgdir = insert x (pt_pages m pgdir)"
proof -
  let ?m = "add_table m pgdir i x"
  note e = add_table_entries [OF wf i(1) x]
  have ne: "x \<noteq> pgdir" using x by (auto simp: pt_pages_def)
  have fresh: "ptab m pgdir j \<noteq> x" if "j < 1024" "pde_present m pgdir j" for j
    using x(2) ptab_in_pages [OF that] by auto
  have cas: "j = i \<and> ptab ?m pgdir j = x \<or>
      j \<noteq> i \<and> pde_present m pgdir j \<and> ptab ?m pgdir j = ptab m pgdir j"
    if "j < 1024" "pde_present ?m pgdir j" for j
    using e(3-6) that by (cases "j = i") auto
  show "pt_wf kend ?m pgdir"
    unfolding pt_wf_def
  proof (intro conjI allI impI)
    show "valid_page kend pgdir" by (rule pt_wf_dir [OF wf])
    show "valid_page kend (ptab ?m pgdir j)" "ptab ?m pgdir j \<noteq> pgdir"
      if "j < 1024" "pde_present ?m pgdir j" for j
      using cas [OF that] x(1) ne pt_wf_tab [OF wf that(1)] by auto
    show "j = k" if "j < 1024" "k < 1024" "pde_present ?m pgdir j" "pde_present ?m pgdir k"
      "ptab ?m pgdir j = ptab ?m pgdir k" for j k
      using cas [OF that(1,3)] cas [OF that(2,4)] that fresh pt_wf_inj [OF wf that(1,2)] by metis
  qed
  have "{j. j < 1024 \<and> pde_present ?m pgdir j} = insert i {j. j < 1024 \<and> pde_present m pgdir j}"
    using e(3,5) i by auto
  moreover have "ptab ?m pgdir ` {j. j < 1024 \<and> pde_present m pgdir j} =
      ptab m pgdir ` {j. j < 1024 \<and> pde_present m pgdir j}"
    by (rule image_cong) (use e(6) i in auto)
  ultimately show "pt_pages ?m pgdir = insert x (pt_pages m pgdir)"
    using e(4) by (auto simp: pt_pages_def)
qed

lemma add_table_lookup:
  assumes wf: "pt_wf kend m pgdir" and i: "i < 1024" "\<not> pde_present m pgdir i"
    and x: "valid_page kend x" "x \<notin> pt_pages m pgdir"
  shows "lookup_pte (add_table m pgdir i x) pgdir va = lookup_pte m pgdir va"
proof (cases "PDX va = i")
  case True
  then show ?thesis
    using add_table_entries [OF wf i(1) x] i zero_page_slot [OF PTX_less, of x]
    by (simp add: lookup_pte_def)
next
  case False
  let ?m = "add_table m pgdir i x"
  have "ld32 ?m (slot (ptab m pgdir (PDX va)) (PTX va)) = ld32 m (slot (ptab m pgdir (PDX va)) (PTX va))"
    if p: "pde_present m pgdir (PDX va)"
  proof (rule ld32_slot_frame [OF PTX_less], rule add_table_entries(2) [OF wf i(1) x])
    note t = pt_wf_tab [OF wf PDX_less p] pt_wf_dir [OF wf]
    fix a assume a: "in_page (ptab m pgdir (PDX va)) a"
    have "ptab m pgdir (PDX va) \<noteq> x" using x(2) ptab_in_pages [OF PDX_less p] by auto
    then show "\<not> in_page x a" using a t x(1) in_page_unique by (metis valid_page_aligned)
    show "\<not> in_page pgdir a" using a t in_page_unique by (metis valid_page_aligned)
  qed
  then show ?thesis
    using False add_table_entries(5,6) [OF wf i(1) x PDX_less False] by (simp add: lookup_pte_def)
qed

text \<open>
  \<open>vm_ext\<close>: a state reached by adding page tables taken from the head of the free list, and by
  writing nothing but page tables.
\<close>

definition vm_ext :: "u32 \<Rightarrow> u32 \<Rightarrow> kmem \<Rightarrow> u32 list \<Rightarrow> kmem \<Rightarrow> u32 list \<Rightarrow> bool" where
  "vm_ext kend pgdir s xs s' ys \<longleftrightarrow> vm_inv kend s' pgdir ys \<and> use_lock s' = use_lock s \<and>
     (\<exists>zs. xs = zs @ ys \<and>
       pt_pages (km_mem s') pgdir = pt_pages (km_mem s) pgdir \<union> set zs) \<and>
     (\<forall>a. (\<forall>p\<in>pt_pages (km_mem s') pgdir. \<not> in_page p a) \<longrightarrow> km_mem s' a = km_mem s a)"

lemma vm_ext_refl: "vm_inv kend s pgdir xs \<Longrightarrow> vm_ext kend pgdir s xs s xs"
  by (simp add: vm_ext_def)

lemma vm_ext_trans:
  "vm_ext kend pgdir s xs s' ys \<Longrightarrow> vm_ext kend pgdir s' ys s'' zs \<Longrightarrow> vm_ext kend pgdir s xs s'' zs"
  by (auto simp: vm_ext_def)

lemma vm_ext_inv: "vm_ext kend pgdir s xs s' ys \<Longrightarrow> vm_inv kend s' pgdir ys"
  by (simp add: vm_ext_def)

lemma vm_ext_subset:
  "vm_ext kend pgdir s xs s' ys \<Longrightarrow> set ys \<subseteq> set xs \<and>
     pt_pages (km_mem s') pgdir \<subseteq> pt_pages (km_mem s) pgdir \<union> set xs"
  by (auto simp: vm_ext_def)

lemma walkpgdir_alloc:
  assumes inv: "vm_inv kend s pgdir (x # xs)" and abs: "\<not> pde_present (km_mem s) pgdir (PDX va)"
  obtains s' where "walkpgdir pgdir va True s = (slot x (PTX va), s')"
    "km_mem s' = add_table (km_mem s) pgdir (PDX va) x" "vm_ext kend pgdir s (x # xs) s' xs"
proof -
  let ?m = "add_table (km_mem s) pgdir (PDX va) x"
  have k: "kmem_inv kend s (x # xs)" and wf: "pt_wf kend (km_mem s) pgdir"
    and dis: "pt_pages (km_mem s) pgdir \<inter> set (x # xs) = {}"
    using inv by (auto simp: vm_inv_def)
  obtain s1 where s1: "kalloc s = (x, s1)" "kmem_inv kend s1 xs" "km_mem s1 = km_mem s"
    "use_lock s1 = use_lock s" "x \<noteq> 0" "valid_page kend x" "x \<notin> set xs"
    using kalloc_Cons [OF k] by metis
  let ?s = "s1\<lparr>km_mem := ?m\<rparr>"
  have x: "x \<notin> pt_pages (km_mem s) pgdir" using dis by simp
  note e = add_table_entries [OF wf PDX_less s1(6) x]
  note w = add_table_wf [OF wf PDX_less abs s1(6) x]
  have walk: "walkpgdir pgdir va True s = (slot x (PTX va), ?s)"
    using abs s1 by (simp add: walkpgdir_def pde_present_def Let_def add_table_def)
  have "kmem_inv kend ?s xs"
  proof (rule kmem_inv_frame [OF s1(2)])
    fix y a assume y: "y \<in> set xs" "in_page y a"
    have v: "valid_page kend y" "y \<noteq> x" "y \<noteq> pgdir"
      using y s1(2,7) dis by (auto simp: kmem_inv_def pt_pages_def)
    then show "?m a = km_mem s1 a"
      unfolding s1(3) using y s1(6) pt_wf_dir [OF wf] in_page_unique
      by (intro e(2)) (metis valid_page_aligned)+
  qed
  then have "vm_inv kend ?s pgdir xs" using w dis s1(7) by (auto simp: vm_inv_def)
  moreover have "?m a = km_mem s a" if "\<forall>p\<in>pt_pages ?m pgdir. \<not> in_page p a" for a
    using that by (intro e(2)) (auto simp: w(2), simp add: pt_pages_def)
  ultimately have "vm_ext kend pgdir s (x # xs) ?s xs"
    using s1(4) by (auto simp: vm_ext_def w(2) intro!: exI [of _ "[x]"])
  then show thesis using walk that by simp
qed

text \<open>
  \<^verbatim>\<open>walkpgdir\<close> with allocation: it fails only when memory is exhausted, otherwise it returns the
  slot of the entry of \<open>va\<close>, and every translation stays as it was.
\<close>

lemma walkpgdir_cases [consumes 1, case_names full entry]:
  assumes inv: "vm_inv kend s pgdir xs"
  obtains (full) "walkpgdir pgdir va True s = (0, s)" "xs = []" "lookup_pte (km_mem s) pgdir va = 0"
  | (entry) s' ys where
    "walkpgdir pgdir va True s = (slot (ptab (km_mem s') pgdir (PDX va)) (PTX va), s')"
    "pde_present (km_mem s') pgdir (PDX va)" "vm_ext kend pgdir s xs s' ys"
    "lookup_pte (km_mem s') pgdir = lookup_pte (km_mem s) pgdir" "length xs \<le> Suc (length ys)"
proof (cases "pde_present (km_mem s) pgdir (PDX va)")
  case True
  show thesis
    by (rule entry [of s xs]) (use True inv in \<open>simp_all add: walkpgdir_present vm_ext_refl\<close>)
next
  case False
  have k: "kmem_inv kend s xs" and wf: "pt_wf kend (km_mem s) pgdir"
    and dis: "pt_pages (km_mem s) pgdir \<inter> set xs = {}"
    using inv by (auto simp: vm_inv_def)
  show thesis
  proof (cases xs)
    case Nil
    show thesis by (rule full) (use Nil False k in \<open>simp_all add: walkpgdir_no_memory lookup_pte_def\<close>)
  next
    case (Cons x ys)
    have x: "valid_page kend x" "x \<notin> pt_pages (km_mem s) pgdir"
      using Cons dis k by (auto simp: kmem_inv_def)
    obtain s' where s': "walkpgdir pgdir va True s = (slot x (PTX va), s')"
      "km_mem s' = add_table (km_mem s) pgdir (PDX va) x" "vm_ext kend pgdir s (x # ys) s' ys"
      using walkpgdir_alloc [OF inv [unfolded Cons] False] .
    show thesis
      by (rule entry [of s' ys])
        (use s' Cons add_table_entries(3,4) [OF wf PDX_less x] add_table_lookup [OF wf PDX_less False x]
          in auto)
  qed
qed

section \<open>Mapping a range\<close>

lemma page_step:
  assumes "page_aligned p" "page_aligned a" "p \<noteq> a"
  shows "unat (p - (a + PGSIZE)) = unat (p - a) - 4096"
proof -
  have "PGSIZE \<le> p - a" using page_distance [OF assms] by (simp add: PGSIZE_def word_le_nat_alt)
  then have "unat (p - a - PGSIZE) = unat (p - a) - unat PGSIZE" by (rule unat_sub)
  moreover have "p - (a + PGSIZE) = p - a - PGSIZE" by (simp only: diff_diff_eq)
  ultimately have "unat (p - (a + PGSIZE)) = unat (p - a) - unat PGSIZE" by (simp only:)
  then show ?thesis by (simp add: PGSIZE_def)
qed

lemma aligned_PGSIZE: "page_aligned a \<Longrightarrow> page_aligned (a + PGSIZE)"
  by (rule page_aligned_add) (simp_all add: page_aligned_def PGSIZE_def)

lemma PGROUNDDOWN_idem [simp]: "page_aligned a \<Longrightarrow> PGROUNDDOWN a = a"
  using PGROUNDDOWN_in_page [of a] PGROUNDDOWN_aligned [of a] in_page_unique [of a "PGROUNDDOWN a" a]
  by (auto simp: in_page_def)

lemma set_entry_ext:
  fixes v :: u32
  assumes inv: "vm_inv kend s pgdir xs" and pr: "pde_present (km_mem s) pgdir (PDX va)"
  defines "s' \<equiv> s\<lparr>km_mem := st32 (km_mem s) (slot (ptab (km_mem s) pgdir (PDX va)) (PTX va)) v\<rparr>"
  shows "vm_ext kend pgdir s xs s' xs"
proof -
  have k: "kmem_inv kend s xs" and wf: "pt_wf kend (km_mem s) pgdir"
    and dis: "pt_pages (km_mem s) pgdir \<inter> set xs = {}"
    using inv by (auto simp: vm_inv_def)
  let ?t = "ptab (km_mem s) pgdir (PDX va)"
  note e = set_pte [OF wf pr, where v = v]
  have t: "?t \<in> pt_pages (km_mem s) pgdir" by (rule ptab_in_pages [OF PDX_less pr])
  have "kmem_inv kend s' xs"
    unfolding s'_def
  proof (rule kmem_inv_frame [OF k], rule e(4))
    fix x a assume x: "x \<in> set xs" "in_page x a"
    have "valid_page kend x" using x k by (simp add: kmem_inv_def)
    moreover have "valid_page kend ?t" by (rule pt_pages_valid [OF wf t])
    moreover have "x \<noteq> ?t" using x t dis by auto
    ultimately show "\<not> in_page ?t a" using x in_page_unique by (metis valid_page_aligned)
  qed
  then show ?thesis
    using e(1,2,4) dis t by (auto simp: vm_ext_def vm_inv_def s'_def)
qed

text \<open>
  One turn of the loop of \<^verbatim>\<open>mappages\<close> on an unmapped page: out of memory, or the entry is stored
  and nothing else changes.
\<close>

lemma mappages_turn [consumes 2, case_names full entry]:
  assumes inv: "vm_inv kend s pgdir xs" and free: "lookup_pte (km_mem s) pgdir a AND PTE_P = 0"
  obtains (full) "xs = []" "\<And>n. mappages_loop pgdir a n pa perm s = Ok (-1, s)"
  | (entry) s' ys where "vm_ext kend pgdir s xs s' ys"
    "\<And>va. lookup_pte (km_mem s') pgdir va =
       (if PGROUNDDOWN va = PGROUNDDOWN a then pa OR perm OR PTE_P else lookup_pte (km_mem s) pgdir va)"
    "mappages_loop pgdir a 0 pa perm s = Ok (0, s')"
    "\<And>n. mappages_loop pgdir a (Suc n) pa perm s =
       mappages_loop pgdir (a + PGSIZE) n (pa + PGSIZE) perm s'"
    "length xs \<le> Suc (length ys)"
  using inv
proof (cases rule: walkpgdir_cases [where va = a])
  case full
  show thesis by (rule that(1)) (use full in \<open>simp_all add: mappages_loop.simps\<close>)
next
  case (entry s1 ys)
  have inv1: "vm_inv kend s1 pgdir ys" by (rule vm_ext_inv [OF entry(3)])
  then have wf1: "pt_wf kend (km_mem s1) pgdir" by (simp add: vm_inv_def)
  let ?pte = "slot (ptab (km_mem s1) pgdir (PDX a)) (PTX a)"
  let ?s = "s1\<lparr>km_mem := st32 (km_mem s1) ?pte (pa OR perm OR PTE_P)\<rparr>"
  have nz: "?pte \<noteq> 0" using pt_wf_tab [OF wf1 PDX_less entry(2)] PTX_less slot_nonzero by blast
  have "lookup_pte (km_mem s1) pgdir a = ld32 (km_mem s1) ?pte"
    using entry(2) by (simp add: lookup_pte_def)
  then have np: "ld32 (km_mem s1) ?pte AND PTE_P = 0" using free entry(4) by simp
  show thesis
  proof (rule that(2) [of ?s ys])
    show "vm_ext kend pgdir s xs ?s ys"
      using entry(3) set_entry_ext [OF inv1 entry(2)] by (rule vm_ext_trans)
    show "lookup_pte (km_mem ?s) pgdir va =
        (if PGROUNDDOWN va = PGROUNDDOWN a then pa OR perm OR PTE_P else lookup_pte (km_mem s) pgdir va)" for va
      using set_pte(3) [OF wf1 entry(2)] entry(4) by simp
    show "length xs \<le> Suc (length ys)" by (rule entry(5))
  qed (use entry(1) nz np in \<open>simp_all add: mappages_loop.simps [of pgdir a]\<close>)
qed

text \<open>
  \<open>maps_to\<close>: \<open>k\<close> pages from \<open>a\<close> on translate to consecutive frames from \<open>pa\<close> on, all others as
  before.
\<close>

definition maps_to :: "memory \<Rightarrow> memory \<Rightarrow> u32 \<Rightarrow> u32 \<Rightarrow> nat \<Rightarrow> u32 \<Rightarrow> u32 \<Rightarrow> bool" where
  "maps_to m m' pgdir a k pa perm \<longleftrightarrow>
     (\<forall>va. lookup_pte m' pgdir va =
        (if unat (PGROUNDDOWN va - a) < 4096 * k then (pa + (PGROUNDDOWN va - a)) OR perm OR PTE_P
         else lookup_pte m pgdir va))"

lemma maps_to_Suc:
  assumes a: "page_aligned a"
    and one: "\<And>va. lookup_pte m1 pgdir va =
      (if PGROUNDDOWN va = a then pa OR perm OR PTE_P else lookup_pte m pgdir va)"
    and rest: "maps_to m1 m' pgdir (a + PGSIZE) k (pa + PGSIZE) perm" and k: "k < 2 ^ 20"
  shows "maps_to m m' pgdir a (Suc k) pa perm"
  unfolding maps_to_def
proof
  fix va
  let ?p = "PGROUNDDOWN va"
  have eq: "lookup_pte m' pgdir va =
      (if unat (?p - (a + PGSIZE)) < 4096 * k then (pa + PGSIZE + (?p - (a + PGSIZE))) OR perm OR PTE_P
       else lookup_pte m1 pgdir va)"
    using rest by (simp add: maps_to_def)
  show "lookup_pte m' pgdir va = (if unat (?p - a) < 4096 * Suc k then (pa + (?p - a)) OR perm OR PTE_P
      else lookup_pte m pgdir va)"
  proof (cases "?p = a")
    case True
    have "a - (a + PGSIZE) = - PGSIZE" by simp
    then have "unat (a - (a + PGSIZE)) = 2 ^ 32 - 4096" by (simp add: PGSIZE_def unat_word_ariths)
    then have "\<not> unat (?p - (a + PGSIZE)) < 4096 * k" using True k by simp
    then show ?thesis using eq one True by simp
  next
    case False
    have "unat (?p - (a + PGSIZE)) = unat (?p - a) - 4096"
      by (rule page_step [OF PGROUNDDOWN_aligned a False])
    moreover have "4096 \<le> unat (?p - a)"
      using page_distance [OF PGROUNDDOWN_aligned a False] by simp
    moreover have "pa + PGSIZE + (?p - (a + PGSIZE)) = pa + (?p - a)" by (simp add: algebra_simps)
    ultimately show ?thesis using eq one False by auto
  qed
qed

lemma mappages_loop_spec:
  assumes "vm_inv kend s pgdir xs" "page_aligned a" "n < 2 ^ 20"
    "\<And>va. unat (PGROUNDDOWN va - a) < 4096 * Suc n \<Longrightarrow> lookup_pte (km_mem s) pgdir va AND PTE_P = 0"
  shows "\<exists>r s' ys k. mappages_loop pgdir a n pa perm s = Ok (r, s') \<and> vm_ext kend pgdir s xs s' ys \<and>
    maps_to (km_mem s) (km_mem s') pgdir a k pa perm \<and>
    (r = 0 \<and> k = Suc n \<or> r = -1 \<and> k \<le> n \<and> ys = [] \<and> length xs \<le> n)"
  using assms
proof (induction n arbitrary: a pa s xs)
  case 0
  have np: "lookup_pte (km_mem s) pgdir a AND PTE_P = 0" by (rule 0(4)) (simp add: 0(2))
  from 0(1) np show ?case
  proof (cases rule: mappages_turn [where pa = pa and perm = perm])
    case full
    then show ?thesis using 0(1) by (auto simp: maps_to_def intro!: exI [of _ 0] vm_ext_refl)
  next
    case (entry s' ys)
    have z: "maps_to (km_mem s') (km_mem s') pgdir (a + PGSIZE) 0 (pa + PGSIZE) perm"
      by (simp add: maps_to_def)
    have "maps_to (km_mem s) (km_mem s') pgdir a (Suc 0) pa perm"
      by (rule maps_to_Suc [OF 0(2) _ z]) (simp_all add: entry(2) 0(2))
    then show ?thesis using entry by blast
  qed
next
  case (Suc n)
  have np: "lookup_pte (km_mem s) pgdir a AND PTE_P = 0" by (rule Suc.prems(4)) (simp add: Suc.prems(2))
  from Suc.prems(1) np show ?case
  proof (cases rule: mappages_turn [where pa = pa and perm = perm])
    case full
    then show ?thesis using Suc.prems(1) by (auto simp: maps_to_def intro!: exI [of _ 0] vm_ext_refl)
  next
    case (entry s1 ys)
    have free: "lookup_pte (km_mem s1) pgdir va AND PTE_P = 0"
      if va: "unat (PGROUNDDOWN va - (a + PGSIZE)) < 4096 * Suc n" for va
    proof (cases "PGROUNDDOWN va = a")
      case True
      have "unat (PGROUNDDOWN va - (a + PGSIZE)) = 2 ^ 32 - 4096"
        using True by (simp add: PGSIZE_def unat_word_ariths)
      then show ?thesis using va Suc.prems(3) by simp
    next
      case False
      then have "unat (PGROUNDDOWN va - a) < 4096 * Suc (Suc n)"
        using page_step [OF PGROUNDDOWN_aligned Suc.prems(2) False] va by simp
      then show ?thesis using entry(2) Suc.prems(2,4) False by simp
    qed
    have n: "n < 2 ^ 20" using Suc.prems(3) by simp
    from Suc.IH [OF vm_ext_inv [OF entry(1)] aligned_PGSIZE [OF Suc.prems(2)] n free]
    obtain r s' zs k where r: "mappages_loop pgdir (a + PGSIZE) n (pa + PGSIZE) perm s1 = Ok (r, s')"
      "vm_ext kend pgdir s1 ys s' zs" "maps_to (km_mem s1) (km_mem s') pgdir (a + PGSIZE) k (pa + PGSIZE) perm"
      "r = 0 \<and> k = Suc n \<or> r = -1 \<and> k \<le> n \<and> zs = [] \<and> length ys \<le> n" by blast
    have k: "k < 2 ^ 20" using r(4) Suc.prems(3) by auto
    have "maps_to (km_mem s) (km_mem s') pgdir a (Suc k) pa perm"
      by (rule maps_to_Suc [OF Suc.prems(2) _ r(3) k]) (simp add: entry(2) Suc.prems(2))
    moreover have "vm_ext kend pgdir s xs s' zs" by (rule vm_ext_trans [OF entry(1) r(2)])
    ultimately show ?thesis using entry(4) r(1,4) entry(5)
      by (intro exI [of _ r] exI [of _ s'] exI [of _ zs] exI [of _ "Suc k"]) auto
  qed
qed

text \<open>The pages that \<open>size\<close> bytes at \<open>va\<close> touch, and a call that does not wrap around.\<close>

definition map_span :: "u32 \<Rightarrow> u32 \<Rightarrow> nat" where
  "map_span va sz = unat (PGROUNDDOWN (va + sz - 1) - PGROUNDDOWN va) div 4096"

lemma map_span_less: "map_span va sz < 2 ^ 20"
proof -
  have "unat (PGROUNDDOWN (va + sz - 1) - PGROUNDDOWN va) < 2 ^ LENGTH(32)" by (rule unsigned_less)
  then show ?thesis by (simp add: map_span_def less_mult_imp_div_less)
qed

lemma mappages_spec:
  assumes "vm_inv kend s pgdir xs"
    "\<And>p. unat (PGROUNDDOWN p - PGROUNDDOWN va) < 4096 * Suc (map_span va sz) \<Longrightarrow>
       lookup_pte (km_mem s) pgdir p AND PTE_P = 0"
  shows "\<exists>r s' ys k. mappages pgdir va sz pa perm s = Ok (r, s') \<and> vm_ext kend pgdir s xs s' ys \<and>
    maps_to (km_mem s) (km_mem s') pgdir (PGROUNDDOWN va) k pa perm \<and>
    (r = 0 \<and> k = Suc (map_span va sz) \<or>
     r = -1 \<and> k \<le> map_span va sz \<and> ys = [] \<and> length xs \<le> map_span va sz)"
  using mappages_loop_spec [OF assms(1) PGROUNDDOWN_aligned map_span_less assms(2)]
  by (simp add: mappages_def map_span_def Let_def)

end
