(* ===== verification/Uvm.thy ===== *)
theory Uvm
  imports Vm
begin

unbundle bit_operations_syntax

text \<open>
  User address spaces: what the page-table operations of \<^verbatim>\<open>vm.c\<close> do to the memory a process
  sees. \<open>umem\<close> abstracts a page directory to a partial map from user addresses to bytes; growing,
  shrinking and copying an address space are shown to be the evident operations on that map.
\<close>

section \<open>The memory a process sees\<close>

definition upresent :: "memory \<Rightarrow> u32 \<Rightarrow> u32 \<Rightarrow> bool" where
  "upresent m pgdir va \<longleftrightarrow> va < KERNBASE \<and> lookup_pte m pgdir va AND PTE_P \<noteq> 0"

definition uframe :: "memory \<Rightarrow> u32 \<Rightarrow> u32 \<Rightarrow> u32" where
  "uframe m pgdir va = P2V (PTE_ADDR (lookup_pte m pgdir va))"

definition umem :: "memory \<Rightarrow> u32 \<Rightarrow> u32 \<Rightarrow> u8 option" where
  "umem m pgdir va =
     (if upresent m pgdir va then Some (m (uframe m pgdir va + (va - PGROUNDDOWN va))) else None)"

definition uframes :: "memory \<Rightarrow> u32 \<Rightarrow> u32 set" where
  "uframes m pgdir = uframe m pgdir ` {va. upresent m pgdir va}"

definition uvm_inv :: "u32 \<Rightarrow> kmem \<Rightarrow> u32 \<Rightarrow> u32 list \<Rightarrow> bool" where
  "uvm_inv kend s pgdir xs \<longleftrightarrow> vm_inv kend s pgdir xs \<and>
     (\<forall>va. upresent (km_mem s) pgdir va \<longrightarrow> valid_page kend (uframe (km_mem s) pgdir va) \<and>
        uframe (km_mem s) pgdir va \<notin> pt_pages (km_mem s) pgdir \<and>
        uframe (km_mem s) pgdir va \<notin> set xs) \<and>
     (\<forall>va va'. upresent (km_mem s) pgdir va \<longrightarrow> upresent (km_mem s) pgdir va' \<longrightarrow>
        uframe (km_mem s) pgdir va = uframe (km_mem s) pgdir va' \<longrightarrow>
        PGROUNDDOWN va = PGROUNDDOWN va')"

definition only_writes :: "u32 set \<Rightarrow> memory \<Rightarrow> memory \<Rightarrow> bool" where
  "only_writes P m m' \<longleftrightarrow> (\<forall>a. (\<forall>p\<in>P. \<not> in_page p a) \<longrightarrow> m' a = m a)"

lemma only_writes_trans:
  "only_writes P m m' \<Longrightarrow> only_writes Q m' m'' \<Longrightarrow> P \<subseteq> R \<Longrightarrow> Q \<subseteq> R \<Longrightarrow> only_writes R m m''"
  by (auto simp: only_writes_def subset_eq)

lemma only_writes_mono: "only_writes P m m' \<Longrightarrow> P \<subseteq> Q \<Longrightarrow> only_writes Q m m'"
  by (auto simp: only_writes_def)

lemma only_writes_refl: "only_writes P m m"
  by (simp add: only_writes_def)

lemma only_writes_page:
  assumes "only_writes P m m'" "\<forall>p\<in>P. page_aligned p" "page_aligned q" "q \<notin> P" "in_page q a"
  shows "m' a = m a"
proof -
  have "\<not> in_page p a" if "p \<in> P" for p using assms that in_page_unique [of p q a] by auto
  then show ?thesis using assms(1) by (simp add: only_writes_def)
qed

lemma uvm_inv_frame:
  "uvm_inv kend s pgdir xs \<Longrightarrow> upresent (km_mem s) pgdir va \<Longrightarrow>
     valid_page kend (uframe (km_mem s) pgdir va) \<and>
     uframe (km_mem s) pgdir va \<notin> pt_pages (km_mem s) pgdir \<and>
     uframe (km_mem s) pgdir va \<notin> set xs"
  unfolding uvm_inv_def by blast

lemma uvm_inv_inj:
  "uvm_inv kend s pgdir xs \<Longrightarrow> upresent (km_mem s) pgdir va \<Longrightarrow> upresent (km_mem s) pgdir va' \<Longrightarrow>
     uframe (km_mem s) pgdir va = uframe (km_mem s) pgdir va' \<Longrightarrow> PGROUNDDOWN va = PGROUNDDOWN va'"
  unfolding uvm_inv_def by blast

lemma uvm_inv_vm: "uvm_inv kend s pgdir xs \<Longrightarrow> vm_inv kend s pgdir xs"
  unfolding uvm_inv_def by blast

lemma uvm_wf: "uvm_inv kend s pgdir xs \<Longrightarrow> pt_wf kend (km_mem s) pgdir"
  unfolding uvm_inv_def vm_inv_def by blast

lemma uvm_kmem: "uvm_inv kend s pgdir xs \<Longrightarrow> kmem_inv kend s xs"
  unfolding uvm_inv_def vm_inv_def by blast

lemma uvm_disjoint: "uvm_inv kend s pgdir xs \<Longrightarrow> pt_pages (km_mem s) pgdir \<inter> set xs = {}"
  unfolding uvm_inv_def vm_inv_def by blast

lemma kmem_inv_valid: "kmem_inv kend s xs \<Longrightarrow> x \<in> set xs \<Longrightarrow> valid_page kend x"
  by (simp add: kmem_inv_def)

lemma PGROUNDDOWN_le: "PGROUNDDOWN va \<le> va"
  by (simp add: word_le_nat_alt PGROUNDDOWN_unat)

lemma offset_in_page: "page_aligned p \<Longrightarrow> in_page p (p + (va - PGROUNDDOWN va))"
  using PGROUNDDOWN_in_page [of va] by (simp add: in_page_def)

text \<open>A page of the user half lies in the user half whole.\<close>

lemma same_page_user:
  assumes "PGROUNDDOWN va = PGROUNDDOWN va'" "va < KERNBASE"
  shows "va' < KERNBASE"
proof -
  have "unat va div 4096 = unat va' div 4096"
    using assms(1) by (simp add: word_unat_eq_iff PGROUNDDOWN_unat)
  moreover have "unat va div 4096 < 2 ^ 19"
    using assms(2) by (simp add: word_less_nat_alt KERNBASE_def less_mult_imp_div_less)
  ultimately have "unat va' div 4096 < 2 ^ 19" by simp
  then show ?thesis using round_4096(2) [of "unat va'"] by (simp add: word_less_nat_alt KERNBASE_def)
qed

lemma lookup_pte_page: "PGROUNDDOWN va = PGROUNDDOWN va' \<Longrightarrow> lookup_pte m pgdir va = lookup_pte m pgdir va'"
  by (simp add: lookup_pte_def flip: same_page_iff)

lemma upresent_page: "PGROUNDDOWN va = PGROUNDDOWN va' \<Longrightarrow> upresent m pgdir va = upresent m pgdir va'"
  using same_page_user [of va va'] same_page_user [of va' va] lookup_pte_page [of va va']
  by (auto simp: upresent_def)

text \<open>
  Translations that survive a step keep their bytes: the frames of a process are neither page
  tables nor free pages.
\<close>

lemma umem_kept:
  assumes "uvm_inv kend s pgdir xs" "only_writes P (km_mem s) m'" "\<forall>p\<in>P. page_aligned p"
    "lookup_pte m' pgdir va = lookup_pte (km_mem s) pgdir va"
    "upresent (km_mem s) pgdir va \<Longrightarrow> uframe (km_mem s) pgdir va \<notin> P"
  shows "umem m' pgdir va = umem (km_mem s) pgdir va"
proof (cases "upresent (km_mem s) pgdir va")
  case True
  have v: "valid_page kend (uframe (km_mem s) pgdir va)" using uvm_inv_frame [OF assms(1) True] by simp
  have "m' (uframe (km_mem s) pgdir va + (va - PGROUNDDOWN va)) =
      km_mem s (uframe (km_mem s) pgdir va + (va - PGROUNDDOWN va))"
    by (rule only_writes_page [OF assms(2,3) _ assms(5) [OF True]])
      (use v in \<open>auto intro: offset_in_page\<close>)
  then show ?thesis using assms(4) by (simp add: umem_def upresent_def uframe_def)
qed (simp add: umem_def upresent_def assms(4))

section \<open>One page at a time\<close>

lemma mappages_page:
  assumes "page_aligned a"
  shows "mappages pgdir a PGSIZE pa perm s = mappages_loop pgdir a 0 pa perm s"
proof -
  have e: "a + PGSIZE - 1 = a + 4095" by (simp add: PGSIZE_def)
  have "in_page a (a + 4095)" by (simp add: in_page_def)
  then have "PGROUNDDOWN (a + 4095) = a"
    using in_page_unique [OF PGROUNDDOWN_aligned assms PGROUNDDOWN_in_page] by blast
  then show ?thesis using assms unfolding mappages_def e by simp
qed

lemma valid_page_disjoint:
  "valid_page kend p \<Longrightarrow> valid_page kend q \<Longrightarrow> p \<noteq> q \<Longrightarrow> in_page p a \<Longrightarrow> \<not> in_page q a"
  using in_page_unique valid_page_aligned by blast

text \<open>Writing a page that is neither a page table nor free.\<close>

lemma vm_inv_page_write:
  assumes inv: "vm_inv kend s pgdir xs" and x: "valid_page kend x" "x \<notin> pt_pages (km_mem s) pgdir" "x \<notin> set xs"
    and w: "only_writes {x} (km_mem s) m'"
  shows "vm_inv kend (s\<lparr>km_mem := m'\<rparr>) pgdir xs" "lookup_pte m' pgdir va = lookup_pte (km_mem s) pgdir va"
    "pt_pages m' pgdir = pt_pages (km_mem s) pgdir"
proof -
  have k: "kmem_inv kend s xs" and wf: "pt_wf kend (km_mem s) pgdir"
    and dis: "pt_pages (km_mem s) pgdir \<inter> set xs = {}"
    using inv unfolding vm_inv_def by blast+
  have same: "m' a = km_mem s a" if "valid_page kend p" "p \<noteq> x" "in_page p a" for p a
    using w valid_page_disjoint [OF that(1) x(1) that(2,3)] by (simp add: only_writes_def)
  have d: "m' a = km_mem s a" if "in_page pgdir a" for a
    using that x(2) pt_wf_dir [OF wf] by (intro same [of pgdir]) (auto simp: pt_pages_def)
  show "lookup_pte m' pgdir va = lookup_pte (km_mem s) pgdir va"
    by (rule lookup_pte_frame) (use x(2) pt_pages_valid [OF wf] same in blast)
  show p: "pt_pages m' pgdir = pt_pages (km_mem s) pgdir" by (rule pt_frame_dir(2) [OF d])
  have "kmem_inv kend (s\<lparr>km_mem := m'\<rparr>) xs"
    by (rule kmem_inv_frame [OF k]) (use x(3) kmem_inv_valid [OF k] same in blast)
  moreover have "pt_wf kend m' pgdir" using wf pt_frame_dir(1) [of pgdir m' "km_mem s", OF d] by simp
  ultimately show "vm_inv kend (s\<lparr>km_mem := m'\<rparr>) pgdir xs" using dis p by (simp add: vm_inv_def)
qed

lemma vm_ext_writes:
  assumes "vm_ext kend pgdir s xs s' ys"
  shows "only_writes (pt_pages (km_mem s) pgdir \<union> set xs) (km_mem s) (km_mem s')"
  using assms vm_ext_subset [OF assms] unfolding vm_ext_def only_writes_def by blast

lemma uvm_inv_map:
  assumes U: "uvm_inv kend s pgdir xs" and V: "vm_inv kend s' pgdir ys"
    and look: "\<And>va. lookup_pte (km_mem s') pgdir va =
      (if PGROUNDDOWN va = a then e else lookup_pte (km_mem s) pgdir va)"
    and sub: "pt_pages (km_mem s') pgdir \<subseteq> pt_pages (km_mem s) pgdir \<union> set xs" "set ys \<subseteq> set xs"
    and x: "P2V (PTE_ADDR e) = x" "x \<in> set xs" "x \<notin> pt_pages (km_mem s') pgdir" "x \<notin> set ys"
  shows "uvm_inv kend s' pgdir ys"
proof -
  have cas: "PGROUNDDOWN va = a \<and> uframe (km_mem s') pgdir va = x \<or>
      PGROUNDDOWN va \<noteq> a \<and> upresent (km_mem s) pgdir va \<and>
      uframe (km_mem s') pgdir va = uframe (km_mem s) pgdir va"
    if "upresent (km_mem s') pgdir va" for va
    using that x(1) by (cases "PGROUNDDOWN va = a") (simp_all add: upresent_def uframe_def look)
  have old: "valid_page kend (uframe (km_mem s) pgdir va) \<and>
      uframe (km_mem s) pgdir va \<notin> pt_pages (km_mem s') pgdir \<and>
      uframe (km_mem s) pgdir va \<notin> set ys \<and> uframe (km_mem s) pgdir va \<noteq> x"
    if "upresent (km_mem s) pgdir va" for va
    using uvm_inv_frame [OF U that] sub x(2) by blast
  have "valid_page kend x" by (rule kmem_inv_valid [OF uvm_kmem [OF U] x(2)])
  then have "valid_page kend (uframe (km_mem s') pgdir va) \<and>
      uframe (km_mem s') pgdir va \<notin> pt_pages (km_mem s') pgdir \<and> uframe (km_mem s') pgdir va \<notin> set ys"
    if "upresent (km_mem s') pgdir va" for va
    using cas [OF that] old x(3,4) by metis
  moreover have "PGROUNDDOWN va = PGROUNDDOWN va'"
    if "upresent (km_mem s') pgdir va" "upresent (km_mem s') pgdir va'"
      "uframe (km_mem s') pgdir va = uframe (km_mem s') pgdir va'" for va va'
    using cas [OF that(1)] cas [OF that(2)] that(3) old uvm_inv_inj [OF U] by metis
  ultimately show ?thesis using V unfolding uvm_inv_def by blast
qed

lemma uvm_inv_unmap:
  assumes U: "uvm_inv kend s pgdir xs" and V: "vm_inv kend s' pgdir (uframe (km_mem s) pgdir a # xs)"
    and a: "upresent (km_mem s) pgdir a"
    and look: "\<And>va. lookup_pte (km_mem s') pgdir va =
      (if PGROUNDDOWN va = PGROUNDDOWN a then 0 else lookup_pte (km_mem s) pgdir va)"
    and pt: "pt_pages (km_mem s') pgdir = pt_pages (km_mem s) pgdir"
  shows "uvm_inv kend s' pgdir (uframe (km_mem s) pgdir a # xs)"
proof -
  have old: "upresent (km_mem s) pgdir va \<and> PGROUNDDOWN va \<noteq> PGROUNDDOWN a \<and>
      uframe (km_mem s') pgdir va = uframe (km_mem s) pgdir va"
    if "upresent (km_mem s') pgdir va" for va
    using that by (cases "PGROUNDDOWN va = PGROUNDDOWN a") (simp_all add: upresent_def uframe_def look)
  have "valid_page kend (uframe (km_mem s') pgdir va) \<and>
      uframe (km_mem s') pgdir va \<notin> pt_pages (km_mem s') pgdir \<and>
      uframe (km_mem s') pgdir va \<notin> set (uframe (km_mem s) pgdir a # xs)"
    if p: "upresent (km_mem s') pgdir va" for va
    using old [OF p] uvm_inv_frame [OF U] uvm_inv_inj [OF U _ a] pt by auto
  moreover have "PGROUNDDOWN va = PGROUNDDOWN va'"
    if "upresent (km_mem s') pgdir va" "upresent (km_mem s') pgdir va'"
      "uframe (km_mem s') pgdir va = uframe (km_mem s') pgdir va'" for va va'
    using old [OF that(1)] old [OF that(2)] that(3) uvm_inv_inj [OF U] by metis
  ultimately show ?thesis using V unfolding uvm_inv_def by blast
qed

lemma upresent_pde: "upresent m pgdir va \<Longrightarrow> pde_present m pgdir (PDX va)"
  by (auto simp: upresent_def lookup_pte_def split: if_splits)

lemma unmap_page:
  assumes U: "uvm_inv kend s pgdir xs" and p: "upresent (km_mem s) pgdir a"
  obtains s1 s' where "kfree kend (uframe (km_mem s) pgdir a) s = Ok s1"
    "s' = s1\<lparr>km_mem := st32 (km_mem s1) (slot (ptab (km_mem s) pgdir (PDX a)) (PTX a)) 0\<rparr>"
    "uvm_inv kend s' pgdir (uframe (km_mem s) pgdir a # xs)"
    "\<And>va. lookup_pte (km_mem s') pgdir va =
       (if PGROUNDDOWN va = PGROUNDDOWN a then 0 else lookup_pte (km_mem s) pgdir va)"
    "pt_pages (km_mem s') pgdir = pt_pages (km_mem s) pgdir"
    "only_writes (insert (uframe (km_mem s) pgdir a) (pt_pages (km_mem s) pgdir)) (km_mem s) (km_mem s')"
proof -
  let ?f = "uframe (km_mem s) pgdir a"
  have f: "valid_page kend ?f" "?f \<notin> pt_pages (km_mem s) pgdir" "?f \<notin> set xs"
    using uvm_inv_frame [OF U p] by auto
  obtain s1 where s1: "kfree kend ?f s = Ok s1" "kmem_inv kend s1 (?f # xs)" "use_lock s1 = use_lock s"
    and w: "\<And>a. \<not> in_page ?f a \<Longrightarrow> km_mem s1 a = km_mem s a"
    using kfree_inv [OF uvm_kmem [OF U] f(1,3)] by metis
  have w1: "only_writes {?f} (km_mem s) (km_mem s1)" using w by (simp add: only_writes_def)
  note v = vm_inv_page_write [OF uvm_inv_vm [OF U] f w1]
  have V1: "vm_inv kend s1 pgdir (?f # xs)"
    using s1(2) v(1,3) uvm_disjoint [OF U] f(2) by (auto simp: vm_inv_def)
  have look: "lookup_pte (km_mem s1) pgdir = lookup_pte (km_mem s) pgdir" using v(2) by (intro ext)
  have pgd: "km_mem s1 b = km_mem s b" if "in_page pgdir b" for b
    using f(2) by (intro w valid_page_disjoint [OF pt_wf_dir [OF uvm_wf [OF U]] f(1) _ that])
      (auto simp: pt_pages_def)
  have e: "pde_present (km_mem s1) pgdir (PDX a)" "ptab (km_mem s1) pgdir (PDX a) = ptab (km_mem s) pgdir (PDX a)"
    using upresent_pde [OF p] pde_cong [of pgdir "km_mem s1" "km_mem s", OF pgd PDX_less] by simp_all
  have wf1: "pt_wf kend (km_mem s1) pgdir" using V1 by (simp add: vm_inv_def)
  define s' where s': "s' = s1\<lparr>km_mem := st32 (km_mem s1) (slot (ptab (km_mem s) pgdir (PDX a)) (PTX a)) 0\<rparr>"
  have ext: "vm_ext kend pgdir s1 (?f # xs) s' (?f # xs)"
    using set_entry_ext [OF V1 e(1)] by (simp add: s' e(2))
  have L: "lookup_pte (km_mem s') pgdir va =
       (if PGROUNDDOWN va = PGROUNDDOWN a then 0 else lookup_pte (km_mem s) pgdir va)" for va
    using set_pte(3) [OF wf1 e(1)] by (simp add: s' e(2) look)
  have P: "pt_pages (km_mem s') pgdir = pt_pages (km_mem s) pgdir"
    using set_pte(2) [OF wf1 e(1)] v(3) by (simp add: s' e(2))
  have W1: "only_writes (pt_pages (km_mem s1) pgdir) (km_mem s1) (km_mem s')"
    using set_pte(4) [OF wf1 e(1)] ptab_in_pages [OF PDX_less e(1)]
    by (simp add: only_writes_def s' e(2))
  have "only_writes (insert ?f (pt_pages (km_mem s) pgdir)) (km_mem s) (km_mem s')"
    by (rule only_writes_trans [OF w1 W1]) (auto simp: v(3))
  moreover have "uvm_inv kend s' pgdir (?f # xs)" by (rule uvm_inv_unmap [OF U vm_ext_inv [OF ext] p L P])
  ultimately show thesis using s1(1) s' L P that by blast
qed

section \<open>Shrinking\<close>

lemma next_table:
  assumes "a < KERNBASE"
  shows "unat (PGADDR (PDX a + 1) 0 0 - PGSIZE + PGSIZE) = (unat a div 4194304 + 1) * 4194304"
proof -
  have "unat a < 2 ^ 31" using assms by (simp add: word_less_nat_alt KERNBASE_def)
  then have d: "unat a div 4194304 < 512" by (simp add: less_mult_imp_div_less)
  then have "unat (PDX a) = unat a div 4194304" by (simp add: unat_PDX)
  then have "unat (push_bit 22 (PDX a + 1)) = (unat a div 4194304 + 1) * 4194304"
    using d by (simp add: push_bit_eq_mult unat_word_ariths)
  then show ?thesis by (simp add: PGADDR_def)
qed

text \<open>\<open>page_between\<close>: the page of \<open>va\<close> starts in the range from \<open>a\<close> (page aligned) up to \<open>b\<close>.\<close>

definition page_between :: "u32 \<Rightarrow> u32 \<Rightarrow> u32 \<Rightarrow> bool" where
  "page_between a b va \<longleftrightarrow> a \<le> PGROUNDDOWN va \<and> PGROUNDDOWN va < b"

lemma page_between_step:
  assumes "page_aligned a" "a < b" "b \<le> KERNBASE"
  shows "page_between a b va \<longleftrightarrow> PGROUNDDOWN va = a \<or> page_between (a + PGSIZE) b va"
proof -
  have "unat a < 2 ^ 31" using assms(2,3) by (simp add: word_less_nat_alt word_le_nat_alt KERNBASE_def)
  then have n: "unat (a + PGSIZE) = unat a + 4096" by (simp add: PGSIZE_def unat_word_ariths)
  have "PGROUNDDOWN va = a \<or> a + PGSIZE \<le> PGROUNDDOWN va" if "a \<le> PGROUNDDOWN va"
  proof -
    have "unat (PGROUNDDOWN va) mod 4096 = 0" "unat a mod 4096 = 0"
      using PGROUNDDOWN_aligned [of va] assms(1) by (simp_all add: page_aligned_def)
    then obtain i j where ij: "unat (PGROUNDDOWN va) = 4096 * i" "unat a = 4096 * j"
      by (auto simp: mod_eq_0_iff_dvd elim!: dvdE)
    then have "j \<le> i" using that by (simp add: word_le_nat_alt)
    then show ?thesis using ij n by (cases "i = j") (auto simp: word_le_nat_alt word_unat_eq_iff)
  qed
  moreover have "a \<le> a + PGSIZE" using n by (simp add: word_le_nat_alt)
  ultimately show ?thesis using assms(2) unfolding page_between_def by auto
qed

lemma page_between_jump:
  assumes "a < KERNBASE" "\<not> pde_present m pgdir (PDX a)"
    "page_between a b va" "\<not> page_between (PGADDR (PDX a + 1) 0 0 - PGSIZE + PGSIZE) b va"
  shows "lookup_pte m pgdir va = 0"
proof -
  let ?p = "PGROUNDDOWN va"
  have "a \<le> ?p" "?p < PGADDR (PDX a + 1) 0 0 - PGSIZE + PGSIZE"
    using assms(3,4) by (auto simp: page_between_def)
  then have "unat a \<le> unat ?p" "unat ?p < (unat a div 4194304 + 1) * 4194304"
    unfolding word_le_nat_alt word_less_nat_alt next_table [OF assms(1)] by auto
  then have "unat ?p div 4194304 = unat a div 4194304"
    by (intro antisym) (auto intro: div_le_mono simp: less_Suc_eq_le [symmetric] less_mult_imp_div_less)
  then have "PDX ?p = PDX a" by (simp add: word_unat_eq_iff unat_PDX)
  moreover have "PDX ?p = PDX va" using same_page_iff [of ?p va] PGROUNDDOWN_aligned by simp
  ultimately show ?thesis using assms(2) by (simp add: lookup_pte_def)
qed

text \<open>
  The loop of \<^verbatim>\<open>deallocuvm\<close> below \<^verbatim>\<open>KERNBASE\<close>: it ends, unmaps exactly the present pages of the range
  and puts exactly their frames on the free list.
\<close>

definition range_frames :: "memory \<Rightarrow> u32 \<Rightarrow> u32 \<Rightarrow> u32 \<Rightarrow> u32 set" where
  "range_frames m pgdir a b = uframe m pgdir ` {va. upresent m pgdir va \<and> page_between a b va}"

definition unmapped_range :: "u32 \<Rightarrow> u32 \<Rightarrow> u32 \<Rightarrow> u32 \<Rightarrow> kmem \<Rightarrow> u32 list \<Rightarrow> kmem \<Rightarrow> u32 list \<Rightarrow> bool" where
  "unmapped_range kend pgdir a b s xs s' ys \<longleftrightarrow> uvm_inv kend s' pgdir ys \<and>
     (\<forall>va. lookup_pte (km_mem s') pgdir va =
        (if upresent (km_mem s) pgdir va \<and> page_between a b va then 0 else lookup_pte (km_mem s) pgdir va)) \<and>
     pt_pages (km_mem s') pgdir = pt_pages (km_mem s) pgdir \<and>
     set ys = set xs \<union> range_frames (km_mem s) pgdir a b \<and>
     only_writes (range_frames (km_mem s) pgdir a b \<union> pt_pages (km_mem s) pgdir) (km_mem s) (km_mem s')"

lemma page_between_user: "page_between a b va \<Longrightarrow> b \<le> KERNBASE \<Longrightarrow> va < KERNBASE"
  using same_page_user [of "PGROUNDDOWN va" va] PGROUNDDOWN_aligned [of va]
  by (auto simp: page_between_def)

lemma unmapped_range_skip:
  assumes "unmapped_range kend pgdir a' b s xs s' ys"
    and "\<And>va. upresent (km_mem s) pgdir va \<Longrightarrow> page_between a b va = page_between a' b va"
  shows "unmapped_range kend pgdir a b s xs s' ys"
proof -
  have "range_frames (km_mem s) pgdir a b = range_frames (km_mem s) pgdir a' b"
    unfolding range_frames_def using assms(2) by (intro arg_cong [where f = "image _"]) auto
  moreover have "(upresent (km_mem s) pgdir va \<and> page_between a b va) =
      (upresent (km_mem s) pgdir va \<and> page_between a' b va)" for va using assms(2) by auto
  ultimately show ?thesis using assms(1) by (simp add: unmapped_range_def)
qed

lemma unmapped_range_page:
  assumes U: "uvm_inv kend s pgdir xs" and p: "upresent (km_mem s) pgdir a"
    and a: "page_aligned a" "a < b" "b \<le> KERNBASE"
    and look: "\<And>va. lookup_pte (km_mem s1) pgdir va =
       (if PGROUNDDOWN va = PGROUNDDOWN a then 0 else lookup_pte (km_mem s) pgdir va)"
    and pt: "pt_pages (km_mem s1) pgdir = pt_pages (km_mem s) pgdir"
    and w: "only_writes (insert (uframe (km_mem s) pgdir a) (pt_pages (km_mem s) pgdir)) (km_mem s) (km_mem s1)"
    and rest: "unmapped_range kend pgdir (a + PGSIZE) b s1 (uframe (km_mem s) pgdir a # xs) s' ys"
  shows "unmapped_range kend pgdir a b s xs s' ys"
proof -
  note step = page_between_step [OF a]
  have here: "page_between (a + PGSIZE) b va \<Longrightarrow> PGROUNDDOWN va \<noteq> a" for va
  proof -
    have "unat a < 2 ^ 31" using a(2,3) by (simp add: word_less_nat_alt word_le_nat_alt KERNBASE_def)
    then have "unat (a + PGSIZE) = unat a + 4096" by (simp add: PGSIZE_def unat_word_ariths)
    then show "page_between (a + PGSIZE) b va \<Longrightarrow> PGROUNDDOWN va \<noteq> a"
      by (auto simp: page_between_def word_le_nat_alt)
  qed
  have up1: "upresent (km_mem s1) pgdir va \<longleftrightarrow> upresent (km_mem s) pgdir va \<and> PGROUNDDOWN va \<noteq> a" for va
    using a(1) by (auto simp: upresent_def look)
  have uf1: "uframe (km_mem s1) pgdir va = uframe (km_mem s) pgdir va" if "PGROUNDDOWN va \<noteq> a" for va
    using that a(1) by (simp add: uframe_def look)
  have ua: "uframe (km_mem s) pgdir va = uframe (km_mem s) pgdir a" "upresent (km_mem s) pgdir va"
    if "PGROUNDDOWN va = a" for va
    using that p lookup_pte_page [of va a] upresent_page [of va a] a(1) by (simp_all add: uframe_def)
  have ins: "{va. upresent (km_mem s) pgdir va \<and> page_between a b va} =
      {va. PGROUNDDOWN va = a} \<union> {va. upresent (km_mem s1) pgdir va \<and> page_between (a + PGSIZE) b va}"
    by (auto simp: step up1 ua(2) dest: here)
  have fr: "range_frames (km_mem s) pgdir a b =
      insert (uframe (km_mem s) pgdir a) (range_frames (km_mem s1) pgdir (a + PGSIZE) b)"
  proof -
    have "uframe (km_mem s) pgdir ` {va. PGROUNDDOWN va = a} = {uframe (km_mem s) pgdir a}"
      using ua(1) a(1) PGROUNDDOWN_idem [OF a(1)] by blast
    moreover have "uframe (km_mem s) pgdir ` {va. upresent (km_mem s1) pgdir va \<and> page_between (a + PGSIZE) b va} =
        range_frames (km_mem s1) pgdir (a + PGSIZE) b"
      unfolding range_frames_def by (rule image_cong) (auto simp: uf1 here)
    ultimately show ?thesis unfolding range_frames_def [of "km_mem s"] ins by (simp add: image_Un)
  qed
  from rest have R: "uvm_inv kend s' pgdir ys" "pt_pages (km_mem s') pgdir = pt_pages (km_mem s1) pgdir"
      "set ys = set (uframe (km_mem s) pgdir a # xs) \<union> range_frames (km_mem s1) pgdir (a + PGSIZE) b"
      "only_writes (range_frames (km_mem s1) pgdir (a + PGSIZE) b \<union> pt_pages (km_mem s1) pgdir)
         (km_mem s1) (km_mem s')"
    and RL: "\<And>va. lookup_pte (km_mem s') pgdir va =
        (if upresent (km_mem s1) pgdir va \<and> page_between (a + PGSIZE) b va then 0
         else lookup_pte (km_mem s1) pgdir va)"
    unfolding unmapped_range_def by blast+
  have "lookup_pte (km_mem s') pgdir va =
      (if upresent (km_mem s) pgdir va \<and> page_between a b va then 0 else lookup_pte (km_mem s) pgdir va)" for va
    using ua(2) [of va] here [of va] a(1)
    by (cases "PGROUNDDOWN va = a") (simp_all add: RL look up1 step)
  moreover have "only_writes (range_frames (km_mem s) pgdir a b \<union> pt_pages (km_mem s) pgdir) (km_mem s) (km_mem s')"
    by (rule only_writes_trans [OF w R(4)]) (auto simp: fr pt)
  moreover have "pt_pages (km_mem s') pgdir = pt_pages (km_mem s) pgdir" using R(2) pt by simp
  moreover have "set ys = set xs \<union> range_frames (km_mem s) pgdir a b" using R(3) by (simp add: fr)
  ultimately show ?thesis using R(1) unfolding unmapped_range_def by blast
qed

lemma unmapped_range_refl:
  assumes "uvm_inv kend s pgdir xs" "b \<le> a"
  shows "unmapped_range kend pgdir a b s xs s xs"
proof -
  have "\<not> page_between a b va" for va using assms(2) by (auto simp: page_between_def)
  then show ?thesis using assms(1) by (simp add: unmapped_range_def range_frames_def only_writes_refl)
qed

lemma low_page_step:
  assumes "a < b" "b \<le> KERNBASE"
  shows "unat (a + PGSIZE) = unat a + 4096" "a < a + PGSIZE"
proof -
  have "unat a < 2 ^ 31" using assms by (simp add: word_less_nat_alt word_le_nat_alt KERNBASE_def)
  then show "unat (a + PGSIZE) = unat a + 4096" by (simp add: PGSIZE_def unat_word_ariths)
  then show "a < a + PGSIZE" by (simp add: word_less_nat_alt)
qed

lemma low_table_step:
  assumes "a < KERNBASE"
  defines "a' \<equiv> PGADDR (PDX a + 1) 0 0 - PGSIZE + PGSIZE"
  shows "page_aligned a'" "a < a'"
proof -
  have u: "unat a' = (unat a div 4194304 + 1) * 4194304" unfolding a'_def by (rule next_table [OF assms(1)])
  then have "unat a' = 4096 * ((unat a div 4194304 + 1) * 1024)" by simp
  then show "page_aligned a'" by (simp only: page_aligned_def mod_mult_self1_is_0)
  show "a < a'" unfolding word_less_nat_alt u using dividend_less_div_times [of 4194304 "unat a"] by simp
qed

lemma uframe_addr_nonzero:
  assumes "valid_page kend (uframe m pgdir va)" "KERNBASE < kend"
  shows "PTE_ADDR (lookup_pte m pgdir va) \<noteq> 0"
proof
  assume "PTE_ADDR (lookup_pte m pgdir va) = 0"
  then have "kend \<le> KERNBASE" using assms(1) by (simp add: uframe_def valid_page_def P2V_def)
  then show False using assms(2) by simp
qed

lemma slot_present_nonzero:
  assumes "uvm_inv kend s pgdir xs" "pde_present (km_mem s) pgdir (PDX a)"
  shows "slot (ptab (km_mem s) pgdir (PDX a)) (PTX a) \<noteq> 0"
  using pt_wf_tab [OF uvm_wf [OF assms(1)] PDX_less assms(2)] slot_nonzero PTX_less by blast

text \<open>The three kinds of turn of the loop: a missing page table, an absent page, a present page.\<close>

lemma dealloc_gap:
  fixes a b :: u32
  assumes a: "a < b" "b \<le> KERNBASE" and gap: "\<not> pde_present (km_mem s) pgdir (PDX a)"
  defines "a' \<equiv> PGADDR (PDX a + 1) 0 0 - PGSIZE + PGSIZE"
  shows "deallocuvm_loop kend pgdir a b s = deallocuvm_loop kend pgdir a' b s"
    "unmapped_range kend pgdir a' b s xs s' ys \<Longrightarrow> unmapped_range kend pgdir a b s xs s' ys"
proof -
  have aK: "a < KERNBASE" using a by simp
  note j = low_table_step [OF aK, folded a'_def]
  show "deallocuvm_loop kend pgdir a b s = deallocuvm_loop kend pgdir a' b s"
    using a j(2) gap by (simp add: deallocuvm_loop.simps [of kend pgdir a] walkpgdir_absent Let_def a'_def)
  have "page_between a b va = page_between a' b va" if up: "upresent (km_mem s) pgdir va" for va
  proof
    show "page_between a' b va \<Longrightarrow> page_between a b va" using j(2) by (auto simp: page_between_def)
    show "page_between a' b va" if pb: "page_between a b va"
    proof (rule ccontr)
      assume "\<not> page_between a' b va"
      then have "lookup_pte (km_mem s) pgdir va = 0"
        unfolding a'_def by (rule page_between_jump [OF aK gap pb])
      then show False using up by (simp add: upresent_def)
    qed
  qed
  then show "unmapped_range kend pgdir a b s xs s' ys" if "unmapped_range kend pgdir a' b s xs s' ys"
    by (rule unmapped_range_skip [OF that])
qed

lemma dealloc_absent:
  assumes U: "uvm_inv kend s pgdir xs" and a: "page_aligned a" "a < b" "b \<le> KERNBASE"
    and abs: "pde_present (km_mem s) pgdir (PDX a)" "lookup_pte (km_mem s) pgdir a AND PTE_P = 0"
  shows "deallocuvm_loop kend pgdir a b s = deallocuvm_loop kend pgdir (a + PGSIZE) b s"
    "unmapped_range kend pgdir (a + PGSIZE) b s xs s' ys \<Longrightarrow> unmapped_range kend pgdir a b s xs s' ys"
proof -
  show "deallocuvm_loop kend pgdir a b s = deallocuvm_loop kend pgdir (a + PGSIZE) b s"
    using a abs slot_present_nonzero [OF U abs(1)] low_page_step [OF a(2,3)]
    by (simp add: deallocuvm_loop.simps [of kend pgdir a] walkpgdir_present Let_def lookup_pte_def)
  have "page_between a b va = page_between (a + PGSIZE) b va" if up: "upresent (km_mem s) pgdir va" for va
  proof -
    have "PGROUNDDOWN va \<noteq> a" using up abs(2) lookup_pte_page [of va a] a(1) by (auto simp: upresent_def)
    then show ?thesis using page_between_step [OF a] by simp
  qed
  then show "unmapped_range kend pgdir a b s xs s' ys" if "unmapped_range kend pgdir (a + PGSIZE) b s xs s' ys"
    by (rule unmapped_range_skip [OF that])
qed

lemma dealloc_page:
  assumes U: "uvm_inv kend s pgdir xs" and a: "page_aligned a" "a < b" "b \<le> KERNBASE" "KERNBASE < kend"
    and p: "pde_present (km_mem s) pgdir (PDX a)" "lookup_pte (km_mem s) pgdir a AND PTE_P \<noteq> 0"
  obtains s1 zs where "uvm_inv kend s1 pgdir zs"
    "deallocuvm_loop kend pgdir a b s = deallocuvm_loop kend pgdir (a + PGSIZE) b s1"
    "\<And>s' ys. unmapped_range kend pgdir (a + PGSIZE) b s1 zs s' ys \<Longrightarrow> unmapped_range kend pgdir a b s xs s' ys"
proof -
  have up: "upresent (km_mem s) pgdir a" using p a by (simp add: upresent_def)
  obtain s1 s2 where u: "kfree kend (uframe (km_mem s) pgdir a) s = Ok s1"
    "s2 = s1\<lparr>km_mem := st32 (km_mem s1) (slot (ptab (km_mem s) pgdir (PDX a)) (PTX a)) 0\<rparr>"
    "uvm_inv kend s2 pgdir (uframe (km_mem s) pgdir a # xs)"
    "\<And>va. lookup_pte (km_mem s2) pgdir va =
      (if PGROUNDDOWN va = PGROUNDDOWN a then 0 else lookup_pte (km_mem s) pgdir va)"
    "pt_pages (km_mem s2) pgdir = pt_pages (km_mem s) pgdir"
    "only_writes (insert (uframe (km_mem s) pgdir a) (pt_pages (km_mem s) pgdir)) (km_mem s) (km_mem s2)"
    by (rule unmap_page [OF U up]) blast
  have "PTE_ADDR (lookup_pte (km_mem s) pgdir a) \<noteq> 0"
    using uvm_inv_frame [OF U up] uframe_addr_nonzero a(4) by blast
  moreover have "lookup_pte (km_mem s) pgdir a = ld32 (km_mem s) (slot (ptab (km_mem s) pgdir (PDX a)) (PTX a))"
    using p(1) by (simp add: lookup_pte_def)
  ultimately have "deallocuvm_loop kend pgdir a b s = deallocuvm_loop kend pgdir (a + PGSIZE) b s2"
    using a p u(1,2) slot_present_nonzero [OF U p(1)] low_page_step [OF a(2,3)]
    by (simp add: deallocuvm_loop.simps [of kend pgdir a] walkpgdir_present Let_def uframe_def)
  then show thesis using u(3) unmapped_range_page [OF U up a(1-3) u(4-6)] that by blast
qed

lemma deallocuvm_loop_spec:
  assumes "uvm_inv kend s pgdir xs" "page_aligned a" "b \<le> KERNBASE" "KERNBASE < kend"
  shows "\<exists>s' ys. deallocuvm_loop kend pgdir a b s = Ok s' \<and> unmapped_range kend pgdir a b s xs s' ys"
  using assms
proof (induction "unat b - unat a" arbitrary: a s xs rule: less_induct)
  case less
  note prems = less.prems
  show ?case
  proof (cases "a < b")
    case False
    then have "b \<le> a" by simp
    then show ?thesis using unmapped_range_refl [OF prems(1)] False
      by (auto simp: deallocuvm_loop.simps [of kend pgdir a])
  next
    case True
    have aK: "a < KERNBASE" using True prems(3) by simp
    have dec: "unat b - unat a' < unat b - unat a" if "a < a'" for a'
      using that True by (simp add: word_less_nat_alt)
    note IH = less.hyps [OF dec _ _ prems(3,4)]
    note stp = low_page_step(2) [OF True prems(3)] aligned_PGSIZE [OF prems(2)]
    note jmp = low_table_step [OF aK]
    consider (gap) "\<not> pde_present (km_mem s) pgdir (PDX a)"
      | (absent) "pde_present (km_mem s) pgdir (PDX a)" "lookup_pte (km_mem s) pgdir a AND PTE_P = 0"
      | (page) "pde_present (km_mem s) pgdir (PDX a)" "lookup_pte (km_mem s) pgdir a AND PTE_P \<noteq> 0"
      by blast
    then show ?thesis
    proof cases
      case gap
      show ?thesis using IH [OF jmp(2) prems(1) jmp(1)] dealloc_gap [OF True prems(3) gap] by metis
    next
      case absent
      show ?thesis using IH [OF stp(1) prems(1) stp(2)] dealloc_absent [OF prems(1,2) True prems(3) absent]
        by metis
    next
      case page
      obtain s1 zs where s1: "uvm_inv kend s1 pgdir zs"
        "deallocuvm_loop kend pgdir a b s = deallocuvm_loop kend pgdir (a + PGSIZE) b s1"
        "\<And>s' ys. unmapped_range kend pgdir (a + PGSIZE) b s1 zs s' ys \<Longrightarrow> unmapped_range kend pgdir a b s xs s' ys"
        using dealloc_page [OF prems(1,2) True prems(3,4) page] by metis
      show ?thesis using IH [OF stp(1) s1(1) stp(2)] s1(2,3) by metis
    qed
  qed
qed

lemma range_frames_valid:
  assumes "uvm_inv kend s pgdir xs" "p \<in> range_frames (km_mem s) pgdir a b"
  shows "valid_page kend p" "p \<notin> pt_pages (km_mem s) pgdir" "p \<notin> set xs"
  using assms(2) uvm_inv_frame [OF assms(1)] unfolding range_frames_def by blast+

lemma unmapped_range_umem:
  assumes U: "uvm_inv kend s pgdir xs" and R: "unmapped_range kend pgdir a b s xs s' ys" and b: "b \<le> KERNBASE"
  shows "umem (km_mem s') pgdir va = (if page_between a b va then None else umem (km_mem s) pgdir va)"
proof -
  from R have L: "lookup_pte (km_mem s') pgdir va =
      (if upresent (km_mem s) pgdir va \<and> page_between a b va then 0 else lookup_pte (km_mem s) pgdir va)"
    and W: "only_writes (range_frames (km_mem s) pgdir a b \<union> pt_pages (km_mem s) pgdir) (km_mem s) (km_mem s')"
    unfolding unmapped_range_def by blast+
  show ?thesis
  proof (cases "page_between a b va")
    case True
    then show ?thesis using L by (auto simp: umem_def upresent_def)
  next
    case False
    have "umem (km_mem s') pgdir va = umem (km_mem s) pgdir va"
    proof (rule umem_kept [OF U W])
      show "\<forall>p\<in>range_frames (km_mem s) pgdir a b \<union> pt_pages (km_mem s) pgdir. page_aligned p"
        using range_frames_valid(1) [OF U] pt_pages_valid [OF uvm_wf [OF U]] valid_page_aligned by blast
      show "lookup_pte (km_mem s') pgdir va = lookup_pte (km_mem s) pgdir va" using L False by simp
      assume up: "upresent (km_mem s) pgdir va"
      have "uframe (km_mem s) pgdir va \<notin> range_frames (km_mem s) pgdir a b"
      proof
        assume "uframe (km_mem s) pgdir va \<in> range_frames (km_mem s) pgdir a b"
        then obtain v where "upresent (km_mem s) pgdir v" "page_between a b v"
          "uframe (km_mem s) pgdir va = uframe (km_mem s) pgdir v" unfolding range_frames_def by blast
        then have "PGROUNDDOWN va = PGROUNDDOWN v" "page_between a b v" using uvm_inv_inj [OF U up] by auto
        then show False using False by (simp add: page_between_def)
      qed
      then show "uframe (km_mem s) pgdir va \<notin> range_frames (km_mem s) pgdir a b \<union> pt_pages (km_mem s) pgdir"
        using uvm_inv_frame [OF U up] by simp
    qed
    then show ?thesis using False by simp
  qed
qed

lemma deallocuvm_spec:
  assumes "uvm_inv kend s pgdir xs" "oldsz \<le> KERNBASE" "KERNBASE < kend" "newsz < oldsz"
  obtains s' ys where "deallocuvm kend pgdir oldsz newsz s = Ok (newsz, s')" "uvm_inv kend s' pgdir ys"
    "\<And>va. umem (km_mem s') pgdir va =
       (if page_between (PGROUNDUP newsz) oldsz va then None else umem (km_mem s) pgdir va)"
    "set ys = set xs \<union> range_frames (km_mem s) pgdir (PGROUNDUP newsz) oldsz"
    "unmapped_range kend pgdir (PGROUNDUP newsz) oldsz s xs s' ys"
proof -
  obtain s' ys where r: "deallocuvm_loop kend pgdir (PGROUNDUP newsz) oldsz s = Ok s'"
    "unmapped_range kend pgdir (PGROUNDUP newsz) oldsz s xs s' ys"
    using deallocuvm_loop_spec [OF assms(1) PGROUNDUP_aligned assms(2,3)] by blast
  have "deallocuvm kend pgdir oldsz newsz s = Ok (newsz, s')" using r(1) assms(4) by (simp add: deallocuvm_def not_le [symmetric])
  moreover have "uvm_inv kend s' pgdir ys" "set ys = set xs \<union> range_frames (km_mem s) pgdir (PGROUNDUP newsz) oldsz"
    using r(2) unfolding unmapped_range_def by blast+
  ultimately show thesis using that unmapped_range_umem [OF assms(1) r(2) assms(2)] r(2) by blast
qed

section \<open>Growing\<close>

lemma uvm_inv_cong:
  assumes U: "uvm_inv kend s pgdir xs" and V: "vm_inv kend s' pgdir ys" and "set ys \<subseteq> set xs"
    and L: "\<And>va. lookup_pte (km_mem s') pgdir va = lookup_pte (km_mem s) pgdir va"
    and P: "pt_pages (km_mem s') pgdir = pt_pages (km_mem s) pgdir"
  shows "uvm_inv kend s' pgdir ys"
proof -
  have same: "upresent (km_mem s') pgdir = upresent (km_mem s) pgdir"
    "uframe (km_mem s') pgdir = uframe (km_mem s) pgdir"
    by (intro ext, simp add: upresent_def uframe_def L)+
  show ?thesis using U V assms(3) unfolding uvm_inv_def same P by blast
qed

lemma uvm_inv_page_write:
  assumes U: "uvm_inv kend s pgdir xs" and x: "valid_page kend x" "x \<notin> pt_pages (km_mem s) pgdir" "x \<notin> set xs"
    and w: "only_writes {x} (km_mem s) m'"
  shows "uvm_inv kend (s\<lparr>km_mem := m'\<rparr>) pgdir xs"
proof -
  note v = vm_inv_page_write [OF uvm_inv_vm [OF U] x w]
  show ?thesis by (rule uvm_inv_cong [OF U v(1)]) (simp_all add: v(2,3))
qed

text \<open>
  A page taken from the free list, filled by \<open>m'\<close> and mapped at \<open>a\<close>: either no memory is left for
  a page table, or the address space gains exactly that page.
\<close>

lemma map_fresh [consumes 6, case_names full entry]:
  assumes U: "uvm_inv kend s pgdir (x # ys)" and a: "page_aligned a"
    and free: "lookup_pte (km_mem s) pgdir a AND PTE_P = 0" and perm: "perm < 4096"
    and s1: "kalloc s = (x, s1)" and w: "only_writes {x} (km_mem s) m'"
  obtains (full) "ys = []" "mappages pgdir a PGSIZE (V2P x) perm (s1\<lparr>km_mem := m'\<rparr>) = Ok (-1, s1\<lparr>km_mem := m'\<rparr>)"
    "uvm_inv kend (s1\<lparr>km_mem := m'\<rparr>) pgdir []"
  | (entry) s' zs where "mappages pgdir a PGSIZE (V2P x) perm (s1\<lparr>km_mem := m'\<rparr>) = Ok (0, s')"
    "uvm_inv kend s' pgdir zs"
    "\<And>va. lookup_pte (km_mem s') pgdir va =
      (if PGROUNDDOWN va = a then V2P x OR (perm OR PTE_P) else lookup_pte (km_mem s) pgdir va)"
    "set zs \<subseteq> set ys" "pt_pages (km_mem s') pgdir \<subseteq> pt_pages (km_mem s) pgdir \<union> set ys"
    "only_writes (pt_pages (km_mem s) pgdir \<union> set (x # ys)) (km_mem s) (km_mem s')"
    "\<And>b. in_page x b \<Longrightarrow> km_mem s' b = m' b" "length ys \<le> length zs + 1"
proof -
  obtain s2 where k: "kalloc s = (x, s2)" "kmem_inv kend s2 ys" "km_mem s2 = km_mem s"
    "valid_page kend x" "x \<notin> set ys" using kalloc_Cons [OF uvm_kmem [OF U]] by metis
  have s2: "s2 = s1" using k(1) s1 by simp
  have xp: "x \<notin> pt_pages (km_mem s) pgdir" using uvm_disjoint [OF U] by simp
  have U1: "uvm_inv kend s1 pgdir ys"
  proof (rule uvm_inv_cong [OF U])
    show "vm_inv kend s1 pgdir ys" using U k(2,3) unfolding s2 uvm_inv_def vm_inv_def by auto
  qed (use k(3) s2 in auto)
  have m1: "km_mem s1 = km_mem s" using k(3) s2 by simp
  have w1: "only_writes {x} (km_mem s1) m'" using w m1 by simp
  note x1 = k(4) xp [folded m1] k(5)
  note v = vm_inv_page_write [OF uvm_inv_vm [OF U1] x1 w1, unfolded m1]
  let ?s = "s1\<lparr>km_mem := m'\<rparr>"
  have U2: "uvm_inv kend ?s pgdir ys" by (rule uvm_inv_page_write [OF U1 x1 w1])
  have free2: "lookup_pte (km_mem ?s) pgdir a AND PTE_P = 0" using free v(2) by simp
  from v(1) free2 show thesis
  proof (cases rule: mappages_turn [where pa = "V2P x" and perm = perm])
    case full
    then show thesis using that(1) U2 by (simp add: mappages_page [OF a])
  next
    case (entry s' zs)
    note sub = vm_ext_subset [OF entry(1)]
    have e: "P2V (PTE_ADDR (V2P x OR (perm OR PTE_P))) = x"
    proof -
      have "perm OR PTE_P < 4096"
      proof -
        have "take_bit 12 (perm OR PTE_P) = perm OR PTE_P"
          using perm by (simp add: take_bit_or small_take_bit PTE_P_def)
        then have "perm OR PTE_P = PTE_FLAGS (perm OR PTE_P)"
          by (simp add: PTE_FLAGS_def mask12 take_bit_eq_mask)
        then show ?thesis using PTE_FLAGS_less by metis
      qed
      then show ?thesis using k(4) by (simp add: PTE_ADDR_or V2P_aligned valid_page_aligned)
    qed
    have L: "lookup_pte (km_mem s') pgdir va =
      (if PGROUNDDOWN va = a then V2P x OR (perm OR PTE_P) else lookup_pte (km_mem s) pgdir va)" for va
      using entry(2) [of va] v(2) a by (simp add: or.assoc)
    have x': "x \<notin> pt_pages (km_mem s') pgdir" using sub xp k(5) v(3) by auto
    have P: "pt_pages (km_mem s') pgdir \<subseteq> pt_pages (km_mem s) pgdir \<union> set ys" using sub v(3) by simp
    have "only_writes (pt_pages m' pgdir \<union> set ys) m' (km_mem s')" using vm_ext_writes [OF entry(1)] by simp
    then have W: "only_writes (pt_pages (km_mem s) pgdir \<union> set (x # ys)) (km_mem s) (km_mem s')"
      by (rule only_writes_trans [OF w]) (auto simp: v(3))
    have "uvm_inv kend s' pgdir zs"
      using P sub x' k(5) by (intro uvm_inv_map [OF U vm_ext_inv [OF entry(1)] L _ _ e]) auto
    moreover have "km_mem s' b = m' b" if b: "in_page x b" for b
    proof -
      have "\<not> in_page p b" if p: "p \<in> pt_pages (km_mem s') pgdir" for p
        using pt_pages_valid [OF _ p, of kend] vm_ext_inv [OF entry(1)] x' p b k(4) valid_page_disjoint
        unfolding vm_inv_def by metis
      then show ?thesis using entry(1) unfolding vm_ext_def by simp
    qed
    ultimately show thesis using that(2) [of s' zs] L P W sub entry(3,5) by (simp add: mappages_page [OF a])
  qed
qed

text \<open>
  \<open>grown\<close>: \<open>k\<close> zeroed user pages have been added from \<open>a\<close> on, with frames from the free list; the
  rest of the address space is as it was.
\<close>

definition in_pages :: "u32 \<Rightarrow> nat \<Rightarrow> u32 \<Rightarrow> bool" where
  "in_pages a k va \<longleftrightarrow> unat (PGROUNDDOWN va - a) < 4096 * k"

definition grown :: "u32 \<Rightarrow> u32 \<Rightarrow> u32 \<Rightarrow> nat \<Rightarrow> kmem \<Rightarrow> u32 list \<Rightarrow> kmem \<Rightarrow> u32 list \<Rightarrow> bool" where
  "grown kend pgdir a k s xs s' ys \<longleftrightarrow> uvm_inv kend s' pgdir ys \<and> set ys \<subseteq> set xs \<and>
     length xs \<le> length ys + 2 * k \<and>
     pt_pages (km_mem s') pgdir \<subseteq> pt_pages (km_mem s) pgdir \<union> set xs \<and>
     only_writes (pt_pages (km_mem s) pgdir \<union> set xs) (km_mem s) (km_mem s') \<and>
     (\<forall>va. \<not> in_pages a k va \<longrightarrow> lookup_pte (km_mem s') pgdir va = lookup_pte (km_mem s) pgdir va) \<and>
     (\<forall>va. in_pages a k va \<longrightarrow> PTE_FLAGS (lookup_pte (km_mem s') pgdir va) = PTE_W OR PTE_U OR PTE_P \<and>
        uframe (km_mem s') pgdir va \<in> set xs \<and>
        (\<forall>b. in_page (uframe (km_mem s') pgdir va) b \<longrightarrow> km_mem s' b = 0))"

lemma grown_refl: "uvm_inv kend s pgdir xs \<Longrightarrow> grown kend pgdir a 0 s xs s xs"
  by (auto simp: grown_def in_pages_def only_writes_refl)

lemma in_pages_Suc:
  assumes "page_aligned a" "k < 2 ^ 20"
  shows "in_pages a (Suc k) va \<longleftrightarrow> in_pages a k va \<or> PGROUNDDOWN va = a + of_nat k * PGSIZE"
proof -
  obtain i where i: "unat (PGROUNDDOWN va - a) = 4096 * i"
    using page_aligned_diff [OF PGROUNDDOWN_aligned assms(1)] by (auto simp: page_aligned_def)
  have ku: "unat (of_nat k * PGSIZE) = 4096 * k"
    using assms(2) by (simp add: PGSIZE_def unat_word_ariths unat_of_nat)
  have "PGROUNDDOWN va = a + of_nat k * PGSIZE \<longleftrightarrow> PGROUNDDOWN va - a = of_nat k * PGSIZE"
    by (auto simp: algebra_simps)
  also have "\<dots> \<longleftrightarrow> i = k" unfolding word_unat_eq_iff i ku by simp
  finally show ?thesis by (auto simp: in_pages_def i less_Suc_eq)
qed

lemma PTE_FLAGS_user: "page_aligned x \<Longrightarrow> PTE_FLAGS (V2P x OR (PTE_W OR PTE_U OR PTE_P)) = PTE_W OR PTE_U OR PTE_P"
  by (rule PTE_FLAGS_or) (simp_all add: V2P_aligned PTE_W_def PTE_U_def PTE_P_def)

lemma PTE_ADDR_user: "page_aligned x \<Longrightarrow> PTE_ADDR (V2P x OR (PTE_W OR PTE_U OR PTE_P)) = V2P x"
  by (rule PTE_ADDR_or) (simp_all add: V2P_aligned PTE_W_def PTE_U_def PTE_P_def)

lemma grown_step:
  assumes G: "grown kend pgdir a k s0 xs0 s (x # ys)" and a: "page_aligned a" "k < 2 ^ 20"
    and U: "uvm_inv kend s' pgdir zs"
    and L: "\<And>va. lookup_pte (km_mem s') pgdir va =
      (if PGROUNDDOWN va = a + of_nat k * PGSIZE then V2P x OR (PTE_W OR PTE_U OR PTE_P)
       else lookup_pte (km_mem s) pgdir va)"
    and sub: "set zs \<subseteq> set ys" "pt_pages (km_mem s') pgdir \<subseteq> pt_pages (km_mem s) pgdir \<union> set ys"
    and W: "only_writes (pt_pages (km_mem s) pgdir \<union> set (x # ys)) (km_mem s) (km_mem s')"
    and z: "\<And>b. in_page x b \<Longrightarrow> km_mem s' b = 0"
    and low: "\<And>va. in_pages a k va \<Longrightarrow> upresent (km_mem s) pgdir va"
    and len: "length ys \<le> length zs + 1"
  shows "grown kend pgdir a (Suc k) s0 xs0 s' zs"
proof -
  from G have G1: "uvm_inv kend s pgdir (x # ys)" "set (x # ys) \<subseteq> set xs0"
    "pt_pages (km_mem s) pgdir \<subseteq> pt_pages (km_mem s0) pgdir \<union> set xs0"
    "only_writes (pt_pages (km_mem s0) pgdir \<union> set xs0) (km_mem s0) (km_mem s)"
    "length xs0 \<le> length (x # ys) + 2 * k"
    and G2: "\<And>va. \<not> in_pages a k va \<Longrightarrow> lookup_pte (km_mem s) pgdir va = lookup_pte (km_mem s0) pgdir va"
    and G3: "\<And>va. in_pages a k va \<Longrightarrow> PTE_FLAGS (lookup_pte (km_mem s) pgdir va) = PTE_W OR PTE_U OR PTE_P \<and>
        uframe (km_mem s) pgdir va \<in> set xs0 \<and>
        (\<forall>b. in_page (uframe (km_mem s) pgdir va) b \<longrightarrow> km_mem s b = 0)"
    unfolding grown_def by blast+
  have x: "page_aligned x" using kmem_inv_valid [OF uvm_kmem [OF G1(1)]] by auto
  note S = in_pages_Suc [OF a]
  have "PTE_FLAGS (lookup_pte (km_mem s') pgdir va) = PTE_W OR PTE_U OR PTE_P \<and>
      uframe (km_mem s') pgdir va \<in> set xs0 \<and>
      (\<forall>b. in_page (uframe (km_mem s') pgdir va) b \<longrightarrow> km_mem s' b = 0)" if i: "in_pages a (Suc k) va" for va
  proof (cases "PGROUNDDOWN va = a + of_nat k * PGSIZE")
    case True
    then have "uframe (km_mem s') pgdir va = x" using PTE_ADDR_user [OF x] by (simp add: uframe_def L)
    then show ?thesis using True PTE_FLAGS_user [OF x] G1(2) z by (simp add: L)
  next
    case False
    then have k: "in_pages a k va" using i S by simp
    let ?f = "uframe (km_mem s) pgdir va"
    have f: "uframe (km_mem s') pgdir va = ?f" using False by (simp add: uframe_def L)
    have fx: "valid_page kend ?f" "?f \<notin> pt_pages (km_mem s) pgdir \<union> set (x # ys)"
      using uvm_inv_frame [OF G1(1) low [OF k]] by auto
    have "\<forall>p\<in>pt_pages (km_mem s) pgdir \<union> set (x # ys). page_aligned p"
      using pt_pages_valid [OF uvm_wf [OF G1(1)]] kmem_inv_valid [OF uvm_kmem [OF G1(1)]]
        valid_page_aligned by blast
    then have "km_mem s' b = km_mem s b" if "in_page ?f b" for b
      using only_writes_page [OF W _ _ fx(2) that] fx(1) valid_page_aligned by blast
    then show ?thesis using G3 [OF k] False f by (simp add: L)
  qed
  moreover have "lookup_pte (km_mem s') pgdir va = lookup_pte (km_mem s0) pgdir va" if "\<not> in_pages a (Suc k) va" for va
    using that S G2 by (simp add: L)
  moreover have "only_writes (pt_pages (km_mem s0) pgdir \<union> set xs0) (km_mem s0) (km_mem s')"
    using G1(2,3) by (intro only_writes_trans [OF G1(4) W]) auto
  moreover have "length xs0 \<le> length zs + 2 * Suc k" using G1(5) len by simp
  ultimately show ?thesis using U sub G1(2,3) unfolding grown_def by (intro conjI) auto
qed

lemma PTE_FLAGS_present: "PTE_FLAGS e AND PTE_P = e AND PTE_P"
proof -
  have "(0xFFF :: u32) AND 1 = 1" by simp
  then show ?thesis by (simp add: PTE_FLAGS_def PTE_P_def and.assoc)
qed

text \<open>Pages counted from a page-aligned start, and the same pages as an interval of addresses.\<close>

lemma in_pages_low:
  assumes "in_pages a k va" "page_aligned a" "unat a + 4096 * k \<le> 2 ^ 31"
  shows "va < KERNBASE"
proof -
  have "unat (PGROUNDDOWN va - a) < 4096 * k" using assms(1) by (simp add: in_pages_def)
  moreover have "unat (a + (PGROUNDDOWN va - a)) = unat a + unat (PGROUNDDOWN va - a)"
    using calculation assms(3) by (intro unat_add_lem [THEN iffD1]) simp
  ultimately have "PGROUNDDOWN va < KERNBASE" using assms(3) by (simp add: word_less_nat_alt KERNBASE_def)
  then show ?thesis using same_page_user [of "PGROUNDDOWN va" va] PGROUNDDOWN_aligned by simp
qed

lemma in_pages_between:
  assumes a: "page_aligned a" "unat a \<le> 2 ^ 31" and b: "b \<le> KERNBASE"
  shows "in_pages a (pages_between a b) va \<longleftrightarrow> page_between a b va"
proof -
  let ?p = "PGROUNDDOWN va"
  obtain i where i: "unat (?p - a) = 4096 * i"
    using page_aligned_diff [OF PGROUNDDOWN_aligned a(1)] by (auto simp: page_aligned_def)
  have bK: "unat b \<le> 2 ^ 31" using b by (simp add: word_le_nat_alt KERNBASE_def)
  have N: "pages_between a b * 4096 \<le> unat b + 4095 - unat a" "unat b + 4095 - unat a < pages_between a b * 4096 + 4096"
    using round_4096 [of "unat b + 4095 - unat a"] by (simp_all add: pages_between_def)
  have inp: "in_pages a (pages_between a b) va \<longleftrightarrow> i < pages_between a b" by (simp add: in_pages_def i)
  show ?thesis
  proof (cases "a \<le> ?p")
    case True
    then have u: "unat ?p = unat a + 4096 * i" using i by (simp add: unat_sub word_le_nat_alt)
    then have "?p < b \<longleftrightarrow> unat a + 4096 * i < unat b" by (simp add: word_less_nat_alt)
    also have "\<dots> \<longleftrightarrow> i < pages_between a b" using N by linarith
    finally show ?thesis using True inp by (simp add: page_between_def)
  next
    case False
    then have "unat (?p - a) = 2 ^ 32 - (unat a - unat ?p)" by (intro unat_diff_wrap) simp
    then have "4096 * i \<ge> 2 ^ 31" using i a(2) by simp
    then have "\<not> i < pages_between a b" using N(1) bK by linarith
    then show ?thesis using False inp by (simp add: page_between_def)
  qed
qed

lemma grown_present:
  assumes G: "grown kend pgdir a k s xs s' ys" and a: "page_aligned a" "unat a + 4096 * k \<le> 2 ^ 31"
    and i: "in_pages a k va"
  shows "upresent (km_mem s') pgdir va"
proof -
  have "PTE_FLAGS (lookup_pte (km_mem s') pgdir va) = PTE_W OR PTE_U OR PTE_P"
    using G i unfolding grown_def by blast
  then have "lookup_pte (km_mem s') pgdir va AND PTE_P = (PTE_W OR PTE_U OR PTE_P) AND PTE_P"
    using PTE_FLAGS_present [of "lookup_pte (km_mem s') pgdir va"] by simp
  then show ?thesis using in_pages_low [OF i a] by (simp add: upresent_def PTE_W_def PTE_U_def PTE_P_def)
qed

lemma grown_umem:
  assumes U: "uvm_inv kend s pgdir xs" and G: "grown kend pgdir a k s xs s' ys"
    and a: "page_aligned a" "unat a + 4096 * k \<le> 2 ^ 31"
  shows "umem (km_mem s') pgdir va = (if in_pages a k va then Some 0 else umem (km_mem s) pgdir va)"
proof (cases "in_pages a k va")
  case True
  have p: "upresent (km_mem s') pgdir va" by (rule grown_present [OF G a True])
  have U': "uvm_inv kend s' pgdir ys" and z: "\<And>b. in_page (uframe (km_mem s') pgdir va) b \<Longrightarrow> km_mem s' b = 0"
    using G True unfolding grown_def by blast+
  have "page_aligned (uframe (km_mem s') pgdir va)" using uvm_inv_frame [OF U' p] by auto
  then show ?thesis using p True z [OF offset_in_page] by (simp add: umem_def)
next
  case False
  from G have W: "only_writes (pt_pages (km_mem s) pgdir \<union> set xs) (km_mem s) (km_mem s')"
    and L: "lookup_pte (km_mem s') pgdir va = lookup_pte (km_mem s) pgdir va"
    using False unfolding grown_def by blast+
  have "umem (km_mem s') pgdir va = umem (km_mem s) pgdir va"
  proof (rule umem_kept [OF U W _ L])
    show "\<forall>p\<in>pt_pages (km_mem s) pgdir \<union> set xs. page_aligned p"
      using pt_pages_valid [OF uvm_wf [OF U]] kmem_inv_valid [OF uvm_kmem [OF U]] valid_page_aligned by blast
  qed (use uvm_inv_frame [OF U] in blast)
  then show ?thesis using False by simp
qed

text \<open>Freeing a page that belongs to nobody keeps an address space as it is.\<close>

lemma kfree_uvm:
  assumes U: "uvm_inv kend s pgdir xs" and x: "valid_page kend x" "x \<notin> pt_pages (km_mem s) pgdir"
    "x \<notin> set xs" "x \<notin> uframes (km_mem s) pgdir"
  obtains s' where "kfree kend x s = Ok s'" "uvm_inv kend s' pgdir (x # xs)"
    "umem (km_mem s') pgdir = umem (km_mem s) pgdir" "only_writes {x} (km_mem s) (km_mem s')"
proof -
  obtain s' where k: "kfree kend x s = Ok s'" "kmem_inv kend s' (x # xs)"
    and w0: "\<And>a. \<not> in_page x a \<Longrightarrow> km_mem s' a = km_mem s a"
    using kfree_inv [OF uvm_kmem [OF U] x(1,3)] by metis
  have w: "only_writes {x} (km_mem s) (km_mem s')" using w0 by (simp add: only_writes_def)
  note v = vm_inv_page_write [OF uvm_inv_vm [OF U] x(1-3) w]
  have same: "upresent (km_mem s') pgdir = upresent (km_mem s) pgdir"
    "uframe (km_mem s') pgdir = uframe (km_mem s) pgdir"
    by (intro ext, simp add: upresent_def uframe_def v(2))+
  have "vm_inv kend s' pgdir (x # xs)"
    using v(1,3) k(2) x(2) by (auto simp: vm_inv_def)
  moreover have "uframe (km_mem s) pgdir va \<noteq> x" if "upresent (km_mem s) pgdir va" for va
    using that x(4) unfolding uframes_def by blast
  ultimately have "uvm_inv kend s' pgdir (x # xs)"
    using U unfolding uvm_inv_def same v(3) set_simps by blast
  moreover have "umem (km_mem s') pgdir va = umem (km_mem s) pgdir va" for va
    by (rule umem_kept [OF U w _ v(2)]) (use x in \<open>auto simp: uframes_def\<close>)
  ultimately show thesis using that k(1) w by blast
qed

text \<open>A failed \<^verbatim>\<open>allocuvm\<close> gives back what it mapped: the process sees the memory it had.\<close>

lemma alloc_undo:
  assumes U: "uvm_inv kend s pgdir xs" and kend: "KERNBASE < kend"
    and sz: "oldsz < newsz" "newsz < KERNBASE" and k: "k \<le> pages_between (PGROUNDUP oldsz) newsz"
    and M: "\<And>va. umem (km_mem s) pgdir va = (if in_pages (PGROUNDUP oldsz) k va then Some 0 else M0 va)"
    and none: "\<And>va. page_between (PGROUNDUP oldsz) newsz va \<Longrightarrow> M0 va = None"
  obtains s' ys where "deallocuvm kend pgdir newsz oldsz s = Ok (oldsz, s')" "uvm_inv kend s' pgdir ys"
    "umem (km_mem s') pgdir = M0" "unmapped_range kend pgdir (PGROUNDUP oldsz) newsz s xs s' ys"
proof -
  have le: "newsz \<le> KERNBASE" using sz(2) by simp
  have old: "unat oldsz < 2 ^ 31" using sz by (simp add: word_less_nat_alt KERNBASE_def)
  have a: "unat (PGROUNDUP oldsz) \<le> 2 ^ 31"
  proof -
    have "unat (PGROUNDUP oldsz) = (unat oldsz + 4095) div 4096 * 4096" using old by (intro PGROUNDUP_unat) simp
    moreover have "(unat oldsz + 4095) div 4096 \<le> (2 ^ 31 - 1 + 4095) div 4096" using old by (intro div_le_mono) simp
    ultimately show ?thesis by simp
  qed
  obtain s' ys where r: "deallocuvm kend pgdir newsz oldsz s = Ok (oldsz, s')" "uvm_inv kend s' pgdir ys"
    "\<And>va. umem (km_mem s') pgdir va =
       (if page_between (PGROUNDUP oldsz) newsz va then None else umem (km_mem s) pgdir va)"
    "unmapped_range kend pgdir (PGROUNDUP oldsz) newsz s xs s' ys"
    using deallocuvm_spec [OF U le kend sz(1)] by metis
  have "umem (km_mem s') pgdir va = M0 va" for va
  proof (cases "page_between (PGROUNDUP oldsz) newsz va")
    case False
    then have "\<not> in_pages (PGROUNDUP oldsz) (pages_between (PGROUNDUP oldsz) newsz) va"
      using in_pages_between [OF PGROUNDUP_aligned a le] by blast
    then have "\<not> in_pages (PGROUNDUP oldsz) k va" using k by (simp add: in_pages_def)
    then show ?thesis using r(3) M False by simp
  qed (simp add: r(3) none)
  then show thesis using that r by blast
qed

lemma memset_page_writes: "only_writes {x} m (memset m x c PGSIZE)"
  by (simp add: only_writes_def memset_apply in_page_PGSIZE)

lemma user_perm_less: "PTE_W OR PTE_U < 4096"
  by (simp add: PTE_W_def PTE_U_def)

lemma PGROUNDUP_low:
  assumes "oldsz < KERNBASE"
  shows "unat (PGROUNDUP oldsz) \<le> 2 ^ 31" "oldsz \<le> PGROUNDUP oldsz"
proof -
  have old: "unat oldsz < 2 ^ 31" using assms by (simp add: word_less_nat_alt KERNBASE_def)
  have u: "unat (PGROUNDUP oldsz) = (unat oldsz + 4095) div 4096 * 4096" using old by (intro PGROUNDUP_unat) simp
  moreover have "(unat oldsz + 4095) div 4096 \<le> (2 ^ 31 - 1 + 4095) div 4096" using old by (intro div_le_mono) simp
  ultimately show "unat (PGROUNDUP oldsz) \<le> 2 ^ 31" by simp
  show "oldsz \<le> PGROUNDUP oldsz"
    unfolding word_le_nat_alt u using round_4096(2) [of "unat oldsz + 4095"] by linarith
qed

lemma pages_between_bound:
  assumes "oldsz < KERNBASE" "newsz < KERNBASE"
  shows "unat (PGROUNDUP oldsz) + 4096 * pages_between (PGROUNDUP oldsz) newsz \<le> 2 ^ 31"
proof -
  obtain i where i: "unat (PGROUNDUP oldsz) = 4096 * i"
    using PGROUNDUP_aligned [of oldsz] by (auto simp: page_aligned_def)
  have n: "unat newsz < 2 ^ 31" using assms(2) by (simp add: word_less_nat_alt KERNBASE_def)
  have "unat (PGROUNDUP oldsz) \<le> 2 ^ 31" by (rule PGROUNDUP_low [OF assms(1)])
  moreover have "4096 * pages_between (PGROUNDUP oldsz) newsz \<le> unat newsz + 4095 - 4096 * i"
    using round_4096(1) [of "unat newsz + 4095 - 4096 * i"] by (simp add: pages_between_def i)
  ultimately have "4096 * (i + pages_between (PGROUNDUP oldsz) newsz) < 4096 * (2 ^ 19 + 1)"
    using n i by (cases "4096 * i \<le> unat newsz + 4095") auto
  then have "i + pages_between (PGROUNDUP oldsz) newsz < 2 ^ 19 + 1"
    unfolding mult_less_cancel1 by simp
  then show ?thesis using i by simp
qed

lemma in_pages_next:
  assumes "page_aligned a" "k < 2 ^ 20"
  shows "\<not> in_pages a k (a + of_nat k * PGSIZE)" "in_pages a (Suc k) (a + of_nat k * PGSIZE)"
    "page_aligned (a + of_nat k * PGSIZE)"
proof -
  have ku: "unat (of_nat k * PGSIZE) = 4096 * k"
    using assms(2) by (simp add: PGSIZE_def unat_word_ariths unat_of_nat)
  then have "page_aligned (of_nat k * PGSIZE)" by (simp add: page_aligned_def)
  then show al: "page_aligned (a + of_nat k * PGSIZE)" using assms(1) by (intro page_aligned_add)
  show "\<not> in_pages a k (a + of_nat k * PGSIZE)" "in_pages a (Suc k) (a + of_nat k * PGSIZE)"
    using al ku by (simp_all add: in_pages_def)
qed

lemma unmapped_uframes:
  assumes "unmapped_range kend pgdir a b s xs s' ys"
  shows "uframes (km_mem s') pgdir \<subseteq> uframes (km_mem s) pgdir"
    "range_frames (km_mem s) pgdir a b \<subseteq> uframes (km_mem s) pgdir"
proof -
  from assms have L: "\<And>va. lookup_pte (km_mem s') pgdir va =
      (if upresent (km_mem s) pgdir va \<and> page_between a b va then 0 else lookup_pte (km_mem s) pgdir va)"
    unfolding unmapped_range_def by blast
  have "upresent (km_mem s) pgdir va \<and> uframe (km_mem s') pgdir va = uframe (km_mem s) pgdir va"
    if "upresent (km_mem s') pgdir va" for va
    using that by (auto simp: upresent_def uframe_def L split: if_splits)
  then show "uframes (km_mem s') pgdir \<subseteq> uframes (km_mem s) pgdir" unfolding uframes_def by force
  show "range_frames (km_mem s) pgdir a b \<subseteq> uframes (km_mem s) pgdir"
    unfolding range_frames_def uframes_def by blast
qed

text \<open>Filling a page from the free list is invisible to the process.\<close>

lemma fresh_write:
  assumes U: "uvm_inv kend s pgdir (x # ys)" and w: "only_writes {x} (km_mem s) m'" and s1: "km_mem s1 = m'"
  shows "x \<notin> pt_pages (km_mem s1) pgdir" "umem (km_mem s1) pgdir = umem (km_mem s) pgdir"
    "x \<notin> uframes (km_mem s1) pgdir"
proof -
  have x: "valid_page kend x" "x \<notin> pt_pages (km_mem s) pgdir"
    using kmem_inv_valid [OF uvm_kmem [OF U]] uvm_disjoint [OF U] by auto
  have xa: "page_aligned x" using x(1) by auto
  have fr: "m' b = km_mem s b" if "valid_page kend p" "p \<noteq> x" "in_page p b" for p b
    using only_writes_page [OF w _ _ _ that(3)] that xa by auto
  have pt: "pt_pages m' pgdir = pt_pages (km_mem s) pgdir"
    by (rule pt_frame_dir(2)) (use fr [OF pt_wf_dir [OF uvm_wf [OF U]]] x(2) in \<open>auto simp: pt_pages_def\<close>)
  have L: "lookup_pte m' pgdir va = lookup_pte (km_mem s) pgdir va" for va
    by (rule lookup_pte_frame) (use fr pt_pages_valid [OF uvm_wf [OF U]] x(2) in blast)
  show "x \<notin> pt_pages (km_mem s1) pgdir" using x(2) pt s1 by simp
  have "umem m' pgdir va = umem (km_mem s) pgdir va" for va
    by (rule umem_kept [OF U w _ L]) (use xa uvm_inv_frame [OF U] in auto)
  then show "umem (km_mem s1) pgdir = umem (km_mem s) pgdir" using s1 by (intro ext) simp
  have "uframe m' pgdir va \<noteq> x" if "upresent m' pgdir va" for va
    using uvm_inv_frame [OF U, of va] that by (simp add: upresent_def uframe_def L)
  then show "x \<notin> uframes (km_mem s1) pgdir" using s1 unfolding uframes_def by blast
qed

lemma allocuvm_loop_spec:
  assumes U0: "uvm_inv kend s0 pgdir xs0" and kend: "KERNBASE < kend"
    and sz: "oldsz \<le> newsz" "newsz < KERNBASE"
  defines "a \<equiv> PGROUNDUP oldsz" and "N \<equiv> pages_between (PGROUNDUP oldsz) newsz"
  assumes free: "\<And>va. in_pages a N va \<Longrightarrow> lookup_pte (km_mem s0) pgdir va AND PTE_P = 0"
    and G: "grown kend pgdir a k s0 xs0 s xs" and n: "k + n = N"
  shows "\<exists>r s' ys. allocuvm_loop kend pgdir n (a + of_nat k * PGSIZE) oldsz newsz s = Ok (r, s') \<and>
    (r = newsz \<and> grown kend pgdir a N s0 xs0 s' ys \<or>
     r = 0 \<and> length xs0 < 2 * N \<and> uvm_inv kend s' pgdir ys \<and> umem (km_mem s') pgdir = umem (km_mem s0) pgdir)"
  using G n
proof (induction n arbitrary: k s xs)
  case 0
  then show ?case by auto
next
  case (Suc n)
  have al: "page_aligned a" by (simp add: a_def PGROUNDUP_aligned)
  have oK: "oldsz < KERNBASE" using sz by simp
  have bnd: "unat a + 4096 * N \<le> 2 ^ 31" unfolding a_def N_def by (rule pages_between_bound [OF oK sz(2)])
  have k: "k \<le> N" "k < 2 ^ 20" "unat a + 4096 * k \<le> 2 ^ 31" using Suc.prems(2) bnd by auto
  have "0 < N" using Suc.prems(2) by simp
  then have lt: "oldsz < newsz"
    using PGROUNDUP_low(2) [OF oK] by (auto simp: N_def pages_between_def word_less_nat_alt word_le_nat_alt div_greater_zero_iff)
  note nx = in_pages_next [OF al k(2)]
  let ?p = "a + of_nat k * PGSIZE"
  have U: "uvm_inv kend s pgdir xs" and L: "lookup_pte (km_mem s) pgdir ?p = lookup_pte (km_mem s0) pgdir ?p"
    and len: "length xs0 \<le> length xs + 2 * k"
    using Suc.prems(1) nx(1) unfolding grown_def by blast+
  have "in_pages a N ?p" using nx(2) Suc.prems(2) by (simp add: in_pages_def)
  then have np: "lookup_pte (km_mem s) pgdir ?p AND PTE_P = 0" using free L by simp
  have M: "umem (km_mem s) pgdir va = (if in_pages a k va then Some 0 else umem (km_mem s0) pgdir va)" for va
    by (rule grown_umem [OF U0 Suc.prems(1) al k(3)])
  have none: "umem (km_mem s0) pgdir va = None" if "page_between a newsz va" for va
    using that free in_pages_between [of a newsz va] al PGROUNDUP_low(1) [OF oK] sz(2)
    by (simp add: umem_def upresent_def N_def a_def)
  note undo = alloc_undo [OF _ kend lt sz(2) k(1) [unfolded N_def], folded a_def, OF _ _ none]
  show ?case
  proof (cases xs)
    case Nil
    obtain s' ys where "deallocuvm kend pgdir newsz oldsz s = Ok (oldsz, s')" "uvm_inv kend s' pgdir ys"
      "umem (km_mem s') pgdir = umem (km_mem s0) pgdir"
      using undo [OF U M] by metis
    moreover have "kalloc s = (0, s)" using kalloc_empty uvm_kmem [OF U] Nil by blast
    moreover have "length xs0 < 2 * N" using len Nil Suc.prems(2) by simp
    ultimately show ?thesis by auto
  next
    case (Cons x ys)
    note U1 = U [unfolded Cons]
    obtain s1 where s1: "kalloc s = (x, s1)" "km_mem s1 = km_mem s" "x \<noteq> 0" "valid_page kend x"
      using kalloc_Cons [OF uvm_kmem [OF U1]] by metis
    let ?m = "memset (km_mem s1) x 0 PGSIZE"
    have w: "only_writes {x} (km_mem s) ?m" using memset_page_writes s1(2) by simp
    from U1 nx(3) np user_perm_less s1(1) w show ?thesis
    proof (cases rule: map_fresh)
      case full
      let ?s = "s1\<lparr>km_mem := ?m\<rparr>"
      note fw = fresh_write [OF U1 w, of ?s, simplified]
      obtain s3 ys3 where d: "deallocuvm kend pgdir newsz oldsz ?s = Ok (oldsz, s3)" "uvm_inv kend s3 pgdir ys3"
        "umem (km_mem s3) pgdir = umem (km_mem s0) pgdir" "unmapped_range kend pgdir a newsz ?s [] s3 ys3"
        by (rule undo [OF full(3)]) (simp add: fw(2) M)
      have d4: "pt_pages (km_mem s3) pgdir = pt_pages ?m pgdir" "set ys3 = range_frames ?m pgdir a newsz"
        using d(4) unfolding unmapped_range_def by simp_all
      have x3: "x \<notin> pt_pages (km_mem s3) pgdir" "x \<notin> set ys3" "x \<notin> uframes (km_mem s3) pgdir"
        using d4 unmapped_uframes [OF d(4)] fw(1,3) by auto
      obtain s4 where "kfree kend x s3 = Ok s4" "uvm_inv kend s4 pgdir (x # ys3)"
        "umem (km_mem s4) pgdir = umem (km_mem s3) pgdir"
        using kfree_uvm [OF d(2) s1(4) x3] by metis
      moreover have "length xs0 < 2 * N" using len Cons full(1) Suc.prems(2) by simp
      ultimately show ?thesis using s1(1,3) full(2) d(1,3) by (intro exI [of _ 0] exI [of _ s4]) auto
    next
      case (entry s' zs)
      have z: "km_mem s' b = 0" if "in_page x b" for b
        using entry(7) [OF that] that by (simp add: memset_apply in_page_PGSIZE)
      have low: "upresent (km_mem s) pgdir va" if "in_pages a k va" for va
        using grown_present [OF Suc.prems(1) al k(3) that] .
      have "grown kend pgdir a (Suc k) s0 xs0 s' zs"
        using grown_step [OF Suc.prems(1) [unfolded Cons] al k(2) entry(2) _ entry(4-6) z low entry(8)] entry(3)
        by (simp add: or.assoc)
      from Suc.IH [OF this] Suc.prems(2) entry(1) s1 show ?thesis by (simp add: algebra_simps)
    qed
  qed
qed

lemma allocuvm_spec:
  assumes U: "uvm_inv kend s pgdir xs" and kend: "KERNBASE < kend"
    and sz: "oldsz \<le> newsz" "newsz < KERNBASE"
    and free: "\<forall>va. page_between (PGROUNDUP oldsz) newsz va \<longrightarrow> umem (km_mem s) pgdir va = None"
  obtains (grown) s' ys where "allocuvm kend pgdir oldsz newsz s = Ok (newsz, s')" "uvm_inv kend s' pgdir ys"
    "grown kend pgdir (PGROUNDUP oldsz) (pages_between (PGROUNDUP oldsz) newsz) s xs s' ys"
    "\<And>va. umem (km_mem s') pgdir va =
       (if page_between (PGROUNDUP oldsz) newsz va then Some 0 else umem (km_mem s) pgdir va)"
  | (failed) s' ys where "allocuvm kend pgdir oldsz newsz s = Ok (0, s')" "uvm_inv kend s' pgdir ys"
    "umem (km_mem s') pgdir = umem (km_mem s) pgdir"
    "length xs < 2 * pages_between (PGROUNDUP oldsz) newsz"
proof -
  let ?a = "PGROUNDUP oldsz" and ?N = "pages_between (PGROUNDUP oldsz) newsz"
  have oK: "oldsz < KERNBASE" using sz by simp
  have btw: "in_pages ?a ?N va \<longleftrightarrow> page_between ?a newsz va" for va
    using in_pages_between [OF PGROUNDUP_aligned PGROUNDUP_low(1) [OF oK]] sz(2) by simp
  have fr: "lookup_pte (km_mem s) pgdir va AND PTE_P = 0" if i: "in_pages ?a ?N va" for va
    using i btw free in_pages_low [OF i PGROUNDUP_aligned pages_between_bound [OF oK sz(2)]]
    by (auto simp: umem_def upresent_def split: if_splits)
  obtain r s' ys where r: "allocuvm_loop kend pgdir ?N (?a + of_nat 0 * PGSIZE) oldsz newsz s = Ok (r, s')"
    "r = newsz \<and> grown kend pgdir ?a ?N s xs s' ys \<or>
     r = 0 \<and> length xs < 2 * ?N \<and> uvm_inv kend s' pgdir ys \<and> umem (km_mem s') pgdir = umem (km_mem s) pgdir"
    using allocuvm_loop_spec [OF U kend sz fr grown_refl [OF U], of ?N] by auto
  have e: "allocuvm kend pgdir oldsz newsz s = Ok (r, s')"
    using r(1) sz by (simp add: allocuvm_def not_le [symmetric] not_less)
  from r(2) show thesis
  proof
    assume g: "r = newsz \<and> grown kend pgdir ?a ?N s xs s' ys"
    then have gg: "grown kend pgdir ?a ?N s xs s' ys" by simp
    have "umem (km_mem s') pgdir va =
       (if page_between ?a newsz va then Some 0 else umem (km_mem s) pgdir va)" for va
      using grown_umem [OF U gg PGROUNDUP_aligned pages_between_bound [OF oK sz(2)], of va] btw by simp
    then show thesis using g e that(1) [of s' ys] unfolding grown_def by blast
  next
    assume "r = 0 \<and> length xs < 2 * ?N \<and> uvm_inv kend s' pgdir ys \<and> umem (km_mem s') pgdir = umem (km_mem s) pgdir"
    then show thesis using e that(2) by blast
  qed
qed

section \<open>Properties\<close>

text \<open>
  C4. \<^verbatim>\<open>allocuvm\<close> from \<open>oldsz\<close> to \<open>newsz\<close> below \<^verbatim>\<open>KERNBASE\<close> either succeeds, and the process sees zeroed
  bytes on every page that starts between the old and the new size and its old memory elsewhere,
  or it returns 0 with the memory of the process exactly as before; it fails only when fewer than
  two free pages per new page are left. Page tables, frames and free pages stay disjoint.
\<close>

theorem allocuvm_grows:
  assumes "uvm_inv kend s pgdir xs" "KERNBASE < kend" "oldsz \<le> newsz" "newsz < KERNBASE"
    "\<forall>va. page_between (PGROUNDUP oldsz) newsz va \<longrightarrow> umem (km_mem s) pgdir va = None"
  shows "\<exists>r s' ys. allocuvm kend pgdir oldsz newsz s = Ok (r, s') \<and> uvm_inv kend s' pgdir ys \<and>
    (r = newsz \<and> (\<forall>va. umem (km_mem s') pgdir va =
         (if page_between (PGROUNDUP oldsz) newsz va then Some 0 else umem (km_mem s) pgdir va)) \<or>
     r = 0 \<and> umem (km_mem s') pgdir = umem (km_mem s) pgdir \<and>
       length xs < 2 * pages_between (PGROUNDUP oldsz) newsz)"
  by (rule allocuvm_spec [OF assms]) auto

definition kmem2 :: kmem where
  "kmem2 = \<lparr>km_mem = st32 (\<lambda>_. 0) 0x80300000 0x80301000, use_lock = False, freelist = 0x80300000\<rparr>"

lemma kmem2_zero: "\<not> in_page 0x80300000 a \<Longrightarrow> km_mem kmem2 a = 0"
  by (simp add: kmem2_def st32_frame)

lemma kmem2_no_tables: "i < 1024 \<Longrightarrow> \<not> pde_present (km_mem kmem2) 0x80200000 i"
proof -
  assume i: "i < 1024"
  have "ld32 (km_mem kmem2) (slot 0x80200000 i) = 0"
  proof (rule zero_page_slot [OF i])
    fix a :: u32 assume "in_page 0x80200000 a"
    then have "\<not> in_page 0x80300000 a"
      using in_page_unique [of "0x80200000" "0x80300000" a] by (auto simp: page_aligned_def)
    then show "km_mem kmem2 a = 0" by (rule kmem2_zero)
  qed
  then show ?thesis by (simp add: pde_present_def)
qed

lemma kmem2_inv: "uvm_inv 0x80100000 kmem2 0x80200000 [0x80300000, 0x80301000]"
proof -
  have z: "ld32 (km_mem kmem2) 0x80301000 = 0"
    by (simp add: ld32_def kmem2_zero in_page_def join4_def)
  have k: "kmem_inv 0x80100000 kmem2 [0x80300000, 0x80301000]"
    using z by (simp add: kmem_inv_def kmem2_def valid_page_def page_aligned_def V2P_def KERNBASE_def PHYSTOP_def)
  have no: "{i. i < 1024 \<and> pde_present (km_mem kmem2) 0x80200000 i} = {}" using kmem2_no_tables by auto
  have wf: "pt_wf 0x80100000 (km_mem kmem2) 0x80200000"
    using kmem2_no_tables
    by (auto simp: pt_wf_def valid_page_def page_aligned_def V2P_def KERNBASE_def PHYSTOP_def)
  have "\<not> upresent (km_mem kmem2) 0x80200000 va" for va
    using kmem2_no_tables [OF PDX_less] by (simp add: upresent_def lookup_pte_def)
  then show ?thesis using k wf unfolding uvm_inv_def vm_inv_def pt_pages_def no by simp
qed

lemma kmem2_empty: "umem (km_mem kmem2) 0x80200000 va = None"
  using kmem2_no_tables [OF PDX_less] by (simp add: umem_def upresent_def lookup_pte_def)

theorem allocuvm_grows_witness:
  "\<exists>s'. allocuvm 0x80100000 0x80200000 0 4096 kmem2 = Ok (4096, s') \<and> umem (km_mem s') 0x80200000 0 = Some 0"
proof -
  have up: "PGROUNDUP 0 = 0" by (simp add: PGROUNDUP_def PGSIZE_def)
  have pb: "page_between 0 4096 0" by (simp add: page_between_def PGROUNDDOWN_def)
  have n: "pages_between 0 4096 = 1" by (simp add: pages_between_def)
  show ?thesis
    using allocuvm_grows [OF kmem2_inv, of 0 4096] kmem2_empty pb
    by (auto simp: up n KERNBASE_def)
qed

text \<open>
  C5. \<^verbatim>\<open>deallocuvm\<close> from \<open>oldsz\<close> (at most \<^verbatim>\<open>KERNBASE\<close>) to \<open>newsz\<close> always returns: afterwards the process
  sees nothing on the pages that start between the new and the old size and its memory unchanged
  elsewhere, and exactly the frames of those pages have joined the free list.
\<close>

theorem deallocuvm_shrinks:
  assumes "uvm_inv kend s pgdir xs" "oldsz \<le> KERNBASE" "KERNBASE < kend" "newsz < oldsz"
  shows "\<exists>s' ys. deallocuvm kend pgdir oldsz newsz s = Ok (newsz, s') \<and> uvm_inv kend s' pgdir ys \<and>
    (\<forall>va. umem (km_mem s') pgdir va =
       (if page_between (PGROUNDUP newsz) oldsz va then None else umem (km_mem s) pgdir va)) \<and>
    set ys = set xs \<union> range_frames (km_mem s) pgdir (PGROUNDUP newsz) oldsz"
  by (rule deallocuvm_spec [OF assms]) blast

theorem deallocuvm_shrinks_witness:
  "uvm_inv 0x80100000 kmem2 0x80200000 [0x80300000, 0x80301000] \<and>
   (\<exists>s'. deallocuvm 0x80100000 0x80200000 0x80000000 0 kmem2 = Ok (0, s'))"
  using deallocuvm_shrinks [OF kmem2_inv, of "0x80000000" 0] kmem2_inv by (auto simp: KERNBASE_def)

end
