(* ===== verification/Locks.thy ===== *)
theory Locks
  imports Kalloc
begin

text \<open>
  Spin locks and sleep locks, from \<^verbatim>\<open>spinlock.c\<close> and \<^verbatim>\<open>sleeplock.c\<close>, with the part of \<^verbatim>\<open>struct cpu\<close> they
  use. The functions model one processor's view of a call; \<open>spin_step\<close> interleaves the memory
  accesses of \<^verbatim>\<open>acquire\<close> and \<^verbatim>\<open>release\<close> on any number of processors. The other theories treat a
  section protected by a spin lock as one atomic step, which mutual exclusion justifies.
\<close>

section \<open>Interrupt nesting\<close>

text \<open>\<open>ifl\<close> is the interrupt flag \<^verbatim>\<open>FL_IF\<close> of the processor's \<^verbatim>\<open>eflags\<close>.\<close>

record cpu =
  ifl :: bool
  ncli :: int
  intena :: bool

definition pushcli :: "cpu \<Rightarrow> cpu" where
  "pushcli c =
     (let eflags = ifl c; c = c\<lparr>ifl := False\<rparr>;
          c = (if ncli c = 0 then c\<lparr>intena := eflags\<rparr> else c)
      in c\<lparr>ncli := ncli c + 1\<rparr>)"

definition popcli :: "cpu \<Rightarrow> cpu res" where
  "popcli c =
     (if ifl c then Panic ''popcli - interruptible''
      else let c = c\<lparr>ncli := ncli c - 1\<rparr>
           in if ncli c < 0 then Panic ''popcli''
              else if ncli c = 0 \<and> intena c then Ok (c\<lparr>ifl := True\<rparr>)
              else Ok c)"

section \<open>Spin locks\<close>

text \<open>\<open>lcpu\<close> is the \<^verbatim>\<open>cpu\<close> field, the number of the processor or \<open>None\<close> for a null pointer.\<close>

record spinlock =
  locked :: u32
  lname :: string
  lcpu :: "nat option"
  pcs :: "u32 list"

definition initlock :: "string \<Rightarrow> spinlock \<Rightarrow> spinlock" where
  "initlock name lk = lk\<lparr>lname := name, locked := 0, lcpu := None\<rparr>"

fun pcs_walk :: "memory \<Rightarrow> nat \<Rightarrow> u32 \<Rightarrow> u32 list" where
  "pcs_walk m 0 ebp = []"
| "pcs_walk m (Suc n) ebp =
     (if ebp = 0 \<or> ebp < KERNBASE \<or> ebp = 0xFFFFFFFF then replicate (Suc n) 0
      else ld32 m (ebp + 4) # pcs_walk m n (ld32 m ebp))"

definition getcallerpcs :: "memory \<Rightarrow> u32 \<Rightarrow> u32 list" where
  "getcallerpcs m v = pcs_walk m 10 (v - 8)"

definition holding :: "nat \<Rightarrow> spinlock \<Rightarrow> cpu \<Rightarrow> (bool \<times> cpu) res" where
  "holding me lk c =
     (let c = pushcli c; r = (locked lk \<noteq> 0 \<and> lcpu lk = Some me)
      in bnd (popcli c) (\<lambda>c. Ok (r, c)))"

text \<open>
  \<^verbatim>\<open>acquire\<close> by processor \<open>me\<close> with call stack \<open>stk\<close>; \<open>Blocked\<close> while another processor holds the lock.
\<close>

definition acquire :: "nat \<Rightarrow> u32 list \<Rightarrow> spinlock \<Rightarrow> cpu \<Rightarrow> (spinlock \<times> cpu) res" where
  "acquire me stk lk c =
     bnd (holding me lk (pushcli c))
       (\<lambda>(h, c). if h then Panic ''acquire''
          else if locked lk \<noteq> 0 then Blocked
          else Ok (lk\<lparr>locked := 1, lcpu := Some me, pcs := stk\<rparr>, c))"

definition release :: "nat \<Rightarrow> spinlock \<Rightarrow> cpu \<Rightarrow> (spinlock \<times> cpu) res" where
  "release me lk c =
     bnd (holding me lk c)
       (\<lambda>(h, c). if \<not> h then Panic ''release''
          else let lk = lk\<lparr>pcs := (pcs lk)[0 := 0], lcpu := None\<rparr>; lk = lk\<lparr>locked := 0\<rparr>
               in bnd (popcli c) (\<lambda>c. Ok (lk, c)))"

section \<open>Sleep locks\<close>

text \<open>
  \<^verbatim>\<open>struct sleeplock\<close>; the inner spin lock makes each body atomic. \<^verbatim>\<open>acquiresleep\<close> that finds the lock
  taken sleeps on the lock's address, which is \<open>Blocked\<close>.
\<close>

record sleeplock =
  slocked :: bool
  sname :: string
  spid :: int

definition initsleeplock :: "string \<Rightarrow> sleeplock" where
  "initsleeplock name = \<lparr>slocked = False, sname = name, spid = 0\<rparr>"

definition acquiresleep :: "int \<Rightarrow> sleeplock \<Rightarrow> sleeplock res" where
  "acquiresleep pid lk =
     (if slocked lk then Blocked else Ok (lk\<lparr>slocked := True, spid := pid\<rparr>))"

definition releasesleep :: "sleeplock \<Rightarrow> sleeplock" where
  "releasesleep lk = lk\<lparr>slocked := False, spid := 0\<rparr>"

definition holdingsleep :: "int \<Rightarrow> sleeplock \<Rightarrow> bool" where
  "holdingsleep pid lk \<longleftrightarrow> slocked lk \<and> spid lk = pid"

section \<open>Nesting\<close>

text \<open>Interrupts are off whenever some \<^verbatim>\<open>pushcli\<close> is outstanding.\<close>

definition cpu_ok :: "cpu \<Rightarrow> bool" where
  "cpu_ok c \<longleftrightarrow> 0 \<le> ncli c \<and> (0 < ncli c \<longrightarrow> \<not> ifl c)"

lemma pushcli_ok: "cpu_ok c \<Longrightarrow> cpu_ok (pushcli c) \<and> ncli (pushcli c) = ncli c + 1 \<and> \<not> ifl (pushcli c)"
  by (auto simp: pushcli_def cpu_ok_def Let_def)

lemma popcli_pushcli: "cpu_ok c \<Longrightarrow> \<exists>c'. popcli (pushcli c) = Ok c' \<and> ifl c' = ifl c \<and> ncli c' = ncli c \<and>
    (0 < ncli c \<longrightarrow> c' = c)"
  by (cases c) (auto simp: pushcli_def popcli_def cpu_ok_def Let_def)

lemma popcli_ok:
  "cpu_ok c \<Longrightarrow> 0 < ncli c \<Longrightarrow> \<exists>c'. popcli c = Ok c' \<and> cpu_ok c' \<and> ncli c' = ncli c - 1"
  by (auto simp: popcli_def cpu_ok_def Let_def)

datatype cli_op = Push | Pop

primrec run_cli :: "cli_op list \<Rightarrow> cpu \<Rightarrow> cpu res" where
  "run_cli [] c = Ok c"
| "run_cli (p # ps) c = bnd (case p of Push \<Rightarrow> Ok (pushcli c) | Pop \<Rightarrow> popcli c) (run_cli ps)"

text \<open>\<open>depth n ps\<close>: the nesting depth after \<open>ps\<close> from depth \<open>n\<close>, if no \<^verbatim>\<open>popcli\<close> goes below 0.\<close>

primrec depth :: "nat \<Rightarrow> cli_op list \<Rightarrow> nat option" where
  "depth n [] = Some n"
| "depth n (p # ps) =
     (case p of Push \<Rightarrow> depth (Suc n) ps | Pop \<Rightarrow> (case n of 0 \<Rightarrow> None | Suc k \<Rightarrow> depth k ps))"

text \<open>The state at depth \<open>n\<close> of a processor that had interrupts \<open>b\<close> at depth 0.\<close>

definition at_depth :: "bool \<Rightarrow> nat \<Rightarrow> cpu \<Rightarrow> bool" where
  "at_depth b n c \<longleftrightarrow> ncli c = int n \<and> (if n = 0 then ifl c = b else \<not> ifl c \<and> intena c = b)"

lemma at_depth_push: "at_depth b n c \<Longrightarrow> at_depth b (Suc n) (pushcli c)"
  by (auto simp: at_depth_def pushcli_def Let_def split: if_splits)

lemma at_depth_pop: "at_depth b (Suc n) c \<Longrightarrow> \<exists>c'. popcli c = Ok c' \<and> at_depth b n c'"
  by (auto simp: at_depth_def popcli_def Let_def)

lemma run_cli_depth:
  "at_depth b n c \<Longrightarrow> depth n ps = Some k \<Longrightarrow> \<exists>c'. run_cli ps c = Ok c' \<and> at_depth b k c'"
proof (induction ps arbitrary: n c)
  case (Cons p ps)
  show ?case
  proof (cases p)
    case Push
    then show ?thesis using Cons.IH [OF at_depth_push [OF Cons.prems(1)]] Cons.prems(2) by simp
  next
    case Pop
    then obtain j where j: "n = Suc j" "depth j ps = Some k" using Cons.prems(2) by (auto split: nat.splits)
    obtain c1 where "popcli c = Ok c1" "at_depth b j c1" using at_depth_pop Cons.prems(1) j(1) by blast
    then show ?thesis using Cons.IH j(2) Pop by auto
  qed
qed simp

lemma run_cli_underflow:
  "at_depth b n c \<Longrightarrow> depth n ps = None \<Longrightarrow> \<exists>e. run_cli ps c = Panic e"
proof (induction ps arbitrary: n c)
  case (Cons p ps)
  show ?case
  proof (cases p)
    case Push
    then show ?thesis using Cons.IH [OF at_depth_push [OF Cons.prems(1)]] Cons.prems(2) by simp
  next
    case Pop
    show ?thesis
    proof (cases n)
      case 0
      then show ?thesis using Pop Cons.prems(1) by (simp add: popcli_def at_depth_def Let_def)
    next
      case (Suc j)
      obtain c1 where "popcli c = Ok c1" "at_depth b j c1" using at_depth_pop Cons.prems(1) Suc by blast
      then show ?thesis using Cons.IH Cons.prems(2) Suc Pop by auto
    qed
  qed
qed simp

section \<open>Interleaved processors\<close>

text \<open>
  Where a processor stands in \<^verbatim>\<open>acquire\<close>, the critical section and \<^verbatim>\<open>release\<close>: after its
  \<^verbatim>\<open>pushcli\<close>, spinning on \<^verbatim>\<open>xchg\<close>, between the winning \<^verbatim>\<open>xchg\<close> and the store of \<^verbatim>\<open>lk->cpu\<close>, in the
  critical section, after clearing \<^verbatim>\<open>lk->cpu\<close>, and after the store that frees the lock.
\<close>

datatype spin_pc = Outside | Pushed | Spinning | Won | Critical | Cleared | Freed

record spin_sys =
  sys_lock :: spinlock
  sys_cpu :: "nat \<Rightarrow> cpu"
  sys_pc :: "nat \<Rightarrow> spin_pc"

definition set_pc :: "nat \<Rightarrow> spin_pc \<Rightarrow> spin_sys \<Rightarrow> spin_sys" where
  "set_pc i p s = s\<lparr>sys_pc := (sys_pc s)(i := p)\<rparr>"

definition set_cpu :: "nat \<Rightarrow> cpu \<Rightarrow> spin_sys \<Rightarrow> spin_sys" where
  "set_cpu i c s = s\<lparr>sys_cpu := (sys_cpu s)(i := c)\<rparr>"

inductive spin_step :: "spin_sys \<Rightarrow> spin_sys \<Rightarrow> bool" where
  acq_push: "sys_pc s i = Outside \<Longrightarrow>
    spin_step s (set_pc i Pushed (set_cpu i (pushcli (sys_cpu s i)) s))"
| acq_check: "sys_pc s i = Pushed \<Longrightarrow> holding i (sys_lock s) (sys_cpu s i) = Ok (False, c) \<Longrightarrow>
    spin_step s (set_pc i Spinning (set_cpu i c s))"
| acq_spin: "sys_pc s i = Spinning \<Longrightarrow> locked (sys_lock s) \<noteq> 0 \<Longrightarrow>
    spin_step s (s\<lparr>sys_lock := (sys_lock s)\<lparr>locked := 1\<rparr>\<rparr>)"
| acq_win: "sys_pc s i = Spinning \<Longrightarrow> locked (sys_lock s) = 0 \<Longrightarrow>
    spin_step s (set_pc i Won (s\<lparr>sys_lock := (sys_lock s)\<lparr>locked := 1\<rparr>\<rparr>))"
| acq_record: "sys_pc s i = Won \<Longrightarrow>
    spin_step s (set_pc i Critical (s\<lparr>sys_lock := (sys_lock s)\<lparr>lcpu := Some i, pcs := stk\<rparr>\<rparr>))"
| rel_clear: "sys_pc s i = Critical \<Longrightarrow> holding i (sys_lock s) (sys_cpu s i) = Ok (True, c) \<Longrightarrow>
    spin_step s (set_pc i Cleared (set_cpu i c
      (s\<lparr>sys_lock := (sys_lock s)\<lparr>pcs := (pcs (sys_lock s))[0 := 0], lcpu := None\<rparr>\<rparr>)))"
| rel_store: "sys_pc s i = Cleared \<Longrightarrow>
    spin_step s (set_pc i Freed (s\<lparr>sys_lock := (sys_lock s)\<lparr>locked := 0\<rparr>\<rparr>))"
| rel_pop: "sys_pc s i = Freed \<Longrightarrow> popcli (sys_cpu s i) = Ok c \<Longrightarrow>
    spin_step s (set_pc i Outside (set_cpu i c s))"

text \<open>A processor about to panic: re-acquiring, releasing without holding, unbalanced nesting.\<close>

definition spin_panics :: "spin_sys \<Rightarrow> nat \<Rightarrow> bool" where
  "spin_panics s i \<longleftrightarrow>
     (case sys_pc s i of
        Pushed \<Rightarrow> \<nexists>c. holding i (sys_lock s) (sys_cpu s i) = Ok (False, c)
      | Critical \<Rightarrow> \<nexists>c. holding i (sys_lock s) (sys_cpu s i) = Ok (True, c)
      | Freed \<Rightarrow> \<nexists>c. popcli (sys_cpu s i) = Ok c
      | _ \<Rightarrow> False)"

primrec owns :: "spin_pc \<Rightarrow> bool" where
  "owns Outside = False"
| "owns Pushed = False"
| "owns Spinning = False"
| "owns Won = True"
| "owns Critical = True"
| "owns Cleared = True"
| "owns Freed = False"

definition spin_start :: "spin_sys \<Rightarrow> bool" where
  "spin_start s \<longleftrightarrow> locked (sys_lock s) = 0 \<and> lcpu (sys_lock s) = None \<and>
     (\<forall>i. sys_pc s i = Outside \<and> cpu_ok (sys_cpu s i))"

text \<open>The invariant names the one processor, if any, that owns the lock.\<close>

definition spin_inv :: "nat option \<Rightarrow> spin_sys \<Rightarrow> bool" where
  "spin_inv own s \<longleftrightarrow>
     (\<forall>i. owns (sys_pc s i) = (own = Some i)) \<and>
     (locked (sys_lock s) = 0) = (own = None) \<and>
     (\<forall>i. lcpu (sys_lock s) = Some i \<longleftrightarrow> sys_pc s i = Critical) \<and>
     (\<forall>i. cpu_ok (sys_cpu s i)) \<and>
     (\<forall>i. sys_pc s i \<noteq> Outside \<longrightarrow> 0 < ncli (sys_cpu s i))"

lemma holding_inside:
  "cpu_ok c \<Longrightarrow> 0 < ncli c \<Longrightarrow> holding i lk c = Ok (locked lk \<noteq> 0 \<and> lcpu lk = Some i, c)"
  using popcli_pushcli [of c] by (auto simp: holding_def)

lemma spin_inv_start: "spin_start s \<Longrightarrow> spin_inv None s"
  by (simp add: spin_start_def spin_inv_def)

lemma spin_inv_pc: "spin_inv own s \<Longrightarrow> owns (sys_pc s i) \<Longrightarrow> own = Some i"
  by (simp add: spin_inv_def)

lemma spin_inv_not: "spin_inv own s \<Longrightarrow> \<not> owns (sys_pc s i) \<Longrightarrow> own \<noteq> Some i"
  by (simp add: spin_inv_def)

lemma spin_inv_cpu: "spin_inv own s \<Longrightarrow> sys_pc s i \<noteq> Outside \<Longrightarrow> cpu_ok (sys_cpu s i) \<and> 0 < ncli (sys_cpu s i)"
  by (simp add: spin_inv_def)

lemmas spin_set = set_pc_def set_cpu_def

lemma spin_inv_step: "spin_step s s' \<Longrightarrow> spin_inv own s \<Longrightarrow> \<exists>own'. spin_inv own' s'"
proof (induction rule: spin_step.induct)
  case (acq_push s i)
  have c: "cpu_ok (pushcli (sys_cpu s i))" "0 < ncli (pushcli (sys_cpu s i))"
    using pushcli_ok [of "sys_cpu s i"] acq_push by (auto simp: spin_inv_def cpu_ok_def)
  have "spin_inv own (set_pc i Pushed (set_cpu i (pushcli (sys_cpu s i)) s))"
    using acq_push c spin_inv_not [OF acq_push(2), of i] by (auto simp: spin_inv_def spin_set)
  then show ?case ..
next
  case (acq_check s i c)
  then have "c = sys_cpu s i" using spin_inv_cpu [OF acq_check(3), of i] by (simp add: holding_inside)
  then have "spin_inv own (set_pc i Spinning (set_cpu i c s))"
    using acq_check spin_inv_not [OF acq_check(3), of i] by (auto simp: spin_inv_def spin_set)
  then show ?case ..
next
  case (acq_spin s i)
  then have "spin_inv own (s\<lparr>sys_lock := (sys_lock s)\<lparr>locked := 1\<rparr>\<rparr>)" by (simp add: spin_inv_def)
  then show ?case ..
next
  case (acq_win s i)
  then have "own = None" by (simp add: spin_inv_def)
  then have "spin_inv (Some i) (set_pc i Won (s\<lparr>sys_lock := (sys_lock s)\<lparr>locked := 1\<rparr>\<rparr>))"
    using acq_win by (auto simp: spin_inv_def spin_set)
  then show ?case ..
next
  case (acq_record s i stk)
  then have o: "own = Some i" using spin_inv_pc [OF acq_record(2), of i] by simp
  have "sys_pc s j \<noteq> Critical" for j
  proof
    assume "sys_pc s j = Critical"
    then show False using spin_inv_pc [OF acq_record(2), of j] o acq_record(1) by simp
  qed
  then have "spin_inv own (set_pc i Critical (s\<lparr>sys_lock := (sys_lock s)\<lparr>lcpu := Some i, pcs := stk\<rparr>\<rparr>))"
    using acq_record o by (auto simp: spin_inv_def spin_set)
  then show ?case ..
next
  case (rel_clear s i c)
  then have "c = sys_cpu s i" using spin_inv_cpu [OF rel_clear(3), of i] by (simp add: holding_inside)
  moreover have o: "own = Some i" using spin_inv_pc [OF rel_clear(3), of i] rel_clear(1) by simp
  moreover have "sys_pc s j \<noteq> Critical" if "j \<noteq> i" for j
    using that spin_inv_pc [OF rel_clear(3), of j] o by auto
  ultimately have "spin_inv own (set_pc i Cleared (set_cpu i c
      (s\<lparr>sys_lock := (sys_lock s)\<lparr>pcs := (pcs (sys_lock s))[0 := 0], lcpu := None\<rparr>\<rparr>)))"
    using rel_clear by (auto simp: spin_inv_def spin_set)
  then show ?case ..
next
  case (rel_store s i)
  then have "own = Some i" using spin_inv_pc [OF rel_store(2), of i] by simp
  then have "spin_inv None (set_pc i Freed (s\<lparr>sys_lock := (sys_lock s)\<lparr>locked := 0\<rparr>\<rparr>))"
    using rel_store by (auto simp: spin_inv_def spin_set)
  then show ?case ..
next
  case (rel_pop s i c)
  then have "cpu_ok c" using popcli_ok [of "sys_cpu s i"] spin_inv_cpu [OF rel_pop(3), of i] by auto
  then have "spin_inv own (set_pc i Outside (set_cpu i c s))"
    using rel_pop spin_inv_not [OF rel_pop(3), of i] by (auto simp: spin_inv_def spin_set)
  then show ?case ..
qed

lemma spin_inv_reachable: "spin_step\<^sup>*\<^sup>* s s' \<Longrightarrow> spin_inv own s \<Longrightarrow> \<exists>own'. spin_inv own' s'"
  by (induction rule: rtranclp_induct) (auto intro: spin_inv_step)

lemma spin_inv_no_panic:
  assumes inv: "spin_inv own s"
  shows "\<not> spin_panics s i"
proof (cases "sys_pc s i = Outside")
  case False
  note c = spin_inv_cpu [OF inv False]
  have lc: "lcpu (sys_lock s) = Some i \<longleftrightarrow> sys_pc s i = Critical"
    and lk: "owns (sys_pc s i) \<Longrightarrow> locked (sys_lock s) \<noteq> 0"
    using inv by (auto simp: spin_inv_def)
  show ?thesis
    using c lc lk popcli_ok [of "sys_cpu s i"]
    by (cases "sys_pc s i") (auto simp: spin_panics_def holding_inside)
qed (simp add: spin_panics_def)

text \<open>A call of \<^verbatim>\<open>acquire\<close> or \<^verbatim>\<open>release\<close> that returns is a run of the steps of that processor.\<close>

lemma acquire_steps:
  assumes "sys_pc s i = Outside" "acquire i stk (sys_lock s) (sys_cpu s i) = Ok (lk, c)"
  shows "spin_step\<^sup>*\<^sup>* s (set_pc i Critical (set_cpu i c (s\<lparr>sys_lock := lk\<rparr>)))"
proof -
  let ?c0 = "pushcli (sys_cpu s i)"
  have h: "holding i (sys_lock s) ?c0 = Ok (False, c)" and free: "locked (sys_lock s) = 0"
    and lk: "lk = (sys_lock s)\<lparr>locked := 1, lcpu := Some i, pcs := stk\<rparr>"
    using assms(2) by (auto simp: acquire_def outcome_simps split: if_splits)
  let ?s1 = "set_pc i Pushed (set_cpu i ?c0 s)"
  let ?s2 = "set_pc i Spinning (set_cpu i c ?s1)"
  let ?s3 = "set_pc i Won (?s2\<lparr>sys_lock := (sys_lock ?s2)\<lparr>locked := 1\<rparr>\<rparr>)"
  let ?s4 = "set_pc i Critical (?s3\<lparr>sys_lock := (sys_lock ?s3)\<lparr>lcpu := Some i, pcs := stk\<rparr>\<rparr>)"
  have "spin_step s ?s1" by (rule acq_push [OF assms(1)])
  moreover have "spin_step ?s1 ?s2" using h by (intro acq_check) (simp_all add: spin_set)
  moreover have "spin_step ?s2 ?s3" using free by (intro acq_win) (simp_all add: spin_set)
  moreover have "spin_step ?s3 ?s4" by (intro acq_record) (simp add: spin_set)
  ultimately have "spin_step\<^sup>*\<^sup>* s ?s4" by (meson r_into_rtranclp rtranclp_trans)
  moreover have "?s4 = set_pc i Critical (set_cpu i c (s\<lparr>sys_lock := lk\<rparr>))" by (simp add: spin_set lk)
  ultimately show ?thesis by simp
qed

lemma release_steps:
  assumes "sys_pc s i = Critical" "release i (sys_lock s) (sys_cpu s i) = Ok (lk, c)"
  shows "spin_step\<^sup>*\<^sup>* s (set_pc i Outside (set_cpu i c (s\<lparr>sys_lock := lk\<rparr>)))"
proof -
  obtain c0 where h: "holding i (sys_lock s) (sys_cpu s i) = Ok (True, c0)" and p: "popcli c0 = Ok c"
    and lk: "lk = (sys_lock s)\<lparr>pcs := (pcs (sys_lock s))[0 := 0], lcpu := None, locked := 0\<rparr>"
    using assms(2) by (auto simp: release_def outcome_simps Let_def split: if_splits)
  let ?s1 = "set_pc i Cleared (set_cpu i c0
      (s\<lparr>sys_lock := (sys_lock s)\<lparr>pcs := (pcs (sys_lock s))[0 := 0], lcpu := None\<rparr>\<rparr>))"
  let ?s2 = "set_pc i Freed (?s1\<lparr>sys_lock := (sys_lock ?s1)\<lparr>locked := 0\<rparr>\<rparr>)"
  let ?s3 = "set_pc i Outside (set_cpu i c ?s2)"
  have "spin_step s ?s1" by (rule rel_clear [OF assms(1) h])
  moreover have "spin_step ?s1 ?s2" by (rule rel_store) (simp add: spin_set)
  moreover have "spin_step ?s2 ?s3" using p by (intro rel_pop) (simp_all add: spin_set)
  ultimately have "spin_step\<^sup>*\<^sup>* s ?s3" by (meson r_into_rtranclp rtranclp_trans)
  moreover have "?s3 = set_pc i Outside (set_cpu i c (s\<lparr>sys_lock := lk\<rparr>))" by (simp add: spin_set lk)
  ultimately show ?thesis by simp
qed

section \<open>Properties\<close>

text \<open>
  C6. Spin locks exclude each other: from an unlocked lock, whatever the interleaving of any
  number of processors, at most one is between a successful \<^verbatim>\<open>xchg\<close> and the store that frees the
  lock, that processor runs with interrupts off, the lock word is set exactly while some
  processor owns it, and none of the panics of \<^verbatim>\<open>acquire\<close>, \<^verbatim>\<open>release\<close> and \<^verbatim>\<open>popcli\<close> can be reached.
\<close>

theorem spinlock_mutual_exclusion:
  assumes "spin_start s0" "spin_step\<^sup>*\<^sup>* s0 s"
  shows "(owns (sys_pc s i) \<and> owns (sys_pc s j) \<longrightarrow> i = j) \<and>
    (owns (sys_pc s i) \<longrightarrow> \<not> ifl (sys_cpu s i)) \<and>
    (locked (sys_lock s) \<noteq> 0 \<longleftrightarrow> (\<exists>k. owns (sys_pc s k))) \<and> \<not> spin_panics s i"
proof -
  obtain own where inv: "spin_inv own s" using spin_inv_reachable spin_inv_start assms by blast
  have "\<not> ifl (sys_cpu s i)" if "owns (sys_pc s i)"
  proof -
    have "sys_pc s i \<noteq> Outside" using that by (cases "sys_pc s i") auto
    then show ?thesis using spin_inv_cpu [OF inv] by (simp add: cpu_ok_def)
  qed
  moreover have "\<not> spin_panics s i" by (rule spin_inv_no_panic [OF inv])
  ultimately show ?thesis using inv by (cases own) (simp_all add: spin_inv_def)
qed

definition spin_sys0 :: spin_sys where
  "spin_sys0 = \<lparr>sys_lock = \<lparr>locked = 0, lname = ''kmem'', lcpu = None, pcs = []\<rparr>,
     sys_cpu = (\<lambda>_. \<lparr>ifl = True, ncli = 0, intena = False\<rparr>), sys_pc = (\<lambda>_. Outside)\<rparr>"

theorem spinlock_mutual_exclusion_witness:
  "spin_start spin_sys0 \<and> spin_step spin_sys0 (set_pc 1 Pushed (set_cpu 1 (pushcli (sys_cpu spin_sys0 1)) spin_sys0))
   \<and> \<not> spin_panics (set_pc 1 Pushed (set_cpu 1 (pushcli (sys_cpu spin_sys0 1)) spin_sys0)) 1"
proof -
  have st: "spin_start spin_sys0" by (simp add: spin_start_def spin_sys0_def cpu_ok_def)
  have "spin_step spin_sys0 (set_pc 1 Pushed (set_cpu 1 (pushcli (sys_cpu spin_sys0 1)) spin_sys0))"
    by (rule acq_push) (simp add: spin_sys0_def)
  then show ?thesis using st spinlock_mutual_exclusion [OF st r_into_rtranclp] by blast
qed

text \<open>
  C7. \<^verbatim>\<open>pushcli\<close> and \<^verbatim>\<open>popcli\<close> match: after any sequence of calls in which no \<^verbatim>\<open>popcli\<close> lacks its
  \<^verbatim>\<open>pushcli\<close>, the counter is the nesting depth and interrupts are enabled exactly when the depth is
  0 and they were enabled before; an unmatched \<^verbatim>\<open>popcli\<close> panics.
\<close>

theorem cli_nesting:
  assumes "ncli c = 0"
  shows "case depth 0 ps of
      Some k \<Rightarrow> \<exists>c'. run_cli ps c = Ok c' \<and> ncli c' = int k \<and> ifl c' = (k = 0 \<and> ifl c)
    | None \<Rightarrow> \<exists>e. run_cli ps c = Panic e"
proof -
  have "at_depth (ifl c) 0 c" using assms by (simp add: at_depth_def)
  then show ?thesis
    using run_cli_depth [of "ifl c" 0 c ps] run_cli_underflow [of "ifl c" 0 c ps]
    by (auto simp: at_depth_def split: option.splits if_splits)
qed

theorem cli_nesting_witness:
  "ncli \<lparr>ifl = True, ncli = 0, intena = False\<rparr> = 0 \<and>
   (\<exists>c'. run_cli [Push, Push, Pop, Pop] \<lparr>ifl = True, ncli = 0, intena = False\<rparr> = Ok c' \<and> ifl c')"
  using cli_nesting [of "\<lparr>ifl = True, ncli = 0, intena = False\<rparr>" "[Push, Push, Pop, Pop]"] by auto

end
