(* ===== verification/Proc_Table.thy ===== *)
theory Proc_Table
  imports Vm Locks
begin

unbundle bit_operations_syntax

text \<open>
  The process table of \<^verbatim>\<open>proc.c\<close>. A \<^verbatim>\<open>struct proc *\<close> into \<^verbatim>\<open>ptable.proc\<close> is the index of its slot, a null
  pointer \<open>None\<close>; trap frames and contexts live in the modelled memory, on the kernel stacks.
  Every operation runs under \<^verbatim>\<open>ptable.lock\<close> and is one step. The parts of \<^verbatim>\<open>fork\<close>, \<^verbatim>\<open>exit\<close> and
  \<^verbatim>\<open>userinit\<close> that deal with files and inodes are in the theory of the whole kernel.
\<close>

section \<open>Processes\<close>

definition NPROC :: nat where "NPROC = 64"
definition KSTACKSIZE :: u32 where "KSTACKSIZE = 4096"
definition NOFILE :: nat where "NOFILE = 16"

datatype procstate = UNUSED | EMBRYO | SLEEPING | RUNNABLE | RUNNING | ZOMBIE

text \<open>The values of \<^verbatim>\<open>enum proc_prio\<close>; the field itself is a C int.\<close>

definition NORMAL :: int where "NORMAL = 0"
definition HIGH :: int where "HIGH = 1"

text \<open>A sleep channel is the address of some kernel object, a process slot among others.\<close>

datatype chan = Ch_proc nat | Ch_addr u32

record proc =
  p_sz :: u32
  p_pgdir :: u32
  p_kstack :: u32
  p_state :: procstate
  p_prio :: int
  p_pid :: int
  p_ret :: int
  p_parent :: "nat option"
  p_tf :: u32
  p_context :: u32
  p_chan :: "chan option"
  p_killed :: bool
  p_ofile :: "nat option list"
  p_cwd :: "nat option"
  p_name :: "u8 list"

record ptable =
  procs :: "proc list"
  nextpid :: int
  initproc :: "nat option"

text \<open>A C int holds 32 bits.\<close>

definition int32 :: "int \<Rightarrow> int" where
  "int32 n = sint (word_of_int n :: u32)"

definition upd_proc :: "nat \<Rightarrow> (proc \<Rightarrow> proc) \<Rightarrow> ptable \<Rightarrow> ptable" where
  "upd_proc i f T = T\<lparr>procs := (procs T)[i := f (procs T ! i)]\<rparr>"

text \<open>The first slot that satisfies a test, as the loops over the table find it.\<close>

fun scan :: "(proc \<Rightarrow> bool) \<Rightarrow> proc list \<Rightarrow> nat option" where
  "scan P [] = None"
| "scan P (p # ps) = (if P p then Some 0 else map_option Suc (scan P ps))"

section \<open>Processors\<close>

fun mycpu_scan :: "int \<Rightarrow> int list \<Rightarrow> nat option" where
  "mycpu_scan apicid [] = None"
| "mycpu_scan apicid (a # as) = (if a = apicid then Some 0 else map_option Suc (mycpu_scan apicid as))"

text \<open>\<open>apicids\<close> are the \<^verbatim>\<open>apicid\<close> fields of the \<^verbatim>\<open>ncpu\<close> entries of \<^verbatim>\<open>cpus\<close>, \<open>lapicid\<close> the id the local APIC reports.\<close>

definition mycpu :: "int list \<Rightarrow> int \<Rightarrow> cpu \<Rightarrow> nat res" where
  "mycpu apicids lapicid c =
     (if ifl c then Panic ''mycpu called with interrupts enabled''
      else case mycpu_scan lapicid apicids of None \<Rightarrow> Panic ''unknown apicid'' | Some i \<Rightarrow> Ok i)"

section \<open>Creating processes\<close>

text \<open>\<^verbatim>\<open>sizeof(struct trapframe)\<close> and \<^verbatim>\<open>sizeof(struct context)\<close>, and the offset of \<^verbatim>\<open>context.eip\<close>.\<close>

definition TF_SIZE :: u32 where "TF_SIZE = 76"
definition CTX_SIZE :: u32 where "CTX_SIZE = 20"
definition CTX_EIP :: u32 where "CTX_EIP = 16"

text \<open>\<open>trapret\<close> and \<open>forkret\<close> are the addresses of those routines.\<close>

definition allocproc :: "u32 \<Rightarrow> u32 \<Rightarrow> ptable \<Rightarrow> kmem \<Rightarrow> nat option \<times> ptable \<times> kmem" where
  "allocproc trapret forkret T s =
     (case scan (\<lambda>p. p_state p = UNUSED) (procs T) of
        None \<Rightarrow> (None, T, s)
      | Some i \<Rightarrow>
          let T = upd_proc i (\<lambda>p. p\<lparr>p_state := EMBRYO, p_pid := nextpid T\<rparr>)
                    (T\<lparr>nextpid := int32 (nextpid T + 1)\<rparr>);
              (k, s) = kalloc s;
              T = upd_proc i (\<lambda>p. p\<lparr>p_kstack := k\<rparr>) T
          in if k = 0 then (None, upd_proc i (\<lambda>p. p\<lparr>p_state := UNUSED\<rparr>) T, s)
             else let sp = k + KSTACKSIZE - TF_SIZE; tf = sp;
                      sp = sp - 4; m = st32 (km_mem s) sp trapret;
                      sp = sp - CTX_SIZE; m = memset m sp 0 CTX_SIZE;
                      m = st32 m (sp + CTX_EIP) forkret
                  in (Some i, upd_proc i (\<lambda>p. p\<lparr>p_tf := tf, p_context := sp\<rparr>) T, s\<lparr>km_mem := m\<rparr>))"

text \<open>
  \<^verbatim>\<open>growproc\<close>: \<open>me\<close> is the current process, \<open>n\<close> a C int added to an unsigned size.
\<close>

definition growproc :: "u32 \<Rightarrow> nat \<Rightarrow> int \<Rightarrow> ptable \<Rightarrow> kmem \<Rightarrow> (int \<times> ptable \<times> kmem) res" where
  "growproc kend me n T s =
     (let p = procs T ! me; sz = p_sz p
      in if n > 0 then
           bnd (allocuvm kend (p_pgdir p) sz (sz + word_of_int n) s)
             (\<lambda>(sz, s). if sz = 0 then Ok (-1, T, s)
                else Ok (0, upd_proc me (\<lambda>p. p\<lparr>p_sz := sz\<rparr>) T, s))
         else if n < 0 then
           bnd (deallocuvm kend (p_pgdir p) sz (sz + word_of_int n) s)
             (\<lambda>(sz, s). if sz = 0 then Ok (-1, T, s)
                else Ok (0, upd_proc me (\<lambda>p. p\<lparr>p_sz := sz\<rparr>) T, s))
         else Ok (0, T, s))"

section \<open>Sleeping and waking\<close>

definition wakeup1 :: "chan option \<Rightarrow> ptable \<Rightarrow> ptable" where
  "wakeup1 ch T = T\<lparr>procs := map (\<lambda>p. if p_state p = SLEEPING \<and> p_chan p = ch
     then p\<lparr>p_state := RUNNABLE\<rparr> else p) (procs T)\<rparr>"

definition wakeup :: "chan option \<Rightarrow> ptable \<Rightarrow> ptable" where
  "wakeup ch T = wakeup1 ch T"

text \<open>
  \<^verbatim>\<open>sched\<close>: the checks before the switch, from processor \<open>cpu\<close> with \<^verbatim>\<open>ptable.lock\<close> \<open>lk\<close>. The switch itself
  saves and restores \<^verbatim>\<open>intena\<close>.
\<close>

definition sched :: "nat \<Rightarrow> spinlock \<Rightarrow> cpu \<Rightarrow> proc \<Rightarrow> cpu res" where
  "sched cpu lk c p =
     bnd (holding cpu lk c)
       (\<lambda>(h, c). if \<not> h then Panic ''sched ptable.lock''
          else if ncli c \<noteq> 1 then Panic ''sched locks''
          else if p_state p = RUNNING then Panic ''sched running''
          else if ifl c then Panic ''sched interruptible''
          else Ok c)"

definition yield :: "nat \<Rightarrow> ptable \<Rightarrow> ptable" where
  "yield me T = upd_proc me (\<lambda>p. p\<lparr>p_state := RUNNABLE\<rparr>) T"

text \<open>
  \<^verbatim>\<open>sleep\<close> up to the switch, and what remains when the process runs again; \<open>has_lk\<close> says that the lock
  pointer is not null. The caller's lock is released only after \<^verbatim>\<open>ptable.lock\<close> is taken, so no wakeup
  comes between the caller's test and this step.
\<close>

definition sleep :: "nat option \<Rightarrow> chan option \<Rightarrow> bool \<Rightarrow> ptable \<Rightarrow> ptable res" where
  "sleep me ch has_lk T =
     (case me of None \<Rightarrow> Panic ''sleep''
      | Some i \<Rightarrow>
          if \<not> has_lk then Panic ''sleep without lk''
          else Ok (upd_proc i (\<lambda>p. p\<lparr>p_chan := ch, p_state := SLEEPING\<rparr>) T))"

definition sleep_resume :: "nat \<Rightarrow> ptable \<Rightarrow> ptable" where
  "sleep_resume me T = upd_proc me (\<lambda>p. p\<lparr>p_chan := None\<rparr>) T"

definition kill :: "int \<Rightarrow> ptable \<Rightarrow> int \<times> ptable" where
  "kill pid T =
     (case scan (\<lambda>p. p_pid p = pid) (procs T) of
        None \<Rightarrow> (-1, T)
      | Some i \<Rightarrow> (0, upd_proc i (\<lambda>p. p\<lparr>p_killed := True,
          p_state := (if p_state p = SLEEPING then RUNNABLE else p_state p)\<rparr>) T))"

section \<open>Priorities\<close>

definition getprocprio :: "int \<Rightarrow> ptable \<Rightarrow> int" where
  "getprocprio pid T =
     (case scan (\<lambda>p. p_pid p = pid) (procs T) of None \<Rightarrow> NORMAL | Some i \<Rightarrow> p_prio (procs T ! i))"

definition setprocprio :: "int \<Rightarrow> int \<Rightarrow> ptable \<Rightarrow> ptable" where
  "setprocprio pid prio T =
     (case scan (\<lambda>p. p_pid p = pid) (procs T) of None \<Rightarrow> T
      | Some i \<Rightarrow> upd_proc i (\<lambda>p. p\<lparr>p_prio := prio\<rparr>) T)"

section \<open>Exit and wait\<close>

text \<open>
  \<^verbatim>\<open>exit\<close> from the point where it takes \<^verbatim>\<open>ptable.lock\<close>: wake the parent, hand the children to \<^verbatim>\<open>initproc\<close>
  slot by slot (waking it for those that are zombies), drop the user memory, become a zombie.
\<close>

definition hand_over :: "nat \<Rightarrow> nat \<Rightarrow> ptable \<Rightarrow> ptable" where
  "hand_over me i T =
     (if p_parent (procs T ! i) = Some me
      then let T = upd_proc i (\<lambda>p. p\<lparr>p_parent := initproc T\<rparr>) T
           in if p_state (procs T ! i) = ZOMBIE
              then wakeup1 (map_option Ch_proc (initproc T)) T else T
      else T)"

fun reparent :: "nat \<Rightarrow> nat list \<Rightarrow> ptable \<Rightarrow> ptable" where
  "reparent me [] T = T"
| "reparent me (i # is) T = reparent me is (hand_over me i T)"

definition exit_zombie :: "u32 \<Rightarrow> nat \<Rightarrow> int \<Rightarrow> ptable \<Rightarrow> kmem \<Rightarrow> (ptable \<times> kmem) res" where
  "exit_zombie kend me status T s =
     (let T = wakeup1 (map_option Ch_proc (p_parent (procs T ! me))) T;
          T = reparent me [0..<NPROC] T
      in bnd (deallocuvm kend (p_pgdir (procs T ! me)) KERNBASE 0 s)
           (\<lambda>(_, s). Ok (upd_proc me (\<lambda>p. p\<lparr>p_state := ZOMBIE, p_ret := status\<rparr>) T, s)))"

text \<open>
  One scan of \<^verbatim>\<open>wait\<close>: the pid and exit status of a reaped child, -1, or \<open>Blocked\<close> where the caller
  sleeps on its own slot and scans again when woken.
\<close>

definition wait_scan :: "u32 \<Rightarrow> nat \<Rightarrow> ptable \<Rightarrow> kmem \<Rightarrow> (int \<times> int option \<times> ptable \<times> kmem) res" where
  "wait_scan kend me T s =
     (case scan (\<lambda>p. p_parent p = Some me \<and> p_state p = ZOMBIE) (procs T) of
        Some i \<Rightarrow>
          let p = procs T ! i
          in bnd (kfree kend (p_kstack p) s)
               (\<lambda>s. bnd (freevm kend (p_pgdir p) False s)
                  (\<lambda>s. Ok (p_pid p, Some (p_ret p),
                     upd_proc i (\<lambda>p. p\<lparr>p_kstack := 0, p_pid := 0, p_parent := None,
                       p_name := (p_name p)[0 := 0], p_killed := False, p_state := UNUSED\<rparr>) T, s)))
      | None \<Rightarrow>
          if (\<forall>p\<in>set (procs T). p_parent p \<noteq> Some me) \<or> p_killed (procs T ! me)
          then Ok (-1, None, T, s) else Blocked)"

section \<open>The scheduler\<close>

text \<open>
  One turn of the endless loop of \<^verbatim>\<open>scheduler\<close>. \<open>run i T\<close> is the table when the process of slot \<open>i\<close>,
  switched to in table \<open>T\<close>, has switched back: everything that processes and other processors did
  in between. The result lists the slots that were run.
\<close>

definition dispatch :: "nat \<Rightarrow> ptable \<Rightarrow> ptable" where
  "dispatch i T = upd_proc i (\<lambda>p. p\<lparr>p_state := RUNNING\<rparr>) T"

fun sched_high :: "(nat \<Rightarrow> ptable \<Rightarrow> ptable) \<Rightarrow> nat list \<Rightarrow> nat \<Rightarrow> nat option \<Rightarrow> ptable
    \<Rightarrow> nat list \<times> nat \<times> nat option \<times> ptable" where
  "sched_high run [] nalta pnormal T = ([], nalta, pnormal, T)"
| "sched_high run (i # is) nalta pnormal T =
     (let p = procs T ! i
      in if p_state p \<noteq> RUNNABLE then sched_high run is nalta pnormal T
         else if p_prio p = HIGH
         then let (ran, r) = sched_high run is (Suc nalta) pnormal (run i (dispatch i T))
              in (i # ran, r)
         else sched_high run is nalta (if pnormal = None then Some i else pnormal) T)"

fun sched_normal :: "(nat \<Rightarrow> ptable \<Rightarrow> ptable) \<Rightarrow> nat list \<Rightarrow> ptable \<Rightarrow> nat list \<times> ptable" where
  "sched_normal run [] T = ([], T)"
| "sched_normal run (i # is) T =
     (if p_state (procs T ! i) \<noteq> RUNNABLE then sched_normal run is T
      else let (ran, T') = sched_normal run is (run i (dispatch i T)) in (i # ran, T'))"

definition scheduler_pass :: "(nat \<Rightarrow> ptable \<Rightarrow> ptable) \<Rightarrow> ptable \<Rightarrow> nat list \<times> ptable" where
  "scheduler_pass run T =
     (let (ran, nalta, pnormal, T) = sched_high run [0..<NPROC] 0 None T
      in case pnormal of
           Some i \<Rightarrow> if nalta = 0
             then let (ran', T) = sched_normal run [i..<NPROC] T in (ran @ ran', T)
             else (ran, T)
         | None \<Rightarrow> (ran, T))"

section \<open>Looking up and updating slots\<close>

lemma procs_upd [simp]: "length (procs (upd_proc i f T)) = length (procs T)"
  by (simp add: upd_proc_def)

lemma upd_proc_nth:
  "j < length (procs T) \<Longrightarrow> procs (upd_proc i f T) ! j = (if i = j then f (procs T ! j) else procs T ! j)"
  by (simp add: upd_proc_def nth_list_update)

lemma upd_proc_sel [simp]: "nextpid (upd_proc i f T) = nextpid T" "initproc (upd_proc i f T) = initproc T"
  by (simp_all add: upd_proc_def)

lemma wakeup1_sel [simp]: "length (procs (wakeup1 ch T)) = length (procs T)"
  "nextpid (wakeup1 ch T) = nextpid T" "initproc (wakeup1 ch T) = initproc T"
  by (simp_all add: wakeup1_def)

lemma wakeup1_nth:
  "j < length (procs T) \<Longrightarrow> procs (wakeup1 ch T) ! j =
     (let p = procs T ! j in if p_state p = SLEEPING \<and> p_chan p = ch then p\<lparr>p_state := RUNNABLE\<rparr> else p)"
  by (simp add: wakeup1_def Let_def)

lemma scan_Some:
  "scan P ps = Some i \<Longrightarrow> i < length ps \<and> P (ps ! i) \<and> (\<forall>j<i. \<not> P (ps ! j))"
proof (induction ps arbitrary: i)
  case (Cons p ps)
  then show ?case by (auto split: if_splits simp: less_Suc_eq_0_disj)
qed simp

lemma scan_None: "scan P ps = None \<longleftrightarrow> (\<forall>p\<in>set ps. \<not> P p)"
  by (induction ps) auto

section \<open>The invariant of the table\<close>

definition live :: "procstate \<Rightarrow> bool" where
  "live st \<longleftrightarrow> st \<noteq> UNUSED \<and> st \<noteq> ZOMBIE"

text \<open>
  Pids of slots in use are positive, below \<^verbatim>\<open>nextpid\<close> and unique; parents (and \<^verbatim>\<open>initproc\<close>) are live; a
  free slot and \<^verbatim>\<open>initproc\<close> have no parent and nobody is its own; and no process sleeps in \<^verbatim>\<open>wait\<close> while it has a zombie child.
\<close>

definition slot_ok :: "ptable \<Rightarrow> nat \<Rightarrow> bool" where
  "slot_ok T i \<longleftrightarrow>
     (let p = procs T ! i
      in (p_state p \<noteq> UNUSED \<longrightarrow> 0 < p_pid p \<and> p_pid p < nextpid T) \<and>
         (p_state p = UNUSED \<longrightarrow> p_parent p = None) \<and>
         (\<forall>q. p_parent p = Some q \<longrightarrow> q < NPROC \<and> q \<noteq> i \<and> live (p_state (procs T ! q)) \<and>
            (p_state p = ZOMBIE \<longrightarrow>
               \<not> (p_state (procs T ! q) = SLEEPING \<and> p_chan (procs T ! q) = Some (Ch_proc q)))))"

definition ptable_inv :: "ptable \<Rightarrow> bool" where
  "ptable_inv T \<longleftrightarrow> length (procs T) = NPROC \<and> 0 < nextpid T \<and> (\<forall>i<NPROC. slot_ok T i) \<and>
     (\<forall>i<NPROC. \<forall>j<NPROC. p_state (procs T ! i) \<noteq> UNUSED \<longrightarrow> p_state (procs T ! j) \<noteq> UNUSED \<longrightarrow>
        p_pid (procs T ! i) = p_pid (procs T ! j) \<longrightarrow> i = j) \<and>
     (\<forall>r. initproc T = Some r \<longrightarrow> r < NPROC \<and> live (p_state (procs T ! r)) \<and>
        p_parent (procs T ! r) = None)"

lemma ptable_inv_length: "ptable_inv T \<Longrightarrow> length (procs T) = NPROC"
  unfolding ptable_inv_def by blast

lemma ptable_inv_next: "ptable_inv T \<Longrightarrow> 0 < nextpid T"
  unfolding ptable_inv_def by blast

lemma ptable_inv_slot: "ptable_inv T \<Longrightarrow> i < NPROC \<Longrightarrow> slot_ok T i"
  unfolding ptable_inv_def by blast

lemma ptable_inv_inj:
  "ptable_inv T \<Longrightarrow> i < NPROC \<Longrightarrow> j < NPROC \<Longrightarrow> p_state (procs T ! i) \<noteq> UNUSED \<Longrightarrow>
     p_state (procs T ! j) \<noteq> UNUSED \<Longrightarrow> p_pid (procs T ! i) = p_pid (procs T ! j) \<Longrightarrow> i = j"
  unfolding ptable_inv_def by blast

lemma ptable_inv_init:
  "ptable_inv T \<Longrightarrow> initproc T = Some r \<Longrightarrow>
     r < NPROC \<and> live (p_state (procs T ! r)) \<and> p_parent (procs T ! r) = None"
  unfolding ptable_inv_def by blast

lemma ptable_invI:
  assumes "length (procs T) = NPROC" "0 < nextpid T" "\<And>i. i < NPROC \<Longrightarrow> slot_ok T i"
    "\<And>i j. i < NPROC \<Longrightarrow> j < NPROC \<Longrightarrow> p_state (procs T ! i) \<noteq> UNUSED \<Longrightarrow>
       p_state (procs T ! j) \<noteq> UNUSED \<Longrightarrow> p_pid (procs T ! i) = p_pid (procs T ! j) \<Longrightarrow> i = j"
    "\<And>r. initproc T = Some r \<Longrightarrow>
       r < NPROC \<and> live (p_state (procs T ! r)) \<and> p_parent (procs T ! r) = None"
  shows "ptable_inv T"
  unfolding ptable_inv_def using assms by blast

text \<open>
  What the invariant reads of a slot: a step that keeps liveness of parents, keeps pids and puts
  nobody to sleep in \<^verbatim>\<open>wait\<close> keeps the invariant.
\<close>

lemma ptable_inv_keep:
  assumes inv: "ptable_inv T" and len: "length (procs T') = NPROC"
    and ini: "initproc T' = initproc T" "nextpid T' = nextpid T"
    and same: "\<And>i. i < NPROC \<Longrightarrow> p_pid (procs T' ! i) = p_pid (procs T ! i) \<and>
        p_parent (procs T' ! i) = p_parent (procs T ! i) \<and>
        (p_state (procs T' ! i) = UNUSED \<longleftrightarrow> p_state (procs T ! i) = UNUSED) \<and>
        (p_state (procs T' ! i) = ZOMBIE \<longleftrightarrow> p_state (procs T ! i) = ZOMBIE)"
    and slp: "\<And>i. i < NPROC \<Longrightarrow> p_state (procs T' ! i) = SLEEPING \<Longrightarrow> p_chan (procs T' ! i) = Some (Ch_proc i) \<Longrightarrow>
        p_state (procs T ! i) = SLEEPING \<and> p_chan (procs T ! i) = Some (Ch_proc i)"
  shows "ptable_inv T'"
proof -
  have live: "live (p_state (procs T' ! i)) = live (p_state (procs T ! i))" if "i < NPROC" for i
    using same [OF that] by (simp add: live_def)
  have "slot_ok T' i" if i: "i < NPROC" for i
  proof -
    have "slot_ok T i" using inv i by (simp add: ptable_inv_def)
    then show ?thesis
      using same [OF i] ini live slp unfolding slot_ok_def Let_def by metis
  qed
  then show ?thesis using inv len ini same live unfolding ptable_inv_def by metis
qed

lemma upd_keep_inv:
  assumes inv: "ptable_inv T" and f: "\<And>p. p_pid (f p) = p_pid p \<and> p_parent (f p) = p_parent p"
    and st: "live (p_state (procs T ! i))" "live (p_state (f (procs T ! i)))"
    and ch: "p_state (f (procs T ! i)) = SLEEPING \<Longrightarrow> p_chan (f (procs T ! i)) \<noteq> Some (Ch_proc i)"
  shows "ptable_inv (upd_proc i f T)"
  by (rule ptable_inv_keep [OF inv])
    (use inv f st ch in \<open>auto simp: ptable_inv_length upd_proc_nth live_def split: if_splits\<close>)

lemma wakeup1_inv: "ptable_inv T \<Longrightarrow> ptable_inv (wakeup1 ch T)"
  by (rule ptable_inv_keep) (auto simp: ptable_inv_length wakeup1_nth Let_def split: if_splits)

lemma kill_inv:
  assumes inv: "ptable_inv T"
  shows "ptable_inv (snd (kill pid T))"
proof (cases "scan (\<lambda>p. p_pid p = pid) (procs T)")
  case (Some i)
  let ?f = "\<lambda>p. p\<lparr>p_killed := True, p_state := (if p_state p = SLEEPING then RUNNABLE else p_state p)\<rparr>"
  have "ptable_inv (upd_proc i ?f T)"
    by (rule ptable_inv_keep [OF inv])
      (use inv in \<open>auto simp: ptable_inv_length upd_proc_nth split: if_splits\<close>)
  then show ?thesis using Some by (simp add: kill_def)
qed (simp add: kill_def inv)

lemma setprocprio_inv:
  assumes inv: "ptable_inv T"
  shows "ptable_inv (setprocprio pid prio T)"
proof (cases "scan (\<lambda>p. p_pid p = pid) (procs T)")
  case (Some i)
  have "ptable_inv (upd_proc i (\<lambda>p. p\<lparr>p_prio := prio\<rparr>) T)"
    by (rule ptable_inv_keep [OF inv])
      (use inv in \<open>auto simp: ptable_inv_length upd_proc_nth split: if_splits\<close>)
  then show ?thesis using Some by (simp add: setprocprio_def)
qed (simp add: setprocprio_def inv)

text \<open>A free slot is nobody's parent.\<close>

lemma not_parent:
  assumes "ptable_inv T" "j < NPROC" "p_parent (procs T ! j) = Some i"
  shows "live (p_state (procs T ! i))" "i < NPROC"
  using ptable_inv_slot [OF assms(1,2)] assms(3) by (auto simp: slot_ok_def Let_def)

lemma alloc_slot_inv:
  assumes inv: "ptable_inv T" and i: "i < NPROC" "p_state (procs T ! i) = UNUSED"
    and f: "p_state (f (procs T ! i)) = EMBRYO" "p_pid (f (procs T ! i)) = nextpid T"
      "p_parent (f (procs T ! i)) = p_parent (procs T ! i)" and n: "n = nextpid T + 1"
  shows "ptable_inv (upd_proc i f (T\<lparr>nextpid := n\<rparr>))"
proof -
  define T' where T': "T' = upd_proc i f (T\<lparr>nextpid := n\<rparr>)"
  have nx: "nextpid T' = nextpid T + 1" "initproc T' = initproc T" by (simp_all add: T' n)
  have len: "length (procs T) = NPROC" by (rule ptable_inv_length [OF inv])
  have nth: "procs T' ! j = (if i = j then f (procs T ! j) else procs T ! j)" if "j < NPROC" for j
    using that len by (simp add: T' upd_proc_nth)
  note so = ptable_inv_slot [OF inv]
  have np: "p_parent (procs T ! j) \<noteq> Some i" if "j < NPROC" for j
    using not_parent [OF inv that] i by (auto simp: live_def)
  have lt: "p_pid (procs T ! j) < nextpid T" if "j < NPROC" "p_state (procs T ! j) \<noteq> UNUSED" for j
    using so [OF that(1)] that(2) by (simp add: slot_ok_def Let_def)
  show ?thesis unfolding T' [symmetric]
  proof (rule ptable_invI)
    show "length (procs T') = NPROC" using len by (simp add: T')
    show "0 < nextpid T'" using ptable_inv_next [OF inv] nx by simp
  next
    fix j assume j: "j < NPROC"
    show "slot_ok T' j"
    proof (cases "j = i")
      case True
      then show ?thesis using so [OF i(1)] i f nx ptable_inv_next [OF inv]
        by (simp add: slot_ok_def Let_def nth)
    next
      case False
      then show ?thesis using so [OF j] np [OF j] j nx
        by (auto simp: slot_ok_def Let_def nth)
    qed
  next
    fix j k assume "j < NPROC" "k < NPROC" "p_state (procs T' ! j) \<noteq> UNUSED"
      "p_state (procs T' ! k) \<noteq> UNUSED" "p_pid (procs T' ! j) = p_pid (procs T' ! k)"
    then show "j = k"
      using lt [of j] lt [of k] ptable_inv_inj [OF inv, of j k] f
      by (cases "j = i"; cases "k = i") (simp_all add: nth)
  next
    fix r assume "initproc T' = Some r"
    then show "r < NPROC \<and> live (p_state (procs T' ! r)) \<and> p_parent (procs T' ! r) = None"
      using ptable_inv_init [OF inv, of r] i nth [of r] nx by (auto simp: live_def)
  qed
qed

lemma free_slot_inv:
  assumes inv: "ptable_inv T" and i: "i < NPROC" "initproc T \<noteq> Some i"
    and np: "\<forall>j<NPROC. p_parent (procs T ! j) \<noteq> Some i"
    and f: "p_state (f (procs T ! i)) = UNUSED" "p_parent (f (procs T ! i)) = None"
  shows "ptable_inv (upd_proc i f T)"
proof -
  let ?T = "upd_proc i f T"
  have len: "length (procs T) = NPROC" by (rule ptable_inv_length [OF inv])
  have nth: "procs ?T ! j = (if i = j then f (procs T ! j) else procs T ! j)" if "j < NPROC" for j
    using that len by (simp add: upd_proc_nth)
  note so = ptable_inv_slot [OF inv]
  show ?thesis
  proof (rule ptable_invI)
    show "length (procs ?T) = NPROC" "0 < nextpid ?T" using len ptable_inv_next [OF inv] by simp_all
  next
    fix j assume j: "j < NPROC"
    show "slot_ok ?T j"
      using so [OF j] np j f i by (cases "j = i") (auto simp: slot_ok_def Let_def nth)
  next
    fix j k assume "j < NPROC" "k < NPROC" "p_state (procs ?T ! j) \<noteq> UNUSED"
      "p_state (procs ?T ! k) \<noteq> UNUSED" "p_pid (procs ?T ! j) = p_pid (procs ?T ! k)"
    then show "j = k"
      using ptable_inv_inj [OF inv, of j k] f by (cases "j = i"; cases "k = i") (simp_all add: nth)
  next
    fix r assume "initproc ?T = Some r"
    then show "r < NPROC \<and> live (p_state (procs ?T ! r)) \<and> p_parent (procs ?T ! r) = None"
      using ptable_inv_init [OF inv, of r] i nth [of r] by auto
  qed
qed

lemma set_parent_inv:
  assumes inv: "ptable_inv T" and i: "p_state (procs T ! i) = EMBRYO" "i \<noteq> me" "initproc T \<noteq> Some i"
    and me: "me < NPROC" "live (p_state (procs T ! me))"
  shows "ptable_inv (upd_proc i (\<lambda>p. p\<lparr>p_parent := Some me\<rparr>) T)"
proof -
  let ?T = "upd_proc i (\<lambda>p. p\<lparr>p_parent := Some me\<rparr>) T"
  have len: "length (procs T) = NPROC" by (rule ptable_inv_length [OF inv])
  have nth: "procs ?T ! j = (if i = j then (procs T ! j)\<lparr>p_parent := Some me\<rparr> else procs T ! j)"
    if "j < NPROC" for j using that len by (simp add: upd_proc_nth)
  have st: "p_state (procs ?T ! j) = p_state (procs T ! j)" "p_pid (procs ?T ! j) = p_pid (procs T ! j)"
    "p_chan (procs ?T ! j) = p_chan (procs T ! j)" if "j < NPROC" for j
    using nth [OF that] by simp_all
  show ?thesis
  proof (rule ptable_invI)
    show "length (procs ?T) = NPROC" "0 < nextpid ?T" using len ptable_inv_next [OF inv] by simp_all
  next
    fix j assume j: "j < NPROC"
    show "slot_ok ?T j"
      using ptable_inv_slot [OF inv j] st j i me by (cases "j = i") (auto simp: slot_ok_def Let_def nth)
  next
    fix j k assume "j < NPROC" "k < NPROC" "p_state (procs ?T ! j) \<noteq> UNUSED"
      "p_state (procs ?T ! k) \<noteq> UNUSED" "p_pid (procs ?T ! j) = p_pid (procs ?T ! k)"
    then show "j = k" using ptable_inv_inj [OF inv, of j k] by (simp add: st)
  next
    fix r assume "initproc ?T = Some r"
    then show "r < NPROC \<and> live (p_state (procs ?T ! r)) \<and> p_parent (procs ?T ! r) = None"
      using ptable_inv_init [OF inv, of r] st nth [of r] i by auto
  qed
qed

section \<open>Exit and wait keep the invariant\<close>

definition in_wait :: "ptable \<Rightarrow> nat \<Rightarrow> bool" where
  "in_wait T q \<longleftrightarrow> p_state (procs T ! q) = SLEEPING \<and> p_chan (procs T ! q) = Some (Ch_proc q)"

lemma hand_over_sel [simp]: "length (procs (hand_over me i T)) = length (procs T)"
  "nextpid (hand_over me i T) = nextpid T" "initproc (hand_over me i T) = initproc T"
  by (simp_all add: hand_over_def Let_def)

text \<open>What handing over slot \<open>i\<close> does to slot \<open>j\<close>.\<close>

lemma hand_over_nth:
  assumes "j < length (procs T)"
  shows "p_pid (procs (hand_over me i T) ! j) = p_pid (procs T ! j)"
    "p_pgdir (procs (hand_over me i T) ! j) = p_pgdir (procs T ! j)"
    "p_chan (procs (hand_over me i T) ! j) = p_chan (procs T ! j)"
    "p_parent (procs (hand_over me i T) ! j) =
       (if j = i \<and> p_parent (procs T ! j) = Some me then initproc T else p_parent (procs T ! j))"
    "p_state (procs (hand_over me i T) ! j) = p_state (procs T ! j) \<or>
       p_state (procs T ! j) = SLEEPING \<and> p_state (procs (hand_over me i T) ! j) = RUNNABLE"
  using assms by (auto simp: hand_over_def Let_def upd_proc_nth wakeup1_nth)

lemma hand_over_awake:
  assumes "i < length (procs T)" "p_parent (procs T ! i) = Some me" "p_state (procs T ! i) = ZOMBIE"
    "initproc T = Some r" "r < length (procs T)"
  shows "\<not> in_wait (hand_over me i T) r"
  using assms by (auto simp: hand_over_def Let_def in_wait_def upd_proc_nth wakeup1_nth)

lemma hand_over_inv:
  assumes inv: "ptable_inv T" and i: "i < NPROC" and me: "initproc T \<noteq> Some me"
  shows "ptable_inv (hand_over me i T)"
proof -
  define T' where T': "T' = hand_over me i T"
  have len: "length (procs T) = NPROC" by (rule ptable_inv_length [OF inv])
  note h = hand_over_nth [of _ T me i, folded T', unfolded len]
  have st: "p_state (procs T' ! j) = UNUSED \<longleftrightarrow> p_state (procs T ! j) = UNUSED"
    "p_state (procs T' ! j) = ZOMBIE \<longleftrightarrow> p_state (procs T ! j) = ZOMBIE"
    "live (p_state (procs T' ! j)) = live (p_state (procs T ! j))" if "j < NPROC" for j
    using h(5) [OF that] by (auto simp: live_def)
  have aw: "in_wait T' q \<Longrightarrow> in_wait T q" if "q < NPROC" for q
    using h(3,5) [OF that] by (auto simp: in_wait_def)
  show ?thesis unfolding T' [symmetric]
  proof (rule ptable_invI)
    show "length (procs T') = NPROC" "0 < nextpid T'"
      using len ptable_inv_next [OF inv] by (simp_all add: T')
  next
    fix j assume j: "j < NPROC"
    note so = ptable_inv_slot [OF inv j]
    show "slot_ok T' j"
    proof (cases "j = i \<and> p_parent (procs T ! j) = Some me")
      case True
      have "r < NPROC \<and> r \<noteq> i \<and> live (p_state (procs T ! r)) \<and> (p_state (procs T ! i) = ZOMBIE \<longrightarrow> \<not> in_wait T' r)"
        if r: "initproc T = Some r" for r
        using ptable_inv_init [OF inv r] True hand_over_awake [of i T me r] r len i by (auto simp: T')
      moreover have "p_state (procs T ! i) \<noteq> UNUSED"
        using so True by (auto simp: slot_ok_def Let_def)
      ultimately show ?thesis
        using so True h(1,4) [OF j] st j
        by (auto simp: slot_ok_def Let_def in_wait_def T')
    next
      case False
      then show ?thesis using so h(1,4) [OF j] st aw j
        by (auto simp: slot_ok_def Let_def in_wait_def T')
    qed
  next
    fix j k assume "j < NPROC" "k < NPROC" "p_state (procs T' ! j) \<noteq> UNUSED"
      "p_state (procs T' ! k) \<noteq> UNUSED" "p_pid (procs T' ! j) = p_pid (procs T' ! k)"
    then show "j = k" using ptable_inv_inj [OF inv, of j k] by (simp add: st h(1))
  next
    fix r assume "initproc T' = Some r"
    then have "initproc T = Some r" by (simp add: T')
    then show "r < NPROC \<and> live (p_state (procs T' ! r)) \<and> p_parent (procs T' ! r) = None"
      using ptable_inv_init [OF inv, of r] st h(4) [of r] by auto
  qed
qed

lemma reparent_inv:
  assumes "ptable_inv T" "set is \<subseteq> {..<NPROC}" "initproc T \<noteq> Some me"
  shows "ptable_inv (reparent me is T) \<and> initproc (reparent me is T) = initproc T"
  using assms
proof (induction "is" arbitrary: T)
  case (Cons i "is")
  have "ptable_inv (hand_over me i T)" using Cons.prems by (intro hand_over_inv) auto
  then show ?case using Cons.IH [of "hand_over me i T"] Cons.prems by simp
qed simp

text \<open>After the loop of \<^verbatim>\<open>exit\<close> no slot it visited names \<open>me\<close> as its parent.\<close>

definition handed_over :: "nat \<Rightarrow> nat set \<Rightarrow> ptable \<Rightarrow> ptable \<Rightarrow> nat \<Rightarrow> bool" where
  "handed_over me I T T' j \<longleftrightarrow>
     p_pgdir (procs T' ! j) = p_pgdir (procs T ! j) \<and>
     (p_parent (procs T ! j) \<noteq> Some me \<longrightarrow> p_parent (procs T' ! j) = p_parent (procs T ! j)) \<and>
     (j \<in> I \<longrightarrow> p_parent (procs T' ! j) \<noteq> Some me) \<and> (in_wait T' j \<longrightarrow> in_wait T j) \<and>
     (p_state (procs T' ! j) = p_state (procs T ! j) \<or>
      p_state (procs T ! j) = SLEEPING \<and> p_state (procs T' ! j) = RUNNABLE)"

lemma handed_over_one:
  assumes "j < length (procs T)" "initproc T \<noteq> Some me"
  shows "handed_over me {i} T (hand_over me i T) j"
  using hand_over_nth [OF assms(1), of me i] assms(2)
  by (auto simp: handed_over_def in_wait_def split: if_splits)

lemma handed_over_trans:
  "handed_over me I T T' j \<Longrightarrow> handed_over me J T' T'' j \<Longrightarrow> handed_over me (I \<union> J) T T'' j"
  unfolding handed_over_def by (elim conjE) (intro conjI, auto)

lemma reparent_nth:
  assumes "j < length (procs T)" "initproc T \<noteq> Some me"
  shows "length (procs (reparent me is T)) = length (procs T) \<and> handed_over me (set is) T (reparent me is T) j"
  using assms
proof (induction "is" arbitrary: T)
  case (Cons i "is")
  have "handed_over me ({i} \<union> set is) T (reparent me is (hand_over me i T)) j"
    using Cons.IH [of "hand_over me i T"] Cons.prems by (intro handed_over_trans [OF handed_over_one]) auto
  then show ?case using Cons.IH [of "hand_over me i T"] Cons.prems by simp
qed (simp add: handed_over_def)

lemma become_zombie_inv:
  assumes inv: "ptable_inv T" and me: "me < NPROC" "initproc T \<noteq> Some me" "p_state (procs T ! me) \<noteq> UNUSED"
    and np: "\<And>j. j < NPROC \<Longrightarrow> p_parent (procs T ! j) \<noteq> Some me"
    and aw: "\<And>q. p_parent (procs T ! me) = Some q \<Longrightarrow> \<not> in_wait T q"
  shows "ptable_inv (upd_proc me (\<lambda>p. p\<lparr>p_state := ZOMBIE, p_ret := status\<rparr>) T)"
proof -
  let ?f = "\<lambda>p. p\<lparr>p_state := ZOMBIE, p_ret := status\<rparr>"
  define T' where T': "T' = upd_proc me ?f T"
  have len: "length (procs T) = NPROC" by (rule ptable_inv_length [OF inv])
  have nth: "procs T' ! j = (if me = j then ?f (procs T ! j) else procs T ! j)" if "j < NPROC" for j
    using that len by (simp add: T' upd_proc_nth)
  show ?thesis unfolding T' [symmetric]
  proof (rule ptable_invI)
    show "length (procs T') = NPROC" "0 < nextpid T'"
      using len ptable_inv_next [OF inv] by (simp_all add: T')
  next
    fix j assume j: "j < NPROC"
    have nx: "nextpid T' = nextpid T" by (simp add: T')
    show "slot_ok T' j"
      using ptable_inv_slot [OF inv j] np [OF j] aw me j nx
      by (cases "j = me") (auto simp: slot_ok_def Let_def nth in_wait_def)
  next
    fix j k assume "j < NPROC" "k < NPROC" "p_state (procs T' ! j) \<noteq> UNUSED"
      "p_state (procs T' ! k) \<noteq> UNUSED" "p_pid (procs T' ! j) = p_pid (procs T' ! k)"
    then show "j = k"
      using ptable_inv_inj [OF inv, of j k] me(3) by (auto simp: nth split: if_splits)
  next
    fix r assume "initproc T' = Some r"
    then have "initproc T = Some r" by (simp add: T')
    then show "r < NPROC \<and> live (p_state (procs T' ! r)) \<and> p_parent (procs T' ! r) = None"
      using ptable_inv_init [OF inv, of r] me nth [of r] by auto
  qed
qed

lemma exit_zombie_inv:
  assumes inv: "ptable_inv T" and me: "me < NPROC" "initproc T \<noteq> Some me" "p_state (procs T ! me) = RUNNING"
    and ex: "exit_zombie kend me status T s = Ok (T', s')"
  shows "ptable_inv T' \<and> p_state (procs T' ! me) = ZOMBIE \<and> p_ret (procs T' ! me) = status \<and>
    p_parent (procs T' ! me) = p_parent (procs T ! me)"
proof -
  let ?ch = "map_option Ch_proc (p_parent (procs T ! me))"
  define T1 where T1: "T1 = wakeup1 ?ch T"
  define T2 where T2: "T2 = reparent me [0..<NPROC] T1"
  have len: "length (procs T) = NPROC" by (rule ptable_inv_length [OF inv])
  have inv1: "ptable_inv T1" unfolding T1 by (rule wakeup1_inv [OF inv])
  have sub: "set [0..<NPROC] \<subseteq> {..<NPROC}" by auto
  have ini: "initproc T1 \<noteq> Some me" using me(2) by (simp add: T1)
  have inv2: "ptable_inv T2" "initproc T2 = initproc T"
    using reparent_inv [OF inv1 sub ini] by (simp_all add: T2 T1)
  have l1: "length (procs T1) = NPROC" using len by (simp add: T1)
  have f1: "p_parent (procs T1 ! me) = p_parent (procs T ! me)" "p_state (procs T1 ! me) = RUNNING"
    using wakeup1_nth [of me T ?ch] me len by (simp_all add: T1 Let_def)
  have own: "p_parent (procs T ! me) \<noteq> Some me"
    using ptable_inv_slot [OF inv me(1)] by (auto simp: slot_ok_def Let_def)
  have r: "handed_over me {..<NPROC} T1 T2 j" if "j < NPROC" for j
    using reparent_nth [of j T1 me "[0..<NPROC]"] that ini l1 by (simp add: T2 lessThan_atLeast0)
  have pm: "p_parent (procs T2 ! me) = p_parent (procs T ! me)" using r [OF me(1)] f1 own by (simp add: handed_over_def)
  have "\<not> in_wait T2 q" if q: "p_parent (procs T2 ! me) = Some q" for q
  proof -
    have "q < NPROC" using not_parent(2) [OF inv2(1) me(1) q] .
    moreover have "\<not> in_wait T1 q"
      using wakeup1_nth [of q T ?ch] calculation len q pm by (auto simp: T1 in_wait_def Let_def)
    ultimately show ?thesis using r unfolding handed_over_def by blast
  qed
  moreover have "p_state (procs T2 ! me) \<noteq> UNUSED" using r [OF me(1)] f1 by (auto simp: handed_over_def)
  ultimately have "ptable_inv (upd_proc me (\<lambda>p. p\<lparr>p_state := ZOMBIE, p_ret := status\<rparr>) T2)"
    using r me inv2 by (intro become_zombie_inv) (auto simp: handed_over_def)
  moreover have "T' = upd_proc me (\<lambda>p. p\<lparr>p_state := ZOMBIE, p_ret := status\<rparr>) T2"
    using ex by (auto simp: exit_zombie_def Let_def outcome_simps T1 T2)
  moreover have "length (procs T2) = NPROC" by (rule ptable_inv_length [OF inv2(1)])
  ultimately show ?thesis using me(1) pm by (simp add: upd_proc_nth)
qed

lemma wait_scan_inv:
  assumes inv: "ptable_inv T" and w: "wait_scan kend me T s = Ok (r, st, T', s')"
  shows "ptable_inv T'"
proof (cases "scan (\<lambda>p. p_parent p = Some me \<and> p_state p = ZOMBIE) (procs T)")
  case None
  then show ?thesis using w inv by (auto simp: wait_scan_def split: if_splits)
next
  case (Some i)
  let ?f = "\<lambda>p. p\<lparr>p_kstack := 0, p_pid := 0, p_parent := None, p_name := (p_name p)[0 := 0],
    p_killed := False, p_state := UNUSED\<rparr>"
  have i: "i < NPROC" "p_state (procs T ! i) = ZOMBIE"
    using scan_Some [OF Some] ptable_inv_length [OF inv] by auto
  have "T' = upd_proc i ?f T" using w Some by (auto simp: wait_scan_def Let_def outcome_simps)
  moreover have "ptable_inv (upd_proc i ?f T)"
  proof (rule free_slot_inv [OF inv i(1)])
    show "initproc T \<noteq> Some i" using ptable_inv_init [OF inv, of i] i(2) by (auto simp: live_def)
    show "\<forall>j<NPROC. p_parent (procs T ! j) \<noteq> Some i"
      using not_parent(1) [OF inv, of _ i] i(2) by (auto simp: live_def)
  qed simp_all
  ultimately show ?thesis by simp
qed

lemma upd_proc_twice: "i < length (procs T) \<Longrightarrow> upd_proc i f (upd_proc i g T) = upd_proc i (\<lambda>p. f (g p)) T"
  by (simp add: upd_proc_def)

lemma int32_small: "- (2 ^ 31) \<le> n \<Longrightarrow> n < 2 ^ 31 \<Longrightarrow> int32 n = n"
  by (simp add: int32_def sint_sbintrunc' signed_take_bit_int_eq_self)

lemma allocproc_inv:
  assumes inv: "ptable_inv T" and n: "nextpid T < 2 ^ 31 - 1"
    and a: "allocproc trapret forkret T s = (r, T', s')"
  shows "ptable_inv T'"
proof (cases "scan (\<lambda>p. p_state p = UNUSED) (procs T)")
  case None
  then show ?thesis using a inv by (simp add: allocproc_def)
next
  case (Some i)
  have len: "length (procs T) = NPROC" by (rule ptable_inv_length [OF inv])
  have i: "i < NPROC" "p_state (procs T ! i) = UNUSED" using scan_Some [OF Some] len by auto
  have nx: "int32 (nextpid T + 1) = nextpid T + 1"
    using n ptable_inv_next [OF inv] by (intro int32_small) auto
  obtain k s1 where k: "kalloc s = (k, s1)" by (cases "kalloc s")
  let ?tf = "k + KSTACKSIZE - TF_SIZE"
  let ?g = "\<lambda>p. p\<lparr>p_state := EMBRYO, p_pid := nextpid T, p_kstack := k\<rparr>"
  let ?h = "\<lambda>p. (?g p)\<lparr>p_tf := ?tf, p_context := ?tf - 4 - CTX_SIZE\<rparr>"
  let ?T = "T\<lparr>nextpid := nextpid T + 1\<rparr>"
  have il: "i < length (procs ?T)" using i len by simp
  have T': "T' = (if k = 0 then upd_proc i (\<lambda>p. p\<lparr>p_state := UNUSED\<rparr>) (upd_proc i ?g ?T) else upd_proc i ?h ?T)"
    using a Some k nx il by (auto simp: allocproc_def Let_def upd_proc_twice split: if_splits)
  have E: "ptable_inv (upd_proc i f ?T)"
    if "p_state (f (procs T ! i)) = EMBRYO" "p_pid (f (procs T ! i)) = nextpid T"
      "p_parent (f (procs T ! i)) = p_parent (procs T ! i)" for f
    using that by (intro alloc_slot_inv [OF inv i]) auto
  have None: "p_parent (procs T ! i) = None"
    using ptable_inv_slot [OF inv i(1)] i(2) by (simp add: slot_ok_def Let_def)
  have G: "ptable_inv (upd_proc i ?g ?T)" by (rule E) simp_all
  have "ptable_inv (upd_proc i (\<lambda>p. p\<lparr>p_state := UNUSED\<rparr>) (upd_proc i ?g ?T))"
  proof (rule free_slot_inv [OF G i(1)])
    show "initproc (upd_proc i ?g ?T) \<noteq> Some i" using ptable_inv_init [OF inv, of i] i by (auto simp: live_def)
    show "\<forall>j<NPROC. p_parent (procs (upd_proc i ?g ?T) ! j) \<noteq> Some i"
      using not_parent(1) [OF inv, of _ i] i None len by (auto simp: upd_proc_nth live_def)
  qed (use il None in \<open>simp_all add: upd_proc_nth\<close>)
  moreover have "ptable_inv (upd_proc i ?h ?T)" by (rule E) simp_all
  ultimately show ?thesis unfolding T' by (simp only: split: if_split) blast
qed

section \<open>The life of processes\<close>

text \<open>
  The steps of the table, each with the guard its caller guarantees: \<open>fork\<close> allocates a slot, gives
  it a parent and makes it runnable or gives the slot back; a running process yields, sleeps,
  resumes, waits or exits; anyone wakes sleepers, kills a pid or sets a priority; the scheduler
  dispatches runnable processes; \<^verbatim>\<open>userinit\<close> names the first process. The pid counter stays below its
  32-bit limit.
\<close>

inductive pt_step :: "ptable \<Rightarrow> ptable \<Rightarrow> bool" where
  allocate: "nextpid T < 2 ^ 31 - 1 \<Longrightarrow> allocproc trapret forkret T s = (r, T', s') \<Longrightarrow> pt_step T T'"
| first: "i < NPROC \<Longrightarrow> p_state (procs T ! i) = EMBRYO \<Longrightarrow> p_parent (procs T ! i) = None \<Longrightarrow>
    initproc T = None \<Longrightarrow> pt_step T (T\<lparr>initproc := Some i\<rparr>)"
| give_back: "i < NPROC \<Longrightarrow> p_state (procs T ! i) = EMBRYO \<Longrightarrow> p_parent (procs T ! i) = None \<Longrightarrow>
    initproc T \<noteq> Some i \<Longrightarrow> \<forall>j<NPROC. p_parent (procs T ! j) \<noteq> Some i \<Longrightarrow>
    pt_step T (upd_proc i (\<lambda>p. p\<lparr>p_kstack := 0, p_state := UNUSED\<rparr>) T)"
| adopt: "i < NPROC \<Longrightarrow> p_state (procs T ! i) = EMBRYO \<Longrightarrow> initproc T \<noteq> Some i \<Longrightarrow> me < NPROC \<Longrightarrow>
    p_state (procs T ! me) = RUNNING \<Longrightarrow> pt_step T (upd_proc i (\<lambda>p. p\<lparr>p_parent := Some me\<rparr>) T)"
| ready: "i < NPROC \<Longrightarrow> p_state (procs T ! i) = EMBRYO \<Longrightarrow>
    pt_step T (upd_proc i (\<lambda>p. p\<lparr>p_prio := prio, p_state := RUNNABLE\<rparr>) T)"
| run: "i < NPROC \<Longrightarrow> p_state (procs T ! i) = RUNNABLE \<Longrightarrow> pt_step T (dispatch i T)"
| yields: "me < NPROC \<Longrightarrow> p_state (procs T ! me) = RUNNING \<Longrightarrow> pt_step T (yield me T)"
| sleeps: "me < NPROC \<Longrightarrow> p_state (procs T ! me) = RUNNING \<Longrightarrow>
    sleep (Some me) (Some (Ch_addr a)) True T = Ok T' \<Longrightarrow> pt_step T T'"
| resumes: "me < NPROC \<Longrightarrow> p_state (procs T ! me) = RUNNING \<Longrightarrow> pt_step T (sleep_resume me T)"
| wakes: "pt_step T (wakeup ch T)"
| kills: "kill pid T = (r, T') \<Longrightarrow> pt_step T T'"
| prio: "pt_step T (setprocprio pid n T)"
| waits: "me < NPROC \<Longrightarrow> p_state (procs T ! me) = RUNNING \<Longrightarrow> wait_scan kend me T s = Blocked \<Longrightarrow>
    sleep (Some me) (Some (Ch_proc me)) True T = Ok T' \<Longrightarrow> pt_step T T'"
| reaps: "wait_scan kend me T s = Ok (r, st, T', s') \<Longrightarrow> pt_step T T'"
| exits: "me < NPROC \<Longrightarrow> p_state (procs T ! me) = RUNNING \<Longrightarrow> initproc T \<noteq> Some me \<Longrightarrow>
    exit_zombie kend me status T s = Ok (T', s') \<Longrightarrow> pt_step T T'"

lemma wait_sleep_inv:
  assumes inv: "ptable_inv T" and me: "me < NPROC" "p_state (procs T ! me) = RUNNING"
    and none: "\<forall>p\<in>set (procs T). \<not> (p_parent p = Some me \<and> p_state p = ZOMBIE)"
  shows "ptable_inv (upd_proc me (\<lambda>p. p\<lparr>p_chan := Some (Ch_proc me), p_state := SLEEPING\<rparr>) T)"
proof -
  let ?f = "\<lambda>p. p\<lparr>p_chan := Some (Ch_proc me), p_state := SLEEPING\<rparr>"
  define T' where T': "T' = upd_proc me ?f T"
  have len: "length (procs T) = NPROC" by (rule ptable_inv_length [OF inv])
  have nx: "nextpid T' = nextpid T" "initproc T' = initproc T" by (simp_all add: T')
  have nth: "procs T' ! j = (if me = j then ?f (procs T ! j) else procs T ! j)" if "j < NPROC" for j
    using that len by (simp add: T' upd_proc_nth)
  have st: "p_state (procs T' ! j) = UNUSED \<longleftrightarrow> p_state (procs T ! j) = UNUSED"
    "p_pid (procs T' ! j) = p_pid (procs T ! j)" "p_parent (procs T' ! j) = p_parent (procs T ! j)"
    "live (p_state (procs T' ! j)) = live (p_state (procs T ! j))" if "j < NPROC" for j
    using nth [OF that] me by (auto simp: live_def)
  show ?thesis unfolding T' [symmetric]
  proof (rule ptable_invI)
    show "length (procs T') = NPROC" "0 < nextpid T'" using len ptable_inv_next [OF inv] by (simp_all add: T')
  next
    fix j assume j: "j < NPROC"
    have "\<not> (p_parent (procs T ! j) = Some me \<and> p_state (procs T ! j) = ZOMBIE)" using none j len by simp
    then show "slot_ok T' j"
      using ptable_inv_slot [OF inv j] st j nx nth [OF j] me by (auto simp: slot_ok_def Let_def nth)
  next
    fix j k assume "j < NPROC" "k < NPROC" "p_state (procs T' ! j) \<noteq> UNUSED"
      "p_state (procs T' ! k) \<noteq> UNUSED" "p_pid (procs T' ! j) = p_pid (procs T' ! k)"
    then show "j = k" using ptable_inv_inj [OF inv, of j k] by (simp add: st)
  next
    fix r assume "initproc T' = Some r"
    then show "r < NPROC \<and> live (p_state (procs T' ! r)) \<and> p_parent (procs T' ! r) = None"
      using ptable_inv_init [OF inv, of r] nx st by simp
  qed
qed

lemma kfree_not_Blocked: "kfree kend v s \<noteq> Blocked"
  by (simp add: kfree_def Let_def)

lemma freevm_loop_not_Blocked: "freevm_loop kend pgdir is s \<noteq> Blocked"
  by (induction "is" arbitrary: s) (auto simp: Let_def bnd_eq_Blocked kfree_not_Blocked)

lemma wait_Blocked_no_zombie:
  assumes "wait_scan kend me T s = Blocked"
  shows "\<forall>p\<in>set (procs T). \<not> (p_parent p = Some me \<and> p_state p = ZOMBIE)"
proof (cases "scan (\<lambda>p. p_parent p = Some me \<and> p_state p = ZOMBIE) (procs T)")
  case (Some i)
  then show ?thesis using assms
    by (auto simp: wait_scan_def Let_def bnd_eq_Blocked kfree_not_Blocked freevm_def
        freevm_loop_not_Blocked split: if_splits)
qed (simp add: scan_None)

lemma pt_step_inv: "pt_step T T' \<Longrightarrow> ptable_inv T \<Longrightarrow> ptable_inv T'"
proof (induction rule: pt_step.induct)
  case (allocate T trapret forkret s r T' s')
  then show ?case using allocproc_inv by blast
next
  case (first i T)
  show ?case
  proof (rule ptable_invI)
    fix j assume "j < NPROC"
    then show "slot_ok (T\<lparr>initproc := Some i\<rparr>) j" using ptable_inv_slot [OF first(5)] by (simp add: slot_ok_def)
  next
    fix j k assume "j < NPROC" "k < NPROC" "p_state (procs (T\<lparr>initproc := Some i\<rparr>) ! j) \<noteq> UNUSED"
      "p_state (procs (T\<lparr>initproc := Some i\<rparr>) ! k) \<noteq> UNUSED"
      "p_pid (procs (T\<lparr>initproc := Some i\<rparr>) ! j) = p_pid (procs (T\<lparr>initproc := Some i\<rparr>) ! k)"
    then show "j = k" using ptable_inv_inj [OF first(5), of j k] by simp
  qed (use first ptable_inv_length ptable_inv_next in \<open>auto simp: live_def\<close>)
next
  case (give_back i T)
  then show ?case by (intro free_slot_inv) simp_all
next
  case (adopt i T me)
  then show ?case by (intro set_parent_inv) (auto simp: live_def)
next
  case (ready i T prio)
  then show ?case by (intro upd_keep_inv) (simp_all add: live_def)
next
  case (run i T)
  then show ?case unfolding dispatch_def by (intro upd_keep_inv) (simp_all add: live_def)
next
  case (yields me T)
  then show ?case unfolding yield_def by (intro upd_keep_inv) (simp_all add: live_def)
next
  case (sleeps me T a T')
  then have "T' = upd_proc me (\<lambda>p. p\<lparr>p_chan := Some (Ch_addr a), p_state := SLEEPING\<rparr>) T"
    by (simp add: sleep_def)
  then show ?case using sleeps by (simp, intro upd_keep_inv) (simp_all add: live_def)
next
  case (resumes me T)
  then show ?case unfolding sleep_resume_def by (intro upd_keep_inv) (simp_all add: live_def)
next
  case (wakes T ch)
  then show ?case unfolding wakeup_def by (rule wakeup1_inv)
next
  case (kills pid T r T')
  then show ?case using kill_inv [of T pid] by simp
next
  case (prio T pid n)
  then show ?case by (rule setprocprio_inv)
next
  case (waits me T kend s T')
  then show ?case
    using wait_sleep_inv [OF waits(5,1,2) wait_Blocked_no_zombie [OF waits(3)]] by (simp add: sleep_def)
next
  case (reaps kend me T s r st T' s')
  then show ?case using wait_scan_inv by blast
next
  case (exits me T kend status s T' s')
  then show ?case using exit_zombie_inv by blast
qed

lemma pt_steps_inv: "pt_step\<^sup>*\<^sup>* T T' \<Longrightarrow> ptable_inv T \<Longrightarrow> ptable_inv T'"
  by (induction rule: rtranclp_induct) (auto intro: pt_step_inv)

section \<open>What the scheduler runs\<close>

definition ready_high :: "ptable \<Rightarrow> nat \<Rightarrow> bool" where
  "ready_high T i \<longleftrightarrow> p_state (procs T ! i) = RUNNABLE \<and> p_prio (procs T ! i) = HIGH"

definition ready :: "ptable \<Rightarrow> nat \<Rightarrow> bool" where
  "ready T i \<longleftrightarrow> p_state (procs T ! i) = RUNNABLE"

text \<open>The table after the processes of the slots in a list have run, one after the other.\<close>

definition replay :: "(nat \<Rightarrow> ptable \<Rightarrow> ptable) \<Rightarrow> nat list \<Rightarrow> ptable \<Rightarrow> ptable" where
  "replay run is T = foldl (\<lambda>T i. run i (dispatch i T)) T is"

lemma replay_simps [simp]: "replay run [] T = T" "replay run (i # is) T = replay run is (run i (dispatch i T))"
  by (simp_all add: replay_def)

text \<open>The table that a scan which runs the slots \<open>rs\<close> finds when it gets to slot \<open>k\<close>.\<close>

definition table_at :: "(nat \<Rightarrow> ptable \<Rightarrow> ptable) \<Rightarrow> nat list \<Rightarrow> ptable \<Rightarrow> nat \<Rightarrow> ptable" where
  "table_at run rs T k = replay run (takeWhile (\<lambda>i. i < k) rs) T"

text \<open>Both loops are scans that run the slots satisfying a test when they are reached.\<close>

fun pass_scan :: "(ptable \<Rightarrow> nat \<Rightarrow> bool) \<Rightarrow> (nat \<Rightarrow> ptable \<Rightarrow> ptable) \<Rightarrow> nat list \<Rightarrow> ptable \<Rightarrow> nat list" where
  "pass_scan P run [] T = []"
| "pass_scan P run (i # is) T = (if P T i then i # pass_scan P run is (run i (dispatch i T)) else pass_scan P run is T)"

lemma pass_scan_subset: "set (pass_scan P run is T) \<subseteq> set is"
proof (induction "is" arbitrary: T)
  case (Cons i "is")
  have "set (pass_scan P run is U) \<subseteq> insert i (set is)" for U using Cons.IH [of U] by blast
  then show ?case by simp
qed simp

lemma pass_scan_sorted: "sorted_wrt (<) is \<Longrightarrow> sorted_wrt (<) (pass_scan P run is T)"
proof (induction "is" arbitrary: T)
  case (Cons i "is")
  have "\<forall>k\<in>set (pass_scan P run is U). i < k" for U using Cons.prems pass_scan_subset [of P run "is" U] by auto
  then show ?case using Cons by simp
qed simp

lemma pass_scan_set:
  "sorted_wrt (<) is \<Longrightarrow> set (pass_scan P run is T) = {k \<in> set is. P (table_at run (pass_scan P run is T) T k) k}"
proof (induction "is" arbitrary: T)
  case (Cons i "is")
  have srt: "sorted_wrt (<) is" and gt: "i < k" if "k \<in> set is" for k using Cons.prems that by auto
  show ?case
  proof (cases "P T i")
    case True
    define U where "U = run i (dispatch i T)"
    have at: "table_at run (i # pass_scan P run is U) T k = table_at run (pass_scan P run is U) U k" if "k \<in> set is" for k
      using gt [OF that] by (simp add: table_at_def U_def)
    have at_i: "table_at run (i # pass_scan P run is U) T i = T" by (simp add: table_at_def)
    have "set (pass_scan P run is U) = {k \<in> set is. P (table_at run (pass_scan P run is U) U k) k}"
      using Cons.IH Cons.prems by simp
    then have "insert i (set (pass_scan P run is U)) = {k \<in> set (i # is). P (table_at run (i # pass_scan P run is U) T k) k}"
      using True at at_i by auto
    then show ?thesis using True by (simp add: U_def)
  next
    case False
    have "takeWhile (\<lambda>k. k < i) (pass_scan P run is T) = []"
      using gt pass_scan_subset [of P run "is" T] by (cases "pass_scan P run is T") fastforce+
    then have "table_at run (pass_scan P run is T) T i = T" by (simp add: table_at_def)
    then show ?thesis using False Cons.IH Cons.prems by auto
  qed
qed simp

lemma pass_scan_idle: "pass_scan P run is T = [] \<longleftrightarrow> (\<forall>i\<in>set is. \<not> P T i)"
  by (induction "is" arbitrary: T) auto

definition head_opt :: "'a list \<Rightarrow> 'a option" where
  "head_opt xs = (case xs of [] \<Rightarrow> None | x # _ \<Rightarrow> Some x)"

lemma sched_high_scan:
  "\<exists>pn'. sched_high run is n pn T =
      (pass_scan ready_high run is T, n + length (pass_scan ready_high run is T), pn', replay run (pass_scan ready_high run is T) T) \<and>
    (pass_scan ready_high run is T = [] \<longrightarrow> pn' = (if pn = None then head_opt (filter (ready T) is) else pn))"
proof (induction "is" arbitrary: n pn T)
  case (Cons i "is")
  show ?case
  proof (cases "ready_high T i")
    case True
    then show ?thesis using Cons.IH [of "Suc n" pn "run i (dispatch i T)"] by (auto simp: ready_high_def)
  next
    case False
    have "sched_high run (i # is) n pn T = sched_high run is n (if pn = None \<and> ready T i then Some i else pn) T"
      using False by (auto simp: ready_high_def ready_def Let_def)
    then show ?thesis using False Cons.IH [of n "if pn = None \<and> ready T i then Some i else pn" T]
      by (auto simp: head_opt_def simp del: sched_high.simps)
  qed
qed (simp add: head_opt_def)

lemma sched_normal_scan: "sched_normal run is T = (pass_scan ready run is T, replay run (pass_scan ready run is T) T)"
  by (induction "is" arbitrary: T) (auto simp: ready_def Let_def)

text \<open>Slots before the first runnable one do not matter to the second scan.\<close>

lemma pass_scan_append_idle: "\<forall>i\<in>set is. \<not> P T i \<Longrightarrow> pass_scan P run (is @ js) T = pass_scan P run js T"
  by (induction "is") auto

lemma pass_scan_from_first:
  assumes "head_opt (filter (P T) [0..<n]) = Some k"
  shows "pass_scan P run [k..<n] T = pass_scan P run [0..<n] T"
proof -
  obtain ys where f: "filter (P T) [0..<n] = k # ys" using assms by (auto simp: head_opt_def split: list.splits)
  then have k: "k \<in> set (filter (P T) [0..<n])" by simp
  have srt: "sorted (filter (P T) [0..<n])" by (simp add: sorted_wrt_filter)
  have "\<not> P T j" if "j < k" for j
  proof
    assume "P T j"
    then have "j \<in> set (k # ys)" using that k unfolding f [symmetric] by auto
    then show False using srt that unfolding f by auto
  qed
  then have "\<forall>j\<in>set [0..<k]. \<not> P T j" by simp
  moreover have "[0..<n] = [0..<k] @ [k..<n]" using k upt_add_eq_append [of 0 k "n - k"] by auto
  ultimately show ?thesis using pass_scan_append_idle [of "[0..<k]" P T run "[k..<n]"] by simp
qed

lemma scheduler_pass_scan:
  "scheduler_pass run T =
    (let rs = pass_scan (if \<exists>i<NPROC. ready_high T i then ready_high else ready) run [0..<NPROC] T in (rs, replay run rs T))"
proof -
  let ?H = "pass_scan ready_high run [0..<NPROC] T"
  obtain pn where pn: "sched_high run [0..<NPROC] 0 None T = (?H, length ?H, pn, replay run ?H T)"
    "?H = [] \<longrightarrow> pn = head_opt (filter (ready T) [0..<NPROC])"
    using sched_high_scan [of run "[0..<NPROC]" 0 None T] by auto
  have idle: "?H = [] \<longleftrightarrow> \<not> (\<exists>i<NPROC. ready_high T i)" by (auto simp: pass_scan_idle)
  show ?thesis
  proof (cases "?H = []")
    case False
    then show ?thesis using pn(1) idle by (auto simp: scheduler_pass_def Let_def split: option.splits)
  next
    case True
    show ?thesis
    proof (cases pn)
      case None
      then have "filter (ready T) [0..<NPROC] = []" using pn(2) True by (auto simp: head_opt_def split: list.splits)
      then have "pass_scan ready run [0..<NPROC] T = []" by (simp add: pass_scan_idle filter_empty_conv)
      then show ?thesis using pn(1) True None idle by (simp add: scheduler_pass_def)
    next
      case (Some k)
      then have "pass_scan ready run [k..<NPROC] T = pass_scan ready run [0..<NPROC] T" using pn(2) True by (intro pass_scan_from_first) simp
      then show ?thesis using pn(1) True Some idle by (auto simp: scheduler_pass_def sched_normal_scan Let_def)
    qed
  qed
qed

section \<open>Properties\<close>

text \<open>
  C8. The process table stays sound through every interleaving of its operations: slots in use have
  distinct positive pids, every parent (and \<^verbatim>\<open>initproc\<close>) is a live process, and no process sleeps in
  \<^verbatim>\<open>wait\<close> while one of its children is a zombie, so no exit goes unnoticed.
\<close>

theorem process_table_sound:
  assumes "ptable_inv T0" "pt_step\<^sup>*\<^sup>* T0 T" "i < NPROC" "p_state (procs T ! i) \<noteq> UNUSED"
  shows "0 < p_pid (procs T ! i) \<and>
    (\<forall>j<NPROC. p_state (procs T ! j) \<noteq> UNUSED \<longrightarrow> p_pid (procs T ! j) = p_pid (procs T ! i) \<longrightarrow> j = i) \<and>
    (\<forall>q. p_parent (procs T ! i) = Some q \<longrightarrow> live (p_state (procs T ! q)) \<and>
       (p_state (procs T ! i) = ZOMBIE \<longrightarrow> \<not> in_wait T q))"
proof -
  have inv: "ptable_inv T" by (rule pt_steps_inv [OF assms(2,1)])
  have "slot_ok T i" by (rule ptable_inv_slot [OF inv assms(3)])
  then show ?thesis using assms(4) ptable_inv_inj [OF inv _ assms(3)] assms(4)
    unfolding slot_ok_def Let_def in_wait_def by blast
qed

definition proc0 :: proc where
  "proc0 = \<lparr>p_sz = 0, p_pgdir = 0, p_kstack = 0, p_state = UNUSED, p_prio = 0, p_pid = 0, p_ret = 0,
     p_parent = None, p_tf = 0, p_context = 0, p_chan = None, p_killed = False,
     p_ofile = replicate NOFILE None, p_cwd = None, p_name = replicate 16 0\<rparr>"

definition ptable0 :: ptable where
  "ptable0 = \<lparr>procs = replicate NPROC proc0, nextpid = 1, initproc = None\<rparr>"

lemma ptable0_inv: "ptable_inv ptable0"
  by (rule ptable_invI) (simp_all add: ptable0_def proc0_def slot_ok_def)

definition ptable1 :: ptable where
  "ptable1 = \<lparr>procs = (replicate NPROC proc0)[0 := proc0\<lparr>p_state := RUNNING, p_pid := 1\<rparr>], nextpid = 2,
     initproc = Some 0\<rparr>"

lemma ptable1_nth:
  "i < NPROC \<Longrightarrow> procs ptable1 ! i = (if i = 0 then proc0\<lparr>p_state := RUNNING, p_pid := 1\<rparr> else proc0)"
  by (simp add: ptable1_def nth_list_update)

lemma ptable1_inv: "ptable_inv ptable1"
  by (rule ptable_invI) (auto simp: ptable1_nth slot_ok_def proc0_def live_def Let_def split: if_splits,
    auto simp: ptable1_def NPROC_def proc0_def)

theorem process_table_sound_witness:
  "ptable_inv ptable1 \<and> pt_step ptable1 (yield 0 ptable1) \<and> 0 < p_pid (procs (yield 0 ptable1) ! 0)"
proof -
  have n: "0 < NPROC" by (simp add: NPROC_def)
  have l: "length (procs ptable1) = NPROC" by (simp add: ptable1_def)
  have y: "p_state (procs (yield 0 ptable1) ! 0) \<noteq> UNUSED" using n l by (simp add: yield_def upd_proc_nth)
  have st: "pt_step ptable1 (yield 0 ptable1)"
    by (rule yields) (use n in \<open>simp_all add: ptable1_nth\<close>)
  then show ?thesis
    using process_table_sound [OF ptable1_inv r_into_rtranclp n y] ptable1_inv by blast
qed

text \<open>
  C9. Priorities, whatever the processes that run and the other processors do to the table in between: a turn of the scheduler
  runs slots in table order, each at most once. If some \<^verbatim>\<open>HIGH\<close> process is runnable when the turn starts, the slots run are
  exactly those that hold a runnable \<^verbatim>\<open>HIGH\<close> process when the scan gets to them; otherwise they are exactly those that
  hold a runnable process of any priority when the scan gets to them. The table left is the result of these runs.
\<close>

theorem scheduler_prefers_high:
  "let (rs, T') = scheduler_pass run T
   in sorted_wrt (<) rs \<and> T' = replay run rs T \<and>
      set rs = {k. k < NPROC \<and>
        (if \<exists>i<NPROC. ready_high T i then ready_high (table_at run rs T k) k else ready (table_at run rs T k) k)}"
proof -
  let ?P = "if \<exists>i<NPROC. ready_high T i then ready_high else ready"
  have "sorted_wrt (<) [0..<NPROC]" by (rule sorted_wrt_upt)
  from pass_scan_sorted [OF this, of ?P run T] pass_scan_set [OF this, of ?P run T]
  show ?thesis by (auto simp: scheduler_pass_scan Let_def)
qed

text \<open>
  The scan of normal processes does not stop for a \<^verbatim>\<open>HIGH\<close> process that becomes runnable meanwhile: the process of slot 3
  wakes one in slot 1, and slot 5 runs before it.
\<close>

definition sched_example :: ptable where
  "sched_example = \<lparr>procs = (replicate NPROC proc0)[1 := proc0\<lparr>p_state := SLEEPING, p_prio := HIGH\<rparr>,
     3 := proc0\<lparr>p_state := RUNNABLE\<rparr>, 5 := proc0\<lparr>p_state := RUNNABLE\<rparr>], nextpid = 9, initproc = None\<rparr>"

definition wakes_high :: "nat \<Rightarrow> ptable \<Rightarrow> ptable" where
  "wakes_high i T = (if i = 3 then upd_proc 1 (\<lambda>p. p\<lparr>p_state := RUNNABLE\<rparr>) T else T)"

lemma normal_scan_goes_on:
  "fst (scheduler_pass wakes_high sched_example) = [3, 5] \<and> ready_high (replay wakes_high [3] sched_example) 1"
proof -
  have u: "[0..<NPROC] = [0, 1, 2, 3, 4, 5] @ [6..<NPROC]" by (simp add: NPROC_def upt_rec)
  have len: "length (procs sched_example) = NPROC" by (simp add: sched_example_def)
  have nth: "i < NPROC \<Longrightarrow> procs sched_example ! i = (if i = 5 \<or> i = 3 then proc0\<lparr>p_state := RUNNABLE\<rparr>
      else if i = 1 then proc0\<lparr>p_state := SLEEPING, p_prio := HIGH\<rparr> else proc0)" for i
    by (simp add: sched_example_def nth_list_update)
  have idle: "\<not> (\<exists>i<NPROC. ready_high sched_example i)" by (auto simp: ready_high_def nth proc0_def HIGH_def)
  let ?U = "wakes_high 5 (dispatch 5 (wakes_high 3 (dispatch 3 sched_example)))"
  have rest: "pass_scan ready wakes_high [6..<NPROC] ?U = []"
    by (auto simp: pass_scan_idle ready_def wakes_high_def dispatch_def upd_proc_nth len nth proc0_def)
  have n: "Suc 0 < NPROC" "3 < NPROC" "5 < NPROC" "4 < NPROC" "2 < NPROC" "0 < NPROC" by (simp_all add: NPROC_def)
  have "fst (scheduler_pass wakes_high sched_example) = pass_scan ready wakes_high [0..<NPROC] sched_example"
    unfolding scheduler_pass_scan Let_def if_not_P [OF idle] by simp
  also have "\<dots> = [3, 5]"
    using rest n by (simp add: u ready_def wakes_high_def dispatch_def upd_proc_nth len nth proc0_def)
  finally show ?thesis
    using n by (simp add: ready_high_def wakes_high_def dispatch_def upd_proc_nth len nth proc0_def)
qed

text \<open>
  C10. Pids of free slots are 0, and \<^verbatim>\<open>kill\<close> does not look at the state of the slot it finds: \<^verbatim>\<open>kill(0)\<close>
  reports success, marks the first free slot as killed, and since \<^verbatim>\<open>allocproc\<close> does not clear the mark
  the next process allocated there is born killed.
\<close>

theorem kill_zero_dooms_next_process:
  assumes "scan (\<lambda>p. p_pid p = 0) (procs T) = Some i" "scan (\<lambda>p. p_state p = UNUSED) (procs T) = Some i"
    "kalloc s = (k, s1)" "k \<noteq> 0"
  shows "\<exists>T1 T2 s2. kill 0 T = (0, T1) \<and> allocproc trapret forkret T1 s = (Some i, T2, s2) \<and>
    p_state (procs T2 ! i) = EMBRYO \<and> p_killed (procs T2 ! i)"
proof -
  let ?f = "\<lambda>p. p\<lparr>p_killed := True, p_state := (if p_state p = SLEEPING then RUNNABLE else p_state p)\<rparr>"
  define T1 where "T1 = upd_proc i ?f T"
  have i: "i < length (procs T)" "p_state (procs T ! i) = UNUSED" "\<forall>j<i. p_state (procs T ! j) \<noteq> UNUSED"
    using scan_Some [OF assms(2)] by auto
  have l: "length (procs T1) = length (procs T)" by (simp add: T1_def)
  have n: "procs T1 ! j = (if i = j then ?f (procs T ! j) else procs T ! j)" if "j < length (procs T)" for j
    using that by (simp add: T1_def upd_proc_nth)
  have "scan (\<lambda>p. p_state p = UNUSED) (procs T1) = Some i"
  proof (cases "scan (\<lambda>p. p_state p = UNUSED) (procs T1)")
    case None
    then have "p_state (procs T1 ! i) \<noteq> UNUSED" using i l by (simp add: scan_None)
    then show ?thesis using n [OF i(1)] i by simp
  next
    case (Some j)
    note j = scan_Some [OF Some]
    have "\<not> j < i" using j i n [of j] l by auto
    moreover have "\<not> i < j" using j n [OF i(1)] i by auto
    ultimately show ?thesis using Some by simp
  qed
  moreover have "kill 0 T = (0, T1)" using assms(1) by (simp add: kill_def T1_def)
  ultimately show ?thesis
    using assms(3,4) i l n [OF i(1)] by (simp add: allocproc_def Let_def upd_proc_nth)
qed

theorem kill_zero_dooms_next_process_witness:
  "\<exists>T1 T2 s2. kill 0 ptable0 = (0, T1) \<and>
     allocproc 0x80105000 0x80104000 T1 (kmem0\<lparr>freelist := 0x80300000\<rparr>) = (Some 0, T2, s2) \<and>
     p_killed (procs T2 ! 0)"
proof -
  have p: "procs ptable0 = proc0 # replicate 63 proc0"
    by (simp add: ptable0_def NPROC_def numeral_eq_Suc)
  have k: "kalloc (kmem0\<lparr>freelist := 0x80300000\<rparr>) = (0x80300000, kmem0\<lparr>freelist := 0\<rparr>)"
    by (simp add: kalloc_def kmem0_def ld32_def join4_def)
  show ?thesis
    using kill_zero_dooms_next_process [OF _ _ k, of ptable0 0 "0x80105000" "0x80104000"]
    by (auto simp: p proc0_def)
qed

end
