(* ===== verification/Bcache.thy ===== *)
theory Bcache
  imports Locks
begin

text \<open>
  The buffer cache of \<^verbatim>\<open>bio.c\<close> over the memory disk of \<^verbatim>\<open>memide.c\<close>. A buffer is named by its index in
  \<^verbatim>\<open>bcache.buf\<close>; the doubly linked list from \<^verbatim>\<open>bcache.head.next\<close> (most recently used) to
  \<^verbatim>\<open>bcache.head.prev\<close> is the list \<open>lru\<close> of indices; the two bits of \<^verbatim>\<open>flags\<close> are two booleans. A block is
  the list of its \<^verbatim>\<open>BSIZE\<close> bytes. The bodies run under \<^verbatim>\<open>bcache.lock\<close>. The field \<open>dtrace\<close> is not in the
  program: it records the order of the disk writes, for the crash argument about the log.
\<close>

definition BSIZE :: nat where "BSIZE = 512"
definition NBUF :: nat where "NBUF = 30"
definition ROOTDEV :: nat where "ROOTDEV = 1"

type_synonym block = "u8 list"

section \<open>Buffers\<close>

record buf =
  b_valid :: bool
  b_dirty :: bool
  b_dev :: nat
  b_blockno :: nat
  b_lock :: sleeplock
  b_refcnt :: nat
  b_data :: block

record bio =
  bufs :: "buf list"
  lru :: "nat list"
  disk :: "nat \<Rightarrow> block"
  disksize :: nat
  dtrace :: "(nat \<times> block) list"

definition upd_buf :: "nat \<Rightarrow> (buf \<Rightarrow> buf) \<Rightarrow> bio \<Rightarrow> bio" where
  "upd_buf i f s = s\<lparr>bufs := (bufs s)[i := f (bufs s ! i)]\<rparr>"

definition buf_init :: buf where
  "buf_init = \<lparr>b_valid = False, b_dirty = False, b_dev = 0, b_blockno = 0,
     b_lock = initsleeplock ''buffer'', b_refcnt = 0, b_data = replicate BSIZE 0\<rparr>"

text \<open>\<^verbatim>\<open>binit\<close> pushes the buffers one after the other at the head of the list.\<close>

definition binit :: "bio \<Rightarrow> bio" where
  "binit s = s\<lparr>bufs := replicate NBUF buf_init, lru := fold (\<lambda>i l. i # l) [0..<NBUF] []\<rparr>"

section \<open>The memory disk\<close>

definition iderw :: "int \<Rightarrow> nat \<Rightarrow> bio \<Rightarrow> bio res" where
  "iderw pid i s =
     (let b = bufs s ! i
      in if \<not> holdingsleep pid (b_lock b) then Panic ''iderw: buf not locked''
         else if b_valid b \<and> \<not> b_dirty b then Panic ''iderw: nothing to do''
         else if b_dev b \<noteq> 1 then Panic ''iderw: request not for disk 1''
         else if b_blockno b \<ge> disksize s then Panic ''iderw: block out of range''
         else if b_dirty b
         then Ok (upd_buf i (\<lambda>b. b\<lparr>b_dirty := False, b_valid := True\<rparr>)
                (s\<lparr>disk := (disk s)(b_blockno b := b_data b),
                   dtrace := dtrace s @ [(b_blockno b, b_data b)]\<rparr>))
         else Ok (upd_buf i (\<lambda>c. c\<lparr>b_data := disk s (b_blockno b), b_valid := True\<rparr>) s))"

section \<open>The cache\<close>

text \<open>
  \<^verbatim>\<open>bget\<close>: the block if it is cached, otherwise the least recently used buffer that is neither in use
  nor dirty; \<open>Blocked\<close> while another process holds the buffer.
\<close>

definition bget :: "int \<Rightarrow> nat \<Rightarrow> nat \<Rightarrow> bio \<Rightarrow> (nat \<times> bio) res" where
  "bget pid dev blockno s =
     (case find (\<lambda>i. b_dev (bufs s ! i) = dev \<and> b_blockno (bufs s ! i) = blockno) (lru s) of
        Some i \<Rightarrow>
          bnd (acquiresleep pid (b_lock (bufs s ! i)))
            (\<lambda>lk. Ok (i, upd_buf i (\<lambda>b. b\<lparr>b_refcnt := b_refcnt b + 1, b_lock := lk\<rparr>) s))
      | None \<Rightarrow>
          (case find (\<lambda>i. b_refcnt (bufs s ! i) = 0 \<and> \<not> b_dirty (bufs s ! i)) (rev (lru s)) of
             Some i \<Rightarrow>
               bnd (acquiresleep pid (b_lock (bufs s ! i)))
                 (\<lambda>lk. Ok (i, upd_buf i (\<lambda>b. b\<lparr>b_dev := dev, b_blockno := blockno, b_valid := False,
                    b_dirty := False, b_refcnt := 1, b_lock := lk\<rparr>) s))
           | None \<Rightarrow> Panic ''bget: no buffers''))"

definition bread :: "int \<Rightarrow> nat \<Rightarrow> nat \<Rightarrow> bio \<Rightarrow> (nat \<times> bio) res" where
  "bread pid dev blockno s =
     bnd (bget pid dev blockno s)
       (\<lambda>(i, s). if \<not> b_valid (bufs s ! i) then bnd (iderw pid i s) (\<lambda>s. Ok (i, s)) else Ok (i, s))"

definition bwrite :: "int \<Rightarrow> nat \<Rightarrow> bio \<Rightarrow> bio res" where
  "bwrite pid i s =
     (if \<not> holdingsleep pid (b_lock (bufs s ! i)) then Panic ''bwrite''
      else iderw pid i (upd_buf i (\<lambda>b. b\<lparr>b_dirty := True\<rparr>) s))"

definition brelse :: "int \<Rightarrow> nat \<Rightarrow> bio \<Rightarrow> bio res" where
  "brelse pid i s =
     (if \<not> holdingsleep pid (b_lock (bufs s ! i)) then Panic ''brelse''
      else let s = upd_buf i (\<lambda>b. b\<lparr>b_lock := releasesleep (b_lock b), b_refcnt := b_refcnt b - 1\<rparr>) s
           in Ok (if b_refcnt (bufs s ! i) = 0 then s\<lparr>lru := i # remove1 i (lru s)\<rparr> else s))"

section \<open>The invariant\<close>

text \<open>
  Every buffer is on the list once; blocks of the disk are cached at most once; a valid buffer
  holds a block of the disk, and when it is clean and unlocked it holds the block's disk contents.
\<close>

definition buf_ok :: "bio \<Rightarrow> nat \<Rightarrow> bool" where
  "buf_ok s i \<longleftrightarrow>
     (let b = bufs s ! i
      in length (b_data b) = BSIZE \<and>
         (b_valid b \<longrightarrow> b_dev b = 1 \<and> b_blockno b < disksize s) \<and>
         (b_dirty b \<longrightarrow> b_valid b) \<and>
         (slocked (b_lock b) \<longrightarrow> 0 < b_refcnt b) \<and>
         (b_valid b \<and> \<not> b_dirty b \<and> \<not> slocked (b_lock b) \<longrightarrow> b_data b = disk s (b_blockno b)))"

definition bio_inv :: "bio \<Rightarrow> bool" where
  "bio_inv s \<longleftrightarrow> length (bufs s) = NBUF \<and> distinct (lru s) \<and> set (lru s) = {..<NBUF} \<and>
     (\<forall>i<NBUF. buf_ok s i) \<and> (\<forall>b. length (disk s b) = BSIZE) \<and>
     (\<forall>i<NBUF. \<forall>j<NBUF. b_dev (bufs s ! i) = 1 \<longrightarrow> b_dev (bufs s ! j) = 1 \<longrightarrow>
        b_blockno (bufs s ! i) = b_blockno (bufs s ! j) \<longrightarrow> i = j)"

text \<open>What the kernel sees as the contents of block \<open>b\<close> of the disk.\<close>

definition holds_block :: "bio \<Rightarrow> nat \<Rightarrow> nat \<Rightarrow> bool" where
  "holds_block s b i \<longleftrightarrow> b_dev (bufs s ! i) = 1 \<and> b_blockno (bufs s ! i) = b \<and> b_valid (bufs s ! i)"

definition bview :: "bio \<Rightarrow> nat \<Rightarrow> block" where
  "bview s b = (case find (holds_block s b) [0..<NBUF] of
     Some i \<Rightarrow> b_data (bufs s ! i) | None \<Rightarrow> disk s b)"

lemma bio_inv_length: "bio_inv s \<Longrightarrow> length (bufs s) = NBUF"
  unfolding bio_inv_def by blast

lemma bio_inv_lru: "bio_inv s \<Longrightarrow> distinct (lru s) \<and> set (lru s) = {..<NBUF}"
  unfolding bio_inv_def by blast

lemma bio_inv_buf: "bio_inv s \<Longrightarrow> i < NBUF \<Longrightarrow> buf_ok s i"
  unfolding bio_inv_def by blast

lemma bio_inv_disk: "bio_inv s \<Longrightarrow> length (disk s b) = BSIZE"
  unfolding bio_inv_def by blast

lemma bio_inv_inj:
  "bio_inv s \<Longrightarrow> i < NBUF \<Longrightarrow> j < NBUF \<Longrightarrow> b_dev (bufs s ! i) = 1 \<Longrightarrow> b_dev (bufs s ! j) = 1 \<Longrightarrow>
     b_blockno (bufs s ! i) = b_blockno (bufs s ! j) \<Longrightarrow> i = j"
  unfolding bio_inv_def by blast

lemma bio_invI:
  assumes "length (bufs s) = NBUF" "distinct (lru s) \<and> set (lru s) = {..<NBUF}"
    "\<And>i. i < NBUF \<Longrightarrow> buf_ok s i" "\<And>b. length (disk s b) = BSIZE"
    "\<And>i j. i < NBUF \<Longrightarrow> j < NBUF \<Longrightarrow> b_dev (bufs s ! i) = 1 \<Longrightarrow> b_dev (bufs s ! j) = 1 \<Longrightarrow>
       b_blockno (bufs s ! i) = b_blockno (bufs s ! j) \<Longrightarrow> i = j"
  shows "bio_inv s"
  unfolding bio_inv_def using assms by blast

lemma find_Some_iff: "find P xs = Some x \<Longrightarrow> x \<in> set xs \<and> P x"
  by (auto simp: find_Some_iff)

lemma upd_buf_nth:
  "j < length (bufs s) \<Longrightarrow> bufs (upd_buf i f s) ! j = (if i = j then f (bufs s ! j) else bufs s ! j)"
  by (simp add: upd_buf_def nth_list_update)

lemma upd_buf_sel [simp]: "length (bufs (upd_buf i f s)) = length (bufs s)" "lru (upd_buf i f s) = lru s"
  "disk (upd_buf i f s) = disk s" "disksize (upd_buf i f s) = disksize s" "dtrace (upd_buf i f s) = dtrace s"
  by (simp_all add: upd_buf_def)

lemma bview_cached:
  assumes inv: "bio_inv s" and i: "i < NBUF" "holds_block s b i"
  shows "bview s b = b_data (bufs s ! i)"
proof (cases "find (holds_block s b) [0..<NBUF]")
  case None
  then show ?thesis using i by (auto simp: find_None_iff)
next
  case (Some j)
  then have j: "j < NBUF" "holds_block s b j" using find_Some_iff [OF Some] by auto
  then have "j = i" using bio_inv_inj [OF inv j(1) i(1)] i(2) by (simp add: holds_block_def)
  then show ?thesis using Some by (simp add: bview_def)
qed

lemma bview_uncached: "(\<And>i. i < NBUF \<Longrightarrow> \<not> holds_block s b i) \<Longrightarrow> bview s b = disk s b"
  by (auto simp: bview_def dest!: find_Some_iff split: option.splits)

lemma bview_length: "bio_inv s \<Longrightarrow> length (bview s b) = BSIZE"
  using bio_inv_buf [of s] bio_inv_disk [of s]
  by (auto simp: bview_def buf_ok_def Let_def dest!: find_Some_iff split: option.splits)

section \<open>Steps on one buffer\<close>

lemma buf_ok_cong:
  "bufs s' ! i = bufs s ! i \<Longrightarrow> disk s' = disk s \<Longrightarrow> disksize s' = disksize s \<Longrightarrow> buf_ok s' i = buf_ok s i"
  by (simp add: buf_ok_def)

lemma upd_buf_inv:
  assumes inv: "bio_inv s" and i: "i < NBUF" and ok: "buf_ok (upd_buf i f s) i"
    and key: "\<And>j. j < NBUF \<Longrightarrow> j \<noteq> i \<Longrightarrow> b_dev (f (bufs s ! i)) = 1 \<Longrightarrow> b_dev (bufs s ! j) = 1 \<Longrightarrow>
      b_blockno (bufs s ! j) \<noteq> b_blockno (f (bufs s ! i))"
  shows "bio_inv (upd_buf i f s)"
proof -
  define s' where s': "s' = upd_buf i f s"
  have len: "length (bufs s) = NBUF" by (rule bio_inv_length [OF inv])
  have nth: "bufs s' ! j = (if i = j then f (bufs s ! j) else bufs s ! j)" if "j < NBUF" for j
    using that len by (simp add: s' upd_buf_nth)
  show ?thesis unfolding s' [symmetric]
  proof (rule bio_invI)
    show "length (bufs s') = NBUF" using len by (simp add: s')
    show "distinct (lru s') \<and> set (lru s') = {..<NBUF}" using bio_inv_lru [OF inv] by (simp add: s')
    show "length (disk s' b) = BSIZE" for b using bio_inv_disk [OF inv] by (simp add: s')
    show "buf_ok s' j" if "j < NBUF" for j
    proof (cases "j = i")
      case True
      then show ?thesis using ok by (simp add: s')
    next
      case False
      then have "bufs s' ! j = bufs s ! j" using nth [OF that] by simp
      then show ?thesis using bio_inv_buf [OF inv that] buf_ok_cong [of s' j s] by (simp add: s')
    qed
  next
    fix j k assume jk: "j < NBUF" "k < NBUF" and d: "b_dev (bufs s' ! j) = 1" "b_dev (bufs s' ! k) = 1"
      "b_blockno (bufs s' ! j) = b_blockno (bufs s' ! k)"
    show "j = k"
    proof (rule ccontr)
      assume ne: "j \<noteq> k"
      consider "j = i" | "k = i" | "j \<noteq> i" "k \<noteq> i" by blast
      then show False
      proof cases
        case 1
        then show False using key [of k] d jk ne by (simp add: nth)
      next
        case 2
        then show False using key [of j] d jk ne by (simp add: nth)
      next
        case 3
        then show False using bio_inv_inj [OF inv jk] d ne jk by (simp add: nth)
      qed
    qed
  qed
qed

text \<open>The view of the disk after a step on buffer \<open>i\<close>: it follows the buffers that hold blocks.\<close>

lemma bview_eqI:
  assumes inv: "bio_inv s" "bio_inv s'"
    and d: "disk s' c = disk s c"
    and same: "\<And>j. j < NBUF \<Longrightarrow> holds_block s' c j \<Longrightarrow>
      holds_block s c j \<and> b_data (bufs s' ! j) = b_data (bufs s ! j) \<or>
      (\<forall>k<NBUF. \<not> holds_block s c k) \<and> b_data (bufs s' ! j) = disk s c"
    and lost: "\<And>j. j < NBUF \<Longrightarrow> holds_block s c j \<Longrightarrow> \<not> holds_block s' c j \<Longrightarrow> b_data (bufs s ! j) = disk s c"
  shows "bview s' c = bview s c"
proof (cases "\<exists>j<NBUF. holds_block s' c j")
  case True
  then obtain j where j: "j < NBUF" "holds_block s' c j" by blast
  then have "bview s' c = b_data (bufs s' ! j)" by (rule bview_cached [OF inv(2)])
  then show ?thesis using same [OF j] bview_cached [OF inv(1) j(1)] bview_uncached [of s c] by auto
next
  case False
  then have e: "bview s' c = disk s c" using bview_uncached [of s' c] d by auto
  show ?thesis
  proof (cases "\<exists>j<NBUF. holds_block s c j")
    case True
    then obtain j where j: "j < NBUF" "holds_block s c j" by blast
    then show ?thesis using e lost [OF j] False bview_cached [OF inv(1) j] by auto
  next
    case F: False
    then show ?thesis using e bview_uncached [of s c] by auto
  qed
qed

definition owns_buf :: "int \<Rightarrow> bio \<Rightarrow> nat \<Rightarrow> nat \<Rightarrow> bool" where
  "owns_buf pid s i b \<longleftrightarrow> i < NBUF \<and> holds_block s b i \<and> slocked (b_lock (bufs s ! i)) \<and>
     spid (b_lock (bufs s ! i)) = pid \<and> 0 < b_refcnt (bufs s ! i)"

definition fetched :: "int \<Rightarrow> nat \<Rightarrow> bio \<Rightarrow> nat \<Rightarrow> bio \<Rightarrow> bool" where
  "fetched pid b s i s' \<longleftrightarrow> bio_inv s' \<and> owns_buf pid s' i b \<and> b_data (bufs s' ! i) = bview s b \<and>
     bview s' = bview s \<and> disk s' = disk s \<and> disksize s' = disksize s \<and> dtrace s' = dtrace s \<and>
     (\<forall>j<NBUF. j \<noteq> i \<longrightarrow> bufs s' ! j = bufs s ! j) \<and> \<not> slocked (b_lock (bufs s ! i)) \<and> b < disksize s \<and>
     (\<not> b_dirty (bufs s' ! i) \<longrightarrow> bview s b = disk s b) \<and>
     (b_dirty (bufs s' ! i) \<longrightarrow> holds_block s b i) \<and>
     b_dirty (bufs s' ! i) = b_dirty (bufs s ! i) \<and> b_refcnt (bufs s' ! i) = b_refcnt (bufs s ! i) + 1"

lemma acquiresleep_Ok: "acquiresleep pid lk = Ok lk' \<longleftrightarrow> \<not> slocked lk \<and> lk' = lk\<lparr>slocked := True, spid := pid\<rparr>"
  by (auto simp: acquiresleep_def)

text \<open>The buffer \<open>i\<close> becomes \<open>nb\<close>, locked and holding block \<open>b\<close>; what it held before was clean or is the same block.\<close>

lemma fetch_buf:
  assumes s': "s' = upd_buf i (\<lambda>_. nb) s" and inv: "bio_inv s" and i: "i < NBUF" and b: "b < disksize s"
    and nb: "b_dev nb = 1" "b_blockno nb = b" "b_valid nb" "slocked (b_lock nb)" "spid (b_lock nb) = pid"
      "0 < b_refcnt nb" "b_data nb = bview s b"
    and key: "\<And>j. j < NBUF \<Longrightarrow> j \<noteq> i \<Longrightarrow> b_dev (bufs s ! j) = 1 \<Longrightarrow> b_blockno (bufs s ! j) \<noteq> b"
    and old: "\<not> slocked (b_lock (bufs s ! i))" "b_dirty nb \<Longrightarrow> holds_block s b i \<and> b_dirty (bufs s ! i)"
      "\<not> b_dirty nb \<Longrightarrow> bview s b = disk s b" "b_dirty (bufs s ! i) \<Longrightarrow> holds_block s b i"
      "b_dirty nb = b_dirty (bufs s ! i)" "b_refcnt nb = b_refcnt (bufs s ! i) + 1"
  shows "fetched pid b s i s'"
proof -
  have len: "length (bufs s) = NBUF" by (rule bio_inv_length [OF inv])
  have ok: "buf_ok s i" by (rule bio_inv_buf [OF inv i])
  have nth: "bufs s' ! j = (if i = j then nb else bufs s ! j)" if "j < NBUF" for j
    using that len by (simp add: s' upd_buf_nth)
  have d: "disk s' = disk s" "disksize s' = disksize s" "dtrace s' = dtrace s" by (simp_all add: s')
  have inv': "bio_inv s'"
    unfolding s'
  proof (rule upd_buf_inv [OF inv i])
    have "buf_ok s' i"
      using nth [OF i] nb b d bview_length [OF inv] by (simp add: buf_ok_def)
    then show "buf_ok (upd_buf i (\<lambda>_. nb) s) i" by (simp add: s')
  qed (use key nb in auto)
  have "bview s' c = bview s c" for c
  proof (rule bview_eqI [OF inv inv'])
    show "disk s' c = disk s c" by (simp add: d)
    fix j assume j: "j < NBUF"
    show "holds_block s c j \<and> b_data (bufs s' ! j) = b_data (bufs s ! j) \<or>
        (\<forall>k<NBUF. \<not> holds_block s c k) \<and> b_data (bufs s' ! j) = disk s c" if h: "holds_block s' c j"
    proof (cases "j = i")
      case True
      then have c: "c = b" using h nth [OF i] nb by (simp add: holds_block_def)
      show ?thesis
      proof (cases "holds_block s b i")
        case held: True
        then show ?thesis using True c nth [OF i] nb bview_cached [OF inv i held] by simp
      next
        case False
        then have "\<not> holds_block s b k" if "k < NBUF" for k
          using that key [of k] by (cases "k = i") (auto simp: holds_block_def)
        moreover from this have "bview s b = disk s b" by (intro bview_uncached)
        ultimately show ?thesis using True c nth [OF i] nb by simp
      qed
    next
      case False
      then show ?thesis using h nth [OF j] by (simp add: holds_block_def)
    qed
    show "b_data (bufs s ! j) = disk s c" if h: "holds_block s c j" "\<not> holds_block s' c j"
    proof -
      have ji: "j = i" using h nth [OF j] by (auto simp: holds_block_def split: if_splits)
      then have "c \<noteq> b" using h nth [OF i] nb by (auto simp: holds_block_def)
      then have "\<not> b_dirty (bufs s ! i)" using old(4) h ji by (auto simp: holds_block_def)
      then show ?thesis using ok old(1) h ji by (auto simp: buf_ok_def Let_def holds_block_def)
    qed
  qed
  then have v: "bview s' = bview s" by (intro ext)
  have o: "owns_buf pid s' i b" using nth [OF i] nb i by (simp add: owns_buf_def holds_block_def)
  have ni: "bufs s' ! i = nb" "\<forall>j<NBUF. j \<noteq> i \<longrightarrow> bufs s' ! j = bufs s ! j" using nth i by auto
  show ?thesis unfolding fetched_def ni(1) using inv' o v ni(2) d nb(7) old b by blast
qed

lemma upd_buf_const: "i < length (bufs s) \<Longrightarrow> upd_buf i f s = upd_buf i (\<lambda>_. f (bufs s ! i)) s"
  by (simp add: upd_buf_def)

lemma upd_buf_twice: "i < length (bufs s) \<Longrightarrow> upd_buf i f (upd_buf i g s) = upd_buf i (\<lambda>_. f (g (bufs s ! i))) s"
  by (simp add: upd_buf_def)

lemma bget_cases [consumes 2, case_names cached recycled]:
  assumes inv: "bio_inv s" and g: "bget pid 1 b s = Ok (i, s')"
  obtains (cached) "i < NBUF" "b_dev (bufs s ! i) = 1" "b_blockno (bufs s ! i) = b" "\<not> slocked (b_lock (bufs s ! i))"
    "s' = upd_buf i (\<lambda>_. (bufs s ! i)\<lparr>b_refcnt := b_refcnt (bufs s ! i) + 1,
       b_lock := (b_lock (bufs s ! i))\<lparr>slocked := True, spid := pid\<rparr>\<rparr>) s"
  | (recycled) "i < NBUF" "\<And>j. j < NBUF \<Longrightarrow> b_dev (bufs s ! j) = 1 \<Longrightarrow> b_blockno (bufs s ! j) \<noteq> b"
    "\<not> b_dirty (bufs s ! i)" "b_refcnt (bufs s ! i) = 0" "\<not> slocked (b_lock (bufs s ! i))"
    "s' = upd_buf i (\<lambda>_. (bufs s ! i)\<lparr>b_dev := 1, b_blockno := b, b_valid := False, b_dirty := False,
       b_refcnt := 1, b_lock := (b_lock (bufs s ! i))\<lparr>slocked := True, spid := pid\<rparr>\<rparr>) s"
proof -
  have len: "length (bufs s) = NBUF" and lru: "set (lru s) = {..<NBUF}"
    using bio_inv_length [OF inv] bio_inv_lru [OF inv] by auto
  show thesis
  proof (cases "find (\<lambda>i. b_dev (bufs s ! i) = 1 \<and> b_blockno (bufs s ! i) = b) (lru s)")
    case (Some j)
    then have j: "j < NBUF" "b_dev (bufs s ! j) = 1" "b_blockno (bufs s ! j) = b" using find_Some_iff [OF Some] lru by auto
    have e: "i = j" "\<not> slocked (b_lock (bufs s ! j))" "s' = upd_buf j (\<lambda>b. b\<lparr>b_refcnt := b_refcnt b + 1,
        b_lock := (b_lock (bufs s ! j))\<lparr>slocked := True, spid := pid\<rparr>\<rparr>) s"
      using g Some by (auto simp: bget_def outcome_simps acquiresleep_Ok)
    have "s' = upd_buf j (\<lambda>_. (bufs s ! j)\<lparr>b_refcnt := b_refcnt (bufs s ! j) + 1,
        b_lock := (b_lock (bufs s ! j))\<lparr>slocked := True, spid := pid\<rparr>\<rparr>) s"
      unfolding e(3) by (rule upd_buf_const) (simp add: j len)
    then show thesis using that(1) j e(1,2) by blast
  next
    case None
    then have no: "b_blockno (bufs s ! j) \<noteq> b" if "j < NBUF" "b_dev (bufs s ! j) = 1" for j
      using that lru by (auto simp: find_None_iff)
    show thesis
    proof (cases "find (\<lambda>i. b_refcnt (bufs s ! i) = 0 \<and> \<not> b_dirty (bufs s ! i)) (rev (lru s))")
      case (Some j)
      then have j: "j < NBUF" "\<not> b_dirty (bufs s ! j)" "b_refcnt (bufs s ! j) = 0" using find_Some_iff [OF Some] lru by auto
      have e: "i = j" "\<not> slocked (b_lock (bufs s ! j))" "s' = upd_buf j (\<lambda>c. c\<lparr>b_dev := 1, b_blockno := b,
          b_valid := False, b_dirty := False, b_refcnt := 1,
          b_lock := (b_lock (bufs s ! j))\<lparr>slocked := True, spid := pid\<rparr>\<rparr>) s"
        using g Some None by (auto simp: bget_def outcome_simps acquiresleep_Ok)
      have u: "s' = upd_buf j (\<lambda>_. (bufs s ! j)\<lparr>b_dev := 1, b_blockno := b, b_valid := False, b_dirty := False,
          b_refcnt := 1, b_lock := (b_lock (bufs s ! j))\<lparr>slocked := True, spid := pid\<rparr>\<rparr>) s"
        unfolding e(3) by (rule upd_buf_const) (simp add: j len)
      show thesis by (rule that(2)) (use j e(1,2) no u in simp_all)
    qed (use g None in \<open>simp add: bget_def\<close>)
  qed
qed

text \<open>A fetched buffer that was not valid is read from the disk.\<close>

lemma iderw_read:
  assumes inv: "bio_inv s" and i: "i < NBUF" and s1: "s1 = upd_buf i (\<lambda>_. nb) s"
    and nb: "\<not> b_valid nb" "\<not> b_dirty nb" "slocked (b_lock nb)" "spid (b_lock nb) = pid"
    and rw: "iderw pid i s1 = Ok s'"
  shows "b_dev nb = 1 \<and> b_blockno nb < disksize s \<and>
    s' = upd_buf i (\<lambda>_. nb\<lparr>b_data := disk s (b_blockno nb), b_valid := True\<rparr>) s"
proof -
  have len: "i < length (bufs s)" using bio_inv_length [OF inv] i by simp
  have "bufs s1 ! i = nb" using s1 len by (simp add: upd_buf_nth)
  then show ?thesis
    using rw nb len by (auto simp: iderw_def Let_def s1 upd_buf_twice split: if_splits)
qed

lemma bread_spec:
  assumes inv: "bio_inv s" and r: "bread pid 1 b s = Ok (i, s')"
  shows "fetched pid b s i s'"
proof -
  obtain s1 where g: "bget pid 1 b s = Ok (i, s1)"
    and rest: "if \<not> b_valid (bufs s1 ! i) then iderw pid i s1 = Ok s' else s' = s1"
    using r by (auto simp: bread_def outcome_simps split: if_splits)
  have len: "length (bufs s) = NBUF" by (rule bio_inv_length [OF inv])
  from inv g show ?thesis
  proof (cases rule: bget_cases)
    case cached
    let ?nb = "(bufs s ! i)\<lparr>b_refcnt := b_refcnt (bufs s ! i) + 1,
       b_lock := (b_lock (bufs s ! i))\<lparr>slocked := True, spid := pid\<rparr>\<rparr>"
    have ok: "buf_ok s i" by (rule bio_inv_buf [OF inv cached(1)])
    have key: "b_blockno (bufs s ! j) \<noteq> b" if "j < NBUF" "j \<noteq> i" "b_dev (bufs s ! j) = 1" for j
      using bio_inv_inj [OF inv that(1) cached(1)] that cached(2,3) by auto
    have s1i: "bufs s1 ! i = ?nb" using cached(1,5) len by (simp add: upd_buf_nth)
    show ?thesis
    proof (cases "b_valid (bufs s ! i)")
      case True
      then have h: "holds_block s b i" using cached by (simp add: holds_block_def)
      have v: "bview s b = b_data (bufs s ! i)" by (rule bview_cached [OF inv cached(1) h])
      have e: "s' = upd_buf i (\<lambda>_. ?nb) s" using rest s1i True cached(5) by simp
      show ?thesis
        by (rule fetch_buf [OF e inv cached(1)])
          (use cached key h v ok True in \<open>auto simp: buf_ok_def Let_def\<close>)
    next
      case False
      then have nd: "\<not> b_dirty (bufs s ! i)" using ok by (auto simp: buf_ok_def Let_def)
      have un: "bview s b = disk s b"
        using False key by (intro bview_uncached) (auto simp: holds_block_def)
      have rw: "iderw pid i s1 = Ok s'" using rest s1i False by simp
      have e: "b < disksize s \<and> s' = upd_buf i (\<lambda>_. ?nb\<lparr>b_data := disk s b, b_valid := True\<rparr>) s"
        using iderw_read [OF inv cached(1,5) _ _ _ _ rw] False nd cached(2,3) by simp
      show ?thesis
        by (rule fetch_buf [OF conjunct2 [OF e] inv cached(1)])
          (use e cached key nd un in auto)
    qed
  next
    case recycled
    let ?nb = "(bufs s ! i)\<lparr>b_dev := 1, b_blockno := b, b_valid := False, b_dirty := False,
       b_refcnt := 1, b_lock := (b_lock (bufs s ! i))\<lparr>slocked := True, spid := pid\<rparr>\<rparr>"
    have s1i: "bufs s1 ! i = ?nb" using recycled(1,6) len by (simp add: upd_buf_nth)
    have un: "bview s b = disk s b"
      using recycled(2) by (intro bview_uncached) (auto simp: holds_block_def)
    have rw: "iderw pid i s1 = Ok s'" using rest s1i by simp
    have e: "b < disksize s \<and> s' = upd_buf i (\<lambda>_. ?nb\<lparr>b_data := disk s b, b_valid := True\<rparr>) s"
      using iderw_read [OF inv recycled(1,6) _ _ _ _ rw] by simp
    show ?thesis
      by (rule fetch_buf [OF conjunct2 [OF e] inv recycled(1)])
        (use e recycled un in auto)
  qed
qed

section \<open>Modifying, writing and releasing a locked buffer\<close>

text \<open>\<open>same_key\<close>: everything but the data and the dirty bit is kept.\<close>

definition same_key :: "buf \<Rightarrow> buf \<Rightarrow> bool" where
  "same_key c b \<longleftrightarrow> b_dev c = b_dev b \<and> b_blockno c = b_blockno b \<and> b_valid c = b_valid b \<and>
     b_lock c = b_lock b \<and> b_refcnt c = b_refcnt b"

lemma holds_key: "bio_inv s \<Longrightarrow> i < NBUF \<Longrightarrow> j < NBUF \<Longrightarrow> holds_block s b i \<Longrightarrow> holds_block s b j \<Longrightarrow> i = j"
  by (rule bio_inv_inj) (auto simp: holds_block_def)

lemma modify_buf:
  assumes inv: "bio_inv s" and own: "owns_buf pid s i b"
    and f: "same_key (f (bufs s ! i)) (bufs s ! i)" "length (b_data (f (bufs s ! i))) = BSIZE"
  shows "bio_inv (upd_buf i f s)" "owns_buf pid (upd_buf i f s) i b"
    "bview (upd_buf i f s) = (bview s)(b := b_data (f (bufs s ! i)))"
proof -
  define s' where s': "s' = upd_buf i f s"
  have i: "i < NBUF" and h: "holds_block s b i" using own by (simp_all add: owns_buf_def)
  have len: "length (bufs s) = NBUF" by (rule bio_inv_length [OF inv])
  have nth: "bufs s' ! j = (if i = j then f (bufs s ! j) else bufs s ! j)" if "j < NBUF" for j
    using that len by (simp add: s' upd_buf_nth)
  have hb: "holds_block s' c j = holds_block s c j" if "j < NBUF" for c j
    using nth [OF that] f(1) by (auto simp: holds_block_def same_key_def)
  have inv': "bio_inv s'" unfolding s'
  proof (rule upd_buf_inv [OF inv i])
    have "buf_ok s i" by (rule bio_inv_buf [OF inv i])
    then have "buf_ok s' i" using nth [OF i] f own by (simp add: buf_ok_def same_key_def owns_buf_def holds_block_def Let_def s')
    then show "buf_ok (upd_buf i f s) i" by (simp add: s')
    fix j assume "j < NBUF" "j \<noteq> i" "b_dev (f (bufs s ! i)) = 1" "b_dev (bufs s ! j) = 1"
    then show "b_blockno (bufs s ! j) \<noteq> b_blockno (f (bufs s ! i))"
      using bio_inv_inj [OF inv _ i, of j] f(1) by (auto simp: same_key_def)
  qed
  then show "bio_inv (upd_buf i f s)" by (simp add: s')
  show "owns_buf pid (upd_buf i f s) i b"
    using own hb [OF i] nth [OF i] f(1) by (simp add: owns_buf_def same_key_def flip: s')
  have "bview s' c = ((bview s)(b := b_data (f (bufs s ! i)))) c" for c
  proof (cases "c = b")
    case True
    then show ?thesis using bview_cached [OF inv' i] hb [OF i] h nth [OF i] by simp
  next
    case False
    then have "\<not> holds_block s c i" using h by (auto simp: holds_block_def)
    then have "bview s' c = bview s c"
      using nth hb by (intro bview_eqI [OF inv inv']) (auto simp: s' [symmetric], auto simp: s')
    then show ?thesis using False by simp
  qed
  then show "bview (upd_buf i f s) = (bview s)(b := b_data (f (bufs s ! i)))" by (intro ext) (simp add: s')
qed

lemma holdingsleep_owner: "owns_buf pid s i b \<Longrightarrow> holdingsleep pid (b_lock (bufs s ! i))"
  by (simp add: owns_buf_def holdingsleep_def)

lemma brelse_spec:
  assumes inv: "bio_inv s" and own: "owns_buf pid s i b"
    and clean: "b_dirty (bufs s ! i) \<or> b_data (bufs s ! i) = disk s b"
  obtains s' where "brelse pid i s = Ok s'" "bio_inv s'" "bview s' = bview s" "disk s' = disk s"
    "disksize s' = disksize s" "dtrace s' = dtrace s" "\<forall>j<NBUF. j \<noteq> i \<longrightarrow> bufs s' ! j = bufs s ! j"
    "bufs s' ! i = (bufs s ! i)\<lparr>b_lock := releasesleep (b_lock (bufs s ! i)), b_refcnt := b_refcnt (bufs s ! i) - 1\<rparr>"
proof -
  let ?f = "\<lambda>c. c\<lparr>b_lock := releasesleep (b_lock c), b_refcnt := b_refcnt c - 1\<rparr>"
  define s1 where s1: "s1 = upd_buf i ?f s"
  have i: "i < NBUF" and h: "holds_block s b i" using own by (simp_all add: owns_buf_def)
  have len: "length (bufs s) = NBUF" by (rule bio_inv_length [OF inv])
  have nth: "bufs s1 ! j = (if i = j then ?f (bufs s ! j) else bufs s ! j)" if "j < NBUF" for j
    using that len by (simp add: s1 upd_buf_nth)
  have hb: "holds_block s1 c j = holds_block s c j" if "j < NBUF" for c j
    using nth [OF that] by (auto simp: holds_block_def)
  have inv1: "bio_inv s1" unfolding s1
  proof (rule upd_buf_inv [OF inv i])
    have "buf_ok s i" by (rule bio_inv_buf [OF inv i])
    then have "buf_ok s1 i" using nth [OF i] clean h
      by (auto simp: buf_ok_def releasesleep_def holds_block_def Let_def s1)
    then show "buf_ok (upd_buf i ?f s) i" by (simp add: s1)
    fix j assume "j < NBUF" "j \<noteq> i" "b_dev (?f (bufs s ! i)) = 1" "b_dev (bufs s ! j) = 1"
    then show "b_blockno (bufs s ! j) \<noteq> b_blockno (?f (bufs s ! i))"
      using bio_inv_inj [OF inv _ i, of j] by auto
  qed
  define s' where s': "s' = (if b_refcnt (bufs s1 ! i) = 0 then s1\<lparr>lru := i # remove1 i (lru s1)\<rparr> else s1)"
  have sel: "bufs s' = bufs s1" "disk s' = disk s" "disksize s' = disksize s" "dtrace s' = dtrace s"
    by (simp_all add: s' s1)
  have l1: "distinct (lru s1) \<and> set (lru s1) = {..<NBUF}" by (rule bio_inv_lru [OF inv1])
  then have "i \<in> set (lru s1)" using i by simp
  then have "distinct (i # remove1 i (lru s1)) \<and> set (i # remove1 i (lru s1)) = {..<NBUF}"
    using l1 by (auto simp: set_remove1_eq)
  then have l': "distinct (lru s') \<and> set (lru s') = {..<NBUF}" using l1 by (simp add: s')
  have inv': "bio_inv s'"
  proof (rule bio_invI)
    show "buf_ok s' j" if "j < NBUF" for j
      using bio_inv_buf [OF inv1 that] buf_ok_cong [of s' j s1] sel by (simp add: s1)
    show "j = k" if "j < NBUF" "k < NBUF" "b_dev (bufs s' ! j) = 1" "b_dev (bufs s' ! k) = 1"
      "b_blockno (bufs s' ! j) = b_blockno (bufs s' ! k)" for j k
      using bio_inv_inj [OF inv1 that(1,2)] that(3-5) by (simp add: sel)
  qed (use l' sel bio_inv_length [OF inv1] bio_inv_disk [OF inv] in auto)
  have "bview s' c = bview s c" for c
    by (rule bview_eqI [OF inv inv']) (use hb nth sel in \<open>auto simp: holds_block_def\<close>)
  then have v: "bview s' = bview s" by (intro ext)
  have "brelse pid i s = Ok s'"
    using holdingsleep_owner [OF own] by (simp add: brelse_def Let_def s' s1)
  then show thesis by (rule that [OF _ inv' v]) (use sel nth i in auto)
qed

lemma bwrite_spec:
  assumes inv: "bio_inv s" and own: "owns_buf pid s i b"
  obtains s' where "bwrite pid i s = Ok s'" "bio_inv s'" "bview s' = bview s" "owns_buf pid s' i b"
    "disk s' = (disk s)(b := b_data (bufs s ! i))" "disksize s' = disksize s"
    "dtrace s' = dtrace s @ [(b, b_data (bufs s ! i))]" "\<forall>j<NBUF. j \<noteq> i \<longrightarrow> bufs s' ! j = bufs s ! j"
    "bufs s' ! i = (bufs s ! i)\<lparr>b_dirty := False\<rparr>"
proof -
  let ?d = "b_data (bufs s ! i)"
  define s' where s': "s' = upd_buf i (\<lambda>_. (bufs s ! i)\<lparr>b_dirty := False\<rparr>)
    (s\<lparr>disk := (disk s)(b := ?d), dtrace := dtrace s @ [(b, ?d)]\<rparr>)"
  have i: "i < NBUF" and h: "holds_block s b i" using own by (simp_all add: owns_buf_def)
  have len: "length (bufs s) = NBUF" by (rule bio_inv_length [OF inv])
  have ok: "buf_ok s i" by (rule bio_inv_buf [OF inv i])
  have sel: "disk s' = (disk s)(b := ?d)" "disksize s' = disksize s" "lru s' = lru s"
    "dtrace s' = dtrace s @ [(b, ?d)]" by (simp_all add: s')
  have nth: "bufs s' ! j = (if i = j then (bufs s ! i)\<lparr>b_dirty := False\<rparr> else bufs s ! j)" if "j < NBUF" for j
    using that len by (simp add: s' upd_buf_nth)
  have hb: "holds_block s' c j = holds_block s c j" if "j < NBUF" for c j
    using nth [OF that] by (auto simp: holds_block_def)
  have w: "bwrite pid i s = Ok s'"
  proof -
    have v: "b_valid (bufs s ! i)" "b_dev (bufs s ! i) = 1" "b_blockno (bufs s ! i) = b" "b < disksize s"
      using h ok by (auto simp: holds_block_def buf_ok_def Let_def)
    then have e: "(bufs s ! i)\<lparr>b_dirty := False, b_valid := True\<rparr> = (bufs s ! i)\<lparr>b_dirty := False\<rparr>" by simp
    show ?thesis
      using holdingsleep_owner [OF own] len i v
      by (simp add: bwrite_def iderw_def Let_def upd_buf_nth s' upd_buf_def e)
  qed
  have inv': "bio_inv s'"
  proof (rule bio_invI)
    show "buf_ok s' j" if j: "j < NBUF" for j
    proof (cases "j = i")
      case True
      then show ?thesis using ok nth [OF i] sel h by (auto simp: buf_ok_def Let_def holds_block_def)
    next
      case False
      have "b_blockno (bufs s ! j) \<noteq> b" if "b_valid (bufs s ! j)"
      proof
        assume e: "b_blockno (bufs s ! j) = b"
        have "b_dev (bufs s ! j) = 1" using bio_inv_buf [OF inv j] that by (simp add: buf_ok_def Let_def)
        then show False using holds_key [OF inv i j h] e that False by (simp add: holds_block_def)
      qed
      then show ?thesis using bio_inv_buf [OF inv j] False nth [OF j] sel by (auto simp: buf_ok_def Let_def)
    qed
    show "j = k" if "j < NBUF" "k < NBUF" "b_dev (bufs s' ! j) = 1" "b_dev (bufs s' ! k) = 1"
      "b_blockno (bufs s' ! j) = b_blockno (bufs s' ! k)" for j k
      using bio_inv_inj [OF inv that(1,2)] that(3-5) nth [OF that(1)] nth [OF that(2)] by (simp split: if_splits)
    show "length (disk s' c) = BSIZE" for c
      using bio_inv_disk [OF inv] ok by (simp add: sel buf_ok_def Let_def)
  qed (use len sel bio_inv_lru [OF inv] in \<open>auto simp: s'\<close>)
  have "bview s' c = bview s c" for c
  proof (cases "c = b")
    case True
    then show ?thesis using bview_cached [OF inv' i] bview_cached [OF inv i h] hb [OF i] h nth [OF i] by simp
  next
    case False
    then show ?thesis
      using hb nth sel by (intro bview_eqI [OF inv inv']) (auto simp: holds_block_def split: if_splits)
  qed
  then have v: "bview s' = bview s" by (intro ext)
  have "owns_buf pid s' i b" using own hb [OF i] nth [OF i] by (simp add: owns_buf_def)
  then show thesis by (rule that [OF w inv' v]) (use sel nth i in auto)
qed

text \<open>When a read succeeds: the block is in range, not locked, and cached or replaceable.\<close>

definition can_fetch :: "bio \<Rightarrow> nat \<Rightarrow> bool" where
  "can_fetch s b \<longleftrightarrow> b < disksize s \<and>
     ((\<exists>i<NBUF. b_dev (bufs s ! i) = 1 \<and> b_blockno (bufs s ! i) = b \<and> \<not> slocked (b_lock (bufs s ! i))) \<or>
      (\<forall>i<NBUF. \<not> (b_dev (bufs s ! i) = 1 \<and> b_blockno (bufs s ! i) = b)) \<and>
      (\<exists>i<NBUF. b_refcnt (bufs s ! i) = 0 \<and> \<not> b_dirty (bufs s ! i)))"

lemma bget_total:
  assumes inv: "bio_inv s" and c: "can_fetch s b"
  shows "\<exists>i s'. bget pid 1 b s = Ok (i, s')"
proof (cases "find (\<lambda>i. b_dev (bufs s ! i) = 1 \<and> b_blockno (bufs s ! i) = b) (lru s)")
  case (Some j)
  have lru: "set (lru s) = {..<NBUF}" using bio_inv_lru [OF inv] by simp
  have j: "j < NBUF" "b_dev (bufs s ! j) = 1" "b_blockno (bufs s ! j) = b" using find_Some_iff [OF Some] lru by auto
  obtain i where i: "i < NBUF" "b_dev (bufs s ! i) = 1" "b_blockno (bufs s ! i) = b" "\<not> slocked (b_lock (bufs s ! i))"
    using c j by (auto simp: can_fetch_def)
  then have "i = j" using bio_inv_inj [OF inv i(1) j(1)] j by simp
  then show ?thesis using Some i by (simp add: bget_def acquiresleep_def)
next
  case None
  have lru: "set (lru s) = {..<NBUF}" using bio_inv_lru [OF inv] by simp
  then have "\<forall>i<NBUF. \<not> (b_dev (bufs s ! i) = 1 \<and> b_blockno (bufs s ! i) = b)" using None by (auto simp: find_None_iff)
  then obtain i where i: "i < NBUF" "b_refcnt (bufs s ! i) = 0" "\<not> b_dirty (bufs s ! i)"
    using c by (auto simp: can_fetch_def)
  then have "find (\<lambda>i. b_refcnt (bufs s ! i) = 0 \<and> \<not> b_dirty (bufs s ! i)) (rev (lru s)) \<noteq> None"
    using lru by (auto simp: find_None_iff)
  then obtain k where k: "find (\<lambda>i. b_refcnt (bufs s ! i) = 0 \<and> \<not> b_dirty (bufs s ! i)) (rev (lru s)) = Some k" by blast
  then have "k < NBUF" "b_refcnt (bufs s ! k) = 0" using find_Some_iff [OF k] lru by auto
  then have "\<not> slocked (b_lock (bufs s ! k))" using bio_inv_buf [OF inv, of k] by (auto simp: buf_ok_def Let_def)
  then show ?thesis using None k by (simp add: bget_def acquiresleep_def)
qed

lemma bread_total:
  assumes inv: "bio_inv s" and c: "can_fetch s b"
  shows "\<exists>i s'. bread pid 1 b s = Ok (i, s')"
proof -
  obtain i s1 where g: "bget pid 1 b s = Ok (i, s1)" using bget_total [OF inv c] by blast
  have len: "length (bufs s) = NBUF" by (rule bio_inv_length [OF inv])
  have "\<exists>s'. iderw pid i s1 = Ok s'" if nv: "\<not> b_valid (bufs s1 ! i)"
    using inv g
  proof (cases rule: bget_cases)
    case cached
    then have "\<not> b_dirty (bufs s1 ! i)"
      using nv bio_inv_buf [OF inv cached(1)] len by (auto simp: upd_buf_nth buf_ok_def Let_def)
    then show ?thesis using nv cached len c
      by (auto simp: iderw_def Let_def upd_buf_nth holdingsleep_def can_fetch_def)
  next
    case recycled
    then show ?thesis using nv len c
      by (auto simp: iderw_def Let_def upd_buf_nth holdingsleep_def can_fetch_def)
  qed
  then show ?thesis using g by (auto simp: bread_def)
qed

section \<open>Call patterns of the clients\<close>

text \<open>
  \<^verbatim>\<open>bread\<close>, look at the data, \<^verbatim>\<open>brelse\<close>; and \<^verbatim>\<open>bread\<close>, modify the data, \<^verbatim>\<open>bwrite\<close>, \<^verbatim>\<open>brelse\<close>: the two ways
  the log uses the cache.
\<close>

definition read_block :: "int \<Rightarrow> nat \<Rightarrow> bio \<Rightarrow> (block \<times> bio) res" where
  "read_block pid b s =
     bnd (bread pid 1 b s) (\<lambda>(i, s). bnd (brelse pid i s) (\<lambda>s'. Ok (b_data (bufs s ! i), s')))"

definition write_block :: "int \<Rightarrow> nat \<Rightarrow> (block \<Rightarrow> block) \<Rightarrow> bio \<Rightarrow> bio res" where
  "write_block pid b f s =
     bnd (bread pid 1 b s) (\<lambda>(i, s).
     bnd (bwrite pid i (upd_buf i (\<lambda>u. u\<lparr>b_data := f (b_data u)\<rparr>) s)) (\<lambda>s. brelse pid i s))"

text \<open>No buffer is in use and none is dirty.\<close>

definition idle :: "bio \<Rightarrow> bool" where
  "idle s \<longleftrightarrow> bio_inv s \<and> (\<forall>i<NBUF. b_refcnt (bufs s ! i) = 0 \<and> \<not> b_dirty (bufs s ! i))"

lemma idle_can_fetch: "idle s \<Longrightarrow> b < disksize s \<Longrightarrow> can_fetch s b"
proof -
  assume a: "idle s" "b < disksize s"
  then have "\<not> slocked (b_lock (bufs s ! i))" if "i < NBUF" for i
    using that bio_inv_buf [of s i] by (auto simp: idle_def buf_ok_def Let_def)
  moreover have "0 < NBUF" by (simp add: NBUF_def)
  ultimately show ?thesis using a by (auto simp: can_fetch_def idle_def)
qed

lemma idle_view: "idle s \<Longrightarrow> bview s b = disk s b"
proof (cases "\<exists>i<NBUF. holds_block s b i")
  case True
  then obtain i where i: "i < NBUF" "holds_block s b i" by blast
  moreover assume "idle s"
  moreover from this i have "buf_ok s i" "b_refcnt (bufs s ! i) = 0" "\<not> b_dirty (bufs s ! i)"
    using bio_inv_buf by (auto simp: idle_def)
  ultimately show ?thesis
    using bview_cached [of s i b] by (auto simp: idle_def holds_block_def buf_ok_def Let_def)
qed (use bview_uncached in auto)

section \<open>One process at work\<close>

text \<open>
  The states a process sees between its calls while no other process uses the cache: it has locked the buffers
  \<open>H\<close> (buffer index to block), and the blocks \<open>D\<close> are cached dirty. An idle cache is the case of no lock and no
  dirty block.
\<close>

definition held :: "int \<Rightarrow> (nat \<rightharpoonup> nat) \<Rightarrow> nat set \<Rightarrow> bio \<Rightarrow> bool" where
  "held pid H D s \<longleftrightarrow> bio_inv s \<and> dom H \<subseteq> {..<NBUF} \<and>
     (\<forall>i<NBUF. case H i of Some b \<Rightarrow> owns_buf pid s i b \<and> b_refcnt (bufs s ! i) = 1
                           | None \<Rightarrow> b_refcnt (bufs s ! i) = 0) \<and>
     (\<forall>i<NBUF. b_dirty (bufs s ! i) \<longleftrightarrow> b_valid (bufs s ! i) \<and> b_blockno (bufs s ! i) \<in> D) \<and>
     (\<forall>b\<in>D. \<exists>i<NBUF. holds_block s b i)"

lemma heldI:
  assumes "bio_inv s" "dom H \<subseteq> {..<NBUF}"
    "\<And>i b. i < NBUF \<Longrightarrow> H i = Some b \<Longrightarrow> owns_buf pid s i b \<and> b_refcnt (bufs s ! i) = 1"
    "\<And>i. i < NBUF \<Longrightarrow> H i = None \<Longrightarrow> b_refcnt (bufs s ! i) = 0"
    "\<And>i. i < NBUF \<Longrightarrow> b_dirty (bufs s ! i) \<longleftrightarrow> b_valid (bufs s ! i) \<and> b_blockno (bufs s ! i) \<in> D"
    "\<And>b. b \<in> D \<Longrightarrow> \<exists>i<NBUF. holds_block s b i"
  shows "held pid H D s"
  unfolding held_def using assms by (auto split: option.split)

lemma held_facts:
  assumes "held pid H D s"
  shows "bio_inv s" "dom H \<subseteq> {..<NBUF}"
    "\<And>i b. H i = Some b \<Longrightarrow> i < NBUF \<and> owns_buf pid s i b \<and> b_refcnt (bufs s ! i) = 1"
    "\<And>i. i < NBUF \<Longrightarrow> H i = None \<Longrightarrow> b_refcnt (bufs s ! i) = 0"
    "\<And>i. i < NBUF \<Longrightarrow> b_dirty (bufs s ! i) \<longleftrightarrow> b_valid (bufs s ! i) \<and> b_blockno (bufs s ! i) \<in> D"
    "\<And>b. b \<in> D \<Longrightarrow> \<exists>i<NBUF. holds_block s b i"
proof -
  show "bio_inv s" "dom H \<subseteq> {..<NBUF}" using assms unfolding held_def by blast+
  show "i < NBUF \<and> owns_buf pid s i b \<and> b_refcnt (bufs s ! i) = 1" if "H i = Some b" for i b
  proof -
    have "i < NBUF" using that \<open>dom H \<subseteq> {..<NBUF}\<close> by auto
    then show ?thesis using assms that unfolding held_def by fastforce
  qed
  show "b_refcnt (bufs s ! i) = 0" if "i < NBUF" "H i = None" for i
    using assms that unfolding held_def by fastforce
  show "b_dirty (bufs s ! i) \<longleftrightarrow> b_valid (bufs s ! i) \<and> b_blockno (bufs s ! i) \<in> D" if "i < NBUF" for i
    using assms that unfolding held_def by blast
  show "\<exists>i<NBUF. holds_block s b i" if "b \<in> D" for b
    using assms that unfolding held_def by blast
qed

lemmas held_inv = held_facts(1)
lemmas held_dom = held_facts(2)
lemmas held_owns = held_facts(3)
lemmas held_free = held_facts(4)
lemmas held_dirty = held_facts(5)
lemmas held_pinned = held_facts(6)

lemma idle_held: "idle s \<longleftrightarrow> held pid Map.empty {} s"
proof
  assume "idle s"
  then show "held pid Map.empty {} s" by (intro heldI) (auto simp: idle_def)
next
  assume h: "held pid Map.empty {} s"
  then show "idle s" using held_inv [OF h] held_free [OF h] held_dirty [OF h] by (simp add: idle_def)
qed

lemma held_unlocked: "held pid H D s \<Longrightarrow> i < NBUF \<Longrightarrow> H i = None \<Longrightarrow> \<not> slocked (b_lock (bufs s ! i))"
  using bio_inv_buf [OF held_inv, of pid H D s i] held_free [of pid H D s i] by (auto simp: buf_ok_def Let_def)

lemma held_view_clean:
  assumes h: "held pid H D s" and b: "b \<notin> ran H" "b \<notin> D"
  shows "bview s b = disk s b"
proof (cases "\<exists>i<NBUF. holds_block s b i")
  case True
  then obtain i where i: "i < NBUF" "holds_block s b i" by blast
  have "H i = None"
  proof (rule ccontr)
    assume "H i \<noteq> None"
    then obtain c where c: "H i = Some c" by blast
    then have "c = b" using held_owns [OF h c] i by (auto simp: owns_buf_def holds_block_def)
    then show False using c b by (auto simp: ran_def)
  qed
  then have "\<not> slocked (b_lock (bufs s ! i))" "\<not> b_dirty (bufs s ! i)"
    using held_unlocked [OF h i(1)] held_dirty [OF h i(1)] i(2) b by (auto simp: holds_block_def)
  moreover have "buf_ok s i" by (rule bio_inv_buf [OF held_inv [OF h] i(1)])
  ultimately show ?thesis
    using bview_cached [OF held_inv [OF h] i] i(2) by (auto simp: holds_block_def buf_ok_def Let_def)
qed (use bview_uncached in auto)

text \<open>A block the process has not locked can be read while fewer than \<^verbatim>\<open>NBUF\<close> buffers are locked or dirty.\<close>

lemma held_can_fetch:
  assumes h: "held pid H D s" and b: "b < disksize s" "b \<notin> ran H"
    and room: "b \<in> D \<or> finite D \<and> card (dom H) + card D < NBUF"
  shows "can_fetch s b"
proof (cases "\<exists>i<NBUF. b_dev (bufs s ! i) = 1 \<and> b_blockno (bufs s ! i) = b")
  case True
  then obtain i where i: "i < NBUF" "b_dev (bufs s ! i) = 1" "b_blockno (bufs s ! i) = b" by blast
  have "H i = None"
  proof (rule ccontr)
    assume "H i \<noteq> None"
    then obtain c where c: "H i = Some c" by blast
    then have "c = b" using held_owns [OF h c] i by (auto simp: owns_buf_def holds_block_def)
    then show False using c b by (auto simp: ran_def)
  qed
  then have "\<not> slocked (b_lock (bufs s ! i))" by (rule held_unlocked [OF h i(1)])
  then show ?thesis using b i by (auto simp: can_fetch_def)
next
  case False
  then have "b \<notin> D" using held_pinned [OF h] by (auto simp: holds_block_def)
  then have fin: "finite D" and lt: "card (dom H) + card D < NBUF" using room by auto
  let ?X = "{i. i < NBUF \<and> b_dirty (bufs s ! i)}"
  have "inj_on (\<lambda>i. b_blockno (bufs s ! i)) ?X"
  proof (rule inj_onI)
    fix i j assume ij: "i \<in> ?X" "j \<in> ?X" "b_blockno (bufs s ! i) = b_blockno (bufs s ! j)"
    then have "b_dev (bufs s ! i) = 1" "b_dev (bufs s ! j) = 1"
      using bio_inv_buf [OF held_inv [OF h]] by (auto simp: buf_ok_def Let_def)
    then show "i = j" using bio_inv_inj [OF held_inv [OF h]] ij by auto
  qed
  moreover have "(\<lambda>i. b_blockno (bufs s ! i)) ` ?X \<subseteq> D" using held_dirty [OF h] by auto
  ultimately have "card ?X \<le> card D" using fin by (intro card_inj_on_le)
  then have "card (dom H \<union> ?X) < card {..<NBUF}"
    using card_Un_le [of "dom H" ?X] lt by simp
  moreover have "dom H \<union> ?X \<subseteq> {..<NBUF}" using held_dom [OF h] by auto
  ultimately have "dom H \<union> ?X \<noteq> {..<NBUF}" by (metis nat_neq_iff)
  then obtain i where "i < NBUF" "i \<notin> dom H" "i \<notin> ?X" using \<open>dom H \<union> ?X \<subseteq> {..<NBUF}\<close> by blast
  then have "i < NBUF" "b_refcnt (bufs s ! i) = 0" "\<not> b_dirty (bufs s ! i)"
    using held_free [OF h, of i] by (auto simp: domIff)
  then show ?thesis using False b(1) by (auto simp: can_fetch_def)
qed

text \<open>What a step on the cache may change: only the view of block \<open>b\<close>, and nothing on the disk.\<close>

definition same_disk :: "bio \<Rightarrow> bio \<Rightarrow> bool" where
  "same_disk s s' \<longleftrightarrow> disk s' = disk s \<and> disksize s' = disksize s \<and> dtrace s' = dtrace s"

lemma same_disk_refl [simp]: "same_disk s s"
  by (simp add: same_disk_def)

lemma same_disk_trans: "same_disk s t \<Longrightarrow> same_disk t u \<Longrightarrow> same_disk s u"
  by (simp add: same_disk_def)

lemma held_bread:
  assumes h: "held pid H D s" and b: "b < disksize s" "b \<notin> ran H"
    and room: "b \<in> D \<or> finite D \<and> card (dom H) + card D < NBUF"
  obtains i s' where "bread pid 1 b s = Ok (i, s')" "held pid (H(i \<mapsto> b)) D s'" "H i = None"
    "b_data (bufs s' ! i) = bview s b" "bview s' = bview s" "same_disk s s'"
    "\<forall>j<NBUF. j \<noteq> i \<longrightarrow> bufs s' ! j = bufs s ! j"
proof -
  have inv: "bio_inv s" by (rule held_inv [OF h])
  obtain i s' where r: "bread pid 1 b s = Ok (i, s')" using bread_total [OF inv held_can_fetch [OF assms]] by blast
  have f: "fetched pid b s i s'" by (rule bread_spec [OF inv r])
  have own: "owns_buf pid s' i b" and inv': "bio_inv s'"
    and oth: "\<forall>j<NBUF. j \<noteq> i \<longrightarrow> bufs s' ! j = bufs s ! j"
    and dd: "b_dirty (bufs s' ! i) = b_dirty (bufs s ! i)" "b_dirty (bufs s' ! i) \<longrightarrow> holds_block s b i"
    and out: "b_data (bufs s' ! i) = bview s b" "bview s' = bview s" "same_disk s s'"
    using f unfolding fetched_def same_disk_def by iprover+
  have i: "i < NBUF" and hb: "holds_block s' b i" using own by (simp_all add: owns_buf_def)
  have none: "H i = None"
  proof (rule ccontr)
    assume "H i \<noteq> None"
    then have "slocked (b_lock (bufs s ! i))" using held_owns [OF h] by (auto simp: owns_buf_def)
    then show False using f by (simp add: fetched_def)
  qed
  have rc: "b_refcnt (bufs s' ! i) = 1" using f held_free [OF h i none] by (simp add: fetched_def)
  have pin: "holds_block s b i" if bD: "b \<in> D"
  proof -
    obtain j where j: "j < NBUF" "holds_block s b j" using held_pinned [OF h bD] by blast
    have "j = i"
    proof (rule ccontr)
      assume "j \<noteq> i"
      then have "holds_block s' b j" using oth j by (simp add: holds_block_def)
      then show False using holds_key [OF inv' j(1) i _ hb] \<open>j \<noteq> i\<close> by blast
    qed
    then show ?thesis using j by simp
  qed
  have "held pid (H(i \<mapsto> b)) D s'"
  proof (rule heldI)
    show "dom (H(i \<mapsto> b)) \<subseteq> {..<NBUF}" using held_dom [OF h] i by auto
    show "owns_buf pid s' j c \<and> b_refcnt (bufs s' ! j) = 1" if "j < NBUF" "(H(i \<mapsto> b)) j = Some c" for j c
    proof (cases "j = i")
      case False
      then show ?thesis using that oth held_owns [OF h, of j c] by (simp add: owns_buf_def holds_block_def)
    qed (use that own rc in simp)
    show "b_refcnt (bufs s' ! j) = 0" if "j < NBUF" "(H(i \<mapsto> b)) j = None" for j
      using that oth held_free [OF h that(1)] by (simp split: if_splits)
    show "b_dirty (bufs s' ! j) \<longleftrightarrow> b_valid (bufs s' ! j) \<and> b_blockno (bufs s' ! j) \<in> D" if "j < NBUF" for j
    proof (cases "j = i")
      case True
      have "b_dirty (bufs s ! i) \<longleftrightarrow> b \<in> D"
      proof (cases "holds_block s b i")
        case True
        then show ?thesis using held_dirty [OF h i] by (simp add: holds_block_def)
      next
        case False
        then show ?thesis using pin dd by blast
      qed
      then show ?thesis using True dd hb by (simp add: holds_block_def)
    qed (use that oth held_dirty [OF h that] in simp)
    show "\<exists>j<NBUF. holds_block s' c j" if c: "c \<in> D" for c
    proof (cases "c = b")
      case False
      obtain j where j: "j < NBUF" "holds_block s c j" using held_pinned [OF h c] by blast
      have "j \<noteq> i"
      proof
        assume "j = i"
        then have "b_dirty (bufs s ! i)" using held_dirty [OF h i] j c by (simp add: holds_block_def)
        then show False using dd j False \<open>j = i\<close> by (simp add: holds_block_def)
      qed
      then have "holds_block s' c j" using j oth by (simp add: holds_block_def)
      then show ?thesis using j(1) by blast
    qed (use i hb in blast)
  qed (rule inv')
  then show thesis using none out oth by (rule that [OF r])
qed

text \<open>Changing a held buffer without touching its key, lock or count.\<close>

lemma held_upd:
  assumes h: "held pid H D s" and i: "H i = Some b" and f: "same_key (f (bufs s ! i)) (bufs s ! i)"
    "length (b_data (f (bufs s ! i))) = BSIZE"
    and d: "D' = (if b_dirty (f (bufs s ! i)) then insert b D else D - {b})"
  shows "held pid H D' (upd_buf i f s)" "bview (upd_buf i f s) = (bview s)(b := b_data (f (bufs s ! i)))"
proof -
  have o: "i < NBUF" "owns_buf pid s i b" "b_refcnt (bufs s ! i) = 1" using held_owns [OF h i] by auto
  have len: "length (bufs s) = NBUF" by (rule bio_inv_length [OF held_inv [OF h]])
  define s' where s': "s' = upd_buf i f s"
  have nth: "bufs s' ! j = (if i = j then f (bufs s ! j) else bufs s ! j)" if "j < NBUF" for j
    using that len by (simp add: s' upd_buf_nth)
  note m = modify_buf [OF held_inv [OF h] o(2), where f = f, OF f, folded s']
  have hold: "holds_block s' c j = holds_block s c j" if "j < NBUF" for c j
    using nth [OF that] f(1) by (auto simp: holds_block_def same_key_def)
  have "held pid H D' s'"
  proof (rule heldI [OF m(1) held_dom [OF h]])
    show "owns_buf pid s' j c \<and> b_refcnt (bufs s' ! j) = 1" if "j < NBUF" "H j = Some c" for j c
      using held_owns [OF h that(2)] nth [OF that(1)] hold [OF that(1)] f(1) by (auto simp: owns_buf_def same_key_def)
    show "b_refcnt (bufs s' ! j) = 0" if "j < NBUF" "H j = None" for j
      using held_free [OF h that] nth [OF that(1)] that i by auto
    show "b_dirty (bufs s' ! j) \<longleftrightarrow> b_valid (bufs s' ! j) \<and> b_blockno (bufs s' ! j) \<in> D'" if j: "j < NBUF" for j
    proof (cases "j = i")
      case True
      then show ?thesis using nth [OF j] f(1) o(2) d by (auto simp: same_key_def owns_buf_def holds_block_def)
    next
      case False
      have "b_blockno (bufs s ! j) \<noteq> b" if v: "b_valid (bufs s ! j)"
      proof
        assume e: "b_blockno (bufs s ! j) = b"
        have "holds_block s b j"
          using bio_inv_buf [OF held_inv [OF h] j] v e by (simp add: holds_block_def buf_ok_def Let_def)
        then show False using holds_key [OF held_inv [OF h] j o(1)] o(2) False by (auto simp: owns_buf_def)
      qed
      then show ?thesis using False nth [OF j] held_dirty [OF h j] d by auto
    qed
    show "\<exists>j<NBUF. holds_block s' c j" if "c \<in> D'" for c
    proof (cases "c = b")
      case True
      then show ?thesis using o(1,2) hold [OF o(1)] by (auto simp: owns_buf_def)
    next
      case False
      then have "c \<in> D" using that d by (auto split: if_splits)
      then show ?thesis using held_pinned [OF h] hold by blast
    qed
  qed
  then show "held pid H D' (upd_buf i f s)" by (simp add: s')
  show "bview (upd_buf i f s) = (bview s)(b := b_data (f (bufs s ! i)))" using m(3) by (simp add: s')
qed

lemma held_data:
  assumes h: "held pid H D s" and i: "H i = Some b" and f: "length (f (b_data (bufs s ! i))) = BSIZE"
  shows "held pid H D (upd_buf i (\<lambda>u. u\<lparr>b_data := f (b_data u)\<rparr>) s)"
    "bview (upd_buf i (\<lambda>u. u\<lparr>b_data := f (b_data u)\<rparr>) s) = (bview s)(b := f (b_data (bufs s ! i)))"
proof -
  have "b_dirty (bufs s ! i) \<longleftrightarrow> b \<in> D"
    using held_owns [OF h i] held_dirty [OF h, of i] by (auto simp: owns_buf_def holds_block_def)
  then have d: "D = (if b_dirty ((bufs s ! i)\<lparr>b_data := f (b_data (bufs s ! i))\<rparr>) then insert b D else D - {b})" by auto
  show "held pid H D (upd_buf i (\<lambda>u. u\<lparr>b_data := f (b_data u)\<rparr>) s)"
    by (rule held_upd(1) [OF h i]) (use f d in \<open>simp_all add: same_key_def\<close>)
  show "bview (upd_buf i (\<lambda>u. u\<lparr>b_data := f (b_data u)\<rparr>) s) = (bview s)(b := f (b_data (bufs s ! i)))"
    using held_upd(2) [OF h i, where f = "\<lambda>u. u\<lparr>b_data := f (b_data u)\<rparr>" and D' = D] f d by (simp add: same_key_def)
qed

text \<open>What \<^verbatim>\<open>log_write\<close> does to the buffer: it becomes dirty, which pins it.\<close>

lemma held_pin:
  assumes h: "held pid H D s" and i: "H i = Some b"
  shows "held pid H (insert b D) (upd_buf i (\<lambda>u. u\<lparr>b_dirty := True\<rparr>) s)"
    "bview (upd_buf i (\<lambda>u. u\<lparr>b_dirty := True\<rparr>) s) = bview s"
proof -
  have o: "i < NBUF" "holds_block s b i" using held_owns [OF h i] by (auto simp: owns_buf_def)
  have k: "same_key ((bufs s ! i)\<lparr>b_dirty := True\<rparr>) (bufs s ! i)" "length (b_data ((bufs s ! i)\<lparr>b_dirty := True\<rparr>)) = BSIZE"
    using bio_inv_buf [OF held_inv [OF h] o(1)] by (simp_all add: same_key_def buf_ok_def Let_def)
  show "held pid H (insert b D) (upd_buf i (\<lambda>u. u\<lparr>b_dirty := True\<rparr>) s)"
    by (rule held_upd(1) [OF h i]) (use k in simp_all)
  have "bview (upd_buf i (\<lambda>u. u\<lparr>b_dirty := True\<rparr>) s) = (bview s)(b := b_data (bufs s ! i))"
    using held_upd(2) [OF h i, where f = "\<lambda>u. u\<lparr>b_dirty := True\<rparr>" and D' = "insert b D"] k by simp
  then show "bview (upd_buf i (\<lambda>u. u\<lparr>b_dirty := True\<rparr>) s) = bview s"
    using bview_cached [OF held_inv [OF h] o] by (simp add: fun_upd_idem)
qed

lemma held_cong:
  assumes h: "held pid H D t" and inv: "bio_inv s" and e: "\<And>j. j < NBUF \<Longrightarrow> bufs s ! j = bufs t ! j"
  shows "held pid H D s"
proof (rule heldI [OF inv held_dom [OF h]])
  show "owns_buf pid s j c \<and> b_refcnt (bufs s ! j) = 1" if "j < NBUF" "H j = Some c" for j c
    using held_owns [OF h that(2)] e [OF that(1)] by (simp add: owns_buf_def holds_block_def)
  show "\<exists>j<NBUF. holds_block s c j" if "c \<in> D" for c
    using held_pinned [OF h that] e unfolding holds_block_def by metis
qed (use held_free [OF h] held_dirty [OF h] e in simp_all)

lemma held_bwrite:
  assumes h: "held pid H D s" and i: "H i = Some b"
  obtains s' where "bwrite pid i s = Ok s'" "held pid H (D - {b}) s'" "bview s' = bview s"
    "disk s' = (disk s)(b := b_data (bufs s ! i))" "disksize s' = disksize s"
    "dtrace s' = dtrace s @ [(b, b_data (bufs s ! i))]" "\<forall>j<NBUF. b_data (bufs s' ! j) = b_data (bufs s ! j)"
proof -
  have o: "i < NBUF" "owns_buf pid s i b" using held_owns [OF h i] by auto
  note inv = held_inv [OF h]
  have len: "length (bufs s) = NBUF" by (rule bio_inv_length [OF inv])
  from inv o(2) obtain s' where w: "bwrite pid i s = Ok s'" "bio_inv s'" "bview s' = bview s" "owns_buf pid s' i b"
    "disk s' = (disk s)(b := b_data (bufs s ! i))" "disksize s' = disksize s"
    "dtrace s' = dtrace s @ [(b, b_data (bufs s ! i))]" "\<forall>j<NBUF. j \<noteq> i \<longrightarrow> bufs s' ! j = bufs s ! j"
    "bufs s' ! i = (bufs s ! i)\<lparr>b_dirty := False\<rparr>"
    by (rule bwrite_spec)
  let ?t = "upd_buf i (\<lambda>u. u\<lparr>b_dirty := False\<rparr>) s"
  have k: "same_key ((bufs s ! i)\<lparr>b_dirty := False\<rparr>) (bufs s ! i)"
    "length (b_data ((bufs s ! i)\<lparr>b_dirty := False\<rparr>)) = BSIZE"
    using bio_inv_buf [OF inv o(1)] by (simp_all add: same_key_def buf_ok_def Let_def)
  have t: "held pid H (D - {b}) ?t" by (rule held_upd [OF h i, where D' = "D - {b}"]) (use k in simp_all)
  have nth: "bufs s' ! j = bufs ?t ! j" if "j < NBUF" for j
    using that w(8,9) len by (cases "j = i") (simp_all add: upd_buf_nth)
  have "held pid H (D - {b}) s'"
    by (rule held_cong [OF t w(2) nth])
  moreover have "\<forall>j<NBUF. b_data (bufs s' ! j) = b_data (bufs s ! j)"
    using nth len by (simp add: upd_buf_nth)
  ultimately show thesis using that [OF w(1) _ w(3,5,6,7)] by blast
qed

lemma held_brelse:
  assumes h: "held pid H D s" and i: "H i = Some b" and clean: "b \<in> D \<or> b_data (bufs s ! i) = disk s b"
  obtains s' where "brelse pid i s = Ok s'" "held pid (H(i := None)) D s'" "bview s' = bview s" "same_disk s s'"
    "\<forall>j<NBUF. b_data (bufs s' ! j) = b_data (bufs s ! j)"
proof -
  have o: "i < NBUF" "owns_buf pid s i b" "b_refcnt (bufs s ! i) = 1" using held_owns [OF h i] by auto
  have "b_dirty (bufs s ! i) \<or> b_data (bufs s ! i) = disk s b"
    using clean held_dirty [OF h o(1)] o(2) by (auto simp: owns_buf_def holds_block_def)
  with held_inv [OF h] o(2) obtain s' where r: "brelse pid i s = Ok s'" "bio_inv s'" "bview s' = bview s"
    "disk s' = disk s" "disksize s' = disksize s" "dtrace s' = dtrace s" "\<forall>j<NBUF. j \<noteq> i \<longrightarrow> bufs s' ! j = bufs s ! j"
    "bufs s' ! i = (bufs s ! i)\<lparr>b_lock := releasesleep (b_lock (bufs s ! i)), b_refcnt := b_refcnt (bufs s ! i) - 1\<rparr>"
    by (rule brelse_spec)
  have hold: "holds_block s' c j = holds_block s c j" if "j < NBUF" for c j
    using that r(7,8) by (cases "j = i") (simp_all add: holds_block_def)
  have d: "b_data (bufs s' ! j) = b_data (bufs s ! j)" "b_dirty (bufs s' ! j) = b_dirty (bufs s ! j)"
    "b_valid (bufs s' ! j) = b_valid (bufs s ! j)" "b_blockno (bufs s' ! j) = b_blockno (bufs s ! j)" if "j < NBUF" for j
    using that r(7,8) by (cases "j = i"; simp)+
  have "held pid (H(i := None)) D s'"
  proof (rule heldI [OF r(2)])
    show "dom (H(i := None)) \<subseteq> {..<NBUF}" using held_dom [OF h] by auto
    show "owns_buf pid s' j c \<and> b_refcnt (bufs s' ! j) = 1" if "j < NBUF" "(H(i := None)) j = Some c" for j c
    proof -
      have "j \<noteq> i" "H j = Some c" using that by (auto split: if_splits)
      then show ?thesis using held_owns [OF h \<open>H j = Some c\<close>] r(7) that(1) by (simp add: owns_buf_def holds_block_def)
    qed
    show "b_refcnt (bufs s' ! j) = 0" if "j < NBUF" "(H(i := None)) j = None" for j
      using that r(7,8) o(3) held_free [OF h that(1)] by (cases "j = i") simp_all
    show "b_dirty (bufs s' ! j) \<longleftrightarrow> b_valid (bufs s' ! j) \<and> b_blockno (bufs s' ! j) \<in> D" if "j < NBUF" for j
      using d [OF that] held_dirty [OF h that] by simp
    show "\<exists>j<NBUF. holds_block s' c j" if c: "c \<in> D" for c
      using held_pinned [OF h c] hold by blast
  qed
  moreover have "same_disk s s'" using r by (simp add: same_disk_def)
  ultimately show thesis using that [OF r(1) _ r(3)] d(1) by blast
qed

lemma read_block_held:
  assumes h: "held pid H D s" and b: "b < disksize s" "b \<notin> ran H"
    and room: "b \<in> D \<or> finite D \<and> card (dom H) + card D < NBUF"
  obtains s' where "read_block pid b s = Ok (bview s b, s')" "held pid H D s'" "bview s' = bview s" "same_disk s s'"
proof -
  obtain i s1 where r: "bread pid 1 b s = Ok (i, s1)" "held pid (H(i \<mapsto> b)) D s1" "H i = None"
    "b_data (bufs s1 ! i) = bview s b" "bview s1 = bview s" "same_disk s s1" "\<forall>j<NBUF. j \<noteq> i \<longrightarrow> bufs s1 ! j = bufs s ! j"
    using assms by (rule held_bread)
  have e: "(H(i \<mapsto> b))(i := None) = H" using r(3) by (simp add: fun_upd_idem)
  have "b \<in> D \<or> b_data (bufs s1 ! i) = disk s1 b"
    using held_view_clean [OF h b(2)] r(4,6) by (auto simp: same_disk_def)
  with r(2) fun_upd_same obtain s' where s': "brelse pid i s1 = Ok s'" "held pid ((H(i \<mapsto> b))(i := None)) D s'"
    "bview s' = bview s1" "same_disk s1 s'" "\<forall>j<NBUF. b_data (bufs s' ! j) = b_data (bufs s1 ! j)"
    by (rule held_brelse)
  have "read_block pid b s = Ok (bview s b, s')" using r(1,4) s'(1) by (simp add: read_block_def)
  then show thesis
    by (rule that) (use s' r(5,6) e same_disk_trans in auto)
qed

lemma write_block_held:
  assumes h: "held pid H D s" and b: "b < disksize s" "b \<notin> ran H"
    and room: "b \<in> D \<or> finite D \<and> card (dom H) + card D < NBUF" and f: "length (f (bview s b)) = BSIZE"
  obtains s' where "write_block pid b f s = Ok s'" "held pid H (D - {b}) s'" "bview s' = (bview s)(b := f (bview s b))"
    "disk s' = (disk s)(b := f (bview s b))" "disksize s' = disksize s" "dtrace s' = dtrace s @ [(b, f (bview s b))]"
proof -
  obtain i s1 where r: "bread pid 1 b s = Ok (i, s1)" "held pid (H(i \<mapsto> b)) D s1" "H i = None"
    "b_data (bufs s1 ! i) = bview s b" "bview s1 = bview s" "same_disk s s1" "\<forall>j<NBUF. j \<noteq> i \<longrightarrow> bufs s1 ! j = bufs s ! j"
    using h b room by (rule held_bread)
  have e: "(H(i \<mapsto> b))(i := None) = H" using r(3) by (simp add: fun_upd_idem)
  have i: "i < NBUF" "length (bufs s1) = NBUF" using held_owns [OF r(2), of i b] bio_inv_length [OF held_inv [OF r(2)]] by auto
  define s2 where s2: "s2 = upd_buf i (\<lambda>u. u\<lparr>b_data := f (b_data u)\<rparr>) s1"
  have b2: "bufs s2 ! i = (bufs s1 ! i)\<lparr>b_data := f (bview s b)\<rparr>" using i r(4) by (simp add: s2 upd_buf_nth)
  have "length (f (b_data (bufs s1 ! i))) = BSIZE" using f r(4) by simp
  from held_data [OF r(2), where f = f, OF fun_upd_same this] r(4)
  have m: "held pid (H(i \<mapsto> b)) D s2" "bview s2 = (bview s1)(b := f (bview s b))" unfolding s2 by simp_all
  from m(1) fun_upd_same obtain s3 where w: "bwrite pid i s2 = Ok s3" "held pid (H(i \<mapsto> b)) (D - {b}) s3"
    "bview s3 = bview s2" "disk s3 = (disk s2)(b := b_data (bufs s2 ! i))" "disksize s3 = disksize s2"
    "dtrace s3 = dtrace s2 @ [(b, b_data (bufs s2 ! i))]" "\<forall>j<NBUF. b_data (bufs s3 ! j) = b_data (bufs s2 ! j)"
    by (rule held_bwrite)
  have "b \<in> D - {b} \<or> b_data (bufs s3 ! i) = disk s3 b" using w(4,7) i by simp
  with w(2) fun_upd_same obtain s' where s': "brelse pid i s3 = Ok s'"
    "held pid ((H(i \<mapsto> b))(i := None)) (D - {b}) s'" "bview s' = bview s3" "same_disk s3 s'"
    "\<forall>j<NBUF. b_data (bufs s' ! j) = b_data (bufs s3 ! j)"
    by (rule held_brelse)
  have "write_block pid b f s = Ok s'" using r(1) w(1) s'(1) by (simp add: write_block_def s2)
  then show thesis
    by (rule that) (use s' e w r m b2 in \<open>simp_all add: same_disk_def s2\<close>)
qed

lemma read_block_idle:
  assumes "idle s" "b < disksize s"
  obtains s' where "read_block pid b s = Ok (disk s b, s')" "idle s'" "same_disk s s'"
proof -
  have "held pid Map.empty {} s" using assms(1) idle_held by blast
  from this assms(2) obtain s' where "read_block pid b s = Ok (bview s b, s')" "held pid Map.empty {} s'"
    "bview s' = bview s" "same_disk s s'"
    by (rule read_block_held) (simp_all add: NBUF_def)
  then show thesis using that idle_view [OF assms(1)] idle_held by metis
qed

lemma write_block_idle:
  assumes "idle s" "b < disksize s" and f: "length (f (disk s b)) = BSIZE"
  obtains s' where "write_block pid b f s = Ok s'" "idle s'" "disk s' = (disk s)(b := f (disk s b))"
    "disksize s' = disksize s" "dtrace s' = dtrace s @ [(b, f (disk s b))]"
proof -
  note v = idle_view [OF assms(1)]
  have "held pid Map.empty {} s" using assms(1) idle_held by blast
  from this assms(2) obtain s' where "write_block pid b f s = Ok s'" "held pid Map.empty ({} - {b}) s'"
    "bview s' = (bview s)(b := f (bview s b))" "disk s' = (disk s)(b := f (bview s b))" "disksize s' = disksize s"
    "dtrace s' = dtrace s @ [(b, f (bview s b))]"
    by (rule write_block_held) (use f v in \<open>simp_all add: NBUF_def\<close>)
  then show thesis by (intro that) (simp_all add: v idle_held [of _ pid])
qed

section \<open>The cache as a disk\<close>

datatype bop = BRead nat | BWrite nat block

primrec bop_ok :: "nat \<Rightarrow> bop \<Rightarrow> bool" where
  "bop_ok n (BRead b) \<longleftrightarrow> b < n"
| "bop_ok n (BWrite b d) \<longleftrightarrow> b < n \<and> length d = BSIZE"

primrec run_cache :: "int \<Rightarrow> bop list \<Rightarrow> bio \<Rightarrow> (block list \<times> bio) res" where
  "run_cache pid [] s = Ok ([], s)"
| "run_cache pid (x # xs) s =
     (case x of
        BRead b \<Rightarrow> bnd (read_block pid b s) (\<lambda>(d, s). bnd (run_cache pid xs s) (\<lambda>(ds, s). Ok (d # ds, s)))
      | BWrite b d \<Rightarrow> bnd (write_block pid b (\<lambda>_. d) s) (run_cache pid xs))"

primrec run_disk :: "bop list \<Rightarrow> (nat \<Rightarrow> block) \<Rightarrow> block list \<times> (nat \<Rightarrow> block)" where
  "run_disk [] d = ([], d)"
| "run_disk (x # xs) d =
     (case x of
        BRead b \<Rightarrow> (let (ds, d') = run_disk xs d in (d b # ds, d'))
      | BWrite b v \<Rightarrow> run_disk xs (d(b := v)))"

lemma binit_idle: "(\<And>b. length (disk s b) = BSIZE) \<Longrightarrow> idle (binit s)"
proof -
  assume d: "\<And>b. length (disk s b) = BSIZE"
  have fold: "fold (\<lambda>i l. i # l) xs ys = rev xs @ ys" for xs ys :: "nat list"
    by (induction xs arbitrary: ys) auto
  have nth: "bufs (binit s) ! i = buf_init" if "i < NBUF" for i using that by (simp add: binit_def)
  have "bio_inv (binit s)"
  proof (rule bio_invI)
    show "i = j" if "i < NBUF" "b_dev (bufs (binit s) ! i) = 1" for i j
      using that nth by (simp add: buf_init_def)
  qed (use d nth in \<open>auto simp: binit_def fold buf_ok_def Let_def buf_init_def initsleeplock_def\<close>)
  then show ?thesis using nth by (simp add: idle_def buf_init_def)
qed

lemma run_cache_run_disk:
  "idle s \<Longrightarrow> list_all (bop_ok (disksize s)) xs \<Longrightarrow>
     \<exists>s'. run_cache pid xs s = Ok (fst (run_disk xs (disk s)), s') \<and> idle s' \<and>
       disk s' = snd (run_disk xs (disk s)) \<and> disksize s' = disksize s"
proof (induction xs arbitrary: s)
  case (Cons x xs)
  show ?case
  proof (cases x)
    case (BRead b)
    from Cons.prems BRead obtain s1 where s1: "read_block pid b s = Ok (disk s b, s1)" "idle s1" "same_disk s s1"
      by (auto elim: read_block_idle)
    then show ?thesis using Cons.IH [of s1] Cons.prems BRead by (auto simp: split_beta Let_def same_disk_def)
  next
    case (BWrite b d)
    from Cons.prems BWrite have "idle s" "b < disksize s" "length ((\<lambda>_. d) (disk s b)) = BSIZE" by auto
    then obtain s1 where s1: "write_block pid b (\<lambda>_. d) s = Ok s1" "idle s1" "disk s1 = (disk s)(b := d)"
      "disksize s1 = disksize s" "dtrace s1 = dtrace s @ [(b, d)]"
      by (rule write_block_idle)
    moreover have "\<exists>s'. run_cache pid xs s1 = Ok (fst (run_disk xs (disk s1)), s') \<and> idle s' \<and>
        disk s' = snd (run_disk xs (disk s1)) \<and> disksize s' = disksize s1"
      by (rule Cons.IH) (use s1 Cons.prems BWrite in auto)
    ultimately show ?thesis using BWrite by (simp del: fun_upd_apply)
  qed
qed auto

section \<open>Properties\<close>

text \<open>
  C11. In every well-formed state of the cache, with any buffers locked by other processes, a block that is in
  range, not locked, and cached or replaceable can be read: \<^verbatim>\<open>bread\<close> returns, the buffer it returns is locked by the
  caller and holds the current contents of the block, and no other block's contents, no other buffer and not the disk
  are changed: recycling a buffer never loses data.
\<close>

theorem bread_returns_block:
  assumes "bio_inv s" and "can_fetch s b"
  shows "\<exists>i s'. bread pid 1 b s = Ok (i, s') \<and> bio_inv s' \<and> owns_buf pid s' i b \<and>
    b_data (bufs s' ! i) = bview s b \<and> bview s' = bview s \<and> disk s' = disk s \<and>
    (\<forall>j<NBUF. j \<noteq> i \<longrightarrow> bufs s' ! j = bufs s ! j)"
proof -
  obtain i s' where r: "bread pid 1 b s = Ok (i, s')" using bread_total [OF assms] by blast
  have "fetched pid b s i s'" by (rule bread_spec [OF assms(1) r])
  then show ?thesis using r unfolding fetched_def by blast
qed

definition bio0 :: bio where
  "bio0 = binit \<lparr>bufs = [], lru = [], disk = (\<lambda>b. replicate BSIZE (of_nat b)), disksize = 1000, dtrace = []\<rparr>"

lemma bio0_idle: "idle bio0"
  unfolding bio0_def by (rule binit_idle) simp

lemma bio0_disk [simp]: "disk bio0 b = replicate BSIZE (of_nat b)" "disksize bio0 = 1000" "dtrace bio0 = []"
  by (simp_all add: bio0_def binit_def)

lemma bread_returns_block_witness:
  "\<exists>i s'. bread 7 1 5 bio0 = Ok (i, s') \<and> b_data (bufs s' ! i) = replicate 512 5"
proof -
  have "bio_inv bio0" "can_fetch bio0 5" using bio0_idle idle_can_fetch by (auto simp: idle_def)
  then show ?thesis
    using bread_returns_block [of bio0 5 7] idle_view [OF bio0_idle, of 5] by (auto simp: BSIZE_def)
qed

text \<open>
  C12. The cache is transparent: any sequence of block reads and writes, each \<^verbatim>\<open>bread\<close>, use, \<^verbatim>\<open>brelse\<close> or \<^verbatim>\<open>bread\<close>,
  modify, \<^verbatim>\<open>bwrite\<close>, \<^verbatim>\<open>brelse\<close>, run from an idle cache never panics or blocks, returns exactly what the same sequence
  returns on a plain array of blocks, leaves that array on the disk, and leaves the cache idle.
\<close>

theorem cache_refines_disk:
  assumes "idle s" and "list_all (bop_ok (disksize s)) xs"
  shows "\<exists>s'. run_cache pid xs s = Ok (fst (run_disk xs (disk s)), s') \<and> idle s' \<and>
    disk s' = snd (run_disk xs (disk s))"
  using run_cache_run_disk [OF assms, of pid] by blast

lemma cache_refines_disk_witness:
  "\<exists>s'. run_cache 7 [BWrite 3 (replicate BSIZE 1), BRead 3, BRead 4] bio0 =
     Ok ([replicate BSIZE 1, replicate BSIZE 4], s') \<and> idle s'"
  using cache_refines_disk [OF bio0_idle, of "[BWrite 3 (replicate BSIZE 1), BRead 3, BRead 4]" 7]
  by auto

end
