(* ===== verification/Block_Codec.thy ===== *)
theory Block_Codec
  imports Kernel_Base
begin

text \<open>
  The C structures that live in disk blocks and in user memory are read and written through casts of a
  byte array. This theory gives the byte-level reading and writing of 16-bit and 32-bit little-endian
  fields of a list of bytes, with the laws that the round trips of the log header, the super block, the
  on-disk inodes and the directory entries rest on.
\<close>

section \<open>Runs of bytes\<close>

definition get_bytes :: "nat \<Rightarrow> nat \<Rightarrow> u8 list \<Rightarrow> u8 list" where
  "get_bytes off n d = take n (drop off d)"

definition put_bytes :: "nat \<Rightarrow> u8 list \<Rightarrow> u8 list \<Rightarrow> u8 list" where
  "put_bytes off bs d = take off d @ bs @ drop (off + length bs) d"

lemma length_put_bytes [simp]: "off + length bs \<le> length d \<Longrightarrow> length (put_bytes off bs d) = length d"
  by (simp add: put_bytes_def)

lemma length_get_bytes [simp]: "off + n \<le> length d \<Longrightarrow> length (get_bytes off n d) = n"
  by (simp add: get_bytes_def)

lemma nth_put_bytes:
  "off + length bs \<le> length d \<Longrightarrow> i < length d \<Longrightarrow>
     put_bytes off bs d ! i = (if off \<le> i \<and> i < off + length bs then bs ! (i - off) else d ! i)"
  by (auto simp: put_bytes_def nth_append)

lemma nth_get_bytes: "off + n \<le> length d \<Longrightarrow> i < n \<Longrightarrow> get_bytes off n d ! i = d ! (off + i)"
  by (simp add: get_bytes_def)

lemma get_put_bytes_same [simp]:
  "off + length bs \<le> length d \<Longrightarrow> get_bytes off (length bs) (put_bytes off bs d) = bs"
  by (simp add: get_bytes_def put_bytes_def)

lemma get_put_bytes_other:
  assumes "off + length bs \<le> length d" "o2 + n \<le> length d" "o2 + n \<le> off \<or> off + length bs \<le> o2"
  shows "get_bytes o2 n (put_bytes off bs d) = get_bytes o2 n d"
  using assms by (intro nth_equalityI) (auto simp: nth_get_bytes nth_put_bytes)

lemma put_get_bytes_id [simp]: "off + n \<le> length d \<Longrightarrow> put_bytes off (get_bytes off n d) d = d"
  by (rule nth_equalityI) (auto simp: nth_put_bytes nth_get_bytes)

section \<open>16-bit and 32-bit fields\<close>

definition byte16 :: "nat \<Rightarrow> u16 \<Rightarrow> u8" where
  "byte16 k v = ucast (drop_bit (8 * k) v)"

definition join2 :: "u8 \<Rightarrow> u8 \<Rightarrow> u16" where
  "join2 a b = ucast a OR push_bit 8 (ucast b)"

lemma join2_bytes [simp]: "join2 (byte16 0 v) (byte16 (Suc 0) v) = v"
proof (rule bit_word_eqI)
  fix n :: nat
  assume "n < LENGTH(16)"
  then have n: "n < 16" by simp
  consider "n < 8" | "8 \<le> n \<and> n < 16" using n by linarith
  then show "bit (join2 (byte16 0 v) (byte16 (Suc 0) v)) n = bit v n"
    by cases (auto simp: join2_def byte16_def bit_simps)
qed

lemma byte16_join2 [simp]: "byte16 0 (join2 a b) = a" "byte16 (Suc 0) (join2 a b) = b"
  by (rule bit_word_eqI, force simp: join2_def byte16_def bit_simps dest: bit_imp_le_length)+

definition get16 :: "nat \<Rightarrow> u8 list \<Rightarrow> u16" where
  "get16 off d = join2 (d ! off) (d ! (off + 1))"

definition put16 :: "nat \<Rightarrow> u16 \<Rightarrow> u8 list \<Rightarrow> u8 list" where
  "put16 off v = put_bytes off [byte16 0 v, byte16 1 v]"

definition get32 :: "nat \<Rightarrow> u8 list \<Rightarrow> u32" where
  "get32 off d = join4 (d ! off) (d ! (off + 1)) (d ! (off + 2)) (d ! (off + 3))"

definition put32 :: "nat \<Rightarrow> u32 \<Rightarrow> u8 list \<Rightarrow> u8 list" where
  "put32 off v = put_bytes off [byte_of 0 v, byte_of 1 v, byte_of 2 v, byte_of 3 v]"

lemma length_put16 [simp]: "off + 2 \<le> length d \<Longrightarrow> length (put16 off v d) = length d"
  by (simp add: put16_def)

lemma length_put32 [simp]: "off + 4 \<le> length d \<Longrightarrow> length (put32 off v d) = length d"
  by (simp add: put32_def)

lemma get32_put32 [simp]: "off + 4 \<le> length d \<Longrightarrow> get32 off (put32 off v d) = v"
  by (simp add: get32_def put32_def nth_put_bytes)

lemma get16_put16 [simp]: "off + 2 \<le> length d \<Longrightarrow> get16 off (put16 off v d) = v"
  by (simp add: get16_def put16_def nth_put_bytes)

text \<open>Reading a field looks only at its own bytes.\<close>

lemma get32_cong: "(\<And>i. off \<le> i \<Longrightarrow> i < off + 4 \<Longrightarrow> d ! i = e ! i) \<Longrightarrow> get32 off d = get32 off e"
  by (simp add: get32_def)

lemma get16_cong: "(\<And>i. off \<le> i \<Longrightarrow> i < off + 2 \<Longrightarrow> d ! i = e ! i) \<Longrightarrow> get16 off d = get16 off e"
  by (simp add: get16_def)

lemma get32_put_bytes_other:
  "off + length bs \<le> length d \<Longrightarrow> o2 + 4 \<le> length d \<Longrightarrow> o2 + 4 \<le> off \<or> off + length bs \<le> o2 \<Longrightarrow>
     get32 o2 (put_bytes off bs d) = get32 o2 d"
  by (rule get32_cong) (auto simp: nth_put_bytes)

lemma get16_put_bytes_other:
  "off + length bs \<le> length d \<Longrightarrow> o2 + 2 \<le> length d \<Longrightarrow> o2 + 2 \<le> off \<or> off + length bs \<le> o2 \<Longrightarrow>
     get16 o2 (put_bytes off bs d) = get16 o2 d"
  by (rule get16_cong) (auto simp: nth_put_bytes)

lemma get32_put32_other:
  "off + 4 \<le> length d \<Longrightarrow> o2 + 4 \<le> length d \<Longrightarrow> o2 + 4 \<le> off \<or> off + 4 \<le> o2 \<Longrightarrow>
     get32 o2 (put32 off v d) = get32 o2 d"
  unfolding put32_def by (rule get32_put_bytes_other) auto

lemma get16_put32_other:
  "off + 4 \<le> length d \<Longrightarrow> o2 + 2 \<le> length d \<Longrightarrow> o2 + 2 \<le> off \<or> off + 4 \<le> o2 \<Longrightarrow>
     get16 o2 (put32 off v d) = get16 o2 d"
  unfolding put32_def by (rule get16_put_bytes_other) auto

lemma get32_put16_other:
  "off + 2 \<le> length d \<Longrightarrow> o2 + 4 \<le> length d \<Longrightarrow> o2 + 4 \<le> off \<or> off + 2 \<le> o2 \<Longrightarrow>
     get32 o2 (put16 off v d) = get32 o2 d"
  unfolding put16_def by (rule get32_put_bytes_other) auto

lemma get16_put16_other:
  "off + 2 \<le> length d \<Longrightarrow> o2 + 2 \<le> length d \<Longrightarrow> o2 + 2 \<le> off \<or> off + 2 \<le> o2 \<Longrightarrow>
     get16 o2 (put16 off v d) = get16 o2 d"
  unfolding put16_def by (rule get16_put_bytes_other) auto

lemma nth_put16_other: "off + 2 \<le> length d \<Longrightarrow> i < length d \<Longrightarrow> i < off \<or> off + 2 \<le> i \<Longrightarrow> put16 off v d ! i = d ! i"
  by (auto simp: put16_def nth_put_bytes)

lemma nth_put32_other: "off + 4 \<le> length d \<Longrightarrow> i < length d \<Longrightarrow> i < off \<or> off + 4 \<le> i \<Longrightarrow> put32 off v d ! i = d ! i"
  by (auto simp: put32_def nth_put_bytes)

section \<open>Arrays of 32-bit fields\<close>

text \<open>The loop that stores an array of 32-bit values from byte offset \<open>off\<close> on.\<close>

fun put32s :: "nat \<Rightarrow> u32 list \<Rightarrow> u8 list \<Rightarrow> u8 list" where
  "put32s off [] d = d"
| "put32s off (v # vs) d = put32s (off + 4) vs (put32 off v d)"

definition get32s :: "nat \<Rightarrow> nat \<Rightarrow> u8 list \<Rightarrow> u32 list" where
  "get32s off n d = map (\<lambda>k. get32 (off + 4 * k) d) [0..<n]"

lemma length_get32s [simp]: "length (get32s off n d) = n"
  by (simp add: get32s_def)

lemma length_put32s [simp]: "off + 4 * length vs \<le> length d \<Longrightarrow> length (put32s off vs d) = length d"
  by (induction off vs d rule: put32s.induct) simp_all

lemma nth_put32s_other:
  "off + 4 * length vs \<le> length d \<Longrightarrow> i < off \<or> off + 4 * length vs \<le> i \<Longrightarrow> i < length d \<Longrightarrow>
     put32s off vs d ! i = d ! i"
  by (induction off vs d rule: put32s.induct) (auto simp: put32_def nth_put_bytes)

lemma get32_put32s_other:
  "off + 4 * length vs \<le> length d \<Longrightarrow> o2 + 4 \<le> off \<or> off + 4 * length vs \<le> o2 \<Longrightarrow> o2 + 4 \<le> length d \<Longrightarrow>
     get32 o2 (put32s off vs d) = get32 o2 d"
  by (rule get32_cong) (auto simp: nth_put32s_other)

lemma get32_put32s:
  "off + 4 * length vs \<le> length d \<Longrightarrow> k < length vs \<Longrightarrow> get32 (off + 4 * k) (put32s off vs d) = vs ! k"
proof (induction off vs d arbitrary: k rule: put32s.induct)
  case (2 off v vs d)
  show ?case
  proof (cases k)
    case 0
    then show ?thesis using 2 by (simp add: get32_put32s_other)
  next
    case (Suc j)
    then show ?thesis using 2 "2.IH" [of j] by (simp add: algebra_simps)
  qed
qed simp

lemma get32s_put32s: "off + 4 * length vs \<le> length d \<Longrightarrow> get32s off (length vs) (put32s off vs d) = vs"
  by (rule nth_equalityI) (auto simp: get32s_def get32_put32s)

end
