(* ===== verification/Fs_Log.thy ===== *)
theory Fs_Log
  imports Bcache Block_Codec
begin

text \<open>
  The redo log of \<^verbatim>\<open>log.c\<close>: the in-memory header, the commit protocol over the buffer cache, recovery, the
  reservation of log space by \<^verbatim>\<open>begin_op\<close> and \<^verbatim>\<open>end_op\<close>, and \<^verbatim>\<open>log_write\<close>. Block numbers are naturals read from
  unsigned 32-bit words; sums of block numbers do not wrap, which they do not either on a disk that \<^verbatim>\<open>iderw\<close>
  accepts. A negative count in the disk header empties both loops of recovery, as a count of 0 does, so the count is
  a natural; a count above \<^verbatim>\<open>LOGSIZE\<close> would write past \<^verbatim>\<open>log.lh.block\<close>, which the model reports as a panic.
\<close>

definition MAXOPBLOCKS :: nat where "MAXOPBLOCKS = 10"
definition LOGSIZE :: nat where "LOGSIZE = MAXOPBLOCKS * 3"

section \<open>The super block\<close>

record superblock =
  sb_size :: nat
  sb_nblocks :: nat
  sb_ninodes :: nat
  sb_nlog :: nat
  sb_logstart :: nat
  sb_inodestart :: nat
  sb_bmapstart :: nat

definition decode_sb :: "block \<Rightarrow> superblock" where
  "decode_sb d = \<lparr>sb_size = unat (get32 0 d), sb_nblocks = unat (get32 4 d), sb_ninodes = unat (get32 8 d),
     sb_nlog = unat (get32 12 d), sb_logstart = unat (get32 16 d), sb_inodestart = unat (get32 20 d),
     sb_bmapstart = unat (get32 24 d)\<rparr>"

definition readsb :: "int \<Rightarrow> nat \<Rightarrow> bio \<Rightarrow> (superblock \<times> bio) res" where
  "readsb pid dev s =
     bnd (bread pid dev 1 s) (\<lambda>(i, s).
     let sb = decode_sb (b_data (bufs s ! i)) in
     bnd (brelse pid i s) (\<lambda>s. Ok (sb, s)))"

section \<open>The log\<close>

record logheader =
  lh_n :: nat
  lh_block :: "nat list"

record log =
  lg_start :: nat
  lg_size :: nat
  lg_outstanding :: int
  lg_committing :: bool
  lg_dev :: nat
  lg_lh :: logheader

text \<open>The disk as the file system uses it: the log and the buffer cache.\<close>

record dsk =
  lg :: log
  bc :: bio

definition set_bc :: "dsk \<Rightarrow> bio \<Rightarrow> dsk" where
  "set_bc d s = d\<lparr>bc := s\<rparr>"

definition set_n :: "nat \<Rightarrow> log \<Rightarrow> log" where
  "set_n n l = l\<lparr>lg_lh := (lg_lh l)\<lparr>lh_n := n\<rparr>\<rparr>"

text \<open>\<^verbatim>\<open>install_trans\<close>: copy log block \<open>tail\<close> to its home location, for each \<open>tail\<close>.\<close>

definition install_one :: "int \<Rightarrow> nat \<Rightarrow> nat \<Rightarrow> nat \<Rightarrow> bio \<Rightarrow> bio res" where
  "install_one pid dev src dst s =
     bnd (bread pid dev src s) (\<lambda>(lbuf, s).
     bnd (bread pid dev dst s) (\<lambda>(dbuf, s).
     let s = upd_buf dbuf (\<lambda>u. u\<lparr>b_data := b_data (bufs s ! lbuf)\<rparr>) s in
     bnd (bwrite pid dbuf s) (\<lambda>s.
     bnd (brelse pid lbuf s) (\<lambda>s.
     brelse pid dbuf s))))"

fun install_loop :: "int \<Rightarrow> log \<Rightarrow> nat list \<Rightarrow> bio \<Rightarrow> bio res" where
  "install_loop pid l [] s = Ok s"
| "install_loop pid l (t # ts) s =
     bnd (install_one pid (lg_dev l) (lg_start l + t + 1) (lh_block (lg_lh l) ! t) s) (install_loop pid l ts)"

definition install_trans :: "int \<Rightarrow> dsk \<Rightarrow> dsk res" where
  "install_trans pid d =
     bnd (install_loop pid (lg d) [0..<lh_n (lg_lh (lg d))] (bc d)) (\<lambda>s. Ok (set_bc d s))"

definition read_head :: "int \<Rightarrow> dsk \<Rightarrow> dsk res" where
  "read_head pid d =
     (let l = lg d in
      bnd (bread pid (lg_dev l) (lg_start l) (bc d)) (\<lambda>(i, s).
      let data = b_data (bufs s ! i); n = nat (sint (get32 0 data)) in
      if n > LOGSIZE then Panic ''lh.block''
      else let h = \<lparr>lh_n = n, lh_block = map unat (get32s 4 n data) @ drop n (lh_block (lg_lh l))\<rparr> in
      bnd (brelse pid i s) (\<lambda>s. Ok (d\<lparr>lg := l\<lparr>lg_lh := h\<rparr>, bc := s\<rparr>))))"

definition encode_head :: "logheader \<Rightarrow> block \<Rightarrow> block" where
  "encode_head h data = put32s 4 (map of_nat (take (lh_n h) (lh_block h))) (put32 0 (of_nat (lh_n h)) data)"

definition write_head :: "int \<Rightarrow> dsk \<Rightarrow> dsk res" where
  "write_head pid d =
     (let l = lg d in
      bnd (bread pid (lg_dev l) (lg_start l) (bc d)) (\<lambda>(i, s).
      bnd (bwrite pid i (upd_buf i (\<lambda>u. u\<lparr>b_data := encode_head (lg_lh l) (b_data u)\<rparr>) s)) (\<lambda>s.
      bnd (brelse pid i s) (\<lambda>s. Ok (set_bc d s)))))"

definition recover_from_log :: "int \<Rightarrow> dsk \<Rightarrow> dsk res" where
  "recover_from_log pid d =
     bnd (read_head pid d) (\<lambda>d.
     bnd (install_trans pid d) (\<lambda>d.
     write_head pid (d\<lparr>lg := set_n 0 (lg d)\<rparr>)))"

text \<open>The size test of \<^verbatim>\<open>initlog\<close>: a \<^verbatim>\<open>struct logheader\<close> has \<^verbatim>\<open>LOGSIZE\<close> + 1 words.\<close>

definition initlog :: "int \<Rightarrow> nat \<Rightarrow> dsk \<Rightarrow> dsk res" where
  "initlog pid dev d =
     (if 4 * (LOGSIZE + 1) \<ge> BSIZE then Panic ''initlog: too big logheader''
      else bnd (readsb pid dev (bc d)) (\<lambda>(sb, s).
        recover_from_log pid (d\<lparr>lg := (lg d)\<lparr>lg_start := sb_logstart sb, lg_size := sb_nlog sb, lg_dev := dev\<rparr>,
          bc := s\<rparr>)))"

text \<open>
  \<^verbatim>\<open>begin_op\<close>: \<open>Blocked\<close> is the sleep on \<^verbatim>\<open>&log\<close>, from which the loop starts over.
\<close>

definition begin_op :: "log \<Rightarrow> log res" where
  "begin_op l =
     (if lg_committing l then Blocked
      else if int (lh_n (lg_lh l)) + (lg_outstanding l + 1) * int MAXOPBLOCKS > int LOGSIZE then Blocked
      else Ok (l\<lparr>lg_outstanding := lg_outstanding l + 1\<rparr>))"

text \<open>\<^verbatim>\<open>write_log\<close>: copy the cached block \<open>tail\<close> to the log.\<close>

definition log_one :: "int \<Rightarrow> nat \<Rightarrow> nat \<Rightarrow> nat \<Rightarrow> bio \<Rightarrow> bio res" where
  "log_one pid dev dst src s =
     bnd (bread pid dev dst s) (\<lambda>(tb, s).
     bnd (bread pid dev src s) (\<lambda>(fb, s).
     let s = upd_buf tb (\<lambda>u. u\<lparr>b_data := b_data (bufs s ! fb)\<rparr>) s in
     bnd (bwrite pid tb s) (\<lambda>s.
     bnd (brelse pid fb s) (\<lambda>s.
     brelse pid tb s))))"

fun write_loop :: "int \<Rightarrow> log \<Rightarrow> nat list \<Rightarrow> bio \<Rightarrow> bio res" where
  "write_loop pid l [] s = Ok s"
| "write_loop pid l (t # ts) s =
     bnd (log_one pid (lg_dev l) (lg_start l + t + 1) (lh_block (lg_lh l) ! t) s) (write_loop pid l ts)"

definition write_log :: "int \<Rightarrow> dsk \<Rightarrow> dsk res" where
  "write_log pid d =
     bnd (write_loop pid (lg d) [0..<lh_n (lg_lh (lg d))] (bc d)) (\<lambda>s. Ok (set_bc d s))"

definition commit :: "int \<Rightarrow> dsk \<Rightarrow> dsk res" where
  "commit pid d =
     (if lh_n (lg_lh (lg d)) > 0
      then bnd (write_log pid d) (\<lambda>d.
           bnd (write_head pid d) (\<lambda>d.
           bnd (install_trans pid d) (\<lambda>d.
           write_head pid (d\<lparr>lg := set_n 0 (lg d)\<rparr>))))
      else Ok d)"

text \<open>
  \<^verbatim>\<open>end_op\<close> up to the release of the lock (the result says whether to commit), and as a whole.
\<close>

definition end_op_begin :: "log \<Rightarrow> (bool \<times> log) res" where
  "end_op_begin l =
     (let l = l\<lparr>lg_outstanding := lg_outstanding l - 1\<rparr> in
      if lg_committing l then Panic ''log.committing''
      else if lg_outstanding l = 0 then Ok (True, l\<lparr>lg_committing := True\<rparr>)
      else Ok (False, l))"

definition end_op :: "int \<Rightarrow> dsk \<Rightarrow> dsk res" where
  "end_op pid d =
     bnd (end_op_begin (lg d)) (\<lambda>(do_commit, l).
     if do_commit
     then bnd (commit pid (d\<lparr>lg := l\<rparr>)) (\<lambda>d. Ok (d\<lparr>lg := (lg d)\<lparr>lg_committing := False\<rparr>\<rparr>))
     else Ok (d\<lparr>lg := l\<rparr>))"

text \<open>\<^verbatim>\<open>log_write\<close> of buffer \<open>i\<close>; the search for an entry of the same block absorbs a second write.\<close>

fun absorb_pos :: "nat \<Rightarrow> nat list \<Rightarrow> nat \<Rightarrow> nat" where
  "absorb_pos b [] k = k"
| "absorb_pos b (x # xs) k = (if x = b then k else absorb_pos b xs (k + 1))"

definition log_write :: "nat \<Rightarrow> dsk \<Rightarrow> dsk res" where
  "log_write i d =
     (let l = lg d; h = lg_lh l; b = b_blockno (bufs (bc d) ! i) in
      if lh_n h \<ge> LOGSIZE \<or> lh_n h + 1 \<ge> lg_size l then Panic ''too big a transaction''
      else if lg_outstanding l < 1 then Panic ''log_write outside of trans''
      else let k = absorb_pos b (take (lh_n h) (lh_block h)) 0;
               h = h\<lparr>lh_block := (lh_block h)[k := b], lh_n := (if k = lh_n h then lh_n h + 1 else lh_n h)\<rparr>
           in Ok \<lparr>lg = l\<lparr>lg_lh := h\<rparr>, bc = upd_buf i (\<lambda>u. u\<lparr>b_dirty := True\<rparr>) (bc d)\<rparr>)"

section \<open>Copying a block\<close>

text \<open>The common tail of the two loops: both buffers are held; write the destination, release both.\<close>

lemma copy_tail:
  assumes h: "held pid H D s" and i: "H i = Some src" and j: "H j = Some dst" and ne: "src \<noteq> dst"
    and src: "src \<in> D \<or> b_data (bufs s ! i) = disk s src"
  obtains s' where "(let s = upd_buf j (\<lambda>u. u\<lparr>b_data := b_data (bufs s ! i)\<rparr>) s in
     bnd (bwrite pid j s) (\<lambda>s. bnd (brelse pid i s) (\<lambda>s. brelse pid j s))) = Ok s'"
    "held pid (H(i := None, j := None)) (D - {dst}) s'" "bview s' = (bview s)(dst := b_data (bufs s ! i))"
    "disk s' = (disk s)(dst := b_data (bufs s ! i))" "disksize s' = disksize s"
    "dtrace s' = dtrace s @ [(dst, b_data (bufs s ! i))]"
proof -
  let ?x = "b_data (bufs s ! i)"
  have o: "i < NBUF" "j < NBUF" "holds_block s src i" "holds_block s dst j"
    using held_owns [OF h i] held_owns [OF h j] by (auto simp: owns_buf_def)
  have ij: "i \<noteq> j" using i j ne by auto
  have len: "length (bufs s) = NBUF" by (rule bio_inv_length [OF held_inv [OF h]])
  define s1 where s1: "s1 = upd_buf j (\<lambda>u. u\<lparr>b_data := (\<lambda>_. ?x) (b_data u)\<rparr>) s"
  have "length ((\<lambda>_. ?x) (b_data (bufs s ! j))) = BSIZE"
    using bio_inv_buf [OF held_inv [OF h] o(1)] by (simp add: buf_ok_def Let_def)
  from held_data [OF h j this] have m: "held pid H D s1" "bview s1 = (bview s)(dst := ?x)" by (simp_all add: s1)
  have b1: "bufs s1 ! i = bufs s ! i" "b_data (bufs s1 ! j) = ?x" using o len ij by (simp_all add: s1 upd_buf_nth)
  from m(1) j obtain s2 where w: "bwrite pid j s1 = Ok s2" "held pid H (D - {dst}) s2" "bview s2 = bview s1"
    "disk s2 = (disk s1)(dst := b_data (bufs s1 ! j))" "disksize s2 = disksize s1"
    "dtrace s2 = dtrace s1 @ [(dst, b_data (bufs s1 ! j))]" "\<forall>k<NBUF. b_data (bufs s2 ! k) = b_data (bufs s1 ! k)"
    by (rule held_bwrite)
  have "src \<in> D - {dst} \<or> b_data (bufs s2 ! i) = disk s2 src" using src w(4,7) b1 o(1) ne by (auto simp: s1)
  with w(2) i obtain s3 where r: "brelse pid i s2 = Ok s3" "held pid (H(i := None)) (D - {dst}) s3" "bview s3 = bview s2"
    "same_disk s2 s3" "\<forall>k<NBUF. b_data (bufs s3 ! k) = b_data (bufs s2 ! k)"
    by (rule held_brelse)
  have "(H(i := None)) j = Some dst" using j ij by simp
  moreover have "dst \<in> D - {dst} \<or> b_data (bufs s3 ! j) = disk s3 dst"
    using r(4,5) w(4,7) b1 o(2) by (simp add: same_disk_def)
  ultimately obtain s' where r': "brelse pid j s3 = Ok s'" "held pid (H(i := None, j := None)) (D - {dst}) s'"
    "bview s' = bview s3" "same_disk s3 s'" "\<forall>k<NBUF. b_data (bufs s' ! k) = b_data (bufs s3 ! k)"
    by (rule held_brelse [OF r(2)])
  show thesis
    by (rule that [of s']) (use r r' w m b1 in \<open>simp_all add: s1 same_disk_def\<close>)
qed

text \<open>Copying block \<open>src\<close> to block \<open>dst\<close> when the process holds no buffer.\<close>

definition copied :: "int \<Rightarrow> nat \<Rightarrow> nat \<Rightarrow> nat set \<Rightarrow> bio \<Rightarrow> bio \<Rightarrow> bool" where
  "copied pid src dst D s s' \<longleftrightarrow> held pid Map.empty (D - {dst}) s' \<and> bview s' = (bview s)(dst := bview s src) \<and>
     disk s' = (disk s)(dst := bview s src) \<and> disksize s' = disksize s \<and> dtrace s' = dtrace s @ [(dst, bview s src)]"

lemma two_reads:
  assumes h: "held pid Map.empty D s" and fin: "finite D" and ne: "a \<noteq> b" and lt: "a < disksize s" "b < disksize s"
    and room: "a \<in> D \<or> card D < NBUF" "b \<in> D \<or> 1 + card D < NBUF"
  obtains i j s1 s2 where "bread pid 1 a s = Ok (i, s1)" "bread pid 1 b s1 = Ok (j, s2)" "i \<noteq> j"
    "held pid [i \<mapsto> a, j \<mapsto> b] D s2" "b_data (bufs s2 ! i) = bview s a" "b_data (bufs s2 ! j) = bview s b"
    "bview s2 = bview s" "same_disk s s2"
proof -
  have "a \<notin> ran Map.empty" "a \<in> D \<or> finite D \<and> card (dom (Map.empty :: nat \<rightharpoonup> nat)) + card D < NBUF"
    using fin room(1) by auto
  with h lt(1) obtain i s1 where r1: "bread pid 1 a s = Ok (i, s1)" "held pid [i \<mapsto> a] D s1"
    "(Map.empty :: nat \<rightharpoonup> nat) i = None" "b_data (bufs s1 ! i) = bview s a" "bview s1 = bview s" "same_disk s s1"
    "\<forall>j<NBUF. j \<noteq> i \<longrightarrow> bufs s1 ! j = bufs s ! j"
    by (rule held_bread)
  have "b < disksize s1" "b \<notin> ran [i \<mapsto> a]" "b \<in> D \<or> finite D \<and> card (dom [i \<mapsto> a]) + card D < NBUF"
    using lt(2) r1(6) ne fin room(2) by (auto simp: same_disk_def)
  with r1(2) obtain j s2 where r2: "bread pid 1 b s1 = Ok (j, s2)" "held pid ([i \<mapsto> a](j \<mapsto> b)) D s2"
    "[i \<mapsto> a] j = None" "b_data (bufs s2 ! j) = bview s1 b" "bview s2 = bview s1" "same_disk s1 s2"
    "\<forall>k<NBUF. k \<noteq> j \<longrightarrow> bufs s2 ! k = bufs s1 ! k"
    by (rule held_bread)
  have i: "i < NBUF" "i \<noteq> j" using held_owns [OF r1(2), of i a] r2(3) by auto
  show thesis
    by (rule that [OF r1(1) r2(1) i(2) r2(2)]) (use r1 r2 i same_disk_trans in auto)
qed

lemma install_one_spec:
  assumes "held pid Map.empty D s" "finite D" "src \<noteq> dst" "src < disksize s" "dst < disksize s"
    "src \<notin> D" "card D < NBUF" "dst \<in> D \<or> 1 + card D < NBUF"
  obtains s' where "install_one pid 1 src dst s = Ok s'" "copied pid src dst D s s'"
proof -
  have "src \<in> D \<or> card D < NBUF" using assms(7) by blast
  with assms(1-5) obtain i j s1 s2 where r: "bread pid 1 src s = Ok (i, s1)" "bread pid 1 dst s1 = Ok (j, s2)" "i \<noteq> j"
    "held pid [i \<mapsto> src, j \<mapsto> dst] D s2" "b_data (bufs s2 ! i) = bview s src" "b_data (bufs s2 ! j) = bview s dst"
    "bview s2 = bview s" "same_disk s s2"
    using assms(8) by (rule two_reads)
  have ij: "[i \<mapsto> src, j \<mapsto> dst] i = Some src" "[i \<mapsto> src, j \<mapsto> dst] j = Some dst" using r(3) by auto
  have c: "src \<in> D \<or> b_data (bufs s2 ! i) = disk s2 src"
    using held_view_clean [OF assms(1) _ assms(6)] r(5,8) by (simp add: same_disk_def)
  from ij assms(3) c obtain s' where t: "(let s = upd_buf j (\<lambda>u. u\<lparr>b_data := b_data (bufs s2 ! i)\<rparr>) s2 in
     bnd (bwrite pid j s) (\<lambda>s. bnd (brelse pid i s) (\<lambda>s. brelse pid j s))) = Ok s'"
    "held pid ([i \<mapsto> src, j \<mapsto> dst](i := None, j := None)) (D - {dst}) s'"
    "bview s' = (bview s2)(dst := b_data (bufs s2 ! i))"
    "disk s' = (disk s2)(dst := b_data (bufs s2 ! i))" "disksize s' = disksize s2"
    "dtrace s' = dtrace s2 @ [(dst, b_data (bufs s2 ! i))]"
    by (rule copy_tail [OF r(4)])
  have "install_one pid 1 src dst s = Ok s'" using r(1,2) t(1) by (simp add: install_one_def)
  moreover have "[i \<mapsto> src, j \<mapsto> dst](i := None, j := None) = Map.empty" by auto
  ultimately show thesis
    by (intro that [of s']) (use t r in \<open>simp_all add: copied_def same_disk_def\<close>)
qed

lemma log_one_spec:
  assumes "held pid Map.empty D s" "finite D" "src \<noteq> dst" "src < disksize s" "dst < disksize s"
    "dst \<notin> D" "card D < NBUF" "src \<in> D"
  obtains s' where "log_one pid 1 dst src s = Ok s'" "copied pid src dst D s s'"
proof -
  have c: "dst \<noteq> src" "dst \<in> D \<or> card D < NBUF" "src \<in> D \<or> 1 + card D < NBUF" using assms by auto
  from assms(1,2) c(1) assms(5,4) c(2,3) obtain i j s1 s2 where r: "bread pid 1 dst s = Ok (i, s1)" "bread pid 1 src s1 = Ok (j, s2)" "i \<noteq> j"
    "held pid [i \<mapsto> dst, j \<mapsto> src] D s2" "b_data (bufs s2 ! i) = bview s dst" "b_data (bufs s2 ! j) = bview s src"
    "bview s2 = bview s" "same_disk s s2"
    by (rule two_reads)
  have ij: "[i \<mapsto> dst, j \<mapsto> src] j = Some src" "[i \<mapsto> dst, j \<mapsto> src] i = Some dst" using r(3) by auto
  from ij assms(3) disjI1 [OF assms(8)] obtain s' where t: "(let s = upd_buf i (\<lambda>u. u\<lparr>b_data := b_data (bufs s2 ! j)\<rparr>) s2 in
     bnd (bwrite pid i s) (\<lambda>s. bnd (brelse pid j s) (\<lambda>s. brelse pid i s))) = Ok s'"
    "held pid ([i \<mapsto> dst, j \<mapsto> src](j := None, i := None)) (D - {dst}) s'"
    "bview s' = (bview s2)(dst := b_data (bufs s2 ! j))"
    "disk s' = (disk s2)(dst := b_data (bufs s2 ! j))" "disksize s' = disksize s2"
    "dtrace s' = dtrace s2 @ [(dst, b_data (bufs s2 ! j))]"
    by (rule copy_tail [OF r(4)])
  have "log_one pid 1 dst src s = Ok s'" using r(1,2) t(1) by (simp add: log_one_def)
  moreover have "[i \<mapsto> dst, j \<mapsto> src](j := None, i := None) = Map.empty" by auto
  ultimately show thesis
    by (intro that [of s']) (use t r in \<open>simp_all add: copied_def same_disk_def\<close>)
qed

section \<open>The two copying loops\<close>

primrec apply_writes :: "(nat \<times> block) list \<Rightarrow> (nat \<Rightarrow> block) \<Rightarrow> nat \<Rightarrow> block" where
  "apply_writes [] d = d"
| "apply_writes (w # ws) d = apply_writes ws (d(fst w := snd w))"

lemma apply_writes_append [simp]: "apply_writes (xs @ ys) d = apply_writes ys (apply_writes xs d)"
  by (induction xs arbitrary: d) simp_all

lemma apply_writes_other: "b \<notin> fst ` set ws \<Longrightarrow> apply_writes ws d b = d b"
  by (induction ws arbitrary: d) auto

lemma apply_writes_mem:
  "distinct (map fst ws) \<Longrightarrow> (b, x) \<in> set ws \<Longrightarrow> apply_writes ws d b = x"
proof (induction ws arbitrary: d)
  case (Cons w ws)
  show ?case
  proof (cases "(b, x) = w")
    case True
    then have "fst w = b" by auto
    then have "b \<notin> fst ` set ws" using Cons.prems(1) by simp
    then show ?thesis using True [symmetric] by (simp add: apply_writes_other)
  next
    case False
    then have "(b, x) \<in> set ws" "distinct (map fst ws)" using Cons.prems by auto
    then show ?thesis using Cons.IH by simp
  qed
qed simp

text \<open>The blocks outside the log area, which starts with the header block \<open>st\<close> and has \<open>sz\<close> blocks.\<close>

definition home :: "nat \<Rightarrow> nat \<Rightarrow> nat \<Rightarrow> bool" where
  "home st sz b \<longleftrightarrow> b < st \<or> st + sz \<le> b"

text \<open>The log can hold copies of the blocks \<open>bs\<close>.\<close>

definition log_fits :: "nat \<Rightarrow> nat \<Rightarrow> nat \<Rightarrow> nat list \<Rightarrow> bool" where
  "log_fits st sz n bs \<longleftrightarrow> distinct bs \<and> (\<forall>b\<in>set bs. b < n \<and> home st sz b) \<and> length bs < sz \<and>
     length bs < NBUF \<and> st + sz \<le> n \<and> n < 2 ^ 32"

definition log_writes :: "nat \<Rightarrow> nat list \<Rightarrow> (nat \<Rightarrow> block) \<Rightarrow> nat list \<Rightarrow> (nat \<times> block) list" where
  "log_writes st bs v ts = map (\<lambda>t. (st + t + 1, v (bs ! t))) ts"

definition install_writes :: "nat \<Rightarrow> nat list \<Rightarrow> (nat \<Rightarrow> block) \<Rightarrow> nat list \<Rightarrow> (nat \<times> block) list" where
  "install_writes st bs v ts = map (\<lambda>t. (bs ! t, v (st + t + 1))) ts"

lemma log_writes_simps [simp]:
  "log_writes st bs v [] = []" "log_writes st bs v (t # ts) = (st + t + 1, v (bs ! t)) # log_writes st bs v ts"
  by (simp_all add: log_writes_def)

lemma install_writes_simps [simp]:
  "install_writes st bs v [] = []"
  "install_writes st bs v (t # ts) = (bs ! t, v (st + t + 1)) # install_writes st bs v ts"
  by (simp_all add: install_writes_def)

lemma write_loop_spec:
  assumes fits: "log_fits (lg_start l) sz (disksize s) bs" and dev: "lg_dev l = 1"
    and bs: "bs = take (length bs) (lh_block (lg_lh l))"
  shows "held pid Map.empty (set bs) s \<Longrightarrow> set ts \<subseteq> {..<length bs} \<Longrightarrow>
    \<exists>s'. write_loop pid l ts s = Ok s' \<and> held pid Map.empty (set bs) s' \<and>
      bview s' = apply_writes (log_writes (lg_start l) bs (bview s) ts) (bview s) \<and>
      disk s' = apply_writes (log_writes (lg_start l) bs (bview s) ts) (disk s) \<and> disksize s' = disksize s \<and>
      dtrace s' = dtrace s @ log_writes (lg_start l) bs (bview s) ts"
  using fits
proof (induction ts arbitrary: s)
  case (Cons t ts)
  let ?dst = "lg_start l + t + 1" and ?src = "bs ! t"
  have t: "t < length bs" using Cons.prems by simp
  then have src: "?src \<in> set bs" by simp
  have blk: "lh_block (lg_lh l) ! t = ?src" using t bs by (metis nth_take)
  have hs: "home (lg_start l) sz b" "b < disksize s" if "b \<in> set bs" for b
    using Cons.prems(3) that by (auto simp: log_fits_def)
  have dst: "?dst \<notin> set bs" "?dst < disksize s" using hs t Cons.prems(3) by (fastforce simp: log_fits_def home_def)+
  have "card (set bs) < NBUF" using Cons.prems(3) card_length [of bs] by (simp add: log_fits_def)
  with Cons.prems(1) src dst hs(2) obtain s1 where s1: "log_one pid 1 ?dst ?src s = Ok s1" "copied pid ?src ?dst (set bs) s s1"
    by (elim log_one_spec) auto
  have h1: "held pid Map.empty (set bs) s1" "disksize s1 = disksize s" using s1(2) dst by (simp_all add: copied_def)
  have "bs ! u \<noteq> ?dst" if "u \<in> set ts" for u
  proof -
    have "u < length bs" using that Cons.prems(2) by auto
    then show ?thesis using dst(1) nth_mem by metis
  qed
  then have e: "log_writes (lg_start l) bs (bview s1) ts = log_writes (lg_start l) bs (bview s) ts"
    using s1(2) by (simp add: log_writes_def copied_def)
  have "set ts \<subseteq> {..<length bs}" "log_fits (lg_start l) sz (disksize s1) bs" using Cons.prems(2,3) h1(2) by simp_all
  from Cons.IH [OF h1(1) this, unfolded e] show ?case
    using s1 blk dev by (auto simp: copied_def simp del: fun_upd_apply)
qed simp

lemma install_loop_spec:
  assumes dev: "lg_dev l = 1" and bs: "bs = take (length bs) (lh_block (lg_lh l))"
  shows "held pid Map.empty D s \<Longrightarrow> finite D \<Longrightarrow> log_fits (lg_start l) sz (disksize s) bs \<Longrightarrow>
    \<forall>b\<in>D. home (lg_start l) sz b \<Longrightarrow> set ts \<subseteq> {..<length bs} \<Longrightarrow>
    1 + card D < NBUF \<or> card D < NBUF \<and> set bs \<subseteq> D \<Longrightarrow>
    \<exists>s'. install_loop pid l ts s = Ok s' \<and> held pid Map.empty (D - (\<lambda>t. bs ! t) ` set ts) s' \<and>
      bview s' = apply_writes (install_writes (lg_start l) bs (bview s) ts) (bview s) \<and>
      disk s' = apply_writes (install_writes (lg_start l) bs (bview s) ts) (disk s) \<and> disksize s' = disksize s \<and>
      dtrace s' = dtrace s @ install_writes (lg_start l) bs (bview s) ts"
proof (induction ts arbitrary: s D)
  case (Cons t ts)
  let ?src = "lg_start l + t + 1" and ?dst = "bs ! t"
  have t: "t < length bs" using Cons.prems by simp
  have blk: "lh_block (lg_lh l) ! t = ?dst" using t bs by (metis nth_take)
  have hs: "home (lg_start l) sz b" "b < disksize s" if "b \<in> set bs" for b
    using Cons.prems(3) that by (auto simp: log_fits_def)
  have src: "?src \<notin> D" "?src < disksize s" "\<not> home (lg_start l) sz ?src"
    using Cons.prems(3,4) t by (fastforce simp: log_fits_def home_def)+
  have dst: "?dst \<in> set bs" "?src \<noteq> ?dst" "?dst < disksize s" using t hs src(3) by auto
  have room: "card D < NBUF" "?dst \<in> D \<or> 1 + card D < NBUF" using Cons.prems(6) dst(1) by auto
  from Cons.prems(1,2) dst(2) src(2) dst(3) src(1) room obtain s1 where
    s1: "install_one pid 1 ?src ?dst s = Ok s1" "copied pid ?src ?dst D s s1"
    by (rule install_one_spec)
  have h1: "held pid Map.empty (D - {?dst}) s1" "disksize s1 = disksize s" using s1(2) by (simp_all add: copied_def)
  have "1 + card (D - {?dst}) < NBUF"
    using room Cons.prems(2) card_Diff1_less [of D ?dst] card_Diff1_le [of D ?dst] by (cases "?dst \<in> D") auto
  moreover have e: "install_writes (lg_start l) bs (bview s1) ts = install_writes (lg_start l) bs (bview s) ts"
  proof -
    have "lg_start l + u + 1 \<noteq> ?dst" if "u \<in> set ts" for u
      using hs(1) [OF dst(1)] Cons.prems(3,5) that by (fastforce simp: home_def log_fits_def)
    then show ?thesis using s1(2) by (simp add: install_writes_def copied_def)
  qed
  moreover have "D - {?dst} - (\<lambda>t. bs ! t) ` set ts = D - (\<lambda>t. bs ! t) ` set (t # ts)" by auto
  moreover have "\<exists>s'. install_loop pid l ts s1 = Ok s' \<and> held pid Map.empty (D - {?dst} - (\<lambda>t. bs ! t) ` set ts) s' \<and>
      bview s' = apply_writes (install_writes (lg_start l) bs (bview s1) ts) (bview s1) \<and>
      disk s' = apply_writes (install_writes (lg_start l) bs (bview s1) ts) (disk s1) \<and> disksize s' = disksize s1 \<and>
      dtrace s' = dtrace s1 @ install_writes (lg_start l) bs (bview s1) ts"
    by (rule Cons.IH [OF h1(1)]) (use Cons.prems h1(2) calculation(1) in auto)
  ultimately show ?case
    using s1 blk dev by (simp add: copied_def del: fun_upd_apply)
qed simp

section \<open>The header block\<close>

text \<open>The blocks that a header block names.\<close>

definition hdr :: "block \<Rightarrow> nat list" where
  "hdr d = map unat (get32s 4 (nat (sint (get32 0 d))) d)"

lemma map_unat_of_nat: "\<forall>b\<in>set bs. b < 2 ^ 32 \<Longrightarrow> map (\<lambda>b. unat (of_nat b :: u32)) bs = bs"
  by (rule map_idI) (simp add: unat_of_nat)

lemma sint_small: "n \<le> LOGSIZE \<Longrightarrow> nat (sint (of_nat n :: u32)) = n"
proof -
  assume "n \<le> LOGSIZE"
  then have n: "int n < 2 ^ 31" by (simp add: LOGSIZE_def MAXOPBLOCKS_def)
  have "sint (of_nat n :: u32) = signed_take_bit 31 (int n)"
    by (simp add: signed_of_nat)
  also have "\<dots> = int n" by (rule signed_take_bit_int_eq_self) (use n in auto)
  finally show ?thesis by simp
qed

lemma length_encode_head:
  "length data = BSIZE \<Longrightarrow> lh_n h \<le> LOGSIZE \<Longrightarrow> length (encode_head h data) = BSIZE"
  by (simp add: encode_head_def BSIZE_def LOGSIZE_def MAXOPBLOCKS_def)

lemma hdr_encode_head:
  assumes "length data = BSIZE" "lh_n h \<le> LOGSIZE" "lh_n h \<le> length (lh_block h)"
    "\<forall>b\<in>set (take (lh_n h) (lh_block h)). b < 2 ^ 32"
  shows "hdr (encode_head h data) = take (lh_n h) (lh_block h)"
proof -
  let ?bs = "take (lh_n h) (lh_block h)" and ?d = "put32 0 (of_nat (lh_n h)) data"
  have room: "4 + 4 * length (map of_nat ?bs :: u32 list) \<le> length ?d" "length (map of_nat ?bs :: u32 list) = lh_n h"
    using assms(1-3) by (simp_all add: BSIZE_def LOGSIZE_def MAXOPBLOCKS_def)
  have n: "nat (sint (get32 0 (encode_head h data))) = lh_n h"
    using room assms(1,2) by (simp add: encode_head_def get32_put32s_other sint_small BSIZE_def)
  have "get32s 4 (lh_n h) (encode_head h data) = map of_nat ?bs"
    using get32s_put32s [OF room(1)] room(2) by (simp add: encode_head_def)
  then show ?thesis using map_unat_of_nat [OF assms(4)] by (simp add: hdr_def n comp_def)
qed

lemma write_head_block:
  "lg_dev (lg d) = 1 \<Longrightarrow>
     write_head pid d = bnd (write_block pid (lg_start (lg d)) (encode_head (lg_lh (lg d))) (bc d)) (\<lambda>s. Ok (set_bc d s))"
  by (simp add: write_head_def write_block_def bnd_assoc Let_def case_prod_unfold)

lemma write_head_spec:
  assumes h: "held pid Map.empty D (bc d)" and "finite D" "card D < NBUF" and dev: "lg_dev (lg d) = 1"
    and st: "lg_start (lg d) < disksize (bc d)" "lg_start (lg d) \<notin> D" and n: "lh_n (lg_lh (lg d)) \<le> LOGSIZE"
  defines "x \<equiv> encode_head (lg_lh (lg d)) (disk (bc d) (lg_start (lg d)))"
  obtains s' where "write_head pid d = Ok (set_bc d s')" "held pid Map.empty D s'"
    "bview s' = (bview (bc d))(lg_start (lg d) := x)" "disk s' = (disk (bc d))(lg_start (lg d) := x)"
    "disksize s' = disksize (bc d)" "dtrace s' = dtrace (bc d) @ [(lg_start (lg d), x)]"
proof -
  let ?st = "lg_start (lg d)"
  have v: "bview (bc d) ?st = disk (bc d) ?st" by (rule held_view_clean [OF h _ st(2)]) simp
  have room: "?st \<notin> ran Map.empty" "?st \<in> D \<or> finite D \<and> card (dom (Map.empty :: nat \<rightharpoonup> nat)) + card D < NBUF"
    using assms(2,3) by auto
  have len: "length (encode_head (lg_lh (lg d)) (bview (bc d) ?st)) = BSIZE"
    by (rule length_encode_head [OF bview_length [OF held_inv [OF h]] n])
  from h st(1) room len obtain s' where s': "write_block pid ?st (encode_head (lg_lh (lg d))) (bc d) = Ok s'"
    "held pid Map.empty (D - {?st}) s'" "bview s' = (bview (bc d))(?st := encode_head (lg_lh (lg d)) (bview (bc d) ?st))"
    "disk s' = (disk (bc d))(?st := encode_head (lg_lh (lg d)) (bview (bc d) ?st))" "disksize s' = disksize (bc d)"
    "dtrace s' = dtrace (bc d) @ [(?st, encode_head (lg_lh (lg d)) (bview (bc d) ?st))]"
    by (rule write_block_held)
  have "D - {?st} = D" using st(2) by simp
  then show thesis
    using s' v by (intro that [of s']) (simp_all add: write_head_block [OF dev] x_def)
qed

lemma read_head_spec:
  assumes h: "held pid Map.empty {} (bc d)" and dev: "lg_dev (lg d) = 1"
    and st: "lg_start (lg d) < disksize (bc d)" and n: "length (hdr (disk (bc d) (lg_start (lg d)))) \<le> LOGSIZE"
  defines "bs \<equiv> hdr (disk (bc d) (lg_start (lg d)))"
  obtains s' where
    "read_head pid d = Ok (d\<lparr>lg := (lg d)\<lparr>lg_lh := \<lparr>lh_n = length bs,
       lh_block = bs @ drop (length bs) (lh_block (lg_lh (lg d)))\<rparr>\<rparr>, bc := s'\<rparr>)"
    "held pid Map.empty {} s'" "bview s' = bview (bc d)" "same_disk (bc d) s'"
proof -
  let ?st = "lg_start (lg d)"
  have v: "bview (bc d) ?st = disk (bc d) ?st" by (rule held_view_clean [OF h]) simp_all
  have "?st \<notin> ran Map.empty" "?st \<in> {} \<or> finite ({} :: nat set) \<and> card (dom (Map.empty :: nat \<rightharpoonup> nat)) + card ({} :: nat set) < NBUF"
    by (simp_all add: NBUF_def)
  with h st obtain s' where s': "read_block pid ?st (bc d) = Ok (bview (bc d) ?st, s')" "held pid Map.empty {} s'"
    "bview s' = bview (bc d)" "same_disk (bc d) s'"
    by (rule read_block_held)
  obtain i s1 where b: "bread pid 1 ?st (bc d) = Ok (i, s1)" "b_data (bufs s1 ! i) = disk (bc d) ?st" "brelse pid i s1 = Ok s'"
    using s'(1) v by (auto simp: read_block_def outcome_simps)
  have "read_head pid d = Ok (d\<lparr>lg := (lg d)\<lparr>lg_lh := \<lparr>lh_n = length bs,
       lh_block = bs @ drop (length bs) (lh_block (lg_lh (lg d)))\<rparr>\<rparr>, bc := s'\<rparr>)"
    using b n by (simp add: read_head_def dev Let_def hdr_def bs_def)
  then show thesis by (rule that) (use s' in auto)
qed

section \<open>Commit\<close>

text \<open>
  The state of the log when the process has locked the buffers \<open>H\<close>: exactly the logged blocks \<open>bs\<close> are dirty, and
  the header on the disk names no block.
\<close>

definition log_held :: "int \<Rightarrow> (nat \<rightharpoonup> nat) \<Rightarrow> nat list \<Rightarrow> dsk \<Rightarrow> bool" where
  "log_held pid H bs d \<longleftrightarrow> held pid H (set bs) (bc d) \<and> lg_dev (lg d) = 1 \<and>
     lh_n (lg_lh (lg d)) = length bs \<and> length (lh_block (lg_lh (lg d))) = LOGSIZE \<and>
     bs = take (length bs) (lh_block (lg_lh (lg d))) \<and>
     log_fits (lg_start (lg d)) (lg_size (lg d)) (disksize (bc d)) bs \<and> hdr (disk (bc d) (lg_start (lg d))) = []"

abbreviation log_at :: "int \<Rightarrow> nat list \<Rightarrow> dsk \<Rightarrow> bool" where
  "log_at pid \<equiv> log_held pid Map.empty"

text \<open>The disk writes of a commit, in order: the copies, the header, the home locations, the cleared header.\<close>

definition commit_writes :: "nat \<Rightarrow> logheader \<Rightarrow> nat list \<Rightarrow> (nat \<Rightarrow> block) \<Rightarrow> block \<Rightarrow> (nat \<times> block) list" where
  "commit_writes st h bs v x =
     log_writes st bs v [0..<length bs] @ [(st, encode_head h x)] @ map (\<lambda>b. (b, v b)) bs @
     [(st, encode_head (h\<lparr>lh_n := 0\<rparr>) (encode_head h x))]"

lemma log_writes_area: "b \<in> fst ` set (log_writes st bs v ts) \<longleftrightarrow> (\<exists>t\<in>set ts. b = st + t + 1)"
  by (auto simp: log_writes_def image_image)

lemma apply_log_writes_home:
  "set ts \<subseteq> {..<n} \<Longrightarrow> n < sz \<Longrightarrow> home st sz b \<Longrightarrow> apply_writes (log_writes st bs v ts) d b = d b"
  by (rule apply_writes_other) (auto simp: log_writes_area home_def)

lemma apply_log_writes_header: "apply_writes (log_writes st bs v ts) d st = d st"
  by (rule apply_writes_other) (auto simp: log_writes_area)

lemma apply_log_writes_copy:
  "t < n \<Longrightarrow> apply_writes (log_writes st bs v [0..<n]) d (Suc (st + t)) = v (bs ! t)"
  by (rule apply_writes_mem) (auto simp: log_writes_def comp_def distinct_map inj_on_def)

lemma install_copies:
  "install_writes st bs (apply_writes (log_writes st bs v [0..<length bs]) d) [0..<length bs] = map (\<lambda>b. (b, v b)) bs"
  by (rule nth_equalityI) (simp_all add: install_writes_def apply_log_writes_copy)

lemma commit_spec:
  assumes at: "log_at pid bs d" and ne: "bs \<noteq> []"
  defines "ws \<equiv> commit_writes (lg_start (lg d)) (lg_lh (lg d)) bs (bview (bc d)) (disk (bc d) (lg_start (lg d)))"
  obtains d' where "commit pid d = Ok d'" "log_at pid [] d'" "dtrace (bc d') = dtrace (bc d) @ ws"
    "disk (bc d') = apply_writes ws (disk (bc d))" "disksize (bc d') = disksize (bc d)"
    "lg d' = set_n 0 (lg d)" "\<And>b. home (lg_start (lg d)) (lg_size (lg d)) b \<Longrightarrow> bview (bc d') b = bview (bc d) b"
proof -
  define l where "l = lg d"
  define st where "st = lg_start l"
  define n where "n = length bs"
  let ?v = "bview (bc d)" and ?dk = "disk (bc d)"
  have h: "held pid Map.empty (set bs) (bc d)" and dev: "lg_dev l = 1" and lhn: "lh_n (lg_lh l) = n"
    and blk: "bs = take (length bs) (lh_block (lg_lh l))" and fits: "log_fits st (lg_size l) (disksize (bc d)) bs"
    and lenblk: "length (lh_block (lg_lh l)) = LOGSIZE" and nohdr: "hdr (?dk st) = []"
    using at by (simp_all add: log_held_def l_def st_def n_def)
  have nb: "n < NBUF" "n \<le> LOGSIZE" "card (set bs) < NBUF" "n < lg_size l"
    using fits card_length [of bs] by (simp_all add: log_fits_def n_def NBUF_def LOGSIZE_def MAXOPBLOCKS_def)
  have st: "st < disksize (bc d)" "st \<notin> set bs" using fits nb by (auto simp: log_fits_def home_def)
  have rng: "set [0..<n] \<subseteq> {..<length bs}" by (auto simp: n_def)
  obtain s1 where w1: "write_loop pid l [0..<n] (bc d) = Ok s1" "held pid Map.empty (set bs) s1"
    "bview s1 = apply_writes (log_writes st bs ?v [0..<n]) ?v" "disk s1 = apply_writes (log_writes st bs ?v [0..<n]) ?dk"
    "disksize s1 = disksize (bc d)" "dtrace s1 = dtrace (bc d) @ log_writes st bs ?v [0..<n]"
    using write_loop_spec [OF fits [unfolded st_def] dev blk h rng] unfolding st_def by blast
  have x1: "disk s1 st = ?dk st" by (simp add: w1(4) apply_log_writes_header)
  let ?h1 = "encode_head (lg_lh l) (?dk st)"
  obtain s2 where w2: "write_head pid (set_bc d s1) = Ok (set_bc (set_bc d s1) s2)" "held pid Map.empty (set bs) s2"
    "bview s2 = (bview s1)(st := ?h1)" "disk s2 = (disk s1)(st := ?h1)" "disksize s2 = disksize s1"
    "dtrace s2 = dtrace s1 @ [(st, ?h1)]"
    by (rule write_head_spec [of pid "set bs" "set_bc d s1"])
      (use w1 nb st dev lhn x1 in \<open>simp_all add: set_bc_def st_def l_def\<close>)
  have fits2: "log_fits st (lg_size l) (disksize s2) bs" using fits w1 w2 by simp
  have iw: "install_writes st bs (bview s2) [0..<n] = map (\<lambda>b. (b, ?v b)) bs"
  proof -
    have "install_writes st bs (bview s2) [0..<n] = install_writes st bs (bview s1) [0..<n]"
      by (simp add: install_writes_def w2(3))
    then show ?thesis by (simp add: w1(3) n_def install_copies)
  qed
  have all: "set bs - (\<lambda>t. bs ! t) ` set [0..<n] = {}" by (auto simp: n_def in_set_conv_nth)
  have hm: "\<forall>b\<in>set bs. home st (lg_size l) b" using fits by (simp add: log_fits_def)
  have room: "1 + card (set bs) < NBUF \<or> card (set bs) < NBUF \<and> set bs \<subseteq> set bs" using nb by blast
  obtain s3 where w3: "install_loop pid l [0..<n] s2 = Ok s3" "held pid Map.empty {} s3"
    "bview s3 = apply_writes (map (\<lambda>b. (b, ?v b)) bs) (bview s2)" "disk s3 = apply_writes (map (\<lambda>b. (b, ?v b)) bs) (disk s2)"
    "disksize s3 = disksize s2" "dtrace s3 = dtrace s2 @ map (\<lambda>b. (b, ?v b)) bs"
    using install_loop_spec [OF dev blk w2(2) finite_set fits2 [unfolded st_def] hm [unfolded st_def] rng room,
        folded st_def, unfolded iw all] by blast
  have x3: "disk s3 st = ?h1" using st(2) w2(4) by (auto simp: w3(4) apply_writes_other image_image)
  let ?d3 = "(set_bc (set_bc (set_bc d s1) s2) s3)\<lparr>lg := set_n 0 l\<rparr>"
  let ?h0 = "encode_head ((lg_lh l)\<lparr>lh_n := 0\<rparr>) ?h1"
  obtain s4 where w4: "write_head pid ?d3 = Ok (set_bc ?d3 s4)" "held pid Map.empty {} s4"
    "bview s4 = (bview s3)(st := ?h0)" "disk s4 = (disk s3)(st := ?h0)" "disksize s4 = disksize s3"
    "dtrace s4 = dtrace s3 @ [(st, ?h0)]"
    by (rule write_head_spec [of pid "{}" ?d3])
      (use w1 w2 w3 st dev x3 in \<open>simp_all add: set_bc_def set_n_def st_def NBUF_def\<close>)
  have c: "commit pid d = Ok (set_bc ?d3 s4)"
    using w1(1) w2(1) w3(1) w4(1) ne lhn
    by (simp add: commit_def write_log_def install_trans_def l_def [symmetric] n_def set_bc_def)
  have len1: "length (?dk st) = BSIZE" by (rule bio_inv_disk [OF held_inv [OF h]])
  have h0: "hdr ?h0 = []"
    by (subst hdr_encode_head) (use len1 nb lhn in \<open>simp_all add: length_encode_head\<close>)
  have at': "log_at pid [] (set_bc ?d3 s4)"
    using w4 w3(5) w2(5) w1(5) dev lenblk fits h0
    by (simp add: log_held_def set_bc_def set_n_def log_fits_def st_def [symmetric] home_def)
  have tr: "dtrace (bc (set_bc ?d3 s4)) = dtrace (bc d) @ ws"
    using w4(6) w3(6) w2(6) w1(6) by (simp add: ws_def commit_writes_def set_bc_def st_def l_def n_def)
  have dk: "disk (bc (set_bc ?d3 s4)) = apply_writes ws ?dk"
    using w4(4) w3(4) w2(4) w1(4) by (simp add: ws_def commit_writes_def set_bc_def st_def l_def n_def del: fun_upd_apply)
  have vw: "bview (bc (set_bc ?d3 s4)) b = ?v b" if hb: "home st (lg_size l) b" for b
  proof -
    have "b \<noteq> st" using hb nb by (auto simp: home_def)
    have "bview s2 b = ?v b"
      using \<open>b \<noteq> st\<close> apply_log_writes_home [OF rng [folded n_def] nb(4) hb, of bs ?v ?v]
      by (simp add: w2(3) w1(3))
    moreover have "bview s3 b = (if b \<in> set bs then ?v b else bview s2 b)"
      using fits by (auto simp: w3(3) log_fits_def comp_def intro!: apply_writes_mem apply_writes_other)
    ultimately show ?thesis using \<open>b \<noteq> st\<close> w4(3) by (simp add: set_bc_def)
  qed
  show thesis
    by (rule that [OF c at' tr dk])
      (use vw w4(5) w3(5) w2(5) w1(5) in \<open>simp_all add: set_bc_def l_def st_def\<close>)
qed

section \<open>What a disk image stands for\<close>

text \<open>The contents of block \<open>b\<close> once the log on the disk has been replayed.\<close>

definition recovered :: "nat \<Rightarrow> (nat \<Rightarrow> block) \<Rightarrow> nat \<Rightarrow> block" where
  "recovered st dk b =
     (case map_of (zip (hdr (dk st)) [st + 1..<st + 1 + length (hdr (dk st))]) b of Some l \<Rightarrow> dk l | None \<Rightarrow> dk b)"

lemma recovered_empty: "hdr (dk st) = [] \<Longrightarrow> recovered st dk = dk"
  by (simp add: recovered_def fun_eq_iff)

lemma recovered_notin: "b \<notin> set (hdr (dk st)) \<Longrightarrow> recovered st dk b = dk b"
proof -
  assume "b \<notin> set (hdr (dk st))"
  then have "map_of (zip (hdr (dk st)) [st + 1..<st + 1 + length (hdr (dk st))]) b = None"
    by (auto simp: map_of_eq_None_iff dest: set_zip_leftD)
  then show ?thesis by (simp add: recovered_def)
qed

lemma recovered_nth:
  "distinct (hdr (dk st)) \<Longrightarrow> t < length (hdr (dk st)) \<Longrightarrow> recovered st dk (hdr (dk st) ! t) = dk (st + t + 1)"
proof -
  let ?bs = "hdr (dk st)" and ?ls = "[st + 1..<st + 1 + length (hdr (dk st))]"
  assume a: "distinct ?bs" "t < length ?bs"
  then have "zip ?bs ?ls ! t \<in> set (zip ?bs ?ls)" by (intro nth_mem) simp
  moreover have "zip ?bs ?ls ! t = (?bs ! t, st + t + 1)" using a(2) by (simp del: upt_Suc)
  ultimately have "(?bs ! t, st + t + 1) \<in> set (zip ?bs ?ls)" by (simp only:)
  then have "map_of (zip ?bs ?ls) (?bs ! t) = Some (st + t + 1)" using a(1) by (simp add: map_of_eq_Some_iff del: upt_Suc)
  then show ?thesis by (simp add: recovered_def del: upt_Suc)
qed

text \<open>Writing a logged block to its home location does not change what the image stands for.\<close>

lemma recovered_install:
  assumes bs: "hdr (dk st) = bs" "distinct bs" "\<forall>b\<in>set bs. home st sz b" "length bs < sz" and t: "t < length bs"
  shows "recovered st (dk(bs ! t := dk (st + t + 1))) = recovered st dk"
proof (rule ext)
  fix b
  let ?dk = "dk(bs ! t := dk (st + t + 1))"
  have log: "bs ! t \<noteq> st" "bs ! t \<noteq> st + u + 1" if "u < length bs" for u
  proof -
    have "home st sz (bs ! t)" using bs(3) t by simp
    then show "bs ! t \<noteq> st" "bs ! t \<noteq> st + u + 1" using bs(4) that by (auto simp: home_def)
  qed
  have "st \<noteq> bs ! t" using log(1) [OF t] by simp
  then have h: "hdr (?dk st) = bs" using bs(1) by simp
  show "recovered st ?dk b = recovered st dk b"
  proof (cases "b \<in> set bs")
    case True
    then obtain u where u: "u < length bs" "b = bs ! u" by (auto simp: in_set_conv_nth)
    have "recovered st ?dk b = ?dk (st + u + 1)" "recovered st dk b = dk (st + u + 1)"
      using recovered_nth [of ?dk st u] recovered_nth [of dk st u] h bs(1,2) u by simp_all
    then show ?thesis using log(2) [OF u(1)] by auto
  next
    case False
    then have "recovered st ?dk b = ?dk b" "recovered st dk b = dk b"
      using recovered_notin [of b ?dk st] recovered_notin [of b dk st] h bs(1) by simp_all
    then show ?thesis using False t by auto
  qed
qed

text \<open>An image whose header names \<open>bs\<close> and whose log holds the contents \<open>v\<close> of those blocks.\<close>

definition logged :: "nat \<Rightarrow> nat \<Rightarrow> nat list \<Rightarrow> (nat \<Rightarrow> block) \<Rightarrow> (nat \<Rightarrow> block) \<Rightarrow> bool" where
  "logged st sz bs v dk \<longleftrightarrow> hdr (dk st) = bs \<and> distinct bs \<and> (\<forall>b\<in>set bs. home st sz b) \<and> length bs < sz \<and>
     (\<forall>t<length bs. dk (st + t + 1) = v (bs ! t))"

lemma logged_recovered: "logged st sz bs v dk \<Longrightarrow> recovered st dk b = (if b \<in> set bs then v b else dk b)"
  using recovered_nth [of dk st] recovered_notin [of b dk st] by (auto simp: logged_def in_set_conv_nth)

lemma logged_install:
  assumes l: "logged st sz bs v dk" and cs: "set cs \<subseteq> set bs"
  shows "logged st sz bs v (apply_writes (map (\<lambda>b. (b, v b)) cs) dk) \<and>
    recovered st (apply_writes (map (\<lambda>b. (b, v b)) cs) dk) = recovered st dk"
  using l cs
proof (induction cs arbitrary: dk)
  case (Cons c cs)
  obtain t where t: "t < length bs" "c = bs ! t" using Cons.prems(2) by (auto simp: in_set_conv_nth)
  have e: "v c = dk (st + t + 1)" using Cons.prems(1) t by (simp add: logged_def)
  have hc: "home st sz c" "length bs < sz" using Cons.prems by (auto simp: logged_def)
  then have "c \<noteq> st" "\<And>u. u < length bs \<Longrightarrow> c \<noteq> st + u + 1" by (auto simp: home_def)
  then have l': "logged st sz bs v (dk(c := v c))" using Cons.prems(1) by (auto simp: logged_def)
  have "recovered st (dk(bs ! t := dk (st + t + 1))) = recovered st dk"
    by (rule recovered_install [where sz = sz]) (use Cons.prems(1) t in \<open>auto simp: logged_def\<close>)
  then have "recovered st (dk(c := v c)) = recovered st dk" using e t(2) by simp
  then show ?case using Cons.IH [OF l'] Cons.prems(2) by (simp del: fun_upd_apply)
qed simp

text \<open>Clearing the header once every logged block is at home.\<close>

lemma recovered_clear:
  "hdr x = [] \<Longrightarrow> b \<noteq> st \<Longrightarrow> recovered st (dk(st := x)) b = dk b"
  by (subst recovered_empty) simp_all

lemma installed_all:
  assumes l: "logged st sz bs v dk"
  shows "apply_writes (map (\<lambda>b. (b, v b)) bs) dk b = (if b \<in> set bs then v b else dk b)"
  using l by (auto simp: logged_def comp_def intro!: apply_writes_mem apply_writes_other)

text \<open>Writes before the header is written change no home block.\<close>

lemma unlogged_prefix:
  assumes "hdr (dk st) = []" "length bs < sz" "set ts \<subseteq> {..<length bs}" "home st sz b"
  shows "recovered st (apply_writes (log_writes st bs v ts) dk) b = dk b"
  using assms apply_log_writes_home [OF assms(3,2,4)]
  by (subst recovered_empty) (simp_all add: apply_log_writes_header)

section \<open>Logging a block\<close>

lemma absorb_pos_new: "b \<notin> set xs \<Longrightarrow> absorb_pos b xs k = k + length xs"
  by (induction b xs k rule: absorb_pos.induct) auto

lemma absorb_pos_old: "b \<in> set xs \<Longrightarrow> \<exists>j<length xs. absorb_pos b xs k = k + j \<and> xs ! j = b"
proof (induction b xs k rule: absorb_pos.induct)
  case (2 b x xs k)
  show ?case
  proof (cases "x = b")
    case False
    then obtain j where "j < length xs" "absorb_pos b xs (k + 1) = k + 1 + j" "xs ! j = b" using 2 by auto
    then show ?thesis using False by (intro exI [of _ "Suc j"]) auto
  qed auto
qed simp

definition add_block :: "nat \<Rightarrow> nat list \<Rightarrow> nat list" where
  "add_block b bs = (if b \<in> set bs then bs else bs @ [b])"

lemma add_block_set [simp]: "set (add_block b bs) = insert b (set bs)"
  by (auto simp: add_block_def)

lemma log_write_spec:
  assumes h: "log_held pid H bs d" and i: "H i = Some b" and hm: "home (lg_start (lg d)) (lg_size (lg d)) b"
    and room: "length bs + 1 < lg_size (lg d)" "length bs + 1 < NBUF" and out: "1 \<le> lg_outstanding (lg d)"
  obtains d' where "log_write i d = Ok d'" "log_held pid H (add_block b bs) d'" "bview (bc d') = bview (bc d)"
    "same_disk (bc d) (bc d')" "\<forall>j<NBUF. b_data (bufs (bc d') ! j) = b_data (bufs (bc d) ! j)"
    "lg_start (lg d') = lg_start (lg d)" "lg_size (lg d') = lg_size (lg d)"
    "lg_outstanding (lg d') = lg_outstanding (lg d)" "lg_committing (lg d') = lg_committing (lg d)"
proof -
  define l where "l = lg d"
  define bl where "bl = lh_block (lg_lh l)"
  have hd: "held pid H (set bs) (bc d)" and lh: "lh_n (lg_lh l) = length bs" "length bl = LOGSIZE" "bs = take (length bs) bl"
    and fits: "log_fits (lg_start l) (lg_size l) (disksize (bc d)) bs"
    using h by (simp_all add: log_held_def l_def bl_def)
  have o: "i < NBUF" "b_blockno (bufs (bc d) ! i) = b" "b < disksize (bc d)"
    using held_owns [OF hd i] bio_inv_buf [OF held_inv [OF hd], of i]
    by (auto simp: owns_buf_def holds_block_def buf_ok_def Let_def)
  have n: "length bs < LOGSIZE" using room(2) by (simp add: NBUF_def LOGSIZE_def MAXOPBLOCKS_def)
  define k where "k = absorb_pos b bs 0"
  define h' where "h' = (lg_lh l)\<lparr>lh_block := bl[k := b], lh_n := (if k = length bs then length bs + 1 else length bs)\<rparr>"
  define d' where "d' = \<lparr>lg = l\<lparr>lg_lh := h'\<rparr>, bc = upd_buf i (\<lambda>u. u\<lparr>b_dirty := True\<rparr>) (bc d)\<rparr>"
  have w: "log_write i d = Ok d'"
    using n room out lh o by (simp add: log_write_def Let_def l_def [symmetric] bl_def [symmetric] k_def h'_def d'_def)
  have k: "take (lh_n h') (lh_block h') = add_block b bs \<and> lh_n h' = length (add_block b bs)"
  proof (cases "b \<in> set bs")
    case True
    then obtain j where j: "j < length bs" "k = j" "bs ! j = b" using absorb_pos_old [OF True, of 0] by (auto simp: k_def)
    have "take (length bs) (bl[j := b]) = bs[j := b]" using lh(3) by (metis take_update_swap)
    then show ?thesis using True j by (simp add: h'_def add_block_def list_update_same_conv)
  next
    case False
    then have "k = length bs" by (simp add: k_def absorb_pos_new)
    moreover have "take (Suc (length bs)) (bl[length bs := b]) = bs @ [b]"
      using lh n by (simp add: take_Suc_conv_app_nth)
    ultimately show ?thesis using False by (simp add: h'_def add_block_def)
  qed
  note pin = held_pin [OF hd i]
  have f': "log_fits (lg_start l) (lg_size l) (disksize (bc d)) (add_block b bs)"
    using fits hm room o(3) by (auto simp: log_fits_def add_block_def l_def)
  have "log_held pid H (add_block b bs) d'"
    unfolding log_held_def
    using h k pin(1) f' lh(2) by (auto simp: log_held_def d'_def l_def h'_def)
  then show thesis
    by (rule that [OF w])
      (use pin(2) held_inv [OF hd] o in \<open>simp_all add: d'_def l_def same_disk_def upd_buf_nth bio_inv_length\<close>)
qed

section \<open>The two patterns of the file system\<close>

text \<open>
  The file system reads a block with \<^verbatim>\<open>bread\<close>, look, \<^verbatim>\<open>brelse\<close> and changes one with \<^verbatim>\<open>bread\<close>, modify, \<^verbatim>\<open>log_write\<close>,
  \<^verbatim>\<open>brelse\<close>.
\<close>

definition get_block :: "int \<Rightarrow> nat \<Rightarrow> nat \<Rightarrow> dsk \<Rightarrow> (block \<times> dsk) res" where
  "get_block pid dev b d =
     bnd (bread pid dev b (bc d)) (\<lambda>(i, s).
     bnd (brelse pid i s) (\<lambda>s'. Ok (b_data (bufs s ! i), set_bc d s')))"

definition upd_block :: "int \<Rightarrow> nat \<Rightarrow> nat \<Rightarrow> (block \<Rightarrow> block) \<Rightarrow> dsk \<Rightarrow> dsk res" where
  "upd_block pid dev b f d =
     bnd (bread pid dev b (bc d)) (\<lambda>(i, s).
     bnd (log_write i (set_bc d (upd_buf i (\<lambda>u. u\<lparr>b_data := f (b_data u)\<rparr>) s))) (\<lambda>d.
     bnd (brelse pid i (bc d)) (\<lambda>s. Ok (set_bc d s))))"

text \<open>The layout of the disk and the transaction counters, which the two patterns do not change.\<close>

definition same_log :: "dsk \<Rightarrow> dsk \<Rightarrow> bool" where
  "same_log d d' \<longleftrightarrow> lg_start (lg d') = lg_start (lg d) \<and> lg_size (lg d') = lg_size (lg d) \<and>
     lg_outstanding (lg d') = lg_outstanding (lg d) \<and> lg_committing (lg d') = lg_committing (lg d) \<and>
     same_disk (bc d) (bc d')"

lemma same_log_refl [simp]: "same_log d d"
  by (simp add: same_log_def)

lemma same_log_trans: "same_log d e \<Longrightarrow> same_log e f \<Longrightarrow> same_log d f"
  by (simp add: same_log_def same_disk_def)

lemma log_held_set_bc:
  "log_held pid H bs d \<Longrightarrow> held pid H' (set bs) s \<Longrightarrow> same_disk (bc d) s \<Longrightarrow> log_held pid H' bs (set_bc d s)"
  by (simp add: log_held_def set_bc_def same_disk_def)

lemma get_block_spec:
  assumes h: "log_held pid H bs d" and b: "b < disksize (bc d)" "b \<notin> ran H" and room: "card (dom H) + length bs < NBUF"
  obtains d' where "get_block pid 1 b d = Ok (bview (bc d) b, d')" "log_held pid H bs d'" "bview (bc d') = bview (bc d)"
    "same_log d d'"
proof -
  have hd: "held pid H (set bs) (bc d)" using h by (simp add: log_held_def)
  have "b \<in> set bs \<or> finite (set bs) \<and> card (dom H) + card (set bs) < NBUF" using room card_length [of bs] by simp
  with hd b obtain s' where s': "read_block pid b (bc d) = Ok (bview (bc d) b, s')" "held pid H (set bs) s'"
    "bview s' = bview (bc d)" "same_disk (bc d) s'"
    by (rule read_block_held)
  have g: "get_block pid 1 b d = Ok (bview (bc d) b, set_bc d s')"
    using s'(1) by (auto simp: read_block_def get_block_def outcome_simps)
  show thesis
    by (rule that [OF g log_held_set_bc [OF h s'(2,4)]]) (use s' in \<open>simp_all add: set_bc_def same_log_def\<close>)
qed

lemma upd_block_spec:
  assumes h: "log_held pid H bs d" and b: "b < disksize (bc d)" "b \<notin> ran H"
    and hm: "home (lg_start (lg d)) (lg_size (lg d)) b"
    and room: "card (dom H) + length bs + 1 < NBUF" "length bs + 1 < lg_size (lg d)"
    and out: "1 \<le> lg_outstanding (lg d)" and f: "length (f (bview (bc d) b)) = BSIZE"
  obtains d' where "upd_block pid 1 b f d = Ok d'" "log_held pid H (add_block b bs) d'"
    "bview (bc d') = (bview (bc d))(b := f (bview (bc d) b))" "same_log d d'"
proof -
  have hd: "held pid H (set bs) (bc d)" using h by (simp add: log_held_def)
  have "b \<in> set bs \<or> finite (set bs) \<and> card (dom H) + card (set bs) < NBUF" using room card_length [of bs] by simp
  with hd b obtain i s1 where r: "bread pid 1 b (bc d) = Ok (i, s1)" "held pid (H(i \<mapsto> b)) (set bs) s1" "H i = None"
    "b_data (bufs s1 ! i) = bview (bc d) b" "bview s1 = bview (bc d)" "same_disk (bc d) s1"
    "\<forall>j<NBUF. j \<noteq> i \<longrightarrow> bufs s1 ! j = bufs (bc d) ! j"
    by (rule held_bread)
  have e: "(H(i \<mapsto> b))(i := None) = H" using r(3) by (simp add: fun_upd_idem)
  define s2 where s2: "s2 = upd_buf i (\<lambda>u. u\<lparr>b_data := f (b_data u)\<rparr>) s1"
  have "length (f (b_data (bufs s1 ! i))) = BSIZE" using f r(4) by simp
  from held_data [OF r(2), where f = f, OF fun_upd_same this] r(4)
  have m: "held pid (H(i \<mapsto> b)) (set bs) s2" "bview s2 = (bview s1)(b := f (bview (bc d) b))" "same_disk (bc d) s2"
    using r(6) unfolding s2 by (simp_all add: same_disk_def)
  have l2: "log_held pid (H(i \<mapsto> b)) bs (set_bc d s2)" by (rule log_held_set_bc [OF h m(1,3)])
  obtain d3 where w: "log_write i (set_bc d s2) = Ok d3" "log_held pid (H(i \<mapsto> b)) (add_block b bs) d3"
    "bview (bc d3) = bview s2" "same_disk s2 (bc d3)" "\<forall>j<NBUF. b_data (bufs (bc d3) ! j) = b_data (bufs s2 ! j)"
    "lg_start (lg d3) = lg_start (lg d)" "lg_size (lg d3) = lg_size (lg d)"
    "lg_outstanding (lg d3) = lg_outstanding (lg d)" "lg_committing (lg d3) = lg_committing (lg d)"
    by (rule log_write_spec [OF l2 fun_upd_same]) (use hm room out in \<open>simp_all add: set_bc_def del: fun_upd_apply\<close>)
  have "held pid (H(i \<mapsto> b)) (set (add_block b bs)) (bc d3)" "b \<in> set (add_block b bs) \<or> b_data (bufs (bc d3) ! i) = disk (bc d3) b"
    using w(2) by (simp_all add: log_held_def)
  then obtain s4 where r4: "brelse pid i (bc d3) = Ok s4" "held pid ((H(i \<mapsto> b))(i := None)) (set (add_block b bs)) s4"
    "bview s4 = bview (bc d3)" "same_disk (bc d3) s4" "\<forall>j<NBUF. b_data (bufs s4 ! j) = b_data (bufs (bc d3) ! j)"
    by (rule held_brelse [OF _ fun_upd_same])
  have u: "upd_block pid 1 b f d = Ok (set_bc d3 s4)" using r(1) w(1) r4(1) by (simp add: upd_block_def s2)
  show thesis
  proof (rule that [OF u])
    show "log_held pid H (add_block b bs) (set_bc d3 s4)" by (rule log_held_set_bc [OF w(2) r4(2,4), unfolded e])
    show "same_log d (set_bc d3 s4)" using w m(3) r4(4) by (simp add: same_log_def set_bc_def same_disk_def)
  qed (use r4(3) w(3) m(2) r(5) in \<open>simp add: set_bc_def\<close>)
qed

end
