(* ===== verification/Fs_Crash.thy ===== *)
theory Fs_Crash
  imports Fs_Log
begin

text \<open>
  Crash atomicity of the log of \<^verbatim>\<open>log.c\<close>. A crash stops the kernel between two disk writes, so the disk after a
  crash has seen a prefix of the writes recorded in \<open>dtrace\<close>. Every prefix of the writes of \<^verbatim>\<open>commit\<close> leaves an
  image that stands for the state before or the state after the transaction, and every prefix of the writes of
  recovery leaves an image that stands for the same state.
\<close>

section \<open>Crashes during a commit\<close>

lemma commit_logged:
  assumes at: "log_at pid bs d"
  defines "st \<equiv> lg_start (lg d)" and "sz \<equiv> lg_size (lg d)" and "v \<equiv> bview (bc d)" and "dk \<equiv> disk (bc d)"
  shows "logged st sz bs v ((apply_writes (log_writes st bs v [0..<length bs]) dk)(st := encode_head (lg_lh (lg d)) (dk st)))"
proof -
  have fits: "log_fits st sz (disksize (bc d)) bs" and lh: "lh_n (lg_lh (lg d)) = length bs"
    and blk: "take (length bs) (lh_block (lg_lh (lg d))) = bs" "length (lh_block (lg_lh (lg d))) = LOGSIZE"
    using at by (simp_all add: log_held_def st_def sz_def)
  have len: "length (dk st) = BSIZE" using at unfolding dk_def log_held_def by (blast intro: bio_inv_disk held_inv)
  have "hdr (encode_head (lg_lh (lg d)) (dk st)) = bs"
  proof (subst hdr_encode_head)
    show "lh_n (lg_lh (lg d)) \<le> LOGSIZE" "lh_n (lg_lh (lg d)) \<le> length (lh_block (lg_lh (lg d)))"
      using fits lh blk by (simp_all add: log_fits_def NBUF_def LOGSIZE_def MAXOPBLOCKS_def)
    show "\<forall>b\<in>set (take (lh_n (lg_lh (lg d))) (lh_block (lg_lh (lg d)))). b < 2 ^ 32"
      using fits by (auto simp: lh blk log_fits_def)
  qed (use len lh blk in simp_all)
  then show ?thesis
    using fits by (auto simp: logged_def log_fits_def apply_log_writes_copy)
qed

lemma take_log_writes: "take k (log_writes st bs v ts) = log_writes st bs v (take k ts)"
  by (simp add: log_writes_def take_map)

lemma take_four:
  obtains "k \<le> length A" "take k (A @ [x] @ B @ [y]) = take k A"
  | j where "length A < k" "j \<le> length B" "take k (A @ [x] @ B @ [y]) = A @ [x] @ take j B"
  | "length A < k" "take k (A @ [x] @ B @ [y]) = A @ [x] @ B @ [y]"
proof -
  consider "k \<le> length A" | "length A < k" "k \<le> length A + 1 + length B" | "length A + 1 + length B < k" by linarith
  then show thesis
  proof cases
    case 2
    then have "take k (A @ [x] @ B @ [y]) = A @ [x] @ take (k - length A - 1) B" by (cases "k - length A") auto
    then show thesis using 2 by (intro that(2) [of "k - length A - 1"]) auto
  next
    case 3
    then show thesis by (intro that(3)) auto
  qed (use that(1) in auto)
qed

lemma commit_prefix:
  fixes k :: nat
  assumes at: "log_at pid bs d"
  defines "st \<equiv> lg_start (lg d)" and "sz \<equiv> lg_size (lg d)" and "v \<equiv> bview (bc d)" and "dk \<equiv> disk (bc d)"
  defines "dk' \<equiv> apply_writes (take k (commit_writes st (lg_lh (lg d)) bs v (dk st))) dk"
  shows "log_fits st sz (disksize (bc d)) (hdr (dk' st)) \<and>
    (\<forall>b. home st sz b \<longrightarrow> recovered st dk' b = (if k \<le> length bs then dk b else v b))"
proof -
  let ?h1 = "encode_head (lg_lh (lg d)) (dk st)"
  let ?h0 = "encode_head ((lg_lh (lg d))\<lparr>lh_n := 0\<rparr>) ?h1"
  let ?A = "log_writes st bs v [0..<length bs]" and ?B = "map (\<lambda>b. (b, v b)) bs"
  let ?d1 = "(apply_writes ?A dk)(st := ?h1)"
  have fits: "log_fits st sz (disksize (bc d)) bs" and nohdr: "hdr (dk st) = []"
    and h: "held pid Map.empty (set bs) (bc d)"
    using at by (simp_all add: log_held_def st_def sz_def dk_def)
  have fits0: "log_fits st sz (disksize (bc d)) []" using fits by (simp add: log_fits_def)
  have lg1: "logged st sz bs v ?d1" using commit_logged [OF at] by (simp only: st_def sz_def v_def dk_def)
  have clean: "v b = dk b" if "b \<notin> set bs" for b
    unfolding v_def dk_def by (rule held_view_clean [OF h _ that]) simp
  have rng: "set [0..<length bs] \<subseteq> {..<length bs}" by auto
  have d1: "(if b \<in> set bs then v b else ?d1 b) = v b" if "home st sz b" for b
    using that fits clean [of b] apply_log_writes_home [OF rng _ that] by (auto simp: log_fits_def home_def)
  have len: "length ?A = length bs" by (simp add: log_writes_def)
  from take_four [of k ?A "(st, ?h1)" ?B "(st, ?h0)"] show ?thesis
  proof cases
    case 1
    then have e: "dk' = apply_writes (log_writes st bs v (take k [0..<length bs])) dk"
      by (simp add: dk'_def commit_writes_def take_log_writes)
    have "set (take k [0..<length bs]) \<subseteq> {..<length bs}" by (auto dest: in_set_takeD)
    moreover have "length bs < sz" using fits by (simp add: log_fits_def)
    ultimately have "recovered st dk' b = dk b" if "home st sz b" for b
      unfolding e using that by (intro unlogged_prefix [where dk = dk, OF nohdr])
    moreover have "hdr (dk' st) = []" using nohdr by (simp only: e apply_log_writes_header)
    ultimately show ?thesis using fits0 1 len by simp
  next
    case (2 j)
    then have e: "dk' = apply_writes (map (\<lambda>b. (b, v b)) (take j bs)) ?d1"
      by (simp add: dk'_def commit_writes_def take_map del: fun_upd_apply)
    have "logged st sz bs v dk'" "recovered st dk' = recovered st ?d1"
      using logged_install [OF lg1, of "take j bs"] set_take_subset [of j bs] unfolding e by blast+
    then show ?thesis
      using logged_recovered [OF lg1] d1 fits 2 len by (simp add: logged_def)
  next
    case 3
    then have e: "dk' = (apply_writes ?B ?d1)(st := ?h0)"
      by (simp add: dk'_def commit_writes_def del: fun_upd_apply)
    have "length (dk st) = BSIZE" unfolding dk_def by (rule bio_inv_disk [OF held_inv [OF h]])
    moreover have "lh_n (lg_lh (lg d)) \<le> LOGSIZE"
      using at fits by (simp add: log_held_def log_fits_def NBUF_def LOGSIZE_def MAXOPBLOCKS_def)
    ultimately have h0: "hdr ?h0 = []" by (subst hdr_encode_head) (simp_all add: length_encode_head)
    have "recovered st dk' b = v b" if "home st sz b" for b
    proof -
      have "b \<noteq> st" using that fits by (auto simp: home_def log_fits_def)
      then show ?thesis using recovered_clear [OF h0] installed_all [OF lg1] d1 [OF that] by (simp add: e)
    qed
    then show ?thesis using 3 len h0 fits0 by (simp add: e)
  qed
qed

section \<open>Recovery\<close>

text \<open>The kernel after a reboot: an empty cache over the disk image \<open>dk\<close>, and the log parameters of the super block.\<close>

definition booted :: "int \<Rightarrow> nat \<Rightarrow> nat \<Rightarrow> nat \<Rightarrow> (nat \<Rightarrow> block) \<Rightarrow> dsk \<Rightarrow> bool" where
  "booted pid st sz n dk e \<longleftrightarrow> held pid Map.empty {} (bc e) \<and> disk (bc e) = dk \<and> disksize (bc e) = n \<and>
     lg_start (lg e) = st \<and> lg_size (lg e) = sz \<and> lg_dev (lg e) = 1 \<and> length (lh_block (lg_lh (lg e))) = LOGSIZE"

definition recover_writes :: "nat \<Rightarrow> (nat \<Rightarrow> block) \<Rightarrow> (nat \<times> block) list" where
  "recover_writes st dk = map (\<lambda>b. (b, recovered st dk b)) (hdr (dk st)) @ [(st, put32 0 0 (dk st))]"

lemma logged_self:
  "log_fits st sz n (hdr (dk st)) \<Longrightarrow> logged st sz (hdr (dk st)) (recovered st dk) dk"
  using recovered_nth [of dk st] by (simp add: logged_def log_fits_def)

lemma hdr_cleared: "length x = BSIZE \<Longrightarrow> hdr (put32 0 0 x) = []"
  by (simp add: hdr_def BSIZE_def get32s_def)

lemma recover_spec:
  assumes e: "booted pid st sz n dk e" and fits: "log_fits st sz n (hdr (dk st))"
  obtains e' where "recover_from_log pid e = Ok e'" "log_at pid [] e'"
    "dtrace (bc e') = dtrace (bc e) @ recover_writes st dk" "disk (bc e') = apply_writes (recover_writes st dk) dk"
    "lg_start (lg e') = st" "lg_size (lg e') = sz" "disksize (bc e') = n"
proof -
  let ?bs = "hdr (dk st)"
  have h: "held pid Map.empty {} (bc e)" and p: "disk (bc e) = dk" "disksize (bc e) = n" "lg_start (lg e) = st"
    "lg_size (lg e) = sz" "lg_dev (lg e) = 1" "length (lh_block (lg_lh (lg e))) = LOGSIZE"
    using e by (simp_all add: booted_def)
  have nb: "length ?bs \<le> LOGSIZE" "length ?bs < sz" "st < n"
    using fits by (auto simp: log_fits_def NBUF_def LOGSIZE_def MAXOPBLOCKS_def)
  let ?l = "(lg e)\<lparr>lg_lh := \<lparr>lh_n = length ?bs, lh_block = ?bs @ drop (length ?bs) (lh_block (lg_lh (lg e)))\<rparr>\<rparr>"
  obtain s1 where r1: "read_head pid e = Ok (e\<lparr>lg := ?l, bc := s1\<rparr>)" "held pid Map.empty {} s1" "bview s1 = bview (bc e)"
    "same_disk (bc e) s1"
    using read_head_spec [OF h p(5)] nb p by auto
  have v1: "bview s1 = dk"
    using held_view_clean [OF r1(2)] r1(4) p(1) by (auto simp: same_disk_def fun_eq_iff)
  have d1: "disk s1 = dk" "disksize s1 = n" "dtrace s1 = dtrace (bc e)" using r1(4) p by (simp_all add: same_disk_def)
  have rng: "set [0..<length ?bs] \<subseteq> {..<length ?bs}" by auto
  have room: "1 + card ({} :: nat set) < NBUF \<or> card ({} :: nat set) < NBUF \<and> set ?bs \<subseteq> {}" by (simp add: NBUF_def)
  have iw: "install_writes st ?bs dk [0..<length ?bs] = map (\<lambda>b. (b, recovered st dk b)) ?bs"
    by (rule nth_equalityI)
      (use fits recovered_nth [of dk st] in \<open>simp_all add: install_writes_def log_fits_def\<close>)
  have fits1: "log_fits (lg_start ?l) sz (disksize s1) ?bs" using fits d1(2) p(3) by simp
  have blk: "?bs = take (length ?bs) (lh_block (lg_lh ?l))" and dev: "lg_dev ?l = 1" and st: "lg_start ?l = st"
    and hm: "\<forall>b\<in>{}. home (lg_start ?l) sz b" using p by simp_all
  obtain s2 where r2: "install_loop pid ?l [0..<length ?bs] s1 = Ok s2" "held pid Map.empty {} s2"
    "disk s2 = apply_writes (map (\<lambda>b. (b, recovered st dk b)) ?bs) dk" "disksize s2 = n"
    "dtrace s2 = dtrace (bc e) @ map (\<lambda>b. (b, recovered st dk b)) ?bs"
    using install_loop_spec [OF dev blk r1(2) finite.emptyI fits1 hm rng room, unfolded st v1 d1 iw] by auto
  have x2: "disk s2 st = dk st"
    using fits nb(2) by (auto simp: r2(3) log_fits_def home_def image_image intro!: apply_writes_other)
  let ?e2 = "\<lparr>lg = set_n 0 ?l, bc = s2\<rparr>"
  have enc: "encode_head (lg_lh (set_n 0 ?l)) y = put32 0 0 y" for y by (simp add: encode_head_def set_n_def)
  obtain s3 where r3: "write_head pid ?e2 = Ok (set_bc ?e2 s3)" "held pid Map.empty {} s3"
    "disk s3 = (disk s2)(st := put32 0 0 (dk st))" "disksize s3 = n" "dtrace s3 = dtrace s2 @ [(st, put32 0 0 (dk st))]"
    by (rule write_head_spec [of pid "{}" ?e2])
      (use r2 p nb x2 enc in \<open>simp_all add: set_n_def NBUF_def\<close>)
  have fin: "recover_from_log pid e = Ok (set_bc ?e2 s3)"
    using r1(1) r2(1) r3(1) by (cases e) (simp add: recover_from_log_def install_trans_def set_bc_def)
  have len: "length (dk st) = BSIZE" using bio_inv_disk [OF held_inv [OF h], of st] p(1) by simp
  have at: "log_at pid [] (set_bc ?e2 s3)"
    using r3 fits p nb hdr_cleared [OF len] by (simp add: log_held_def set_bc_def set_n_def log_fits_def)
  show thesis
    by (rule that [OF fin at])
      (use r2 r3 p in \<open>simp_all add: set_bc_def recover_writes_def set_n_def del: fun_upd_apply\<close>)
qed

lemma recover_prefix:
  fixes j :: nat
  assumes fits: "log_fits st sz n (hdr (dk st))" and len: "length (dk st) = BSIZE"
  defines "dk' \<equiv> apply_writes (take j (recover_writes st dk)) dk"
  shows "log_fits st sz n (hdr (dk' st)) \<and> (\<forall>b. home st sz b \<longrightarrow> recovered st dk' b = recovered st dk b) \<and>
    (j > length (hdr (dk st)) \<longrightarrow> hdr (dk' st) = [])"
proof (cases "j \<le> length (hdr (dk st))")
  case True
  let ?bs = "hdr (dk st)"
  have e: "dk' = apply_writes (map (\<lambda>b. (b, recovered st dk b)) (take j ?bs)) dk"
    using True by (simp add: dk'_def recover_writes_def take_map)
  have "logged st sz ?bs (recovered st dk) dk'" "recovered st dk' = recovered st dk"
    using logged_install [OF logged_self [where dk = dk, OF fits], of "take j ?bs"] set_take_subset [of j ?bs] unfolding e by blast+
  then show ?thesis using fits True by (simp add: logged_def)
next
  case False
  let ?bs = "hdr (dk st)"
  have e: "dk' = (apply_writes (map (\<lambda>b. (b, recovered st dk b)) ?bs) dk)(st := put32 0 0 (dk st))"
    using False by (simp add: dk'_def recover_writes_def del: fun_upd_apply)
  have "recovered st dk' b = recovered st dk b" if "home st sz b" for b
  proof -
    have "b \<noteq> st" using that fits by (auto simp: home_def log_fits_def)
    then show ?thesis
      using recovered_clear [OF hdr_cleared [OF len]] installed_all [OF logged_self [where dk = dk, OF fits]]
        logged_recovered [OF logged_self [where dk = dk, OF fits]] by (simp add: e)
  qed
  moreover have "log_fits st sz n []" using fits by (simp add: log_fits_def)
  ultimately show ?thesis using hdr_cleared [OF len] by (simp add: e)
qed

section \<open>Repeated crashes\<close>

text \<open>The images left by any number of reboots whose recovery crashes between two of its writes.\<close>

inductive after_crashes :: "nat \<Rightarrow> nat \<Rightarrow> nat \<Rightarrow> (nat \<Rightarrow> block) \<Rightarrow> (nat \<Rightarrow> block) \<Rightarrow> bool" for st sz n dk where
  first: "after_crashes st sz n dk dk"
| again: "after_crashes st sz n dk dk1 \<Longrightarrow> booted pid st sz n dk1 e \<Longrightarrow> recover_from_log pid e = Ok e' \<Longrightarrow>
    dtrace (bc e') = dtrace (bc e) @ ws \<Longrightarrow> after_crashes st sz n dk (apply_writes (take j ws) dk1)"

lemma after_crashes_same:
  assumes "after_crashes st sz n dk dk'" and "log_fits st sz n (hdr (dk st))"
  shows "log_fits st sz n (hdr (dk' st)) \<and> (\<forall>b. home st sz b \<longrightarrow> recovered st dk' b = recovered st dk b)"
  using assms
proof (induction rule: after_crashes.induct)
  case (again dk1 pid e e' ws j)
  have ih: "log_fits st sz n (hdr (dk1 st))" "\<forall>b. home st sz b \<longrightarrow> recovered st dk1 b = recovered st dk b"
    using again by auto
  obtain e2 where e2: "recover_from_log pid e = Ok e2" "dtrace (bc e2) = dtrace (bc e) @ recover_writes st dk1"
    using recover_spec [OF again.hyps(2) ih(1)] by metis
  have ws: "ws = recover_writes st dk1" using e2 again.hyps(3,4) by simp
  have "length (dk1 st) = BSIZE" using again.hyps(2) by (auto simp: booted_def intro: bio_inv_disk held_inv)
  then show ?case using recover_prefix [where dk = dk1, OF ih(1)] ih(2) by (simp add: ws)
qed simp

lemma recovered_disk:
  assumes e: "booted pid st sz n dk e" and fits: "log_fits st sz n (hdr (dk st))"
  shows "\<exists>e'. recover_from_log pid e = Ok e' \<and> log_at pid [] e' \<and> (\<forall>b. home st sz b \<longrightarrow> disk (bc e') b = recovered st dk b)"
proof -
  obtain e' where r: "recover_from_log pid e = Ok e'" "log_at pid [] e'" "disk (bc e') = apply_writes (recover_writes st dk) dk"
    using recover_spec [OF e fits] by metis
  have "length (dk st) = BSIZE" using e by (auto simp: booted_def intro: bio_inv_disk held_inv)
  then have "\<forall>b. home st sz b \<longrightarrow> recovered st (disk (bc e')) b = recovered st dk b" "hdr (disk (bc e') st) = []"
    using recover_prefix [where dk = dk and j = "length (recover_writes st dk)", OF fits] r(3)
    by (simp_all add: recover_writes_def)
  then show ?thesis using r(1,2) by (simp add: recovered_empty)
qed

section \<open>Properties\<close>

text \<open>
  The header block of the log round-trips: reading back the block that \<^verbatim>\<open>write_head\<close> stores gives exactly the
  logged block numbers, for every header within \<^verbatim>\<open>LOGSIZE\<close> and whatever the buffer held before.
\<close>

lemma log_header_roundtrip:
  assumes "length data = BSIZE" "lh_n h \<le> LOGSIZE" "lh_n h \<le> length (lh_block h)"
    "\<forall>b\<in>set (take (lh_n h) (lh_block h)). b < 2 ^ 32"
  shows "hdr (encode_head h data) = take (lh_n h) (lh_block h) \<and> length (encode_head h data) = BSIZE"
  using hdr_encode_head [OF assms] length_encode_head [OF assms(1,2)] by blast

lemma log_header_roundtrip_witness:
  "hdr (encode_head \<lparr>lh_n = 2, lh_block = [70, 65536, 9]\<rparr> (replicate BSIZE 255)) = [70, 65536]"
  using log_header_roundtrip [of "replicate BSIZE 255" "\<lparr>lh_n = 2, lh_block = [70, 65536, 9]\<rparr>"]
  by (simp add: LOGSIZE_def MAXOPBLOCKS_def)

text \<open>
  C13. Crash atomicity. A commit of a transaction that logged the blocks \<open>bs\<close> returns, and afterwards every block
  outside the log has on the disk the contents it had in the cache. If the machine crashes after any number \<open>k\<close> of the
  commit's disk writes, and then crashes any number of times during recovery, the recovery that finally runs to its end
  leaves on the disk, for every block outside the log, all the old contents (when the header block was not yet
  written) or all the new contents (when it was), and the log empty.
\<close>

theorem commit_crash_atomic:
  fixes pid :: int and d :: dsk
  assumes "log_at pid bs d" and "bs \<noteq> []"
  defines "st \<equiv> lg_start (lg d)" and "sz \<equiv> lg_size (lg d)" and "n \<equiv> disksize (bc d)"
  shows "\<exists>d' ws. commit pid d = Ok d' \<and> log_at pid [] d' \<and> dtrace (bc d') = dtrace (bc d) @ ws \<and>
    (\<forall>b. home st sz b \<longrightarrow> disk (bc d') b = bview (bc d) b) \<and>
    (\<forall>k dk p e. after_crashes st sz n (apply_writes (take k ws) (disk (bc d))) dk \<longrightarrow> booted p st sz n dk e \<longrightarrow>
      (\<exists>e'. recover_from_log p e = Ok e' \<and> log_at p [] e' \<and>
        (\<forall>b. home st sz b \<longrightarrow> disk (bc e') b = (if k \<le> length bs then disk (bc d) b else bview (bc d) b))))"
proof -
  let ?ws = "commit_writes st (lg_lh (lg d)) bs (bview (bc d)) (disk (bc d) st)"
  obtain d' where d': "commit pid d = Ok d'" "log_at pid [] d'" "dtrace (bc d') = dtrace (bc d) @ ?ws"
    "lg d' = set_n 0 (lg d)" "\<And>b. home st sz b \<Longrightarrow> bview (bc d') b = bview (bc d) b"
    using commit_spec [OF assms(1,2)] unfolding st_def sz_def by blast
  have "bview (bc d') b = disk (bc d') b" for b
    by (rule held_view_clean [of pid Map.empty "{}"]) (use d'(2) in \<open>simp_all add: log_held_def\<close>)
  then have fin: "\<forall>b. home st sz b \<longrightarrow> disk (bc d') b = bview (bc d) b" using d'(5) by simp
  have crash: "\<exists>e'. recover_from_log p e = Ok e' \<and> log_at p [] e' \<and>
      (\<forall>b. home st sz b \<longrightarrow> disk (bc e') b = (if k \<le> length bs then disk (bc d) b else bview (bc d) b))"
    if a: "after_crashes st sz n (apply_writes (take k ?ws) (disk (bc d))) dk" and e: "booted p st sz n dk e" for k dk p e
  proof -
    let ?dk = "apply_writes (take k ?ws) (disk (bc d))"
    have pre: "log_fits st sz n (hdr (?dk st))"
      "\<forall>b. home st sz b \<longrightarrow> recovered st ?dk b = (if k \<le> length bs then disk (bc d) b else bview (bc d) b)"
      using commit_prefix [OF assms(1), of k] unfolding st_def sz_def n_def by blast+
    have post: "log_fits st sz n (hdr (dk st))" "\<forall>b. home st sz b \<longrightarrow> recovered st dk b = recovered st ?dk b"
      using after_crashes_same [OF a pre(1)] by blast+
    show ?thesis using recovered_disk [where dk = dk, OF e post(1)] post(2) pre(2) by metis
  qed
  show ?thesis using d'(1-3) fin crash by blast
qed

definition dsk0 :: dsk where
  "dsk0 = \<lparr>lg = \<lparr>lg_start = 2, lg_size = 30, lg_outstanding = 1, lg_committing = False, lg_dev = 1,
       lg_lh = \<lparr>lh_n = 0, lh_block = replicate LOGSIZE 0\<rparr>\<rparr>,
     bc = binit \<lparr>bufs = [], lru = [], disk = (\<lambda>_. replicate BSIZE 0), disksize = 1000, dtrace = []\<rparr>\<rparr>"

lemma dsk0_log_at: "log_at pid [] dsk0"
proof -
  have "idle (bc dsk0)" unfolding dsk0_def by (simp add: binit_idle)
  then have "held pid Map.empty {} (bc dsk0)" using idle_held by blast
  then show ?thesis
    by (simp add: log_held_def dsk0_def binit_def log_fits_def hdr_def get32_def get32s_def join4_def BSIZE_def NBUF_def)
qed

lemma commit_crash_atomic_witness:
  "\<exists>d d'. upd_block 7 1 100 (\<lambda>_. replicate BSIZE 1) dsk0 = Ok d \<and> commit 7 d = Ok d' \<and>
     disk (bc d) 100 = replicate BSIZE 0 \<and> disk (bc d') 100 = replicate BSIZE 1"
proof -
  have v: "bview (bc dsk0) b = replicate BSIZE 0" "bc dsk0 = binit (bc dsk0)" for b
    using held_view_clean [of 7 Map.empty "{}" "bc dsk0" b] dsk0_log_at [of 7]
    by (simp_all add: log_held_def dsk0_def binit_def)
  obtain d where d: "upd_block 7 1 100 (\<lambda>_. replicate BSIZE 1) dsk0 = Ok d" "log_at 7 [100] d"
    "bview (bc d) = (bview (bc dsk0))(100 := replicate BSIZE 1)" "same_log dsk0 d"
    using upd_block_spec [OF dsk0_log_at, of 100 "\<lambda>_. replicate BSIZE 1" 7]
    by (force simp: dsk0_def binit_def home_def NBUF_def add_block_def)
  have "home (lg_start (lg d)) (lg_size (lg d)) 100" "disk (bc d) 100 = replicate BSIZE 0"
    using d(4) by (simp_all add: same_log_def same_disk_def dsk0_def home_def binit_def)
  then show ?thesis
    using commit_crash_atomic [OF d(2)] d(1,3) by force
qed

end
