(* ===== verification/Log_Space.thy ===== *)
theory Log_Space
  imports Fs_Log "HOL-Library.Transitive_Closure_Table"
begin

text \<open>
  The reservation of log space by concurrent system calls: \<^verbatim>\<open>begin_op\<close> admits a call only when the log can take
  \<^verbatim>\<open>MAXOPBLOCKS\<close> more blocks for every call in progress, \<^verbatim>\<open>end_op\<close> commits when the last one leaves. A state is the
  disk and, for every call in progress, the number of its \<^verbatim>\<open>log_write\<close>s.
\<close>

type_synonym log_sys = "dsk \<times> nat list"

inductive log_step :: "int \<Rightarrow> log_sys \<Rightarrow> log_sys \<Rightarrow> bool" for pid where
  enter: "begin_op (lg d) = Ok l \<Longrightarrow> log_step pid (d, ops) (d\<lparr>lg := l\<rparr>, 0 # ops)"
| log_blk: "j < length ops \<Longrightarrow> ops ! j < MAXOPBLOCKS \<Longrightarrow> log_write i d = Ok d' \<Longrightarrow>
    log_step pid (d, ops) (d', ops[j := ops ! j + 1])"
| leave: "j < length ops \<Longrightarrow> end_op_begin (lg d) = Ok (c, l) \<Longrightarrow>
    log_step pid (d, ops) (d\<lparr>lg := l\<rparr>, take j ops @ drop (Suc j) ops)"
| finish: "lg_committing (lg d) \<Longrightarrow> commit pid d = Ok d' \<Longrightarrow>
    log_step pid (d, ops) (d'\<lparr>lg := (lg d')\<lparr>lg_committing := False\<rparr>\<rparr>, ops)"
| cache: "log_step pid (d, ops) (set_bc d s, ops)"

definition log_start :: "dsk \<Rightarrow> bool" where
  "log_start d \<longleftrightarrow> lg_outstanding (lg d) = 0 \<and> \<not> lg_committing (lg d) \<and> lh_n (lg_lh (lg d)) = 0"

text \<open>The space reserved and not yet used.\<close>

definition reserved :: "nat list \<Rightarrow> nat" where
  "reserved ops = sum_list (map (\<lambda>x. MAXOPBLOCKS - x) ops)"

definition log_inv :: "log_sys \<Rightarrow> bool" where
  "log_inv x \<longleftrightarrow> (case x of (d, ops) \<Rightarrow>
     lg_outstanding (lg d) = int (length ops) \<and> (lg_committing (lg d) \<longrightarrow> ops = []) \<and>
     (\<forall>x\<in>set ops. x \<le> MAXOPBLOCKS) \<and> lh_n (lg_lh (lg d)) + reserved ops \<le> LOGSIZE \<and>
     (ops = [] \<and> \<not> lg_committing (lg d) \<longrightarrow> lh_n (lg_lh (lg d)) = 0))"

section \<open>The invariant\<close>

lemma reserved_le: "reserved ops \<le> length ops * MAXOPBLOCKS"
  by (induction ops) (auto simp: reserved_def)

lemma reserved_update:
  "j < length ops \<Longrightarrow> ops ! j < MAXOPBLOCKS \<Longrightarrow> reserved ops = Suc (reserved (ops[j := ops ! j + 1]))"
proof (induction ops arbitrary: j)
  case (Cons x ops)
  then show ?case by (cases j) (auto simp: reserved_def)
qed simp

lemma reserved_split:
  "j < length ops \<Longrightarrow> reserved ops = reserved (take j ops @ drop (Suc j) ops) + (MAXOPBLOCKS - ops ! j)"
proof -
  assume "j < length ops"
  then have "reserved ops = reserved (take j ops @ ops ! j # drop (Suc j) ops)" by (simp add: id_take_nth_drop [symmetric])
  then show ?thesis by (simp add: reserved_def)
qed

lemma reserved_mem: "j < length ops \<Longrightarrow> MAXOPBLOCKS - ops ! j \<le> reserved ops"
  using reserved_split [of j ops] by simp

lemma write_log_lg: "write_log pid d = Ok d' \<Longrightarrow> lg d' = lg d"
  by (auto simp: write_log_def outcome_simps set_bc_def)

lemma write_head_lg: "write_head pid d = Ok d' \<Longrightarrow> lg d' = lg d"
  by (auto simp: write_head_def outcome_simps set_bc_def Let_def)

lemma install_trans_lg: "install_trans pid d = Ok d' \<Longrightarrow> lg d' = lg d"
  by (auto simp: install_trans_def outcome_simps set_bc_def)

lemma commit_lg: "commit pid d = Ok d' \<Longrightarrow> lg d' = set_n 0 (lg d)"
  by (auto simp: commit_def outcome_simps set_n_def dest!: write_log_lg write_head_lg install_trans_lg split: if_splits)

lemma log_write_lg:
  assumes "log_write i d = Ok d'"
  shows "lg_outstanding (lg d') = lg_outstanding (lg d) \<and> lg_committing (lg d') = lg_committing (lg d) \<and>
    lh_n (lg_lh (lg d')) \<le> Suc (lh_n (lg_lh (lg d))) \<and> lg_size (lg d') = lg_size (lg d)"
  using assms by (auto simp: log_write_def Let_def split: if_splits)

lemma log_step_inv: "log_step pid x y \<Longrightarrow> log_inv x \<Longrightarrow> log_inv y"
proof (induction rule: log_step.induct)
  case (enter d l ops)
  then have l: "\<not> lg_committing (lg d)" "l = (lg d)\<lparr>lg_outstanding := lg_outstanding (lg d) + 1\<rparr>"
    "int (lh_n (lg_lh (lg d))) + (lg_outstanding (lg d) + 1) * int MAXOPBLOCKS \<le> int LOGSIZE"
    by (auto simp: begin_op_def split: if_splits)
  have "int (lh_n (lg_lh (lg d)) + (length ops + 1) * MAXOPBLOCKS) \<le> int LOGSIZE"
    using l(3) enter.prems by (simp add: log_inv_def algebra_simps)
  then have "lh_n (lg_lh (lg d)) + (length ops + 1) * MAXOPBLOCKS \<le> LOGSIZE" by (simp only: of_nat_le_iff)
  then have "lh_n (lg_lh (lg d)) + reserved (0 # ops) \<le> LOGSIZE"
    using reserved_le [of "0 # ops"] by simp
  then show ?case using enter.prems l by (simp add: log_inv_def)
next
  case (log_blk j ops i d d')
  have "lh_n (lg_lh (lg d')) + reserved (ops[j := ops ! j + 1]) \<le> LOGSIZE"
    using log_write_lg [OF log_blk.hyps(3)] reserved_update [OF log_blk.hyps(1,2)] log_blk.prems by (simp add: log_inv_def)
  moreover have "\<forall>x\<in>set (ops[j := ops ! j + 1]). x \<le> MAXOPBLOCKS"
    using log_blk.prems log_blk.hyps(2) set_update_subset_insert [of ops j "ops ! j + 1"] by (auto simp: log_inv_def)
  ultimately show ?case
    using log_write_lg [OF log_blk.hyps(3)] log_blk.prems log_blk.hyps(1) by (auto simp: log_inv_def)
next
  case (leave j ops d c l)
  let ?ops = "take j ops @ drop (Suc j) ops"
  have "reserved ?ops \<le> reserved ops" using reserved_split [OF leave.hyps(1)] by simp
  moreover have "length ?ops = length ops - 1" "set ?ops \<subseteq> set ops"
    using leave.hyps(1) by (auto dest: in_set_takeD in_set_dropD)
  moreover have "lg_committing l \<longrightarrow> ?ops = []" "lg_outstanding l = lg_outstanding (lg d) - 1" "lg_lh l = lg_lh (lg d)"
    "\<not> lg_committing l \<longrightarrow> ?ops \<noteq> []"
    using leave by (auto simp: end_op_begin_def log_inv_def Let_def split: if_splits)
  ultimately show ?case using leave.prems leave.hyps(1) by (auto simp: log_inv_def of_nat_diff)
next
  case (finish d d' ops)
  then show ?case using commit_lg [OF finish.hyps(2)] by (auto simp: log_inv_def set_n_def)
qed (simp add: log_inv_def set_bc_def)

lemma log_reachable_inv:
  "(log_step pid)\<^sup>*\<^sup>* x y \<Longrightarrow> log_inv x \<Longrightarrow> log_inv y"
  by (induction rule: rtranclp_induct) (auto intro: log_step_inv)

lemma log_start_inv: "log_start d \<Longrightarrow> log_inv (d, [])"
  by (simp add: log_start_def log_inv_def reserved_def)

lemma log_step_size: "log_step pid x y \<Longrightarrow> lg_size (lg (fst y)) = lg_size (lg (fst x))"
  by (induction rule: log_step.induct)
    (auto simp: begin_op_def end_op_begin_def set_bc_def set_n_def Let_def dest: commit_lg log_write_lg split: if_splits)

lemma log_reachable_size:
  "(log_step pid)\<^sup>*\<^sup>* x y \<Longrightarrow> lg_size (lg (fst y)) = lg_size (lg (fst x))"
  by (induction rule: rtranclp_induct) (auto dest: log_step_size)

lemma log_write_ok:
  assumes inv: "log_inv (d, ops)" and j: "j < length ops" "ops ! j < MAXOPBLOCKS" and sz: "LOGSIZE < lg_size (lg d)"
  shows "\<exists>d'. log_write i d = Ok d'"
proof -
  have "lh_n (lg_lh (lg d)) + reserved ops \<le> LOGSIZE" "0 < reserved ops"
    using inv reserved_mem [OF j(1)] j(2) by (simp_all add: log_inv_def)
  then have "lh_n (lg_lh (lg d)) < LOGSIZE" by simp
  moreover have "1 \<le> lg_outstanding (lg d)" using inv j(1) by (auto simp: log_inv_def)
  ultimately show ?thesis using sz by (simp add: log_write_def Let_def)
qed

section \<open>A run that fills the log\<close>

definition at_block :: "nat \<Rightarrow> bio" where
  "at_block b = \<lparr>bufs = [buf_init\<lparr>b_blockno := b\<rparr>], lru = [0], disk = (\<lambda>_. []), disksize = 0, dtrace = []\<rparr>"

text \<open>Three calls that have logged \<open>k\<close> different blocks, none more than its \<^verbatim>\<open>MAXOPBLOCKS\<close>.\<close>

definition three :: "nat \<Rightarrow> nat list" where
  "three k = [min k 10, min (k - 10) 10, k - 20]"

definition filled :: "dsk \<Rightarrow> nat \<Rightarrow> bool" where
  "filled d k \<longleftrightarrow> lg_outstanding (lg d) = 3 \<and> lg_size (lg d) = LOGSIZE \<and> length (lh_block (lg_lh (lg d))) = LOGSIZE \<and>
     lh_n (lg_lh (lg d)) = k \<and> (\<forall>b\<in>set (take k (lh_block (lg_lh (lg d)))). b < k)"

lemma fill_step:
  assumes f: "filled d k" and k: "k < 29"
  shows "\<exists>d'. (log_step pid)\<^sup>*\<^sup>* (d, three k) (d', three (Suc k)) \<and> filled d' (Suc k)"
proof -
  let ?d = "set_bc d (at_block k)"
  have lt: "k < LOGSIZE" "k + 1 < LOGSIZE" using k by (simp_all add: LOGSIZE_def MAXOPBLOCKS_def)
  have "k \<notin> set (take k (lh_block (lg_lh (lg d))))" using f by (auto simp: filled_def)
  then have pos: "absorb_pos k (take k (lh_block (lg_lh (lg d)))) 0 = k"
    using f lt by (simp add: absorb_pos_new filled_def)
  obtain d' where d': "log_write 0 ?d = Ok d'"
    "lg d' = (lg d)\<lparr>lg_lh := \<lparr>lh_n = Suc k, lh_block = (lh_block (lg_lh (lg d)))[k := k]\<rparr>\<rparr>"
    using f lt pos by (auto simp: log_write_def Let_def filled_def set_bc_def at_block_def)
  have fl: "filled d' (Suc k)"
    using f lt by (auto simp: filled_def d'(2) take_Suc_conv_app_nth)
  have "\<exists>j<length (three k). three k ! j < MAXOPBLOCKS \<and> (three k)[j := three k ! j + 1] = three (Suc k)"
  proof -
    consider "k < 10" | "10 \<le> k" "k < 20" | "20 \<le> k" by linarith
    then show ?thesis
    proof cases
      case 1 then show ?thesis by (intro exI [of _ 0]) (simp add: three_def MAXOPBLOCKS_def)
    next
      case 2 then show ?thesis by (intro exI [of _ 1]) (auto simp: three_def MAXOPBLOCKS_def)
    next
      case 3 then show ?thesis using k by (intro exI [of _ 2]) (auto simp: three_def MAXOPBLOCKS_def)
    qed
  qed
  then obtain j where j: "j < length (three k)" "three k ! j < MAXOPBLOCKS" "(three k)[j := three k ! j + 1] = three (Suc k)"
    by blast
  have "log_step pid (?d, three k) (d', three (Suc k))"
    using log_step.log_blk [OF j(1,2) d'(1)] by (simp only: j(3))
  moreover have "log_step pid (d, three k) (?d, three k)" by (rule log_step.cache)
  ultimately have "(log_step pid)\<^sup>*\<^sup>* (d, three k) (d', three (Suc k))"
    by (blast intro: converse_rtranclp_into_rtranclp)
  then show ?thesis using fl by blast
qed

lemma fill_steps:
  "filled d 0 \<Longrightarrow> k \<le> 29 \<Longrightarrow> \<exists>d'. (log_step pid)\<^sup>*\<^sup>* (d, three 0) (d', three k) \<and> filled d' k"
proof (induction k)
  case (Suc k)
  then obtain d1 where d1: "(log_step pid)\<^sup>*\<^sup>* (d, three 0) (d1, three k)" "filled d1 k" by auto
  have "k < 29" using Suc.prems by simp
  from fill_step [OF d1(2) this] obtain d2 where "(log_step pid)\<^sup>*\<^sup>* (d1, three k) (d2, three (Suc k))" "filled d2 (Suc k)"
    by blast
  then show ?case using rtranclp_trans [OF d1(1)] by blast
qed (use rtranclp.rtrancl_refl in blast)

lemma enter_three:
  assumes "log_start d" "lg_size (lg d) = LOGSIZE" "length (lh_block (lg_lh (lg d))) = LOGSIZE"
  shows "\<exists>d'. (log_step pid)\<^sup>*\<^sup>* (d, []) (d', three 0) \<and> filled d' 0"
proof -
  define D where "D k = d\<lparr>lg := (lg d)\<lparr>lg_outstanding := int k\<rparr>\<rparr>" for k :: nat
  have s: "log_step pid (D k, ops) (D (Suc k), 0 # ops)" if "k < 3" for k ops
  proof -
    have "begin_op (lg (D k)) = Ok ((lg (D k))\<lparr>lg_outstanding := lg_outstanding (lg (D k)) + 1\<rparr>)"
      using assms(1) that by (simp add: begin_op_def D_def log_start_def MAXOPBLOCKS_def LOGSIZE_def)
    from log_step.enter [OF this, of pid ops] show ?thesis by (simp add: D_def add.commute)
  qed
  have "d = D 0" using assms(1) by (simp add: D_def log_start_def)
  moreover have "(log_step pid)\<^sup>*\<^sup>* (D 0, []) (D (Suc (Suc (Suc 0))), [0, 0, 0])"
  proof -
    have "log_step pid (D 0, []) (D (Suc 0), [0])" "log_step pid (D (Suc 0), [0]) (D (Suc (Suc 0)), [0, 0])"
      "log_step pid (D (Suc (Suc 0)), [0, 0]) (D (Suc (Suc (Suc 0))), [0, 0, 0])" by (rule s; simp)+
    then show ?thesis by (blast intro: converse_rtranclp_into_rtranclp)
  qed
  moreover have "filled (D (Suc (Suc (Suc 0)))) 0" using assms by (simp add: filled_def D_def log_start_def)
  ultimately show ?thesis by (auto simp: three_def)
qed

section \<open>Properties\<close>

text \<open>
  C14. When the log area has more than \<^verbatim>\<open>LOGSIZE\<close> blocks, the reservation works for any interleaving of system
  calls: no call that logs at most \<^verbatim>\<open>MAXOPBLOCKS\<close> blocks ever meets a panic in \<^verbatim>\<open>log_write\<close> or \<^verbatim>\<open>end_op\<close>, and
  once the calls in progress have left and the commit is done a new call is admitted, so nobody waits for log space
  for ever.
\<close>

theorem log_reservation_safe:
  assumes "(log_step pid)\<^sup>*\<^sup>* (d0, []) (d, ops)" and "log_start d0" and "LOGSIZE < lg_size (lg d0)"
  shows "(\<forall>j<length ops. (ops ! j < MAXOPBLOCKS \<longrightarrow> (\<exists>d'. log_write i d = Ok d')) \<and>
      (\<exists>c l. end_op_begin (lg d) = Ok (c, l))) \<and>
    (ops = [] \<and> \<not> lg_committing (lg d) \<longrightarrow> (\<exists>l. begin_op (lg d) = Ok l))"
proof -
  have inv: "log_inv (d, ops)" by (rule log_reachable_inv [OF assms(1) log_start_inv [OF assms(2)]])
  have sz: "LOGSIZE < lg_size (lg d)" using log_reachable_size [OF assms(1)] assms(3) by simp
  have "\<exists>c l. end_op_begin (lg d) = Ok (c, l)" if "j < length ops" for j
    using inv that by (auto simp: end_op_begin_def log_inv_def Let_def)
  moreover have "\<exists>l. begin_op (lg d) = Ok l" if "ops = []" "\<not> lg_committing (lg d)"
    using inv that by (simp add: begin_op_def log_inv_def MAXOPBLOCKS_def LOGSIZE_def)
  ultimately show ?thesis using log_write_ok [OF inv _ _ sz] by blast
qed

definition log_ex :: dsk where
  "log_ex = \<lparr>lg = \<lparr>lg_start = 2, lg_size = 31, lg_outstanding = 0, lg_committing = False, lg_dev = 1,
     lg_lh = \<lparr>lh_n = 0, lh_block = replicate LOGSIZE 0\<rparr>\<rparr>, bc = at_block 40\<rparr>"

lemma log_reservation_safe_witness: "\<exists>l. begin_op (lg log_ex) = Ok l"
  using log_reservation_safe [of 1 log_ex log_ex "[]" 0]
  by (simp add: log_ex_def log_start_def LOGSIZE_def MAXOPBLOCKS_def)

text \<open>
  C15. With the log area that \<^verbatim>\<open>mkfs\<close> lays out, which has \<^verbatim>\<open>LOGSIZE\<close> blocks with the header block, the
  reservation does not work: \<^verbatim>\<open>begin_op\<close> admits three calls, and after 29 blocks in the log the next \<^verbatim>\<open>log_write\<close> of a
  call that has not used up its \<^verbatim>\<open>MAXOPBLOCKS\<close> panics.
\<close>

theorem log_reservation_overrun:
  assumes "log_start d" and "lg_size (lg d) = LOGSIZE" and "length (lh_block (lg_lh (lg d))) = LOGSIZE"
  shows "\<exists>d' ops j. (log_step pid)\<^sup>*\<^sup>* (d, []) (d', ops) \<and> j < length ops \<and> ops ! j < MAXOPBLOCKS \<and>
    log_write 0 d' = Panic ''too big a transaction''"
proof -
  obtain d1 where d1: "(log_step pid)\<^sup>*\<^sup>* (d, []) (d1, three 0)" "filled d1 0" using enter_three [OF assms] by blast
  obtain d2 where d2: "(log_step pid)\<^sup>*\<^sup>* (d1, three 0) (d2, three 29)" "filled d2 29"
    using fill_steps [OF d1(2), of 29] by auto
  have "log_write 0 d2 = Panic ''too big a transaction''"
    using d2(2) by (simp add: filled_def log_write_def Let_def LOGSIZE_def MAXOPBLOCKS_def)
  moreover have "2 < length (three 29)" "three 29 ! 2 < MAXOPBLOCKS" by (simp_all add: three_def MAXOPBLOCKS_def)
  ultimately show ?thesis using rtranclp_trans [OF d1(1) d2(1)] by blast
qed

lemma log_reservation_overrun_witness:
  "\<exists>d' ops j. (log_step 1)\<^sup>*\<^sup>* (log_ex\<lparr>lg := (lg log_ex)\<lparr>lg_size := 30\<rparr>\<rparr>, []) (d', ops) \<and> j < length ops \<and>
     ops ! j < MAXOPBLOCKS \<and> log_write 0 d' = Panic ''too big a transaction''"
  by (rule log_reservation_overrun) (simp_all add: log_ex_def log_start_def LOGSIZE_def MAXOPBLOCKS_def)

end
