(* ===== verification/Fs_Inode.thy ===== *)
theory Fs_Inode
  imports Fs_Log
begin

text \<open>
  The block allocator, the inodes and the file contents of \<^verbatim>\<open>fs.c\<close>. An inode pointer is the index of its entry in
  \<^verbatim>\<open>icache.inode\<close> (so it is never null); the functions run in the process \<open>pid\<close>. The state can be extended, since
  a device inode passes control to another part of the kernel through \<^verbatim>\<open>devsw\<close>, which is an argument here and
  defined with the console. Contents of a file are read into and written from lists of bytes.
\<close>

definition NINODE :: nat where "NINODE = 50"
definition NDEV :: nat where "NDEV = 10"
definition NDIRECT :: nat where "NDIRECT = 12"
definition NINDIRECT :: nat where "NINDIRECT = BSIZE div 4"
definition MAXFILE :: nat where "MAXFILE = NDIRECT + NINDIRECT"
definition DINODE_SIZE :: nat where "DINODE_SIZE = 64"
definition IPB :: nat where "IPB = BSIZE div DINODE_SIZE"
definition BPB :: nat where "BPB = BSIZE * 8"
definition T_DIR :: u16 where "T_DIR = 1"
definition T_FILE :: u16 where "T_FILE = 2"
definition T_DEV :: u16 where "T_DEV = 3"

definition IBLOCK :: "nat \<Rightarrow> superblock \<Rightarrow> nat" where
  "IBLOCK i sb = i div IPB + sb_inodestart sb"

definition BBLOCK :: "nat \<Rightarrow> superblock \<Rightarrow> nat" where
  "BBLOCK b sb = b div BPB + sb_bmapstart sb"

section \<open>Inodes\<close>

text \<open>The part of an inode that lives on the disk.\<close>

record dinode =
  d_type :: u16
  d_major :: u16
  d_minor :: u16
  d_nlink :: u16
  d_size :: u32
  d_addrs :: "u32 list"

definition decode_dinode :: "nat \<Rightarrow> block \<Rightarrow> dinode" where
  "decode_dinode off d = \<lparr>d_type = get16 off d, d_major = get16 (off + 2) d, d_minor = get16 (off + 4) d,
     d_nlink = get16 (off + 6) d, d_size = get32 (off + 8) d, d_addrs = get32s (off + 12) (NDIRECT + 1) d\<rparr>"

definition encode_dinode :: "nat \<Rightarrow> dinode \<Rightarrow> block \<Rightarrow> block" where
  "encode_dinode off x d =
     put32s (off + 12) (d_addrs x) (put32 (off + 8) (d_size x) (put16 (off + 6) (d_nlink x)
       (put16 (off + 4) (d_minor x) (put16 (off + 2) (d_major x) (put16 off (d_type x) d)))))"

record inode =
  i_dev :: nat
  i_inum :: nat
  i_ref :: int
  i_lock :: sleeplock
  i_valid :: bool
  i_type :: u16
  i_major :: u16
  i_minor :: u16
  i_nlink :: u16
  i_size :: u32
  i_addrs :: "u32 list"

record fs =
  fdk :: dsk
  fsb :: superblock
  icache :: "inode list"

definition upd_inode :: "nat \<Rightarrow> (inode \<Rightarrow> inode) \<Rightarrow> 'a fs_scheme \<Rightarrow> 'a fs_scheme" where
  "upd_inode i f s = s\<lparr>icache := (icache s)[i := f (icache s ! i)]\<rparr>"

definition set_dk :: "'a fs_scheme \<Rightarrow> dsk \<Rightarrow> 'a fs_scheme" where
  "set_dk s d = s\<lparr>fdk := d\<rparr>"

section \<open>Blocks\<close>

definition bzero :: "int \<Rightarrow> nat \<Rightarrow> nat \<Rightarrow> dsk \<Rightarrow> dsk res" where
  "bzero pid dev bno d = upd_block pid dev bno (\<lambda>_. replicate BSIZE 0) d"

text \<open>Bit \<open>bi\<close> of a block of the free map.\<close>

definition bmask :: "nat \<Rightarrow> u8" where
  "bmask bi = push_bit (bi mod 8) 1"

definition in_use :: "nat \<Rightarrow> block \<Rightarrow> bool" where
  "in_use bi d \<longleftrightarrow> d ! (bi div 8) AND bmask bi \<noteq> 0"

definition set_used :: "nat \<Rightarrow> block \<Rightarrow> block" where
  "set_used bi d = d[bi div 8 := d ! (bi div 8) OR bmask bi]"

definition set_free :: "nat \<Rightarrow> block \<Rightarrow> block" where
  "set_free bi d = d[bi div 8 := d ! (bi div 8) AND NOT (bmask bi)]"

text \<open>The outer loop of \<^verbatim>\<open>balloc\<close>, over the first blocks \<open>b\<close> of the map's blocks.\<close>

fun balloc_loop :: "int \<Rightarrow> nat \<Rightarrow> superblock \<Rightarrow> nat list \<Rightarrow> dsk \<Rightarrow> (nat \<times> dsk) res" where
  "balloc_loop pid dev sb [] d = Panic ''balloc: out of blocks''"
| "balloc_loop pid dev sb (b # bs) d =
     bnd (bread pid dev (BBLOCK b sb) (bc d)) (\<lambda>(i, s).
     case find (\<lambda>bi. b + bi < sb_size sb \<and> \<not> in_use bi (b_data (bufs s ! i))) [0..<BPB] of
       Some bi \<Rightarrow>
         bnd (log_write i (set_bc d (upd_buf i (\<lambda>u. u\<lparr>b_data := set_used bi (b_data u)\<rparr>) s))) (\<lambda>d.
         bnd (brelse pid i (bc d)) (\<lambda>s.
         bnd (bzero pid dev (b + bi) (set_bc d s)) (\<lambda>d. Ok (b + bi, d))))
     | None \<Rightarrow> bnd (brelse pid i s) (\<lambda>s. balloc_loop pid dev sb bs (set_bc d s)))"

definition balloc :: "int \<Rightarrow> nat \<Rightarrow> superblock \<Rightarrow> dsk \<Rightarrow> (nat \<times> dsk) res" where
  "balloc pid dev sb d = balloc_loop pid dev sb (map (\<lambda>k. k * BPB) [0..<(sb_size sb + BPB - 1) div BPB]) d"

definition bfree :: "int \<Rightarrow> nat \<Rightarrow> nat \<Rightarrow> 'a fs_scheme \<Rightarrow> 'a fs_scheme res" where
  "bfree pid dev b s =
     bnd (readsb pid dev (bc (fdk s))) (\<lambda>(sb, c).
     let s = s\<lparr>fsb := sb, fdk := set_bc (fdk s) c\<rparr>; bi = b mod BPB in
     bnd (bread pid dev (BBLOCK b sb) (bc (fdk s))) (\<lambda>(i, c).
     if \<not> in_use bi (b_data (bufs c ! i)) then Panic ''freeing free block''
     else
       bnd (log_write i (set_bc (fdk s) (upd_buf i (\<lambda>u. u\<lparr>b_data := set_free bi (b_data u)\<rparr>) c))) (\<lambda>d.
       bnd (brelse pid i (bc d)) (\<lambda>c. Ok (set_dk s (set_bc d c))))))"

section \<open>The inode cache\<close>

definition inode_init :: inode where
  "inode_init = \<lparr>i_dev = 0, i_inum = 0, i_ref = 0, i_lock = initsleeplock ''inode'', i_valid = False, i_type = 0,
     i_major = 0, i_minor = 0, i_nlink = 0, i_size = 0, i_addrs = replicate (NDIRECT + 1) 0\<rparr>"

definition iinit :: "int \<Rightarrow> nat \<Rightarrow> 'a fs_scheme \<Rightarrow> 'a fs_scheme res" where
  "iinit pid dev s =
     bnd (readsb pid dev (bc (fdk s))) (\<lambda>(sb, c).
     Ok (s\<lparr>icache := map (\<lambda>ip. ip\<lparr>i_lock := initsleeplock ''inode''\<rparr>) (icache s), fsb := sb, fdk := set_bc (fdk s) c\<rparr>))"

text \<open>The scan of \<^verbatim>\<open>iget\<close>: a cached entry at once, otherwise the first empty slot it remembered.\<close>

fun iget_scan :: "nat \<Rightarrow> nat \<Rightarrow> inode list \<Rightarrow> nat \<Rightarrow> nat option \<Rightarrow> (nat + nat option)" where
  "iget_scan dev inum [] k e0 = Inr e0"
| "iget_scan dev inum (ip # ips) k e0 =
     (if i_ref ip > 0 \<and> i_dev ip = dev \<and> i_inum ip = inum then Inl k
      else iget_scan dev inum ips (k + 1) (if e0 = None \<and> i_ref ip = 0 then Some k else e0))"

definition iget :: "nat \<Rightarrow> nat \<Rightarrow> 'a fs_scheme \<Rightarrow> (nat \<times> 'a fs_scheme) res" where
  "iget dev inum s =
     (case iget_scan dev inum (icache s) 0 None of
        Inl k \<Rightarrow> Ok (k, upd_inode k (\<lambda>ip. ip\<lparr>i_ref := i_ref ip + 1\<rparr>) s)
      | Inr None \<Rightarrow> Panic ''iget: no inodes''
      | Inr (Some k) \<Rightarrow>
          Ok (k, upd_inode k (\<lambda>ip. ip\<lparr>i_dev := dev, i_inum := inum, i_ref := 1, i_valid := False\<rparr>) s))"

definition idup :: "nat \<Rightarrow> 'a fs_scheme \<Rightarrow> 'a fs_scheme" where
  "idup ip s = upd_inode ip (\<lambda>i. i\<lparr>i_ref := i_ref i + 1\<rparr>) s"

fun ialloc_loop :: "int \<Rightarrow> nat \<Rightarrow> u16 \<Rightarrow> nat list \<Rightarrow> 'a fs_scheme \<Rightarrow> (nat \<times> 'a fs_scheme) res" where
  "ialloc_loop pid dev ty [] s = Panic ''ialloc: no inodes''"
| "ialloc_loop pid dev ty (inum # is) s =
     bnd (bread pid dev (IBLOCK inum (fsb s)) (bc (fdk s))) (\<lambda>(i, c).
     let off = DINODE_SIZE * (inum mod IPB) in
     if get16 off (b_data (bufs c ! i)) = 0
     then
       bnd (log_write i (set_bc (fdk s) (upd_buf i (\<lambda>u. u\<lparr>b_data :=
              put16 off ty (put_bytes off (replicate DINODE_SIZE 0) (b_data u))\<rparr>) c))) (\<lambda>d.
       bnd (brelse pid i (bc d)) (\<lambda>c. iget dev inum (set_dk s (set_bc d c))))
     else bnd (brelse pid i c) (\<lambda>c. ialloc_loop pid dev ty is (set_dk s (set_bc (fdk s) c))))"

definition ialloc :: "int \<Rightarrow> nat \<Rightarrow> u16 \<Rightarrow> 'a fs_scheme \<Rightarrow> (nat \<times> 'a fs_scheme) res" where
  "ialloc pid dev ty s = ialloc_loop pid dev ty [1..<sb_ninodes (fsb s)] s"

definition dinode_of :: "inode \<Rightarrow> dinode" where
  "dinode_of ip = \<lparr>d_type = i_type ip, d_major = i_major ip, d_minor = i_minor ip, d_nlink = i_nlink ip,
     d_size = i_size ip, d_addrs = i_addrs ip\<rparr>"

definition iupdate :: "int \<Rightarrow> nat \<Rightarrow> 'a fs_scheme \<Rightarrow> 'a fs_scheme res" where
  "iupdate pid ip s =
     (let i = icache s ! ip in
      bnd (upd_block pid (i_dev i) (IBLOCK (i_inum i) (fsb s))
            (encode_dinode (DINODE_SIZE * (i_inum i mod IPB)) (dinode_of i)) (fdk s)) (\<lambda>d. Ok (set_dk s d)))"

definition ilock :: "int \<Rightarrow> nat \<Rightarrow> 'a fs_scheme \<Rightarrow> 'a fs_scheme res" where
  "ilock pid ip s =
     (if i_ref (icache s ! ip) < 1 then Panic ''ilock''
      else
        bnd (acquiresleep pid (i_lock (icache s ! ip))) (\<lambda>lk.
        let s = upd_inode ip (\<lambda>i. i\<lparr>i_lock := lk\<rparr>) s; i = icache s ! ip in
        if i_valid i then Ok s
        else
          bnd (get_block pid (i_dev i) (IBLOCK (i_inum i) (fsb s)) (fdk s)) (\<lambda>(data, d).
          let x = decode_dinode (DINODE_SIZE * (i_inum i mod IPB)) data;
              s = upd_inode ip (\<lambda>i. i\<lparr>i_type := d_type x, i_major := d_major x, i_minor := d_minor x,
                    i_nlink := d_nlink x, i_size := d_size x, i_addrs := d_addrs x, i_valid := True\<rparr>) (set_dk s d) in
          if d_type x = 0 then Panic ''ilock: no type'' else Ok s)))"

definition iunlock :: "int \<Rightarrow> nat \<Rightarrow> 'a fs_scheme \<Rightarrow> 'a fs_scheme res" where
  "iunlock pid ip s =
     (if \<not> holdingsleep pid (i_lock (icache s ! ip)) \<or> i_ref (icache s ! ip) < 1 then Panic ''iunlock''
      else Ok (upd_inode ip (\<lambda>i. i\<lparr>i_lock := releasesleep (i_lock i)\<rparr>) s))"

section \<open>Inode contents\<close>

text \<open>\<^verbatim>\<open>ip->addrs[k]\<close>, allocating a block when it is 0.\<close>

definition addr_slot :: "int \<Rightarrow> nat \<Rightarrow> nat \<Rightarrow> 'a fs_scheme \<Rightarrow> (nat \<times> 'a fs_scheme) res" where
  "addr_slot pid ip k s =
     (let i = icache s ! ip in
      if i_addrs i ! k = 0
      then bnd (balloc pid (i_dev i) (fsb s) (fdk s)) (\<lambda>(b, d).
             Ok (b, upd_inode ip (\<lambda>i. i\<lparr>i_addrs := (i_addrs i)[k := of_nat b]\<rparr>) (set_dk s d)))
      else Ok (unat (i_addrs i ! k), s))"

definition bmap :: "int \<Rightarrow> nat \<Rightarrow> nat \<Rightarrow> 'a fs_scheme \<Rightarrow> (nat \<times> 'a fs_scheme) res" where
  "bmap pid ip bn s =
     (if bn < NDIRECT then addr_slot pid ip bn s
      else if bn - NDIRECT < NINDIRECT
      then
        bnd (addr_slot pid ip NDIRECT s) (\<lambda>(ind, s).
        bnd (bread pid (i_dev (icache s ! ip)) ind (bc (fdk s))) (\<lambda>(i, c).
        let off = 4 * (bn - NDIRECT); a = get32 off (b_data (bufs c ! i)) in
        if a = 0
        then
          bnd (balloc pid (i_dev (icache s ! ip)) (fsb s) (set_bc (fdk s) c)) (\<lambda>(b, d).
          bnd (log_write i (set_bc d (upd_buf i (\<lambda>u. u\<lparr>b_data := put32 off (of_nat b) (b_data u)\<rparr>) (bc d)))) (\<lambda>d.
          bnd (brelse pid i (bc d)) (\<lambda>c. Ok (b, set_dk s (set_bc d c)))))
        else bnd (brelse pid i c) (\<lambda>c. Ok (unat a, set_dk s (set_bc (fdk s) c)))))
      else Panic ''bmap: out of range'')"

fun free_direct :: "int \<Rightarrow> nat \<Rightarrow> nat list \<Rightarrow> 'a fs_scheme \<Rightarrow> 'a fs_scheme res" where
  "free_direct pid ip [] s = Ok s"
| "free_direct pid ip (k # ks) s =
     (let i = icache s ! ip in
      if i_addrs i ! k \<noteq> 0
      then bnd (bfree pid (i_dev i) (unat (i_addrs i ! k)) s) (\<lambda>s.
             free_direct pid ip ks (upd_inode ip (\<lambda>i. i\<lparr>i_addrs := (i_addrs i)[k := 0]\<rparr>) s))
      else free_direct pid ip ks s)"

fun free_blocks :: "int \<Rightarrow> nat \<Rightarrow> u32 list \<Rightarrow> 'a fs_scheme \<Rightarrow> 'a fs_scheme res" where
  "free_blocks pid dev [] s = Ok s"
| "free_blocks pid dev (a # as) s =
     (if a \<noteq> 0 then bnd (bfree pid dev (unat a) s) (free_blocks pid dev as) else free_blocks pid dev as s)"

definition itrunc :: "int \<Rightarrow> nat \<Rightarrow> 'a fs_scheme \<Rightarrow> 'a fs_scheme res" where
  "itrunc pid ip s =
     bnd (free_direct pid ip [0..<NDIRECT] s) (\<lambda>s.
     let i = icache s ! ip; a = i_addrs i ! NDIRECT in
     bnd (if a \<noteq> 0
          then
            bnd (bread pid (i_dev i) (unat a) (bc (fdk s))) (\<lambda>(b, c).
            bnd (free_blocks pid (i_dev i) (get32s 0 NINDIRECT (b_data (bufs c ! b))) (set_dk s (set_bc (fdk s) c))) (\<lambda>s.
            bnd (brelse pid b (bc (fdk s))) (\<lambda>c.
            bnd (bfree pid (i_dev i) (unat a) (set_dk s (set_bc (fdk s) c))) (\<lambda>s.
            Ok (upd_inode ip (\<lambda>i. i\<lparr>i_addrs := (i_addrs i)[NDIRECT := 0]\<rparr>) s)))))
          else Ok s) (\<lambda>s.
     iupdate pid ip (upd_inode ip (\<lambda>i. i\<lparr>i_size := 0\<rparr>) s)))"

definition iput :: "int \<Rightarrow> nat \<Rightarrow> 'a fs_scheme \<Rightarrow> 'a fs_scheme res" where
  "iput pid ip s =
     bnd (acquiresleep pid (i_lock (icache s ! ip))) (\<lambda>lk.
     let s = upd_inode ip (\<lambda>i. i\<lparr>i_lock := lk\<rparr>) s; i = icache s ! ip in
     bnd (if i_valid i \<and> i_nlink i = 0 \<and> i_ref i = 1
          then
            bnd (itrunc pid ip s) (\<lambda>s.
            bnd (iupdate pid ip (upd_inode ip (\<lambda>i. i\<lparr>i_type := 0\<rparr>) s)) (\<lambda>s.
            Ok (upd_inode ip (\<lambda>i. i\<lparr>i_valid := False\<rparr>) s)))
          else Ok s) (\<lambda>s.
     Ok (upd_inode ip (\<lambda>i. i\<lparr>i_lock := releasesleep (i_lock i), i_ref := i_ref i - 1\<rparr>) s)))"

definition iunlockput :: "int \<Rightarrow> nat \<Rightarrow> 'a fs_scheme \<Rightarrow> 'a fs_scheme res" where
  "iunlockput pid ip s = bnd (iunlock pid ip s) (iput pid ip)"

record stat =
  st_type :: u16
  st_dev :: nat
  st_ino :: nat
  st_nlink :: u16
  st_size :: u32

definition stati :: "nat \<Rightarrow> 'a fs_scheme \<Rightarrow> stat" where
  "stati ip s = (let i = icache s ! ip in
     \<lparr>st_type = i_type i, st_dev = i_dev i, st_ino = i_inum i, st_nlink = i_nlink i, st_size = i_size i\<rparr>)"

text \<open>
  The entries of \<^verbatim>\<open>devsw\<close>: a device read takes the inode and the count and gives the result and the bytes it stored;
  a device write takes the inode and the bytes.
\<close>

type_synonym 'a dev_reads = "nat \<Rightarrow> (nat \<Rightarrow> int \<Rightarrow> 'a \<Rightarrow> (int \<times> u8 list \<times> 'a) res) option"
type_synonym 'a dev_writes = "nat \<Rightarrow> (nat \<Rightarrow> u8 list \<Rightarrow> 'a \<Rightarrow> (int \<times> 'a) res) option"

text \<open>The loop of \<^verbatim>\<open>readi\<close> with \<open>n\<close> bytes still to read.\<close>

function readi_loop :: "int \<Rightarrow> nat \<Rightarrow> nat \<Rightarrow> nat \<Rightarrow> 'a fs_scheme \<Rightarrow> (u8 list \<times> 'a fs_scheme) res" where
  "readi_loop pid ip off n s =
     (if n = 0 then Ok ([], s)
      else
        bnd (bmap pid ip (off div BSIZE) s) (\<lambda>(b, s).
        bnd (get_block pid (i_dev (icache s ! ip)) b (fdk s)) (\<lambda>(data, d).
        let m = min n (BSIZE - off mod BSIZE) in
        bnd (readi_loop pid ip (off + m) (n - m) (set_dk s d)) (\<lambda>(bs, s).
        Ok (get_bytes (off mod BSIZE) m data @ bs, s)))))"
  by pat_completeness auto
termination
  by (relation "measure (\<lambda>(pid, ip, off, n, s). n)") (auto simp: BSIZE_def min_def)

definition readi :: "'a fs_scheme dev_reads \<Rightarrow> int \<Rightarrow> nat \<Rightarrow> u32 \<Rightarrow> u32 \<Rightarrow> 'a fs_scheme \<Rightarrow>
    (int \<times> u8 list \<times> 'a fs_scheme) res" where
  "readi devs pid ip off n s =
     (let i = icache s ! ip in
      if i_type i = T_DEV
      then (if sint (i_major i) < 0 \<or> sint (i_major i) \<ge> int NDEV then Ok (-1, [], s)
            else case devs (unat (i_major i)) of None \<Rightarrow> Ok (-1, [], s) | Some f \<Rightarrow> f ip (sint n) s)
      else if off > i_size i \<or> off + n < off then Ok (-1, [], s)
      else let n = (if off + n > i_size i then i_size i - off else n) in
        bnd (readi_loop pid ip (unat off) (unat n) s) (\<lambda>(bs, s). Ok (sint n, bs, s)))"

text \<open>The loop of \<^verbatim>\<open>writei\<close> with the bytes still to write; it also gives the final offset.\<close>

function writei_loop :: "int \<Rightarrow> nat \<Rightarrow> nat \<Rightarrow> u8 list \<Rightarrow> 'a fs_scheme \<Rightarrow> (nat \<times> 'a fs_scheme) res" where
  "writei_loop pid ip off src s =
     (if src = [] then Ok (off, s)
      else
        bnd (bmap pid ip (off div BSIZE) s) (\<lambda>(b, s).
        let m = min (length src) (BSIZE - off mod BSIZE) in
        bnd (upd_block pid (i_dev (icache s ! ip)) b (put_bytes (off mod BSIZE) (take m src)) (fdk s)) (\<lambda>d.
        writei_loop pid ip (off + m) (drop m src) (set_dk s d))))"
  by pat_completeness auto
termination
  by (relation "measure (\<lambda>(pid, ip, off, src, s). length src)") (auto simp: BSIZE_def min_def)

definition writei :: "'a fs_scheme dev_writes \<Rightarrow> int \<Rightarrow> nat \<Rightarrow> u8 list \<Rightarrow> u32 \<Rightarrow> 'a fs_scheme \<Rightarrow>
    (int \<times> 'a fs_scheme) res" where
  "writei devs pid ip src off s =
     (let i = icache s ! ip; n = (of_nat (length src) :: u32) in
      if i_type i = T_DEV
      then (if sint (i_major i) < 0 \<or> sint (i_major i) \<ge> int NDEV then Ok (-1, s)
            else case devs (unat (i_major i)) of None \<Rightarrow> Ok (-1, s) | Some f \<Rightarrow> f ip src s)
      else if off > i_size i \<or> off + n < off then Ok (-1, s)
      else if unat (off + n) > MAXFILE * BSIZE then Ok (-1, s)
      else
        bnd (writei_loop pid ip (unat off) src s) (\<lambda>(off, s).
        if src \<noteq> [] \<and> off > unat (i_size (icache s ! ip))
        then bnd (iupdate pid ip (upd_inode ip (\<lambda>i. i\<lparr>i_size := of_nat off\<rparr>) s)) (\<lambda>s. Ok (sint n, s))
        else Ok (sint n, s)))"

section \<open>The on-disk inode\<close>

lemma length_encode_dinode:
  "off + DINODE_SIZE \<le> length d \<Longrightarrow> length (d_addrs x) = NDIRECT + 1 \<Longrightarrow> length (encode_dinode off x d) = length d"
  by (simp add: encode_dinode_def DINODE_SIZE_def NDIRECT_def)

lemma decode_encode_dinode:
  assumes "off + DINODE_SIZE \<le> length d" "length (d_addrs x) = NDIRECT + 1"
  shows "decode_dinode off (encode_dinode off x d) = x"
proof -
  have l: "length (d_addrs x) = 13" "off + 64 \<le> length d" using assms by (simp_all add: DINODE_SIZE_def NDIRECT_def)
  let ?d5 = "put32 (off + 8) (d_size x) (put16 (off + 6) (d_nlink x)
       (put16 (off + 4) (d_minor x) (put16 (off + 2) (d_major x) (put16 off (d_type x) d))))"
  have len: "length ?d5 = length d" using l by simp
  have room: "off + 12 + 4 * length (d_addrs x) \<le> length ?d5" using l len by simp
  have e: "encode_dinode off x d = put32s (off + 12) (d_addrs x) ?d5" by (simp add: encode_dinode_def)
  have low: "encode_dinode off x d ! i = ?d5 ! i" if "i < off + 12" for i
    unfolding e by (rule nth_put32s_other [OF room]) (use that l len in auto)
  have f: "get16 o1 (encode_dinode off x d) = get16 o1 ?d5" if "o1 + 2 \<le> off + 12" for o1
    by (rule get16_cong) (use that low in auto)
  have g: "get32 (off + 8) (encode_dinode off x d) = get32 (off + 8) ?d5"
    by (rule get32_cong) (use low in auto)
  have "get32s (off + 12) 13 (encode_dinode off x d) = d_addrs x"
    using get32s_put32s [OF room] l by (simp add: e)
  then show ?thesis
    using l f g by (simp add: decode_dinode_def NDIRECT_def get16_put32_other get16_put16_other)
qed

lemma encode_dinode_other:
  assumes "off + DINODE_SIZE \<le> length d" "length (d_addrs x) = NDIRECT + 1" "i < length d"
    "i < off \<or> off + DINODE_SIZE \<le> i"
  shows "encode_dinode off x d ! i = d ! i"
proof -
  have l: "length (d_addrs x) = 13" "off + 64 \<le> length d" using assms by (simp_all add: DINODE_SIZE_def NDIRECT_def)
  show ?thesis
    using assms(3,4) l unfolding encode_dinode_def DINODE_SIZE_def
    by (subst nth_put32s_other; (subst nth_put32_other nth_put16_other)?; auto simp: nth_put16_other nth_put32_other)
qed

lemma dinode_fits: "DINODE_SIZE * (j mod IPB) + DINODE_SIZE \<le> BSIZE"
proof -
  have "j mod IPB < 8" by (simp add: IPB_def BSIZE_def DINODE_SIZE_def)
  then show ?thesis by (simp add: BSIZE_def DINODE_SIZE_def)
qed

lemma decode_other_dinode:
  assumes "length d = BSIZE" and "length (d_addrs x) = NDIRECT + 1" and "j mod IPB \<noteq> inum mod IPB"
  shows "decode_dinode (DINODE_SIZE * (j mod IPB)) (encode_dinode (DINODE_SIZE * (inum mod IPB)) x d) = decode_dinode (DINODE_SIZE * (j mod IPB)) d"
proof -
  define off where "off = (\<lambda>inum. DINODE_SIZE * (inum mod IPB))"
  have fits: "off j + DINODE_SIZE \<le> length d" for j using dinode_fits by (simp add: off_def assms(1))
  have sep: "off j + 64 \<le> off inum \<or> off inum + 64 \<le> off j" using assms(3) by (auto simp: off_def DINODE_SIZE_def)
  have n: "encode_dinode (off inum) x d ! i = d ! i" if "off j \<le> i" "i < off j + 64" for i
    by (rule encode_dinode_other [OF fits assms(2)]) (use that sep fits [of j] in \<open>auto simp: DINODE_SIZE_def\<close>)
  have a: "get16 o1 (encode_dinode (off inum) x d) = get16 o1 d" if "off j \<le> o1" "o1 + 2 \<le> off j + 64" for o1
    by (rule get16_cong) (use that n in auto)
  have b: "get32 o1 (encode_dinode (off inum) x d) = get32 o1 d" if "off j \<le> o1" "o1 + 4 \<le> off j + 64" for o1
    by (rule get32_cong) (use that n in auto)
  have "decode_dinode (off j) (encode_dinode (off inum) x d) = decode_dinode (off j) d"
    by (simp add: decode_dinode_def a b get32s_def NDIRECT_def)
  then show ?thesis by (simp only: off_def)
qed

section \<open>References to inodes\<close>

text \<open>Entry \<open>ip\<close> is in use for inode \<open>inum\<close> of device \<open>dev\<close>.\<close>

definition refers :: "nat \<Rightarrow> nat \<Rightarrow> inode \<Rightarrow> bool" where
  "refers dev inum ip \<longleftrightarrow> i_ref ip > 0 \<and> i_dev ip = dev \<and> i_inum ip = inum"

text \<open>Reference counts are not negative and an inode has at most one entry in use.\<close>

definition icache_inv :: "inode list \<Rightarrow> bool" where
  "icache_inv ips \<longleftrightarrow> length ips = NINODE \<and> (\<forall>i<NINODE. 0 \<le> i_ref (ips ! i)) \<and>
     (\<forall>i<NINODE. \<forall>j<NINODE. \<forall>dev inum. refers dev inum (ips ! i) \<longrightarrow> refers dev inum (ips ! j) \<longrightarrow> i = j)"

lemma iget_scan_found:
  "iget_scan dev inum ips k e = Inl j \<Longrightarrow> \<exists>i<length ips. j = k + i \<and> refers dev inum (ips ! i)"
proof (induction dev inum ips k e rule: iget_scan.induct)
  case (2 dev inum ip ips k e)
  show ?case
  proof (cases "refers dev inum ip")
    case True
    then show ?thesis using 2 by (auto simp: refers_def intro!: exI [of _ 0])
  next
    case False
    then obtain i where "i < length ips" "j = k + 1 + i" "refers dev inum (ips ! i)"
      using 2 by (auto simp: refers_def split: if_splits)
    then show ?thesis by (intro exI [of _ "Suc i"]) auto
  qed
qed simp

lemma iget_scan_none:
  "iget_scan dev inum ips k e = Inr e' \<Longrightarrow> (\<forall>i<length ips. \<not> refers dev inum (ips ! i)) \<and> (e \<noteq> None \<longrightarrow> e' = e) \<and>
     (e = None \<longrightarrow> (case e' of None \<Rightarrow> \<forall>i<length ips. i_ref (ips ! i) \<noteq> 0
                             | Some j \<Rightarrow> \<exists>i<length ips. j = k + i \<and> i_ref (ips ! i) = 0))"
proof (induction dev inum ips k e rule: iget_scan.induct)
  case (2 dev inum ip ips k e)
  let ?e = "if e = None \<and> i_ref ip = 0 then Some k else e"
  have nr: "\<not> refers dev inum ip" and sc: "iget_scan dev inum ips (k + 1) ?e = Inr e'"
    using "2.prems" by (auto simp: refers_def split: if_splits)
  have ih: "\<forall>i<length ips. \<not> refers dev inum (ips ! i)" "?e \<noteq> None \<longrightarrow> e' = ?e"
    "?e = None \<longrightarrow> (case e' of None \<Rightarrow> \<forall>i<length ips. i_ref (ips ! i) \<noteq> 0
                             | Some j \<Rightarrow> \<exists>i<length ips. j = k + 1 + i \<and> i_ref (ips ! i) = 0)"
    using "2.IH" sc nr by (auto simp: refers_def)
  have "\<forall>i<length (ip # ips). \<not> refers dev inum ((ip # ips) ! i)" using ih(1) nr by (auto simp: less_Suc_eq_0_disj)
  moreover have "case e' of None \<Rightarrow> \<forall>i<length (ip # ips). i_ref ((ip # ips) ! i) \<noteq> 0
      | Some j \<Rightarrow> \<exists>i<length (ip # ips). j = k + i \<and> i_ref ((ip # ips) ! i) = 0" if e: "e = None"
  proof (cases "i_ref ip = 0")
    case True
    then show ?thesis using ih(2) e by auto
  next
    case False
    show ?thesis
    proof (cases e')
      case None
      then show ?thesis using ih(3) e False by (auto simp: less_Suc_eq_0_disj)
    next
      case (Some j)
      then obtain i where "i < length ips" "j = k + 1 + i" "i_ref (ips ! i) = 0" using ih(3) e False by auto
      then have "\<exists>i<length (ip # ips). j = k + i \<and> i_ref ((ip # ips) ! i) = 0" by (intro exI [of _ "Suc i"]) simp
      then show ?thesis unfolding Some option.case .
    qed
  qed
  ultimately show ?case using ih(2) by auto
qed auto

lemma icache_invI:
  assumes "length ips = NINODE" "\<And>i. i < NINODE \<Longrightarrow> 0 \<le> i_ref (ips ! i)"
    "\<And>i j dev inum. i < NINODE \<Longrightarrow> j < NINODE \<Longrightarrow> refers dev inum (ips ! i) \<Longrightarrow> refers dev inum (ips ! j) \<Longrightarrow> i = j"
  shows "icache_inv ips"
  unfolding icache_inv_def using assms by blast

lemma icache_invD:
  assumes "icache_inv ips"
  shows "length ips = NINODE" "i < NINODE \<Longrightarrow> 0 \<le> i_ref (ips ! i)"
    "i < NINODE \<Longrightarrow> j < NINODE \<Longrightarrow> refers dev inum (ips ! i) \<Longrightarrow> refers dev inum (ips ! j) \<Longrightarrow> i = j"
  using assms unfolding icache_inv_def by blast+

lemma iget_spec:
  assumes inv: "icache_inv (icache s)" and g: "iget dev inum s = Ok (k, s')"
  shows "k < NINODE \<and> refers dev inum (icache s' ! k) \<and> icache_inv (icache s') \<and>
    i_ref (icache s' ! k) = i_ref (icache s ! k) + 1 \<and> (\<forall>j<NINODE. j \<noteq> k \<longrightarrow> icache s' ! j = icache s ! j) \<and>
    (\<forall>j<NINODE. refers dev inum (icache s ! j) \<longrightarrow> j = k)"
proof -
  note len = icache_invD(1) [OF inv] and nn = icache_invD(2) [OF inv] and inj = icache_invD(3) [OF inv]
  obtain f where k: "k < NINODE" and s': "s' = upd_inode k f s" and f: "i_ref (f (icache s ! k)) = i_ref (icache s ! k) + 1"
    "refers dev inum (f (icache s ! k))" and u: "\<And>j. j < NINODE \<Longrightarrow> refers dev inum (icache s ! j) \<Longrightarrow> j = k"
  proof (cases "iget_scan dev inum (icache s) 0 None")
    case (Inl j)
    then have j: "j < NINODE" "refers dev inum (icache s ! j)" using iget_scan_found [OF Inl] len by auto
    have kj: "k = j" "s' = upd_inode j (\<lambda>ip. ip\<lparr>i_ref := i_ref ip + 1\<rparr>) s" using g Inl by (auto simp: iget_def)
    have u: "i = j" if "i < NINODE" "refers dev inum (icache s ! i)" for i using inj [OF that(1) j(1) that(2) j(2)] .
    show ?thesis
    proof (rule that [of "\<lambda>ip. ip\<lparr>i_ref := i_ref ip + 1\<rparr>"])
      show "i = k" if "i < NINODE" "refers dev inum (icache s ! i)" for i using u [OF that] kj(1) by simp
    qed (use kj j in \<open>simp_all add: refers_def\<close>)
  next
    case (Inr e)
    then obtain j where e: "e = Some j" using g by (cases e) (auto simp: iget_def)
    then have j: "j < NINODE" "i_ref (icache s ! j) = 0" "\<forall>i<NINODE. \<not> refers dev inum (icache s ! i)"
      using iget_scan_none [OF Inr] len by auto
    show ?thesis
    proof (rule that [of "\<lambda>ip. ip\<lparr>i_dev := dev, i_inum := inum, i_ref := 1, i_valid := False\<rparr>"])
      show "i = k" if "i < NINODE" "refers dev inum (icache s ! i)" for i using that j(3) by blast
    qed (use g Inr e j in \<open>auto simp: iget_def refers_def\<close>)
  qed
  have nth: "icache s' ! j = (if j = k then f (icache s ! k) else icache s ! j)" if "j < NINODE" for j
    using that len by (simp add: s' upd_inode_def nth_list_update)
  have fk: "refers d m (f (icache s ! k)) \<longleftrightarrow> d = dev \<and> m = inum" for d m using f(2) by (auto simp: refers_def)
  have one: "j = k" if "j < NINODE" "refers dev inum (icache s' ! j)" for j
  proof (rule ccontr)
    assume "j \<noteq> k"
    then have "refers dev inum (icache s ! j)" using that nth [OF that(1)] by simp
    then show False using u [OF that(1)] \<open>j \<noteq> k\<close> by blast
  qed
  have ij: "i = j" if "i < NINODE" "j < NINODE" "refers d m (icache s' ! i)" "refers d m (icache s' ! j)" for i j d m
  proof (cases "d = dev \<and> m = inum")
    case True
    then have "i = k" "j = k" using one [of i] one [of j] that by blast+
    then show ?thesis by simp
  next
    case False
    then have "i \<noteq> k" "j \<noteq> k" using that(3,4) nth [OF k] fk by auto
    then show ?thesis using that nth [OF that(1)] nth [OF that(2)] inj [OF that(1,2)] by simp
  qed
  have "icache_inv (icache s')"
  proof (rule icache_invI)
    show "length (icache s') = NINODE" using len by (simp add: s' upd_inode_def)
    show "0 \<le> i_ref (icache s' ! i)" if "i < NINODE" for i using nth [OF that] nn [OF that] nn [OF k] f(1) by simp
  qed (rule ij)
  moreover have "\<forall>j<NINODE. j \<noteq> k \<longrightarrow> icache s' ! j = icache s ! j" using nth by simp
  moreover have "refers dev inum (icache s' ! k)" "i_ref (icache s' ! k) = i_ref (icache s ! k) + 1"
    using nth [OF k] f by simp_all
  ultimately show ?thesis using k u by blast
qed

text \<open>
  C18. The inode cache: \<^verbatim>\<open>iget\<close> on a well-formed cache returns an entry for the inode it was asked for with one more
  reference, reuses the entry when the inode is cached, changes no other entry, and keeps the invariant that an inode
  never has two entries in use; it panics exactly when the inode is not cached and every entry is in use.
\<close>

theorem iget_correct:
  assumes "icache_inv (icache s)"
  shows "(\<forall>k s'. iget dev inum s = Ok (k, s') \<longrightarrow> refers dev inum (icache s' ! k) \<and> icache_inv (icache s') \<and>
      i_ref (icache s' ! k) = i_ref (icache s ! k) + 1 \<and> (\<forall>j<NINODE. j \<noteq> k \<longrightarrow> icache s' ! j = icache s ! j) \<and>
      (\<forall>j<NINODE. refers dev inum (icache s ! j) \<longrightarrow> j = k)) \<and>
    ((\<exists>k s'. iget dev inum s = Ok (k, s')) \<longleftrightarrow>
      (\<exists>j<NINODE. refers dev inum (icache s ! j) \<or> i_ref (icache s ! j) = 0)) \<and>
    ((\<nexists>k s'. iget dev inum s = Ok (k, s')) \<longrightarrow> iget dev inum s = Panic ''iget: no inodes'')"
proof -
  have len: "length (icache s) = NINODE" using assms by (simp add: icache_inv_def)
  have "(\<exists>k s'. iget dev inum s = Ok (k, s')) \<longleftrightarrow> (\<exists>j<NINODE. refers dev inum (icache s ! j) \<or> i_ref (icache s ! j) = 0)"
  proof (cases "iget_scan dev inum (icache s) 0 None")
    case (Inl j)
    then show ?thesis using iget_scan_found [OF Inl] len by (auto simp: iget_def)
  next
    case (Inr e)
    then show ?thesis using iget_scan_none [OF Inr] len by (cases e) (auto simp: iget_def)
  qed
  moreover have "(\<nexists>k s'. iget dev inum s = Ok (k, s')) \<longrightarrow> iget dev inum s = Panic ''iget: no inodes''"
    by (auto simp: iget_def split: sum.split option.split)
  ultimately show ?thesis using iget_spec [OF assms] by blast
qed

definition fs0 :: fs where
  "fs0 = \<lparr>fdk = \<lparr>lg = \<lparr>lg_start = 2, lg_size = 30, lg_outstanding = 0, lg_committing = False, lg_dev = 1,
       lg_lh = \<lparr>lh_n = 0, lh_block = replicate LOGSIZE 0\<rparr>\<rparr>, bc = bio0\<rparr>,
     fsb = \<lparr>sb_size = 1000, sb_nblocks = 941, sb_ninodes = 200, sb_nlog = 30, sb_logstart = 2, sb_inodestart = 32,
       sb_bmapstart = 58\<rparr>, icache = replicate NINODE inode_init\<rparr>"

lemma iget_correct_witness: "\<exists>k s'. iget 1 1 fs0 = Ok (k, s') \<and> i_ref (icache s' ! k) = 1 \<and> k < NINODE"
proof -
  have inv: "icache_inv (icache fs0)" by (simp add: icache_inv_def fs0_def inode_init_def refers_def)
  have "\<exists>j<NINODE. refers 1 1 (icache fs0 ! j) \<or> i_ref (icache fs0 ! j) = 0"
    by (intro exI [of _ 0]) (simp add: fs0_def inode_init_def NINODE_def)
  then obtain k s' where g: "iget 1 1 fs0 = Ok (k, s')" using iget_correct [OF inv, of 1 1] by blast
  then have "k < NINODE" using iget_spec [OF inv g] by blast
  then show ?thesis using g iget_correct [OF inv, of 1 1] by (auto simp: fs0_def inode_init_def)
qed

end
