(* ===== verification/Fs_Dir.thy ===== *)
theory Fs_Dir
  imports Fs_Inode Mem_String
begin

text \<open>
  Directories and path names of \<^verbatim>\<open>fs.c\<close>. A path is the list of the bytes before its terminator, a name buffer the list
  of its \<^verbatim>\<open>DIRSIZ\<close> bytes, which need not be terminated.
\<close>

definition DIRSIZ :: nat where "DIRSIZ = 14"
definition DIRENT_SIZE :: nat where "DIRENT_SIZE = 16"
definition ROOTINO :: nat where "ROOTINO = 1"
definition SLASH :: u8 where "SLASH = 47"

text \<open>A buffer as seen through a \<^verbatim>\<open>char*\<close>; past its end the model reads a terminator.\<close>

definition rd :: "u8 list \<Rightarrow> reader" where
  "rd xs = (\<lambda>i. if i < length xs then xs ! i else 0)"

definition namecmp :: "u8 list \<Rightarrow> u8 list \<Rightarrow> int" where
  "namecmp s t = strncmp (rd s) (rd t) DIRSIZ"

section \<open>Directory entries\<close>

record dirent =
  de_inum :: u16
  de_name :: "u8 list"

definition decode_dirent :: "u8 list \<Rightarrow> dirent" where
  "decode_dirent d = \<lparr>de_inum = get16 0 d, de_name = get_bytes 2 DIRSIZ d\<rparr>"

definition encode_dirent :: "dirent \<Rightarrow> u8 list" where
  "encode_dirent de = [byte16 0 (de_inum de), byte16 1 (de_inum de)] @ de_name de"

text \<open>The loop of \<^verbatim>\<open>dirlookup\<close> from offset \<open>off\<close>; the result is the inode number and the offset of the entry.\<close>

function dirlookup_loop :: "'a fs_scheme dev_reads \<Rightarrow> int \<Rightarrow> nat \<Rightarrow> u8 list \<Rightarrow> nat \<Rightarrow> 'a fs_scheme \<Rightarrow>
    ((nat \<times> nat) option \<times> 'a fs_scheme) res" where
  "dirlookup_loop devs pid dp name off s =
     (if off \<ge> 2 ^ 32 \<or> off \<ge> unat (i_size (icache s ! dp)) then Ok (None, s)
      else
        bnd (readi devs pid dp (of_nat off) (of_nat DIRENT_SIZE) s) (\<lambda>(r, bs, s).
        if r \<noteq> int DIRENT_SIZE then Panic ''dirlookup read''
        else
          let de = decode_dirent bs in
          if de_inum de \<noteq> 0 \<and> namecmp name (de_name de) = 0 then Ok (Some (unat (de_inum de), off), s)
          else dirlookup_loop devs pid dp name (off + DIRENT_SIZE) s))"
  by pat_completeness auto
termination
  by (relation "measure (\<lambda>(devs, pid, dp, name, off, s). 2 ^ 32 - off)") (auto simp: DIRENT_SIZE_def)

definition dirlookup :: "'a fs_scheme dev_reads \<Rightarrow> int \<Rightarrow> nat \<Rightarrow> u8 list \<Rightarrow> 'a fs_scheme \<Rightarrow>
    ((nat \<times> nat) option \<times> 'a fs_scheme) res" where
  "dirlookup devs pid dp name s =
     (if i_type (icache s ! dp) \<noteq> T_DIR then Panic ''dirlookup not DIR''
      else
        bnd (dirlookup_loop devs pid dp name 0 s) (\<lambda>(r, s).
        case r of
          None \<Rightarrow> Ok (None, s)
        | Some (inum, off) \<Rightarrow>
            bnd (iget (i_dev (icache s ! dp)) inum s) (\<lambda>(ip, s). Ok (Some (ip, off), s))))"

text \<open>The search of \<^verbatim>\<open>dirlink\<close> for an empty entry: its offset, or the size of the directory.\<close>

function empty_slot :: "'a fs_scheme dev_reads \<Rightarrow> int \<Rightarrow> nat \<Rightarrow> nat \<Rightarrow> 'a fs_scheme \<Rightarrow> (nat \<times> 'a fs_scheme) res" where
  "empty_slot devs pid dp off s =
     (if off \<ge> 2 ^ 32 \<or> off \<ge> unat (i_size (icache s ! dp)) then Ok (off, s)
      else
        bnd (readi devs pid dp (of_nat off) (of_nat DIRENT_SIZE) s) (\<lambda>(r, bs, s).
        if r \<noteq> int DIRENT_SIZE then Panic ''dirlink read''
        else if de_inum (decode_dirent bs) = 0 then Ok (off, s)
        else empty_slot devs pid dp (off + DIRENT_SIZE) s))"
  by pat_completeness auto
termination
  by (relation "measure (\<lambda>(devs, pid, dp, off, s). 2 ^ 32 - off)") (auto simp: DIRENT_SIZE_def)

definition new_name :: "u8 list \<Rightarrow> u8 list" where
  "new_name name = map (strncpy (\<lambda>_. 0) (rd name) (int DIRSIZ)) [0..<DIRSIZ]"

definition dirlink :: "'a fs_scheme dev_reads \<Rightarrow> 'a fs_scheme dev_writes \<Rightarrow> int \<Rightarrow> nat \<Rightarrow> u8 list \<Rightarrow> nat \<Rightarrow>
    'a fs_scheme \<Rightarrow> (int \<times> 'a fs_scheme) res" where
  "dirlink devr devw pid dp name inum s =
     bnd (dirlookup devr pid dp name s) (\<lambda>(r, s).
     case r of
       Some (ip, off) \<Rightarrow> bnd (iput pid ip s) (\<lambda>s. Ok (-1, s))
     | None \<Rightarrow>
         bnd (empty_slot devr pid dp 0 s) (\<lambda>(off, s).
         bnd (writei devw pid dp (encode_dirent \<lparr>de_inum = of_nat inum, de_name = new_name name\<rparr>) (of_nat off) s)
           (\<lambda>(r, s). if r \<noteq> int DIRENT_SIZE then Panic ''dirlink'' else Ok (0, s))))"

section \<open>Paths\<close>

text \<open>\<^verbatim>\<open>skipelem\<close>: the rest of the path and the name buffer after the copy, or nothing when no element is left.\<close>

definition skipelem :: "u8 list \<Rightarrow> u8 list \<Rightarrow> (u8 list \<times> u8 list) option" where
  "skipelem path name =
     (let path = dropWhile (\<lambda>c. c = SLASH) path in
      if path = [] then None
      else
        let s = takeWhile (\<lambda>c. c \<noteq> SLASH) path; path = dropWhile (\<lambda>c. c \<noteq> SLASH) path; len = length s;
            name = (if len \<ge> DIRSIZ then put_bytes 0 (take DIRSIZ s) name else put_bytes 0 (s @ [0]) name) in
        Some (dropWhile (\<lambda>c. c = SLASH) path, name))"

lemma skipelem_shorter: "skipelem path name = Some (rest, name') \<Longrightarrow> length rest < length path"
proof -
  assume a: "skipelem path name = Some (rest, name')"
  let ?p = "dropWhile (\<lambda>c. c = SLASH) path"
  have ne: "?p \<noteq> []" and r: "rest = dropWhile (\<lambda>c. c = SLASH) (dropWhile (\<lambda>c. c \<noteq> SLASH) ?p)"
    using a by (auto simp: skipelem_def Let_def split: if_splits)
  have "hd ?p \<noteq> SLASH" using ne by (rule hd_dropWhile)
  then have "length (dropWhile (\<lambda>c. c \<noteq> SLASH) ?p) < length ?p"
    using ne by (cases ?p) (auto simp: less_Suc_eq_le length_dropWhile_le)
  moreover have "length rest \<le> length (dropWhile (\<lambda>c. c \<noteq> SLASH) ?p)" "length ?p \<le> length path"
    unfolding r by (rule length_dropWhile_le)+
  ultimately show ?thesis by linarith
qed

text \<open>The loop of \<^verbatim>\<open>namex\<close>; the result is the inode, if any, and the name buffer.\<close>

function namex_loop :: "'a fs_scheme dev_reads \<Rightarrow> int \<Rightarrow> bool \<Rightarrow> nat \<Rightarrow> u8 list \<Rightarrow> u8 list \<Rightarrow> 'a fs_scheme \<Rightarrow>
    (nat option \<times> u8 list \<times> 'a fs_scheme) res" where
  "namex_loop devs pid parent ip path name s =
     (case skipelem path name of
        None \<Rightarrow> if parent then bnd (iput pid ip s) (\<lambda>s. Ok (None, name, s)) else Ok (Some ip, name, s)
      | Some (path', name) \<Rightarrow>
          bnd (ilock pid ip s) (\<lambda>s.
          if i_type (icache s ! ip) \<noteq> T_DIR then bnd (iunlockput pid ip s) (\<lambda>s. Ok (None, name, s))
          else if parent \<and> path' = [] then bnd (iunlock pid ip s) (\<lambda>s. Ok (Some ip, name, s))
          else
            bnd (dirlookup devs pid ip name s) (\<lambda>(r, s).
            bnd (iunlockput pid ip s) (\<lambda>s.
            case r of
              None \<Rightarrow> Ok (None, name, s)
            | Some (next, _) \<Rightarrow> namex_loop devs pid parent next path' name s))))"
  by pat_completeness auto
termination
  by (relation "measure (\<lambda>(devs, pid, parent, ip, path, name, s). length path)") (auto dest: skipelem_shorter)

definition namex :: "'a fs_scheme dev_reads \<Rightarrow> int \<Rightarrow> nat \<Rightarrow> bool \<Rightarrow> u8 list \<Rightarrow> u8 list \<Rightarrow> 'a fs_scheme \<Rightarrow>
    (nat option \<times> u8 list \<times> 'a fs_scheme) res" where
  "namex devs pid cwd parent path name s =
     bnd (if path \<noteq> [] \<and> hd path = SLASH then iget ROOTDEV ROOTINO s else Ok (cwd, idup cwd s)) (\<lambda>(ip, s).
     namex_loop devs pid parent ip path name s)"

definition namei :: "'a fs_scheme dev_reads \<Rightarrow> int \<Rightarrow> nat \<Rightarrow> u8 list \<Rightarrow> 'a fs_scheme \<Rightarrow> (nat option \<times> 'a fs_scheme) res" where
  "namei devs pid cwd path s =
     bnd (namex devs pid cwd False path (replicate DIRSIZ 0) s) (\<lambda>(ip, name, s). Ok (ip, s))"

definition nameiparent :: "'a fs_scheme dev_reads \<Rightarrow> int \<Rightarrow> nat \<Rightarrow> u8 list \<Rightarrow> u8 list \<Rightarrow> 'a fs_scheme \<Rightarrow>
    (nat option \<times> u8 list \<times> 'a fs_scheme) res" where
  "nameiparent devs pid cwd path name s = namex devs pid cwd True path name s"

section \<open>Path elements\<close>

text \<open>The elements \<^verbatim>\<open>namex\<close> meets when it follows a path, by repeated \<^verbatim>\<open>skipelem\<close>.\<close>

function path_names :: "u8 list \<Rightarrow> u8 list \<Rightarrow> u8 list list" where
  "path_names path name =
     (case skipelem path name of None \<Rightarrow> [] | Some (path', name) \<Rightarrow> name # path_names path' name)"
  by pat_completeness auto
termination
  by (relation "measure (\<lambda>(path, name). length path)") (auto dest: skipelem_shorter)

declare path_names.simps [simp del]

text \<open>The reference: the text between the slashes, empty pieces left out.\<close>

fun split_slash :: "u8 list \<Rightarrow> u8 list list" where
  "split_slash [] = [[]]"
| "split_slash (c # cs) =
     (if c = SLASH then [] # split_slash cs
      else case split_slash cs of [] \<Rightarrow> [[c]] | w # ws \<Rightarrow> (c # w) # ws)"

definition elements :: "u8 list \<Rightarrow> u8 list list" where
  "elements path = filter (\<lambda>w. w \<noteq> []) (split_slash path)"

text \<open>The string a name buffer holds.\<close>

definition name_text :: "u8 list \<Rightarrow> u8 list" where
  "name_text name = takeWhile (\<lambda>c. c \<noteq> 0) name"

lemma split_slash_word:
  "split_slash path = takeWhile (\<lambda>c. c \<noteq> SLASH) path #
     (case dropWhile (\<lambda>c. c \<noteq> SLASH) path of [] \<Rightarrow> [] | _ # rest \<Rightarrow> split_slash rest)"
  by (induction path rule: split_slash.induct) auto

lemma elements_Nil [simp]: "elements [] = []"
  by (simp add: elements_def)

lemma elements_slash: "elements (SLASH # cs) = elements cs"
  by (simp add: elements_def)

lemma elements_dropWhile: "elements (dropWhile (\<lambda>c. c = SLASH) path) = elements path"
  by (induction path) (auto simp: elements_slash)

lemma elements_word:
  assumes "path \<noteq> []" "hd path \<noteq> SLASH"
  shows "elements path = takeWhile (\<lambda>c. c \<noteq> SLASH) path # elements (dropWhile (\<lambda>c. c \<noteq> SLASH) path)"
proof -
  have w: "takeWhile (\<lambda>c. c \<noteq> SLASH) path \<noteq> []" using assms by (cases path) auto
  have "elements (dropWhile (\<lambda>c. c \<noteq> SLASH) path) =
      filter (\<lambda>w. w \<noteq> []) (case dropWhile (\<lambda>c. c \<noteq> SLASH) path of [] \<Rightarrow> [] | _ # rest \<Rightarrow> split_slash rest)"
  proof (cases "dropWhile (\<lambda>c. c \<noteq> SLASH) path")
    case (Cons c rest)
    then have "c = SLASH" using hd_dropWhile [of "\<lambda>c. c \<noteq> SLASH" path] by simp
    then show ?thesis using Cons by (simp add: elements_def)
  qed (simp del: dropWhile_eq_Nil_conv)
  then show ?thesis using w by (simp add: elements_def split_slash_word [of path])
qed

lemma name_text_copy:
  assumes "length name = DIRSIZ" "0 \<notin> set s"
  shows "name_text (if length s \<ge> DIRSIZ then put_bytes 0 (take DIRSIZ s) name else put_bytes 0 (s @ [0]) name) = take DIRSIZ s"
proof -
  have t: "takeWhile (\<lambda>c. c \<noteq> 0) (take k s @ rest) = take k s @ takeWhile (\<lambda>c. c \<noteq> 0) rest" for k rest
    using assms(2) by (intro takeWhile_append2) (auto dest: in_set_takeD)
  show ?thesis
    using t [of DIRSIZ "[]"] t [of "length s"] assms(1) by (simp add: name_text_def put_bytes_def)
qed

lemma length_name_copy:
  "length name = DIRSIZ \<Longrightarrow>
     length (if length s \<ge> DIRSIZ then put_bytes 0 (take DIRSIZ s) name else put_bytes 0 (s @ [0]) name) = DIRSIZ"
  by (simp add: put_bytes_def)

lemma path_names_elements:
  "length name = DIRSIZ \<Longrightarrow> 0 \<notin> set path \<Longrightarrow> map name_text (path_names path name) = map (take DIRSIZ) (elements path)"
proof (induction path name rule: path_names.induct)
  case (1 path name)
  let ?p = "dropWhile (\<lambda>c. c = SLASH) path"
  show ?case
  proof (cases "?p = []")
    case True
    then have "elements path = []" using elements_dropWhile [of path] elements_Nil by (simp only:)
    then show ?thesis using True by (subst path_names.simps) (simp add: skipelem_def)
  next
    case False
    define w where "w = takeWhile (\<lambda>c. c \<noteq> SLASH) ?p"
    define rest where "rest = dropWhile (\<lambda>c. c = SLASH) (dropWhile (\<lambda>c. c \<noteq> SLASH) ?p)"
    define nm where "nm = (if length w \<ge> DIRSIZ then put_bytes 0 (take DIRSIZ w) name else put_bytes 0 (w @ [0]) name)"
    have sk: "skipelem path name = Some (rest, nm)"
      using False by (simp add: skipelem_def Let_def w_def rest_def nm_def)
    have nz: "0 \<notin> set w" "0 \<notin> set rest"
      using "1.prems"(2) by (auto simp: w_def rest_def dest!: set_takeWhileD set_dropWhileD)
    have "elements path = w # elements rest"
      using elements_word [OF False hd_dropWhile [OF False]] elements_dropWhile
      by (simp add: w_def rest_def)
    moreover have "map name_text (path_names rest nm) = map (take DIRSIZ) (elements rest)"
      by (rule "1.IH" [OF sk refl]) (use nz length_name_copy [OF "1.prems"(1)] in \<open>simp_all add: nm_def\<close>)
    moreover have "name_text nm = take DIRSIZ w"
      unfolding nm_def by (rule name_text_copy [OF "1.prems"(1) nz(1)])
    ultimately show ?thesis by (subst path_names.simps) (simp add: sk)
  qed
qed

text \<open>
  C20. Path parsing: the successive elements that \<^verbatim>\<open>skipelem\<close> cuts off a path, as the strings left in the name buffer,
  are exactly the non-empty pieces between the slashes in order, each cut to \<^verbatim>\<open>DIRSIZ\<close> bytes.
\<close>

theorem skipelem_elements:
  assumes "length name = DIRSIZ" and "0 \<notin> set path"
  shows "map name_text (path_names path name) = map (take DIRSIZ) (elements path)"
  using assms by (rule path_names_elements)

lemma skipelem_elements_witness:
  "map name_text (path_names [47, 47, 97, 47, 98, 99, 47, 47] (replicate DIRSIZ 7)) = [[97], [98, 99]]"
  using skipelem_elements [of "replicate DIRSIZ 7" "[47, 47, 97, 47, 98, 99, 47, 47]"]
  by (simp add: elements_def SLASH_def DIRSIZ_def)

section \<open>Names in directories\<close>

lemma rd_zero: "0 \<notin> set xs \<Longrightarrow> rd xs i = 0 \<longleftrightarrow> length xs \<le> i"
  by (auto simp: rd_def dest: nth_mem)

lemma new_name_eq:
  assumes "0 \<notin> set name"
  shows "length (new_name name) = DIRSIZ" and "i < DIRSIZ \<Longrightarrow> rd (new_name name) i = rd name i"
proof -
  show "length (new_name name) = DIRSIZ" by (simp add: new_name_def)
  assume i: "i < DIRSIZ"
  have "(\<exists>j\<le>i. rd name j = 0) \<longleftrightarrow> rd name i = 0" using rd_zero [OF assms] by (meson le_trans order_refl)
  then show "rd (new_name name) i = rd name i" using i by (simp add: rd_def new_name_def strncpy_apply)
qed

lemma rd_take: "(\<forall>i<n. rd xs i = rd ys i) \<longleftrightarrow> take n xs = take n ys" if "0 \<notin> set xs" "0 \<notin> set ys"
proof
  assume a: "\<forall>i<n. rd xs i = rd ys i"
  have "min n (length xs) = min n (length ys)"
  proof (rule ccontr)
    assume ne: "min n (length xs) \<noteq> min n (length ys)"
    let ?i = "min (length xs) (length ys)"
    have "?i < n" "(rd xs ?i = 0) \<noteq> (rd ys ?i = 0)" using ne rd_zero [OF that(1), of ?i] rd_zero [OF that(2), of ?i] by auto
    then show False using a by auto
  qed
  then show "take n xs = take n ys"
    using a by (intro nth_equalityI) (auto simp: rd_def, metis min_less_iff_conj)
next
  assume e: "take n xs = take n ys"
  have "rd xs i = rd ys i" if "i < n" for i
  proof -
    have "rd xs i = rd (take n xs) i" "rd ys i = rd (take n ys) i" using that by (simp_all add: rd_def)
    then show ?thesis using e by simp
  qed
  then show "\<forall>i<n. rd xs i = rd ys i" by blast
qed

lemma same_prefix_all:
  assumes "\<And>i. p i = 0 \<Longrightarrow> p (Suc i) = 0" "\<And>i. q i = 0 \<Longrightarrow> q (Suc i) = 0"
  shows "same_prefix p q n \<longleftrightarrow> (\<forall>i<n. p i = q i)"
proof
  assume "same_prefix p q n"
  then obtain k where k: "k \<le> n" "\<forall>i<k. p i = q i" "k = n \<or> p k = 0 \<and> q k = 0" by (auto simp: same_prefix_def)
  have z: "p i = 0 \<and> q i = 0" if "p k = 0" "q k = 0" "k \<le> i" for i
    using that(3) by (induction rule: dec_induct) (use that assms in auto)
  show "\<forall>i<n. p i = q i"
  proof (intro allI impI)
    fix i assume "i < n"
    then show "p i = q i" using k z [of i] by (cases "i < k") auto
  qed
next
  assume a: "\<forall>i<n. p i = q i"
  show "same_prefix p q n"
  proof (cases "\<exists>k<n. p k = 0")
    case True
    define k where "k = (LEAST k. p k = 0)"
    obtain m where m: "m < n" "p m = 0" using True by blast
    have "p k = 0" unfolding k_def using m(2) by (rule LeastI)
    moreover have "k \<le> m" unfolding k_def using m(2) by (rule Least_le)
    moreover have "p i \<noteq> 0" if "i < k" for i using not_less_Least that unfolding k_def by blast
    ultimately show ?thesis using a m(1) by (auto simp: same_prefix_def intro!: exI [of _ k])
  qed (use a in \<open>auto simp: same_prefix_def intro!: exI [of _ n]\<close>)
qed

lemma namecmp_new_name:
  assumes "0 \<notin> set name" "0 \<notin> set other"
  shows "namecmp other (new_name name) = 0 \<longleftrightarrow> take DIRSIZ other = take DIRSIZ name"
proof -
  have "same_prefix (rd other) (rd (new_name name)) DIRSIZ \<longleftrightarrow> (\<forall>i<DIRSIZ. rd other i = rd (new_name name) i)"
  proof (rule same_prefix_all)
    fix i
    show "rd other i = 0 \<Longrightarrow> rd other (Suc i) = 0" using rd_zero [OF assms(2)] by simp
    have "\<not> Suc i < DIRSIZ \<Longrightarrow> rd (new_name name) (Suc i) = 0" by (simp add: rd_def new_name_eq(1) [OF assms(1)])
    then show "rd (new_name name) i = 0 \<Longrightarrow> rd (new_name name) (Suc i) = 0"
      using new_name_eq(2) [OF assms(1), of i] new_name_eq(2) [OF assms(1), of "Suc i"] rd_zero [OF assms(1)]
      by (cases "Suc i < DIRSIZ") auto
  qed
  also have "\<dots> \<longleftrightarrow> (\<forall>i<DIRSIZ. rd other i = rd name i)" using new_name_eq(2) [OF assms(1)] by simp
  finally show ?thesis using rd_take [OF assms(2,1)] by (simp add: namecmp_def strncmp_eq_0)
qed

text \<open>
  C21. Directory entries round-trip, and the name that \<^verbatim>\<open>dirlink\<close> stores with \<^verbatim>\<open>strncpy\<close> is found by \<^verbatim>\<open>namecmp\<close> under
  exactly the names that agree with it in the first \<^verbatim>\<open>DIRSIZ\<close> bytes.
\<close>

theorem dirent_roundtrip:
  assumes "0 \<notin> set name" and "0 \<notin> set other"
  shows "decode_dirent (encode_dirent \<lparr>de_inum = i, de_name = new_name name\<rparr>) = \<lparr>de_inum = i, de_name = new_name name\<rparr> \<and>
    (namecmp other (new_name name) = 0 \<longleftrightarrow> take DIRSIZ other = take DIRSIZ name)"
proof -
  have "decode_dirent (encode_dirent \<lparr>de_inum = i, de_name = new_name name\<rparr>) = \<lparr>de_inum = i, de_name = new_name name\<rparr>"
    using new_name_eq(1) [OF assms(1)]
    by (simp add: decode_dirent_def encode_dirent_def get16_def get_bytes_def)
  then show ?thesis using namecmp_new_name [OF assms] by blast
qed

lemma dirent_roundtrip_witness:
  "namecmp [97, 98] (new_name [97, 98]) = 0 \<and> namecmp [97] (new_name [97, 98]) \<noteq> 0"
  using dirent_roundtrip [of "[97, 98]" "[97, 98]" 5] dirent_roundtrip [of "[97, 98]" "[97]" 5]
  by (simp add: DIRSIZ_def)

end
