(* ===== verification/Fs_File.thy ===== *)
theory Fs_File
  imports Fs_Inode
begin

text \<open>
  The contents of files: what \<^verbatim>\<open>bmap\<close>, \<^verbatim>\<open>readi\<close> and \<^verbatim>\<open>writei\<close> of \<^verbatim>\<open>fs.c\<close> do, inside a transaction of one process, to the blocks that
  the kernel sees through the buffer cache and the log.
\<close>

section \<open>The free map\<close>

definition is_used :: "(nat \<Rightarrow> block) \<Rightarrow> superblock \<Rightarrow> nat \<Rightarrow> bool" where
  "is_used V sb b \<longleftrightarrow> in_use (b mod BPB) (V (BBLOCK b sb))"

lemma bmask_bit: "bit (bmask bi) n \<longleftrightarrow> n = bi mod 8"
  by (auto simp: bmask_def bit_simps)

lemma in_use_bit: "in_use bi d \<longleftrightarrow> bit (d ! (bi div 8)) (bi mod 8)"
proof -
  have "d ! (bi div 8) AND bmask bi = 0 \<longleftrightarrow> \<not> bit (d ! (bi div 8)) (bi mod 8)"
  proof
    assume z: "d ! (bi div 8) AND bmask bi = 0"
    have "\<not> bit (d ! (bi div 8) AND bmask bi) (bi mod 8)" unfolding z by simp
    then show "\<not> bit (d ! (bi div 8)) (bi mod 8)" by (simp add: bit_and_iff bmask_bit)
  next
    assume "\<not> bit (d ! (bi div 8)) (bi mod 8)"
    then show "d ! (bi div 8) AND bmask bi = 0" by (intro bit_word_eqI) (auto simp: bit_and_iff bmask_bit)
  qed
  then show ?thesis by (simp add: in_use_def)
qed

lemma in_use_set_used:
  assumes "length d = BSIZE" "bi < BPB" "k < BPB"
  shows "in_use k (set_used bi d) \<longleftrightarrow> k = bi \<or> in_use k d"
proof (cases "k div 8 = bi div 8")
  case True
  have "bi div 8 < length d" using assms(1,2) by (simp add: BPB_def BSIZE_def) 
  then have "in_use k (set_used bi d) \<longleftrightarrow> in_use k d \<or> k mod 8 = bi mod 8"
    using True by (simp add: in_use_bit set_used_def bit_or_iff bmask_bit)
  moreover have "k mod 8 = bi mod 8 \<longleftrightarrow> k = bi" using True by (metis div_mod_decomp)
  ultimately show ?thesis by blast
next
  case False
  then show ?thesis by (auto simp: in_use_bit set_used_def)
qed

lemma length_set_used [simp]: "length (set_used bi d) = length d"
  by (simp add: set_used_def)

text \<open>The blocks that the free map leaves free are blocks for data.\<close>

definition data_block :: "superblock \<Rightarrow> nat \<Rightarrow> nat \<Rightarrow> nat \<Rightarrow> bool" where
  "data_block sb st sz b \<longleftrightarrow> 1 < b \<and> b < sb_size sb \<and> home st sz b \<and> (\<forall>c < sb_size sb. b \<noteq> BBLOCK c sb) \<and>
     (\<forall>i < sb_ninodes sb. b \<noteq> IBLOCK i sb)"

definition map_ok :: "(nat \<Rightarrow> block) \<Rightarrow> superblock \<Rightarrow> nat \<Rightarrow> nat \<Rightarrow> nat \<Rightarrow> bool" where
  "map_ok V sb st sz n \<longleftrightarrow> sb_size sb \<le> n \<and> (\<forall>b < sb_size sb. BBLOCK b sb < n \<and> home st sz (BBLOCK b sb)) \<and>
     (\<forall>b < sb_size sb. \<not> is_used V sb b \<longrightarrow> data_block sb st sz b)"

lemma map_ok_mono:
  assumes "map_ok V sb st sz n" "\<And>b. b < sb_size sb \<Longrightarrow> is_used V sb b \<Longrightarrow> is_used V' sb b"
  shows "map_ok V' sb st sz n"
  using assms by (auto simp: map_ok_def)

text \<open>A new block: its bit is set and it is cleared.\<close>

definition take_new :: "superblock \<Rightarrow> nat \<Rightarrow> (nat \<Rightarrow> block) \<Rightarrow> nat \<Rightarrow> block" where
  "take_new sb b V = V(BBLOCK b sb := set_used (b mod BPB) (V (BBLOCK b sb)), b := replicate BSIZE 0)"

lemma used_take_new:
  assumes "data_block sb st sz b" "length (V (BBLOCK b sb)) = BSIZE" "c < sb_size sb"
  shows "is_used (take_new sb b V) sb c \<longleftrightarrow> c = b \<or> is_used V sb c"
proof -
  have ne: "BBLOCK c sb \<noteq> b" using assms(1,3) by (auto simp: data_block_def)
  show ?thesis
  proof (cases "BBLOCK c sb = BBLOCK b sb")
    case True
    then have "c div BPB = b div BPB" by (simp add: BBLOCK_def)
    then have "c mod BPB = b mod BPB \<longleftrightarrow> c = b" by (metis div_mod_decomp)
    then show ?thesis using True ne assms(2)
      by (simp add: is_used_def take_new_def in_use_set_used BPB_def BSIZE_def)
  next
    case False
    then have "c \<noteq> b" by auto
    then show ?thesis using False ne by (simp add: is_used_def take_new_def)
  qed
qed

section \<open>Allocating a block\<close>

text \<open>Room for \<open>k\<close> more blocks in the log and in the cache.\<close>

definition room :: "(nat \<rightharpoonup> nat) \<Rightarrow> nat list \<Rightarrow> dsk \<Rightarrow> nat \<Rightarrow> bool" where
  "room H bs d k \<longleftrightarrow> card (dom H) + length bs + k < NBUF \<and> length bs + k < lg_size (lg d)"

abbreviation view :: "dsk \<Rightarrow> nat \<Rightarrow> block" where "view d \<equiv> bview (bc d)"

definition in_trans :: "int \<Rightarrow> (nat \<rightharpoonup> nat) \<Rightarrow> nat list \<Rightarrow> superblock \<Rightarrow> dsk \<Rightarrow> bool" where
  "in_trans pid H bs sb d \<longleftrightarrow> log_held pid H bs d \<and> 1 \<le> lg_outstanding (lg d) \<and>
     map_ok (view d) sb (lg_start (lg d)) (lg_size (lg d)) (disksize (bc d))"

lemma in_trans_bio: "in_trans pid H bs sb d \<Longrightarrow> bio_inv (bc d)"
  using held_inv by (auto simp: in_trans_def log_held_def)

lemma in_trans_cong:
  assumes "in_trans pid H bs sb d" "log_held pid H' bs' d'" "same_log d d'" "\<And>b. b < sb_size sb \<Longrightarrow> is_used (view d) sb b \<Longrightarrow> is_used (view d') sb b"
  shows "in_trans pid H' bs' sb d'"
proof -
  have "map_ok (view d') sb (lg_start (lg d)) (lg_size (lg d)) (disksize (bc d))"
    by (rule map_ok_mono [OF _ assms(4)]) (use assms(1) in \<open>simp_all add: in_trans_def\<close>)
  then show ?thesis using assms(1,2,3) by (simp add: in_trans_def same_log_def same_disk_def)
qed

lemma upd_block_room:
  assumes "log_held pid H bs d" "1 \<le> lg_outstanding (lg d)" "b < disksize (bc d)" "b \<notin> ran H"
    "home (lg_start (lg d)) (lg_size (lg d)) b" "room H bs d 1" "length (f (view d b)) = BSIZE"
  shows "\<exists>d' bs'. upd_block pid 1 b f d = Ok d' \<and> log_held pid H bs' d' \<and> view d' = (view d)(b := f (view d b)) \<and> same_log d d' \<and>
    length bs' \<le> length bs + 1"
proof -
  have r: "card (dom H) + length bs + 1 < NBUF" "length bs + 1 < lg_size (lg d)" using assms(6) by (simp_all add: room_def)
  obtain d' where "upd_block pid 1 b f d = Ok d'" "log_held pid H (add_block b bs) d'" "view d' = (view d)(b := f (view d b))" "same_log d d'"
    by (rule upd_block_spec [where f = f, OF assms(1,3,4,5) r assms(2,7)])
  moreover have "length (add_block b bs) \<le> length bs + 1" by (simp add: add_block_def)
  ultimately show ?thesis by blast
qed

lemma get_block_room:
  assumes "log_held pid H bs d" "b < disksize (bc d)" "b \<notin> ran H" "room H bs d 0"
  shows "\<exists>d'. get_block pid 1 b d = Ok (view d b, d') \<and> log_held pid H bs d' \<and> view d' = view d \<and> same_log d d'"
proof -
  have "card (dom H) + length bs < NBUF" using assms(4) by (simp add: room_def)
  from get_block_spec [OF assms(1-3) this] show ?thesis by metis
qed

lemma room_less: "room H bs d k \<Longrightarrow> same_log d d' \<Longrightarrow> length bs' + j \<le> length bs + k \<Longrightarrow> room H bs' d' j"
  by (simp add: room_def same_log_def)

lemma bitmap_read:
  assumes "in_trans pid H bs sb d" "b < disksize (bc d)" "b \<notin> ran H" "room H bs d 0"
  obtains i s where "bread pid 1 b (bc d) = Ok (i, s)" "b_data (bufs s ! i) = view d b"
proof -
  have h: "held pid H (set bs) (bc d)" using assms(1) by (simp add: in_trans_def log_held_def)
  have "b \<in> set bs \<or> finite (set bs) \<and> card (dom H) + card (set bs) < NBUF"
    using assms(4) card_length [of bs] by (simp add: room_def)
  from held_bread [OF h assms(2,3) this] that show thesis by blast
qed

definition found :: "superblock \<Rightarrow> (nat \<Rightarrow> block) \<Rightarrow> nat \<Rightarrow> nat option" where
  "found sb V x = find (\<lambda>bi. x + bi < sb_size sb \<and> \<not> in_use bi (V (BBLOCK x sb))) [0..<BPB]"

lemma balloc_loop_step:
  assumes "in_trans pid H bs sb d" "BBLOCK x sb < disksize (bc d)" "BBLOCK x sb \<notin> ran H" "room H bs d 0"
  shows "balloc_loop pid 1 sb (x # xs) d =
    (case found sb (view d) x of
       Some bi \<Rightarrow> bnd (upd_block pid 1 (BBLOCK x sb) (set_used bi) d) (\<lambda>d. bnd (bzero pid 1 (x + bi) d) (\<lambda>d. Ok (x + bi, d)))
     | None \<Rightarrow> bnd (get_block pid 1 (BBLOCK x sb) d) (\<lambda>(_, d). balloc_loop pid 1 sb xs d))"
proof -
  obtain i s where b: "bread pid 1 (BBLOCK x sb) (bc d) = Ok (i, s)" "b_data (bufs s ! i) = view d (BBLOCK x sb)"
    by (rule bitmap_read [OF assms])
  show ?thesis
    by (cases "found sb (view d) x")
      (simp_all add: b found_def upd_block_def get_block_def bnd_assoc case_prod_unfold del: One_nat_def)
qed

lemma found_Some:
  assumes "found sb V x = Some bi" "x mod BPB = 0"
  shows "x + bi < sb_size sb" "\<not> is_used V sb (x + bi)" "(x + bi) mod BPB = bi" "BBLOCK (x + bi) sb = BBLOCK x sb"
proof -
  have f: "bi < BPB" "x + bi < sb_size sb" "\<not> in_use bi (V (BBLOCK x sb))"
    using find_Some_iff [OF assms(1) [unfolded found_def]] by auto
  show "x + bi < sb_size sb" by (rule f(2))
  show m: "(x + bi) mod BPB = bi" using f(1) assms(2) by (metis add_0 mod_add_left_eq mod_less)
  have "(x + bi) div BPB = x div BPB" using f(1) assms(2) by (simp add: div_add1_eq)
  then show b: "BBLOCK (x + bi) sb = BBLOCK x sb" by (simp add: BBLOCK_def)
  show "\<not> is_used V sb (x + bi)" using f(3) by (simp add: is_used_def m b)
qed

lemma found_None:
  assumes "found sb V x = None" "x mod BPB = 0" "x \<le> b" "b < x + BPB" "b < sb_size sb"
  shows "is_used V sb b"
proof -
  let ?bi = "b - x"
  have "?bi < BPB" using assms(3,4) by simp
  moreover have "b = x + ?bi" using assms(3) by simp
  ultimately have m: "b mod BPB = ?bi" and "b div BPB = x div BPB"
    using assms(2) by (metis add_0 mod_add_left_eq mod_less, metis \<open>b - x < BPB\<close> \<open>b = x + (b - x)\<close> assms(2) add.right_neutral div_add1_eq div_less add_0 mod_add_left_eq mod_less)
  then have "BBLOCK b sb = BBLOCK x sb" by (simp add: BBLOCK_def)
  moreover have "in_use ?bi (V (BBLOCK x sb))"
    using assms(1,3,5) \<open>?bi < BPB\<close> by (simp add: found_def find_None_iff)
  ultimately show ?thesis by (simp add: is_used_def m)
qed

text \<open>The blocks that are held while the map is searched are blocks in use and no part of the map.\<close>

definition holds_used :: "(nat \<rightharpoonup> nat) \<Rightarrow> superblock \<Rightarrow> (nat \<Rightarrow> block) \<Rightarrow> bool" where
  "holds_used H sb V \<longleftrightarrow> (\<forall>x\<in>ran H. is_used V sb x \<and> (\<forall>c < sb_size sb. x \<noteq> BBLOCK c sb))"

lemma balloc_loop_spec:
  assumes "in_trans pid H bs sb d" "room H bs d 2" "holds_used H sb (view d)" "\<forall>x\<in>set xs. x mod BPB = 0 \<and> x < sb_size sb"
    "\<exists>x\<in>set xs. found sb (view d) x \<noteq> None"
  shows "\<exists>b d' bs'. balloc_loop pid 1 sb xs d = Ok (b, d') \<and> b < sb_size sb \<and> \<not> is_used (view d) sb b \<and> log_held pid H bs' d' \<and>
    view d' = take_new sb b (view d) \<and> same_log d d' \<and> length bs' \<le> length bs + 2"
  using assms
proof (induction xs arbitrary: d)
  case (Cons x xs)
  have x: "x mod BPB = 0" "x < sb_size sb" using Cons.prems(4) by simp_all
  have mo: "map_ok (view d) sb (lg_start (lg d)) (lg_size (lg d)) (disksize (bc d))" and lh: "log_held pid H bs d"
    and out: "1 \<le> lg_outstanding (lg d)" using Cons.prems(1) by (simp_all add: in_trans_def)
  have B: "BBLOCK x sb < disksize (bc d)" "home (lg_start (lg d)) (lg_size (lg d)) (BBLOCK x sb)" "BBLOCK x sb \<notin> ran H"
    using mo x(2) Cons.prems(3) by (auto simp: map_ok_def holds_used_def)
  have r0: "room H bs d 0" using Cons.prems(2) by (simp add: room_def)
  note step = balloc_loop_step [OF Cons.prems(1) B(1,3) r0, of xs]
  show ?case
  proof (cases "found sb (view d) x")
    case None
    obtain d' where g: "get_block pid 1 (BBLOCK x sb) d = Ok (view d (BBLOCK x sb), d')" "log_held pid H bs d'"
      "view d' = view d" "same_log d d'"
      using get_block_room [OF lh B(1,3) r0] by (elim exE conjE)
    have t: "in_trans pid H bs sb d'" by (rule in_trans_cong [OF Cons.prems(1) g(2,4)]) (simp add: g(3))
    have "room H bs d' 2" using Cons.prems(2) g(4) by (simp add: room_def same_log_def)
    from Cons.IH [OF t this] Cons.prems(3-5) None g(3)
    obtain b e bs' where "balloc_loop pid 1 sb xs d' = Ok (b, e)" "b < sb_size sb" "\<not> is_used (view d) sb b" "log_held pid H bs' e"
      "view e = take_new sb b (view d)" "same_log d' e" "length bs' \<le> length bs + 2" by auto
    then show ?thesis using step None g(1) same_log_trans [OF g(4)] by auto
  next
    case (Some bi)
    note f = found_Some [OF Some x(1)]
    have db: "data_block sb (lg_start (lg d)) (lg_size (lg d)) (x + bi)" using mo f(1,2) by (simp add: map_ok_def)
    have len: "length (view d (BBLOCK x sb)) = BSIZE" by (rule bview_length [OF in_trans_bio [OF Cons.prems(1)]])
    have r1: "room H bs d 1" using Cons.prems(2) by (simp add: room_def)
    have ln: "length (set_used bi (view d (BBLOCK x sb))) = BSIZE" using len by simp
    obtain d1 bs1 where u: "upd_block pid 1 (BBLOCK x sb) (set_used bi) d = Ok d1" "log_held pid H bs1 d1"
      "view d1 = (view d)(BBLOCK x sb := set_used bi (view d (BBLOCK x sb)))" "same_log d d1" "length bs1 \<le> length bs + 1"
      using upd_block_room [OF lh out B(1,3,2) r1, of "set_used bi", OF ln] by (elim exE conjE)
    have n: "x + bi < disksize (bc d1)" "home (lg_start (lg d1)) (lg_size (lg d1)) (x + bi)" "1 \<le> lg_outstanding (lg d1)"
      using u(4) db mo out by (auto simp: same_log_def same_disk_def data_block_def map_ok_def)
    have nr: "x + bi \<notin> ran H" using Cons.prems(3) f(2) by (auto simp: holds_used_def)
    have r2: "room H bs1 d1 1" by (rule room_less [OF Cons.prems(2) u(4)]) (use u(5) in simp)
    obtain d2 bs2 where z: "upd_block pid 1 (x + bi) (\<lambda>_. replicate BSIZE 0) d1 = Ok d2" "log_held pid H bs2 d2"
      "view d2 = (view d1)(x + bi := replicate BSIZE 0)" "same_log d1 d2" "length bs2 \<le> length bs1 + 1"
      using upd_block_room [OF u(2) n(3,1) nr n(2) r2, of "\<lambda>_. replicate BSIZE 0", OF length_replicate] by (elim exE conjE)
    have "view d2 = take_new sb (x + bi) (view d)" by (simp add: z(3) u(3) take_new_def f(3,4))
    moreover have "balloc_loop pid 1 sb (x # xs) d = Ok (x + bi, d2)" using step Some u(1) z(1) by (simp add: bzero_def)
    moreover have "length bs2 \<le> length bs + 2" using u(5) z(5) by simp
    ultimately show ?thesis using f(1,2) z(2) same_log_trans [OF u(4) z(4)] by blast
  qed
qed simp

text \<open>The number of free blocks.\<close>

definition nfree :: "(nat \<Rightarrow> block) \<Rightarrow> superblock \<Rightarrow> nat" where
  "nfree V sb = card {b. b < sb_size sb \<and> \<not> is_used V sb b}"

lemma nfree_pos: "0 < nfree V sb \<Longrightarrow> \<exists>b < sb_size sb. \<not> is_used V sb b"
  unfolding nfree_def by (metis (no_types, lifting) card.empty empty_Collect_eq less_numeral_extra(3))

lemma nfree_take_new:
  assumes "data_block sb st sz b" "length (V (BBLOCK b sb)) = BSIZE" "\<not> is_used V sb b"
  shows "nfree (take_new sb b V) sb = nfree V sb - 1"
proof -
  have "{c. c < sb_size sb \<and> \<not> is_used (take_new sb b V) sb c} = {c. c < sb_size sb \<and> \<not> is_used V sb c} - {b}"
    using used_take_new [of sb st sz b V, OF assms(1,2)] by auto
  moreover have "b \<in> {c. c < sb_size sb \<and> \<not> is_used V sb c}" using assms(1,3) by (simp add: data_block_def)
  ultimately show ?thesis by (simp add: nfree_def)
qed

lemma balloc_spec:
  assumes "in_trans pid H bs sb d" "room H bs d 2" "holds_used H sb (view d)" "0 < nfree (view d) sb"
  shows "\<exists>b d' bs'. balloc pid 1 sb d = Ok (b, d') \<and> data_block sb (lg_start (lg d)) (lg_size (lg d)) b \<and> \<not> is_used (view d) sb b \<and>
    log_held pid H bs' d' \<and> view d' = take_new sb b (view d) \<and> same_log d d' \<and> length bs' \<le> length bs + 2"
proof -
  let ?xs = "map (\<lambda>k. k * BPB) [0..<(sb_size sb + BPB - 1) div BPB]"
  have B: "0 < BPB" by (simp add: BPB_def BSIZE_def)
  have lt: "k * BPB < sb_size sb" if "k < (sb_size sb + BPB - 1) div BPB" for k
  proof -
    have "(k + 1) * BPB \<le> (sb_size sb + BPB - 1) div BPB * BPB" using that by (intro mult_le_mono1) simp
    also have "\<dots> \<le> sb_size sb + BPB - 1" by (rule div_times_less_eq_dividend)
    finally show ?thesis using B by (simp add: algebra_simps)
  qed
  obtain b where b: "b < sb_size sb" "\<not> is_used (view d) sb b" using nfree_pos [OF assms(4)] by blast
  have "b div BPB < (sb_size sb + BPB - 1) div BPB"
  proof -
    have "(b + BPB) div BPB \<le> (sb_size sb + BPB - 1) div BPB" using b(1) by (intro div_le_mono) simp
    moreover have "(b + BPB) div BPB = b div BPB + 1" using B by (intro div_add_self2) simp
    ultimately show ?thesis by linarith
  qed
  then have x: "b div BPB * BPB \<in> set ?xs" by auto
  have "b < b div BPB * BPB + BPB" using B by (metis add.commute dividend_less_div_times)
  then have "found sb (view d) (b div BPB * BPB) \<noteq> None"
    using found_None [of sb "view d" "b div BPB * BPB" b] b div_times_less_eq_dividend [of b BPB] by auto
  then have "\<exists>x\<in>set ?xs. found sb (view d) x \<noteq> None" using x by blast
  moreover have "\<forall>x\<in>set ?xs. x mod BPB = 0 \<and> x < sb_size sb" using lt by auto
  ultimately obtain c d' bs' where r: "balloc_loop pid 1 sb ?xs d = Ok (c, d')" "c < sb_size sb" "\<not> is_used (view d) sb c"
    "log_held pid H bs' d'" "view d' = take_new sb c (view d)" "same_log d d'" "length bs' \<le> length bs + 2"
    using balloc_loop_spec [OF assms(1-3), of ?xs] by blast
  have "data_block sb (lg_start (lg d)) (lg_size (lg d)) c" using assms(1) r(2,3) by (simp add: in_trans_def map_ok_def)
  then show ?thesis using r unfolding balloc_def by blast
qed

lemma in_trans_take_new:
  assumes "in_trans pid H bs sb d" "data_block sb (lg_start (lg d)) (lg_size (lg d)) b" "log_held pid H' bs' d'"
    "view d' = take_new sb b (view d)" "same_log d d'"
  shows "in_trans pid H' bs' sb d'"
  by (rule in_trans_cong [OF assms(1,3,5)])
    (use used_take_new [of sb _ _ b "view d", OF assms(2) bview_length [OF in_trans_bio [OF assms(1)]]] in \<open>simp add: assms(4)\<close>)

section \<open>Changing a buffer that is held\<close>

lemma finish_held:
  assumes lh: "log_held pid H bs d" and i: "H i = Some b" and out: "1 \<le> lg_outstanding (lg d)"
    and hm: "home (lg_start (lg d)) (lg_size (lg d)) b" and r: "room Map.empty bs d 1" and f: "length (f (view d b)) = BSIZE"
  shows "\<exists>d1 s bs'. log_write i (set_bc d (upd_buf i (\<lambda>u. u\<lparr>b_data := f (b_data u)\<rparr>) (bc d))) = Ok d1 \<and> brelse pid i (bc d1) = Ok s \<and>
    log_held pid (H(i := None)) bs' (set_bc d1 s) \<and> bview s = (view d)(b := f (view d b)) \<and> same_log d (set_bc d1 s) \<and>
    length bs' \<le> length bs + 1"
proof -
  have hd: "held pid H (set bs) (bc d)" using lh by (simp add: log_held_def)
  have data: "b_data (bufs (bc d) ! i) = view d b"
    using held_owns [OF hd i] bview_cached [OF held_inv [OF hd]] by (auto simp: owns_buf_def)
  define s2 where "s2 = upd_buf i (\<lambda>u. u\<lparr>b_data := f (b_data u)\<rparr>) (bc d)"
  have m: "held pid H (set bs) s2" "bview s2 = (view d)(b := f (view d b))" "same_disk (bc d) s2"
    using held_data [OF hd i, of f] f data by (simp_all add: s2_def same_disk_def)
  have l2: "log_held pid H bs (set_bc d s2)" by (rule log_held_set_bc [OF lh m(1,3)])
  have lg2: "lg (set_bc d s2) = lg d" by (simp add: set_bc_def)
  have rr: "length bs + 1 < lg_size (lg d)" "length bs + 1 < NBUF" using r by (simp_all add: room_def)
  obtain d3 where w: "log_write i (set_bc d s2) = Ok d3" "log_held pid H (add_block b bs) d3"
    "bview (bc d3) = bview s2" "same_disk s2 (bc d3)" "lg_start (lg d3) = lg_start (lg d)" "lg_size (lg d3) = lg_size (lg d)"
    "lg_outstanding (lg d3) = lg_outstanding (lg d)" "lg_committing (lg d3) = lg_committing (lg d)"
    using log_write_spec [OF l2 i, unfolded lg2, OF hm rr out] by (simp add: set_bc_def) metis
  have h3: "held pid H (set (add_block b bs)) (bc d3)" using w(2) by (simp add: log_held_def)
  have cl: "b \<in> set (add_block b bs) \<or> b_data (bufs (bc d3) ! i) = disk (bc d3) b" by simp
  obtain s4 where r4: "brelse pid i (bc d3) = Ok s4" "held pid (H(i := None)) (set (add_block b bs)) s4"
    "bview s4 = bview (bc d3)" "same_disk (bc d3) s4"
    by (rule held_brelse [OF h3 i cl])
  have "log_held pid (H(i := None)) (add_block b bs) (set_bc d3 s4)" by (rule log_held_set_bc [OF w(2) r4(2,4)])
  moreover have "same_log d (set_bc d3 s4)" using w m(3) r4(4) by (simp add: same_log_def set_bc_def same_disk_def)
  moreover have "length (add_block b bs) \<le> length bs + 1" by (simp add: add_block_def)
  ultimately show ?thesis using w(1,3) r4(1,3) m(2) unfolding s2_def [symmetric] by auto
qed

section \<open>The blocks of a file\<close>

text \<open>Block \<open>bn\<close> of the file with the addresses \<open>A\<close>, 0 for a hole.\<close>

definition fmap :: "(nat \<Rightarrow> block) \<Rightarrow> u32 list \<Rightarrow> nat \<Rightarrow> nat" where
  "fmap V A bn =
     (if bn < NDIRECT then unat (A ! bn)
      else if A ! NDIRECT = 0 then 0
      else unat (get32 (4 * (bn - NDIRECT)) (V (unat (A ! NDIRECT)))))"

definition good :: "(nat \<Rightarrow> block) \<Rightarrow> superblock \<Rightarrow> nat \<Rightarrow> nat \<Rightarrow> nat \<Rightarrow> bool" where
  "good V sb st sz b \<longleftrightarrow> data_block sb st sz b \<and> is_used V sb b"

definition file_ok :: "(nat \<Rightarrow> block) \<Rightarrow> superblock \<Rightarrow> nat \<Rightarrow> nat \<Rightarrow> u32 list \<Rightarrow> bool" where
  "file_ok V sb st sz A \<longleftrightarrow> length A = NDIRECT + 1 \<and>
     (A ! NDIRECT \<noteq> 0 \<longrightarrow> good V sb st sz (unat (A ! NDIRECT))) \<and>
     (\<forall>m<MAXFILE. fmap V A m \<noteq> 0 \<longrightarrow> good V sb st sz (fmap V A m) \<and> fmap V A m \<noteq> unat (A ! NDIRECT)) \<and>
     (\<forall>m<MAXFILE. \<forall>n<MAXFILE. fmap V A m \<noteq> 0 \<longrightarrow> fmap V A m = fmap V A n \<longrightarrow> m = n)"

lemma take_new_same: "good V sb st sz c \<Longrightarrow> \<not> is_used V sb b \<Longrightarrow> b < sb_size sb \<Longrightarrow> take_new sb b V c = V c"
  by (auto simp: good_def data_block_def take_new_def)

lemma take_new_zero: "data_block sb st sz b \<Longrightarrow> take_new sb b V b = replicate BSIZE 0"
  by (simp add: take_new_def)

lemma good_take_new:
  assumes "data_block sb st sz b" "length (V (BBLOCK b sb)) = BSIZE"
  shows "good V sb st sz c \<Longrightarrow> good (take_new sb b V) sb st sz c" "good (take_new sb b V) sb st sz b"
  using used_take_new [of sb st sz b V, OF assms] assms(1) by (auto simp: good_def data_block_def)

text \<open>A free block becomes a direct block, or the empty indirect block, of the file.\<close>

lemma NDIRECT_less: "NDIRECT < MAXFILE" "NDIRECT = 12"
  by (simp_all add: NDIRECT_def MAXFILE_def NINDIRECT_def BSIZE_def)

lemma fmap_new_slot:
  assumes f: "file_ok V sb st sz A" and b: "data_block sb st sz b" "\<not> is_used V sb b" "b < 2 ^ 32" and k: "k \<le> NDIRECT" "A ! k = 0"
    and m: "m < MAXFILE"
  shows "fmap (take_new sb b V) (A[k := of_nat b]) m = (if m = k \<and> k < NDIRECT then b else fmap V A m)"
proof -
  have len: "length A = NDIRECT + 1" using f by (simp add: file_ok_def)
  have ub: "unat (of_nat b :: u32) = b" using b(3) by (simp add: unat_of_nat take_bit_nat_eq_self_iff)
  have bs: "b < sb_size sb" "b \<noteq> 0" using b(1) by (simp_all add: data_block_def)
  consider "m < NDIRECT" | "\<not> m < NDIRECT" "k < NDIRECT" | "\<not> m < NDIRECT" "k = NDIRECT" using k(1) by linarith
  then show ?thesis
  proof cases
    case 1
    then show ?thesis using len ub by (auto simp: fmap_def nth_list_update)
  next
    case 2
    have "take_new sb b V (unat (A ! NDIRECT)) = V (unat (A ! NDIRECT))" if "A ! NDIRECT \<noteq> 0"
      by (rule take_new_same [of V sb st sz "unat (A ! NDIRECT)" b, OF _ b(2) bs(1)]) (use f that in \<open>simp add: file_ok_def\<close>)
    then show ?thesis using 2 by (simp add: fmap_def)
  next
    case 3
    have "get32 (4 * (m - NDIRECT)) (replicate BSIZE 0) = 0"
    proof -
      have "4 * (m - NDIRECT) + 3 < BSIZE" using m by (simp add: MAXFILE_def NINDIRECT_def BSIZE_def)
      then show ?thesis by (simp add: get32_def join4_def)
    qed
    moreover have "of_nat b \<noteq> (0 :: u32)" using ub bs(2) by (metis unsigned_0)
    ultimately show ?thesis using 3 len k(2) ub take_new_zero [OF b(1), of V] by (simp add: fmap_def)
  qed
qed

lemma file_ok_new_slot:
  assumes f: "file_ok V sb st sz A" and b: "data_block sb st sz b" "\<not> is_used V sb b" "b < 2 ^ 32" and k: "k \<le> NDIRECT" "A ! k = 0"
    and len: "length (V (BBLOCK b sb)) = BSIZE"
  shows "file_ok (take_new sb b V) sb st sz (A[k := of_nat b])"
proof -
  note fm = fmap_new_slot [OF f b k]
  have la: "length A = NDIRECT + 1" using f by (simp add: file_ok_def)
  have ub: "unat (of_nat b :: u32) = b" using b(3) by (simp add: unat_of_nat take_bit_nat_eq_self_iff)
  have old: "c \<noteq> b" if "good V sb st sz c" for c using that b(2) by (auto simp: good_def)
  have g: "good V sb st sz (fmap V A m)" "fmap V A m \<noteq> unat (A ! NDIRECT)" if "m < MAXFILE" "fmap V A m \<noteq> 0" for m
    using f that by (simp_all add: file_ok_def)
  have inj: "m = n" if "m < MAXFILE" "n < MAXFILE" "fmap V A m \<noteq> 0" "fmap V A m = fmap V A n" for m n
    using f that by (simp add: file_ok_def)
  have ind: "unat (A[k := of_nat b] ! NDIRECT) = (if k = NDIRECT then b else unat (A ! NDIRECT))"
    using la ub by (simp add: nth_list_update)
  have gi: "good V sb st sz (unat (A ! NDIRECT))" if "A ! NDIRECT \<noteq> 0" using f that by (simp add: file_ok_def)
  have nb: "unat (A ! NDIRECT) \<noteq> b" using gi old b(1) by (cases "A ! NDIRECT = 0") (auto simp: data_block_def)
  show ?thesis unfolding file_ok_def
  proof (intro conjI allI impI)
    show "length (A[k := of_nat b]) = NDIRECT + 1" using la by simp
    show "good (take_new sb b V) sb st sz (unat (A[k := of_nat b] ! NDIRECT))" if "A[k := of_nat b] ! NDIRECT \<noteq> 0"
      using that good_take_new [of sb st sz b V, OF b(1) len] gi la ind by (cases "k = NDIRECT") auto
  next
    fix m
    assume m: "m < MAXFILE" and nz: "fmap (take_new sb b V) (A[k := of_nat b]) m \<noteq> 0"
    show "good (take_new sb b V) sb st sz (fmap (take_new sb b V) (A[k := of_nat b]) m)"
      using nz good_take_new [of sb st sz b V, OF b(1) len] g(1) [OF m] unfolding fm [OF m] by (auto split: if_splits)
    show "fmap (take_new sb b V) (A[k := of_nat b]) m \<noteq> unat (A[k := of_nat b] ! NDIRECT)"
      using nz g [OF m] old nb unfolding fm [OF m] ind by (auto split: if_splits)
  next
    fix m n
    assume m: "m < MAXFILE" and n: "n < MAXFILE" and nz: "fmap (take_new sb b V) (A[k := of_nat b]) m \<noteq> 0"
      and eq: "fmap (take_new sb b V) (A[k := of_nat b]) m = fmap (take_new sb b V) (A[k := of_nat b]) n"
    show "m = n" using nz eq inj [OF m n] g(1) [OF m] g(1) [OF n] old b(1) unfolding fm [OF m] fm [OF n]
      by (auto simp: data_block_def split: if_splits)
  qed
qed

text \<open>A free block becomes an indirect block of the file.\<close>

definition set_entry :: "nat \<Rightarrow> nat \<Rightarrow> nat \<Rightarrow> (nat \<Rightarrow> block) \<Rightarrow> nat \<Rightarrow> block" where
  "set_entry ind bn b V = V(ind := put32 (4 * (bn - NDIRECT)) (of_nat b) (V ind))"

lemma fmap_set_entry:
  assumes "A ! NDIRECT \<noteq> 0" "length (V (unat (A ! NDIRECT))) = BSIZE" "b < 2 ^ 32" "NDIRECT \<le> bn" "bn < MAXFILE" "m < MAXFILE"
  shows "fmap (set_entry (unat (A ! NDIRECT)) bn b V) A m = (if m = bn then b else fmap V A m)"
proof (cases "m < NDIRECT")
  case True
  then show ?thesis using assms(4) by (simp add: fmap_def)
next
  case False
  have ub: "unat (of_nat b :: u32) = b" using assms(3) by (simp add: unat_of_nat take_bit_nat_eq_self_iff)
  have o: "4 * (bn - NDIRECT) + 4 \<le> BSIZE" "4 * (m - NDIRECT) + 4 \<le> BSIZE"
    using assms(4-6) False by (simp_all add: MAXFILE_def NINDIRECT_def BSIZE_def)
  show ?thesis
  proof (cases "m = bn")
    case True
    then show ?thesis using False assms(1,2) ub o(1) by (simp add: fmap_def set_entry_def)
  next
    case neq: False
    then have "4 * (m - NDIRECT) + 4 \<le> 4 * (bn - NDIRECT) \<or> 4 * (bn - NDIRECT) + 4 \<le> 4 * (m - NDIRECT)"
      using False assms(4) by linarith
    then show ?thesis using False neq assms(1,2) o by (simp add: fmap_def set_entry_def get32_put32_other)
  qed
qed

lemma used_set_entry: "data_block sb st sz ind \<Longrightarrow> c < sb_size sb \<Longrightarrow> is_used (set_entry ind bn b V) sb c = is_used V sb c"
  by (auto simp: is_used_def set_entry_def data_block_def)

lemma good_set_entry: "data_block sb st sz ind \<Longrightarrow> good (set_entry ind bn b V) sb st sz c = good V sb st sz c"
  using used_set_entry [of sb st sz ind c bn b V] by (auto simp: good_def data_block_def)

lemma file_ok_new_entry:
  assumes f: "file_ok V sb st sz A" and b: "data_block sb st sz b" "\<not> is_used V sb b" "b < 2 ^ 32"
    and bn: "NDIRECT \<le> bn" "bn < MAXFILE" "A ! NDIRECT \<noteq> 0" and len: "\<And>c. length (V c) = BSIZE"
  defines "W \<equiv> set_entry (unat (A ! NDIRECT)) bn b (take_new sb b V)"
  shows "file_ok W sb st sz A" "\<And>m. m < MAXFILE \<Longrightarrow> fmap W A m = (if m = bn then b else fmap V A m)"
proof -
  let ?i = "unat (A ! NDIRECT)" and ?T = "take_new sb b V"
  have gi: "good V sb st sz ?i" using f bn(3) by (simp add: file_ok_def)
  have bs: "b < sb_size sb" "b \<noteq> 0" using b(1) by (simp_all add: data_block_def)
  have ti: "?T ?i = V ?i" by (rule take_new_same [OF gi b(2) bs(1)])
  have ft: "fmap ?T A m = fmap V A m" for m by (simp add: fmap_def ti)
  show fm: "fmap W A m = (if m = bn then b else fmap V A m)" if "m < MAXFILE" for m
    using fmap_set_entry [OF bn(3) _ b(3) bn(1,2) that, of ?T] len unfolding W_def ft ti by simp
  have di: "data_block sb st sz ?i" using gi by (simp add: good_def)
  have gW: "good W sb st sz c" if "good V sb st sz c \<or> c = b" for c
    using good_take_new [of sb st sz b V, OF b(1) len] that unfolding W_def good_set_entry [OF di] by blast
  have old: "c \<noteq> b" if "good V sb st sz c" for c using that b(2) by (auto simp: good_def)
  have g: "good V sb st sz (fmap V A m)" "fmap V A m \<noteq> ?i" if "m < MAXFILE" "fmap V A m \<noteq> 0" for m
    using f that by (simp_all add: file_ok_def)
  have inj: "m = n" if "m < MAXFILE" "n < MAXFILE" "fmap V A m \<noteq> 0" "fmap V A m = fmap V A n" for m n
    using f that by (simp add: file_ok_def)
  show "file_ok W sb st sz A" unfolding file_ok_def
  proof (intro conjI allI impI)
    show "length A = NDIRECT + 1" using f by (simp add: file_ok_def)
    show "good W sb st sz ?i" using gW gi by blast
  next
    fix m
    assume m: "m < MAXFILE" and nz: "fmap W A m \<noteq> 0"
    show "good W sb st sz (fmap W A m)" using nz gW g(1) [OF m] unfolding fm [OF m] by (auto split: if_splits)
    show "fmap W A m \<noteq> ?i" using nz g(2) [OF m] old [OF gi] unfolding fm [OF m] by (auto split: if_splits)
  next
    fix m n
    assume m: "m < MAXFILE" and n: "n < MAXFILE" and nz: "fmap W A m \<noteq> 0" and eq: "fmap W A m = fmap W A n"
    show "m = n" using nz eq inj [OF m n] g(1) [OF m] g(1) [OF n] old bs(2) unfolding fm [OF m] fm [OF n] by (auto split: if_splits)
  qed
qed

section \<open>Looking up and adding blocks\<close>

abbreviation st_of :: "dsk \<Rightarrow> nat" where "st_of d \<equiv> lg_start (lg d)"
abbreviation sz_of :: "dsk \<Rightarrow> nat" where "sz_of d \<equiv> lg_size (lg d)"

text \<open>The file system with new addresses of one inode and a new disk.\<close>

definition with_file :: "nat \<Rightarrow> u32 list \<Rightarrow> dsk \<Rightarrow> 'a fs_scheme \<Rightarrow> 'a fs_scheme" where
  "with_file ip A d s = upd_inode ip (\<lambda>i. i\<lparr>i_addrs := A\<rparr>) (set_dk s d)"

lemma with_file_same: "ip < length (icache s) \<Longrightarrow> with_file ip (i_addrs (icache s ! ip)) d s = set_dk s d"
  by (simp add: with_file_def upd_inode_def set_dk_def list_update_id)

lemma with_file_simps [simp]:
  "fdk (with_file ip A d s) = d" "fsb (with_file ip A d s) = fsb s" "length (icache (with_file ip A d s)) = length (icache s)"
  "set_dk (with_file ip A d s) d' = with_file ip A d' s"
  "with_file ip A' d' (with_file ip A d s) = with_file ip A' d' s"
  by (simp_all add: with_file_def upd_inode_def set_dk_def) (cases "ip < length (icache s)"; simp add: list_update_beyond)+

lemma with_file_inode [simp]:
  "ip < length (icache s) \<Longrightarrow> icache (with_file ip A d s) ! ip = (icache s ! ip)\<lparr>i_addrs := A\<rparr>"
  by (simp add: with_file_def upd_inode_def set_dk_def)

lemma block_u32:
  assumes "in_trans pid H bs sb d" "b < sb_size sb"
  shows "b < 2 ^ 32" "b < disksize (bc d)"
  using assms by (auto simp: in_trans_def log_held_def log_fits_def map_ok_def)

lemma in_trans_len: "in_trans pid H bs sb d \<Longrightarrow> length (view d c) = BSIZE"
  by (rule bview_length [OF in_trans_bio])

lemma addr_slot_spec:
  assumes t: "in_trans pid Map.empty bs sb (fdk s)" and sb: "fsb s = sb" and ip: "ip < length (icache s)" "i_dev (icache s ! ip) = 1"
    and A: "i_addrs (icache s ! ip) = A" "file_ok (view (fdk s)) sb (st_of (fdk s)) (sz_of (fdk s)) A"
    and k: "k \<le> NDIRECT" and r: "room Map.empty bs (fdk s) 2" and n: "0 < nfree (view (fdk s)) sb"
  shows "\<exists>A' d' bs'. addr_slot pid ip k s = Ok (unat (A' ! k), with_file ip A' d' s) \<and> in_trans pid Map.empty bs' sb d' \<and> same_log (fdk s) d' \<and>
    length bs' \<le> length bs + 2 \<and> file_ok (view d') sb (st_of (fdk s)) (sz_of (fdk s)) A' \<and> A' ! k \<noteq> 0 \<and>
    nfree (view (fdk s)) sb - 1 \<le> nfree (view d') sb \<and> (A ! k \<noteq> 0 \<longrightarrow> A' = A \<and> view d' = view (fdk s)) \<and>
    (A ! k = 0 \<longrightarrow> (\<exists>b. data_block sb (st_of (fdk s)) (sz_of (fdk s)) b \<and> \<not> is_used (view (fdk s)) sb b \<and> b < 2 ^ 32 \<and>
       A' = A[k := of_nat b] \<and> view d' = take_new sb b (view (fdk s))))"
proof (cases "A ! k = 0")
  case False
  then have "addr_slot pid ip k s = Ok (unat (A ! k), with_file ip A (fdk s) s)"
    using with_file_same [OF ip(1), of "fdk s"] A(1) by (simp add: addr_slot_def set_dk_def)
  then show ?thesis using False t A(2) by (intro exI [of _ A] exI [of _ "fdk s"] exI [of _ bs]) simp
next
  case True
  have "holds_used Map.empty sb (view (fdk s))" by (simp add: holds_used_def)
  from balloc_spec [OF t r this n]
  obtain b d' bs' where b: "balloc pid 1 sb (fdk s) = Ok (b, d')" "data_block sb (st_of (fdk s)) (sz_of (fdk s)) b"
    "\<not> is_used (view (fdk s)) sb b" "log_held pid Map.empty bs' d'" "view d' = take_new sb b (view (fdk s))" "same_log (fdk s) d'"
    "length bs' \<le> length bs + 2" by (elim exE conjE)
  have b32: "b < 2 ^ 32" using block_u32(1) [OF t] b(2) by (simp add: data_block_def)
  have ub: "unat (of_nat b :: u32) = b" using b32 by (simp add: unat_of_nat take_bit_nat_eq_self_iff)
  have lk: "k < length A" using k A(2) by (simp add: file_ok_def)
  have "with_file ip (A[k := of_nat b]) d' s = upd_inode ip (\<lambda>i. i\<lparr>i_addrs := (i_addrs i)[k := of_nat b]\<rparr>) (set_dk s d')"
    using A(1) by (simp add: with_file_def upd_inode_def set_dk_def)
  then have "addr_slot pid ip k s = Ok (unat (A[k := of_nat b] ! k), with_file ip (A[k := of_nat b]) d' s)"
    using b(1) True A(1) ip(2) sb lk ub by (simp add: addr_slot_def)
  moreover have "in_trans pid Map.empty bs' sb d'" by (rule in_trans_take_new [OF t b(2,4,5,6)])
  moreover have "file_ok (view d') sb (st_of (fdk s)) (sz_of (fdk s)) (A[k := of_nat b])"
    unfolding b(5) by (rule file_ok_new_slot [OF A(2) b(2,3) b32 k True in_trans_len [OF t]])
  moreover have "A[k := of_nat b] ! k \<noteq> 0" using lk ub b(2) by (auto simp: data_block_def)
  moreover have "nfree (view d') sb = nfree (view (fdk s)) sb - 1"
    unfolding b(5) by (rule nfree_take_new [of sb _ _ b "view (fdk s)", OF b(2) in_trans_len [OF t] b(3)])
  ultimately show ?thesis using b(2,3,5,6,7) b32 True by (intro exI [of _ "A[k := of_nat b]"] exI [of _ d'] exI [of _ bs']) auto
qed

text \<open>What \<^verbatim>\<open>bmap\<close> does to a file: the block is there afterwards, new blocks are clear, all else stays.\<close>

definition mapped :: "superblock \<Rightarrow> nat \<Rightarrow> nat \<Rightarrow> nat \<Rightarrow> (nat \<Rightarrow> block) \<Rightarrow> u32 list \<Rightarrow> (nat \<Rightarrow> block) \<Rightarrow> u32 list \<Rightarrow> bool" where
  "mapped sb st sz bn V A V' A' \<longleftrightarrow> file_ok V' sb st sz A' \<and> fmap V' A' bn \<noteq> 0 \<and>
     (\<forall>m<MAXFILE. m \<noteq> bn \<longrightarrow> fmap V' A' m = fmap V A m) \<and>
     (if fmap V A bn \<noteq> 0 then fmap V' A' bn = fmap V A bn
      else V' (fmap V' A' bn) = replicate BSIZE 0 \<and> \<not> is_used V sb (fmap V' A' bn)) \<and>
     (\<forall>c. good V sb st sz c \<and> c \<noteq> unat (A ! NDIRECT) \<longrightarrow>
        V' c = V c \<and> good V' sb st sz c \<and> c \<noteq> unat (A' ! NDIRECT))"

lemma mapped_same: "file_ok V sb st sz A \<Longrightarrow> fmap V A bn \<noteq> 0 \<Longrightarrow> mapped sb st sz bn V A V A"
  by (simp add: mapped_def)

lemma mapped_new_slot:
  assumes f: "file_ok V sb st sz A" and b: "data_block sb st sz b" "\<not> is_used V sb b" "b < 2 ^ 32" and bn: "bn < NDIRECT" "A ! bn = 0"
    and len: "length (V (BBLOCK b sb)) = BSIZE"
  shows "mapped sb st sz bn V A (take_new sb b V) (A[bn := of_nat b])"
proof -
  let ?W = "take_new sb b V" and ?A = "A[bn := of_nat b]"
  have fm: "fmap ?W ?A m = (if m = bn then b else fmap V A m)" if "m < MAXFILE" for m
    using fmap_new_slot [OF f b less_imp_le [OF bn(1)] bn(2) that] bn(1) by simp
  have z: "fmap V A bn = 0" using bn by (simp add: fmap_def)
  have bM: "bn < MAXFILE" using bn(1) NDIRECT_less by simp
  have bs: "b < sb_size sb" "b \<noteq> 0" using b(1) by (simp_all add: data_block_def)
  have "?W c = V c \<and> good ?W sb st sz c" if "good V sb st sz c" for c
    using take_new_same [OF that b(2) bs(1)] good_take_new(1) [of sb st sz b V, OF b(1) len that] by simp
  moreover have "?A ! NDIRECT = A ! NDIRECT" using bn(1) by simp
  moreover have "file_ok ?W sb st sz ?A" by (rule file_ok_new_slot [OF f b less_imp_le [OF bn(1)] bn(2) len])
  ultimately show ?thesis unfolding mapped_def using fm bM z bs(2) b(2) take_new_zero [OF b(1)] by simp
qed

lemma mapped_new_entry:
  assumes f: "file_ok V sb st sz A" "A ! NDIRECT \<noteq> 0" and b: "data_block sb st sz b" "\<not> is_used V sb b" "b < 2 ^ 32"
    and bn: "NDIRECT \<le> bn" "bn < MAXFILE" "fmap V A bn = 0" and len: "\<And>c. length (V c) = BSIZE"
  shows "mapped sb st sz bn V A (set_entry (unat (A ! NDIRECT)) bn b (take_new sb b V)) A"
proof -
  let ?ind = "unat (A ! NDIRECT)"
  let ?W = "set_entry ?ind bn b (take_new sb b V)"
  have gi: "good V sb st sz ?ind" using f by (simp add: file_ok_def)
  then have di: "data_block sb st sz ?ind" by (simp add: good_def)
  note e = file_ok_new_entry [OF f(1) b bn(1,2) f(2) len]
  have bs: "b < sb_size sb" "b \<noteq> 0" using b(1) by (simp_all add: data_block_def)
  have "b \<noteq> ?ind" using gi b(2) by (auto simp: good_def)
  then have z: "?W b = replicate BSIZE 0" using take_new_zero [OF b(1)] by (simp add: set_entry_def)
  have keep: "?W c = V c \<and> good ?W sb st sz c" if "good V sb st sz c" "c \<noteq> ?ind" for c
    using take_new_same [OF that(1) b(2) bs(1)] good_take_new(1) [of sb st sz b V, OF b(1) len that(1)] that(2)
    unfolding good_set_entry [OF di] by (simp add: set_entry_def)
  show ?thesis unfolding mapped_def using e(1) e(2) bn bs(2) b(2) z keep by simp
qed

text \<open>The same when the indirect block was new itself.\<close>

lemma mapped_new_ind:
  assumes f: "file_ok V sb st sz A" "A ! NDIRECT = 0" and b: "data_block sb st sz b" "\<not> is_used V sb b" "b < 2 ^ 32"
    and bn: "NDIRECT \<le> bn" "bn < MAXFILE" and len: "length (V (BBLOCK b sb)) = BSIZE"
    and m: "mapped sb st sz bn (take_new sb b V) (A[NDIRECT := of_nat b]) W (A[NDIRECT := of_nat b])"
  shows "mapped sb st sz bn V A W (A[NDIRECT := of_nat b])"
proof -
  let ?V1 = "take_new sb b V" and ?A1 = "A[NDIRECT := of_nat b]"
  have bs: "b < sb_size sb" using b(1) by (simp add: data_block_def)
  have ind: "unat (?A1 ! NDIRECT) = b" using f(1) b(3) by (simp add: file_ok_def unat_of_nat take_bit_nat_eq_self_iff)
  have fm: "fmap ?V1 ?A1 j = fmap V A j" if "j < MAXFILE" for j using fmap_new_slot [OF f(1) b order_refl f(2) that] by simp
  have keep: "?V1 c = V c \<and> good ?V1 sb st sz c \<and> c \<noteq> unat (?A1 ! NDIRECT)" if "good V sb st sz c" for c
    using take_new_same [OF that b(2) bs] good_take_new(1) [of sb st sz b V, OF b(1) len that] that b(2) ind by (auto simp: good_def)
  have "good W sb st sz (fmap W ?A1 bn)" using m bn(2) by (simp add: mapped_def file_ok_def)
  then have "fmap W ?A1 bn < sb_size sb" by (simp add: good_def data_block_def)
  then have u: "\<not> is_used V sb (fmap W ?A1 bn)" if "\<not> is_used ?V1 sb (fmap W ?A1 bn)"
    using used_take_new [of sb st sz b V, OF b(1) len] that by blast
  show ?thesis using m fm keep bn(2) u unfolding mapped_def by (cases "fmap V A bn = 0") simp_all
qed

lemma bmap_direct:
  assumes t: "in_trans pid Map.empty bs sb (fdk s)" and sb: "fsb s = sb" and ip: "ip < length (icache s)" "i_dev (icache s ! ip) = 1"
    and A: "i_addrs (icache s ! ip) = A" "file_ok (view (fdk s)) sb (st_of (fdk s)) (sz_of (fdk s)) A"
    and bn: "bn < NDIRECT" and r: "room Map.empty bs (fdk s) 2" and n: "0 < nfree (view (fdk s)) sb"
  shows "\<exists>A' d' bs'. bmap pid ip bn s = Ok (fmap (view d') A' bn, with_file ip A' d' s) \<and> in_trans pid Map.empty bs' sb d' \<and> same_log (fdk s) d' \<and>
    length bs' \<le> length bs + 2 \<and> nfree (view (fdk s)) sb - 1 \<le> nfree (view d') sb \<and>
    mapped sb (st_of (fdk s)) (sz_of (fdk s)) bn (view (fdk s)) A (view d') A'"
proof -
  let ?V = "view (fdk s)" and ?st = "st_of (fdk s)" and ?sz = "sz_of (fdk s)"
  obtain A' d' bs' where a: "addr_slot pid ip bn s = Ok (unat (A' ! bn), with_file ip A' d' s)" "in_trans pid Map.empty bs' sb d'" "same_log (fdk s) d'"
    "length bs' \<le> length bs + 2" "file_ok (view d') sb ?st ?sz A'" "A' ! bn \<noteq> 0" "nfree ?V sb - 1 \<le> nfree (view d') sb"
    "A ! bn \<noteq> 0 \<longrightarrow> A' = A \<and> view d' = ?V"
    "A ! bn = 0 \<longrightarrow> (\<exists>b. data_block sb ?st ?sz b \<and> \<not> is_used ?V sb b \<and> b < 2 ^ 32 \<and> A' = A[bn := of_nat b] \<and> view d' = take_new sb b ?V)"
    using addr_slot_spec [OF t sb ip A less_imp_le [OF bn] r n] by (elim exE conjE)
  have fm: "fmap (view d') A' bn = unat (A' ! bn)" using bn by (simp add: fmap_def)
  have "mapped sb ?st ?sz bn ?V A (view d') A'"
  proof (cases "A ! bn = 0")
    case False
    then show ?thesis using a(8) mapped_same [OF A(2), of bn] bn by (simp add: fmap_def unat_gt_0)
  next
    case True
    then obtain b where b: "data_block sb ?st ?sz b" "\<not> is_used ?V sb b" "b < 2 ^ 32" "A' = A[bn := of_nat b]" "view d' = take_new sb b ?V"
      using a(9) by (elim impE exE conjE)
    show ?thesis unfolding b(4,5) by (rule mapped_new_slot [OF A(2) b(1-3) bn True in_trans_len [OF t]])
  qed
  then show ?thesis using a(1-4,7) fm bn by (intro exI [of _ A'] exI [of _ d'] exI [of _ bs']) (simp add: bmap_def)
qed

text \<open>The indirect block is read and held while its entry is looked up.\<close>

lemma hold_indirect:
  assumes t: "in_trans pid Map.empty bs sb d" and g: "good (view d) sb (st_of d) (sz_of d) ind" and r: "room Map.empty bs d 0"
  obtains i c where "bread pid 1 ind (bc d) = Ok (i, c)" "b_data (bufs c ! i) = view d ind" "in_trans pid [i \<mapsto> ind] bs sb (set_bc d c)"
    "bview c = view d" "same_log d (set_bc d c)"
    "\<exists>s. brelse pid i c = Ok s \<and> in_trans pid Map.empty bs sb (set_bc d s) \<and> bview s = view d \<and> same_log d (set_bc d s)"
proof -
  have lh: "log_held pid Map.empty bs d" and hd: "held pid Map.empty (set bs) (bc d)" using t by (simp_all add: in_trans_def log_held_def)
  have b: "ind < disksize (bc d)" using block_u32(2) [OF t] g by (simp add: good_def data_block_def)
  have rm: "ind \<in> set bs \<or> finite (set bs) \<and> card (dom (Map.empty :: nat \<rightharpoonup> nat)) + card (set bs) < NBUF"
    using r card_length [of bs] by (simp add: room_def)
  have nr: "ind \<notin> ran Map.empty" by simp
  obtain i c where c: "bread pid 1 ind (bc d) = Ok (i, c)" "held pid [i \<mapsto> ind] (set bs) c" "b_data (bufs c ! i) = view d ind"
    "bview c = view d" "same_disk (bc d) c"
    by (rule held_bread [OF hd b nr rm])
  have sl: "same_log d (set_bc d c)" using c(5) by (simp add: same_log_def set_bc_def)
  have tc: "in_trans pid [i \<mapsto> ind] bs sb (set_bc d c)"
    by (rule in_trans_cong [OF t log_held_set_bc [OF lh c(2,5)] sl]) (simp add: set_bc_def c(4))
  obtain d' where g: "get_block pid 1 ind d = Ok (view d ind, d')" "log_held pid Map.empty bs d'" "view d' = view d" "same_log d d'"
    using get_block_room [OF lh b nr r] by (elim exE conjE)
  obtain s where s: "brelse pid i c = Ok s" "d' = set_bc d s" using g(1) c(1) by (auto simp: get_block_def outcome_simps)
  have "in_trans pid Map.empty bs sb (set_bc d s)" by (rule in_trans_cong [OF t g(2,4) [unfolded s(2)]]) (use g(3) s(2) in simp)
  then have "\<exists>s. brelse pid i c = Ok s \<and> in_trans pid Map.empty bs sb (set_bc d s) \<and> bview s = view d \<and> same_log d (set_bc d s)"
    using s g(3,4) by (auto simp: set_bc_def)
  then show thesis by (rule that [OF c(1,3) tc c(4) sl])
qed

text \<open>A new entry of the indirect block, which is held.\<close>

lemma new_entry:
  assumes t: "in_trans pid [i \<mapsto> ind] bs sb d" and f: "file_ok (view d) sb (st_of d) (sz_of d) A" "A ! NDIRECT \<noteq> 0" "ind = unat (A ! NDIRECT)"
    and bn: "NDIRECT \<le> bn" "bn < MAXFILE" "fmap (view d) A bn = 0" and r: "room [i \<mapsto> ind] bs d 3" and n: "0 < nfree (view d) sb"
  shows "\<exists>b d2 d3 s bs'. balloc pid 1 sb d = Ok (b, d2) \<and>
    log_write i (set_bc d2 (upd_buf i (\<lambda>u. u\<lparr>b_data := put32 (4 * (bn - NDIRECT)) (of_nat b) (b_data u)\<rparr>) (bc d2))) = Ok d3 \<and>
    brelse pid i (bc d3) = Ok s \<and> in_trans pid Map.empty bs' sb (set_bc d3 s) \<and> same_log d (set_bc d3 s) \<and> length bs' \<le> length bs + 3 \<and>
    fmap (bview s) A bn = b \<and> nfree (view d) sb - 1 \<le> nfree (bview s) sb \<and> mapped sb (st_of d) (sz_of d) bn (view d) A (bview s) A"
proof -
  let ?V = "view d" and ?st = "st_of d" and ?sz = "sz_of d"
  have gi: "good ?V sb ?st ?sz ind" using f by (simp add: file_ok_def)
  have di: "data_block sb ?st ?sz ind" using gi by (simp add: good_def)
  have hu: "holds_used [i \<mapsto> ind] sb ?V" using gi by (auto simp: holds_used_def good_def data_block_def)
  have r2: "room [i \<mapsto> ind] bs d 2" using r by (simp add: room_def)
  obtain b d2 bs2 where b: "balloc pid 1 sb d = Ok (b, d2)" "data_block sb ?st ?sz b" "\<not> is_used ?V sb b"
    "log_held pid [i \<mapsto> ind] bs2 d2" "view d2 = take_new sb b ?V" "same_log d d2" "length bs2 \<le> length bs + 2"
    using balloc_spec [OF t r2 hu n] by (elim exE conjE)
  let ?W = "set_entry ind bn b (take_new sb b ?V)"
  have b32: "b < 2 ^ 32" using block_u32(1) [OF t] b(2) by (simp add: data_block_def)
  have t2: "in_trans pid [i \<mapsto> ind] bs2 sb d2" by (rule in_trans_take_new [OF t b(2,4,5,6)])
  have out: "1 \<le> lg_outstanding (lg d2)" and hm: "home (st_of d2) (sz_of d2) ind"
    using t2 di b(6) by (simp_all add: in_trans_def data_block_def same_log_def)
  have r1: "room Map.empty bs2 d2 1" using r b(6,7) by (simp add: room_def same_log_def)
  have o: "4 * (bn - NDIRECT) + 4 \<le> BSIZE" using bn by (simp add: MAXFILE_def NINDIRECT_def BSIZE_def)
  have ln: "length (put32 (4 * (bn - NDIRECT)) (of_nat b) (view d2 ind)) = BSIZE" using in_trans_len [OF t2, of ind] o by simp
  obtain d3 s bs' where w: "log_write i (set_bc d2 (upd_buf i (\<lambda>u. u\<lparr>b_data := put32 (4 * (bn - NDIRECT)) (of_nat b) (b_data u)\<rparr>) (bc d2))) = Ok d3"
    "brelse pid i (bc d3) = Ok s" "log_held pid ([i \<mapsto> ind](i := None)) bs' (set_bc d3 s)"
    "bview s = (view d2)(ind := put32 (4 * (bn - NDIRECT)) (of_nat b) (view d2 ind))" "same_log d2 (set_bc d3 s)" "length bs' \<le> length bs2 + 1"
    using finish_held [OF b(4) fun_upd_same out hm r1, of "put32 (4 * (bn - NDIRECT)) (of_nat b)", OF ln] by (elim exE conjE)
  have W: "bview s = ?W" using w(4) b(5) by (simp add: set_entry_def)
  note e = file_ok_new_entry [OF f(1) b(2,3) b32 bn(1,2) f(2) in_trans_len [OF t], folded f(3)]
  have t3: "in_trans pid Map.empty bs' sb (set_bc d3 s)"
    by (rule in_trans_cong [OF t2 _ w(5)]) (use w(3) used_set_entry [OF di] W b(5) in \<open>simp_all add: set_bc_def\<close>)
  have "mapped sb ?st ?sz bn ?V A (bview s) A"
    unfolding W f(3) by (rule mapped_new_entry [OF f(1,2) b(2,3) b32 bn in_trans_len [OF t]])
  moreover have "nfree ?W sb = nfree ?V sb - 1"
    using nfree_take_new [of sb ?st ?sz b ?V, OF b(2) in_trans_len [OF t] b(3)] used_set_entry [OF di] by (simp add: nfree_def cong: conj_cong)
  moreover have "fmap (bview s) A bn = b" unfolding W using e(2) [OF bn(2)] by simp
  ultimately show ?thesis using b(1) w(1,2,6) t3 same_log_trans [OF b(6) w(5)] b(7) W
    by (intro exI [of _ b] exI [of _ d2] exI [of _ d3] exI [of _ s] exI [of _ bs']) simp
qed

lemma bmap_indirect:
  assumes t: "in_trans pid Map.empty bs sb (fdk s)" and sb: "fsb s = sb" and ip: "ip < length (icache s)" "i_dev (icache s ! ip) = 1"
    and A: "i_addrs (icache s ! ip) = A" "file_ok (view (fdk s)) sb (st_of (fdk s)) (sz_of (fdk s)) A"
    and bn: "NDIRECT \<le> bn" "bn < MAXFILE" and r: "room Map.empty bs (fdk s) 6" and n: "2 \<le> nfree (view (fdk s)) sb"
  shows "\<exists>A' d' bs'. bmap pid ip bn s = Ok (fmap (view d') A' bn, with_file ip A' d' s) \<and> in_trans pid Map.empty bs' sb d' \<and> same_log (fdk s) d' \<and>
    length bs' \<le> length bs + 5 \<and> nfree (view (fdk s)) sb - 2 \<le> nfree (view d') sb \<and>
    mapped sb (st_of (fdk s)) (sz_of (fdk s)) bn (view (fdk s)) A (view d') A'"
proof -
  let ?V = "view (fdk s)" and ?st = "st_of (fdk s)" and ?sz = "sz_of (fdk s)"
  have r2: "room Map.empty bs (fdk s) 2" and n1: "0 < nfree ?V sb" using r n by (simp_all add: room_def)
  obtain A1 d1 bs1 where a: "addr_slot pid ip NDIRECT s = Ok (unat (A1 ! NDIRECT), with_file ip A1 d1 s)" "in_trans pid Map.empty bs1 sb d1"
    "same_log (fdk s) d1" "length bs1 \<le> length bs + 2" "file_ok (view d1) sb ?st ?sz A1" "A1 ! NDIRECT \<noteq> 0" "nfree ?V sb - 1 \<le> nfree (view d1) sb"
    "A ! NDIRECT \<noteq> 0 \<longrightarrow> A1 = A \<and> view d1 = ?V"
    "A ! NDIRECT = 0 \<longrightarrow> (\<exists>b. data_block sb ?st ?sz b \<and> \<not> is_used ?V sb b \<and> b < 2 ^ 32 \<and> A1 = A[NDIRECT := of_nat b] \<and> view d1 = take_new sb b ?V)"
    using addr_slot_spec [OF t sb ip A order_refl r2 n1] by (elim exE conjE)
  let ?V1 = "view d1" and ?ind = "unat (A1 ! NDIRECT)"
  have sl: "st_of d1 = ?st" "sz_of d1 = ?sz" using a(3) by (simp_all add: same_log_def)
  have lift: "mapped sb ?st ?sz bn ?V A W A1" if m: "mapped sb ?st ?sz bn ?V1 A1 W A1" for W
  proof (cases "A ! NDIRECT = 0")
    case False
    then show ?thesis using a(8) m by simp
  next
    case True
    then obtain b where b: "data_block sb ?st ?sz b" "\<not> is_used ?V sb b" "b < 2 ^ 32" "A1 = A[NDIRECT := of_nat b]" "view d1 = take_new sb b ?V"
      using a(9) by (elim impE exE conjE)
    show ?thesis using m unfolding b(4,5) by (rule mapped_new_ind [OF A(2) True b(1-3) bn in_trans_len [OF t]])
  qed
  have gi: "good ?V1 sb (st_of d1) (sz_of d1) ?ind" using a(5,6) sl by (simp add: file_ok_def)
  have r0: "room Map.empty bs1 d1 0" by (rule room_less [OF r a(3)]) (use a(4) in simp)
  obtain i c where c: "bread pid 1 ?ind (bc d1) = Ok (i, c)" "b_data (bufs c ! i) = ?V1 ?ind" "in_trans pid [i \<mapsto> ?ind] bs1 sb (set_bc d1 c)"
    "bview c = ?V1" "same_log d1 (set_bc d1 c)"
    "\<exists>s. brelse pid i c = Ok s \<and> in_trans pid Map.empty bs1 sb (set_bc d1 s) \<and> bview s = ?V1 \<and> same_log d1 (set_bc d1 s)"
    by (rule hold_indirect [OF a(2) gi r0])
  let ?a = "get32 (4 * (bn - NDIRECT)) (?V1 ?ind)"
  have fa: "unat ?a = fmap ?V1 A1 bn" using bn(1) a(6) by (simp add: fmap_def)
  have bnd_ind: "\<not> bn < NDIRECT" "bn - NDIRECT < NINDIRECT" using bn by (auto simp: MAXFILE_def)
  have start: "bmap pid ip bn s = (if ?a = 0
      then bnd (balloc pid 1 sb (set_bc d1 c)) (\<lambda>(b, d).
           bnd (log_write i (set_bc d (upd_buf i (\<lambda>u. u\<lparr>b_data := put32 (4 * (bn - NDIRECT)) (of_nat b) (b_data u)\<rparr>) (bc d)))) (\<lambda>d.
           bnd (brelse pid i (bc d)) (\<lambda>c. Ok (b, with_file ip A1 (set_bc d c) s))))
      else bnd (brelse pid i c) (\<lambda>c. Ok (unat ?a, with_file ip A1 (set_bc d1 c) s)))"
    using bnd_ind a(1) c(1,2) ip sb by (simp add: bmap_def Let_def del: One_nat_def)
  show ?thesis
  proof (cases "?a = 0")
    case False
    obtain u where u: "brelse pid i c = Ok u" "in_trans pid Map.empty bs1 sb (set_bc d1 u)" "bview u = ?V1" "same_log d1 (set_bc d1 u)"
      using c(6) by (elim exE conjE)
    have v: "view (set_bc d1 u) = ?V1" using u(3) by (simp add: set_bc_def)
    have "fmap ?V1 A1 bn \<noteq> 0" using False fa by (metis unsigned_eq_0_iff)
    then have "mapped sb ?st ?sz bn ?V A ?V1 A1" by (intro lift mapped_same a(5))
    then show ?thesis using start False u(1,2) a(4,7) same_log_trans [OF a(3) u(4)] fa v
      by (intro exI [of _ A1] exI [of _ "set_bc d1 u"] exI [of _ bs1]) simp
  next
    case True
    have vc: "view (set_bc d1 c) = ?V1" using c(4) by (simp add: set_bc_def)
    have slc: "st_of (set_bc d1 c) = ?st" "sz_of (set_bc d1 c) = ?sz" using sl by (simp_all add: set_bc_def)
    have f1: "file_ok (view (set_bc d1 c)) sb (st_of (set_bc d1 c)) (sz_of (set_bc d1 c)) A1" using a(5) vc slc by simp
    have z: "fmap (view (set_bc d1 c)) A1 bn = 0" using True fa vc by simp
    have r3: "room [i \<mapsto> ?ind] bs1 (set_bc d1 c) 3" using r a(3,4) c(5) by (simp add: room_def same_log_def)
    have nn: "0 < nfree (view (set_bc d1 c)) sb" using a(7) n vc by simp
    obtain b d2 d3 u bs' where w: "balloc pid 1 sb (set_bc d1 c) = Ok (b, d2)"
      "log_write i (set_bc d2 (upd_buf i (\<lambda>u. u\<lparr>b_data := put32 (4 * (bn - NDIRECT)) (of_nat b) (b_data u)\<rparr>) (bc d2))) = Ok d3"
      "brelse pid i (bc d3) = Ok u" "in_trans pid Map.empty bs' sb (set_bc d3 u)" "same_log (set_bc d1 c) (set_bc d3 u)" "length bs' \<le> length bs1 + 3"
      "fmap (bview u) A1 bn = b" "nfree (view (set_bc d1 c)) sb - 1 \<le> nfree (bview u) sb"
      "mapped sb (st_of (set_bc d1 c)) (sz_of (set_bc d1 c)) bn (view (set_bc d1 c)) A1 (bview u) A1"
      using new_entry [OF c(3) f1 a(6) refl bn z r3 nn] by (elim exE conjE)
    have v: "view (set_bc d3 u) = bview u" by (simp add: set_bc_def)
    have "mapped sb ?st ?sz bn ?V A (bview u) A1" using w(9) unfolding vc slc by (rule lift)
    moreover have "same_log (fdk s) (set_bc d3 u)" by (rule same_log_trans [OF same_log_trans [OF a(3) c(5)] w(5)])
    moreover have "bmap pid ip bn s = Ok (b, with_file ip A1 (set_bc d3 u) s)" using start True w(1-3) by (simp del: One_nat_def)
    ultimately show ?thesis using w(4,6,7,8) a(4,7) v vc
      by (intro exI [of _ A1] exI [of _ "set_bc d3 u"] exI [of _ bs']) simp
  qed
qed

lemma bmap_spec:
  assumes t: "in_trans pid Map.empty bs sb (fdk s)" and sb: "fsb s = sb" and ip: "ip < length (icache s)" "i_dev (icache s ! ip) = 1"
    and A: "i_addrs (icache s ! ip) = A" "file_ok (view (fdk s)) sb (st_of (fdk s)) (sz_of (fdk s)) A"
    and bn: "bn < MAXFILE" and r: "room Map.empty bs (fdk s) 6" and n: "2 \<le> nfree (view (fdk s)) sb"
  shows "\<exists>A' d' bs'. bmap pid ip bn s = Ok (fmap (view d') A' bn, with_file ip A' d' s) \<and> in_trans pid Map.empty bs' sb d' \<and> same_log (fdk s) d' \<and>
    length bs' \<le> length bs + 5 \<and> nfree (view (fdk s)) sb - 2 \<le> nfree (view d') sb \<and>
    mapped sb (st_of (fdk s)) (sz_of (fdk s)) bn (view (fdk s)) A (view d') A'"
proof (cases "bn < NDIRECT")
  case True
  have r2: "room Map.empty bs (fdk s) 2" and n1: "0 < nfree (view (fdk s)) sb" using r n by (simp_all add: room_def)
  show ?thesis using bmap_direct [OF t sb ip A True r2 n1] by fastforce
next
  case False
  then show ?thesis using bmap_indirect [OF t sb ip A _ bn r n] by simp
qed

section \<open>Bytes of a file\<close>

definition fbyte :: "(nat \<Rightarrow> block) \<Rightarrow> u32 list \<Rightarrow> nat \<Rightarrow> u8" where
  "fbyte V A k = V (fmap V A (k div BSIZE)) ! (k mod BSIZE)"

text \<open>The effect of a write of \<open>bs\<close> at \<open>off\<close>: on the file, and on the blocks of other files.\<close>

definition written :: "superblock \<Rightarrow> nat \<Rightarrow> nat \<Rightarrow> nat \<Rightarrow> u8 list \<Rightarrow> (nat \<Rightarrow> block) \<Rightarrow> u32 list \<Rightarrow> (nat \<Rightarrow> block) \<Rightarrow> u32 list \<Rightarrow> bool" where
  "written sb st sz off src V A V' A' \<longleftrightarrow> file_ok V' sb st sz A' \<and>
     (\<forall>k. off \<le> k \<and> k < off + length src \<longrightarrow> fmap V' A' (k div BSIZE) \<noteq> 0 \<and> fbyte V' A' k = src ! (k - off)) \<and>
     (\<forall>k < MAXFILE * BSIZE. (k < off \<or> off + length src \<le> k) \<and> fmap V A (k div BSIZE) \<noteq> 0 \<longrightarrow>
        fmap V' A' (k div BSIZE) \<noteq> 0 \<and> fbyte V' A' k = fbyte V A k) \<and>
     (\<forall>c. good V sb st sz c \<and> c \<noteq> unat (A ! NDIRECT) \<and> (\<forall>m<MAXFILE. fmap V A m \<noteq> c) \<longrightarrow>
        V' c = V c \<and> good V' sb st sz c \<and> c \<noteq> unat (A' ! NDIRECT) \<and> (\<forall>m<MAXFILE. fmap V' A' m \<noteq> c))"

lemma written_nil: "file_ok V sb st sz A \<Longrightarrow> written sb st sz off [] V A V A"
  by (simp add: written_def)

lemma written_file: "written sb st sz off src V A V' A' \<Longrightarrow> file_ok V' sb st sz A'"
  unfolding written_def by (elim conjE)

lemma written_in:
  "written sb st sz off src V A V' A' \<Longrightarrow> off \<le> k \<Longrightarrow> k < off + length src \<Longrightarrow>
   fmap V' A' (k div BSIZE) \<noteq> 0 \<and> fbyte V' A' k = src ! (k - off)"
  unfolding written_def by (elim conjE) blast

lemma written_out:
  "written sb st sz off src V A V' A' \<Longrightarrow> k < MAXFILE * BSIZE \<Longrightarrow> k < off \<or> off + length src \<le> k \<Longrightarrow>
   fmap V A (k div BSIZE) \<noteq> 0 \<Longrightarrow> fmap V' A' (k div BSIZE) \<noteq> 0 \<and> fbyte V' A' k = fbyte V A k"
  unfolding written_def by (elim conjE) blast

definition apart :: "(nat \<Rightarrow> block) \<Rightarrow> superblock \<Rightarrow> nat \<Rightarrow> nat \<Rightarrow> u32 list \<Rightarrow> nat \<Rightarrow> bool" where
  "apart V sb st sz A c \<longleftrightarrow> good V sb st sz c \<and> c \<noteq> unat (A ! NDIRECT) \<and> (\<forall>m<MAXFILE. fmap V A m \<noteq> c)"

lemma written_apart:
  "written sb st sz off src V A V' A' \<Longrightarrow> apart V sb st sz A c \<Longrightarrow> V' c = V c \<and> apart V' sb st sz A' c"
  unfolding written_def apart_def by (elim conjE) blast

lemma writtenI:
  assumes "file_ok V' sb st sz A'"
    "\<And>k. off \<le> k \<Longrightarrow> k < off + length src \<Longrightarrow> fmap V' A' (k div BSIZE) \<noteq> 0 \<and> fbyte V' A' k = src ! (k - off)"
    "\<And>k. k < MAXFILE * BSIZE \<Longrightarrow> k < off \<or> off + length src \<le> k \<Longrightarrow> fmap V A (k div BSIZE) \<noteq> 0 \<Longrightarrow>
        fmap V' A' (k div BSIZE) \<noteq> 0 \<and> fbyte V' A' k = fbyte V A k"
    "\<And>c. apart V sb st sz A c \<Longrightarrow> V' c = V c \<and> apart V' sb st sz A' c"
  shows "written sb st sz off src V A V' A'"
  using assms unfolding written_def apart_def by blast

lemma written_append:
  assumes w: "written sb st sz off xs V A V1 A1" and v: "written sb st sz (off + length xs) ys V1 A1 V2 A2"
    and le: "off + length xs + length ys \<le> MAXFILE * BSIZE"
  shows "written sb st sz off (xs @ ys) V A V2 A2"
proof (rule writtenI)
  show "file_ok V2 sb st sz A2" using v by (rule written_file)
next
  fix k
  assume k: "off \<le> k" "k < off + length (xs @ ys)"
  show "fmap V2 A2 (k div BSIZE) \<noteq> 0 \<and> fbyte V2 A2 k = (xs @ ys) ! (k - off)"
  proof (cases "k < off + length xs")
    case True
    note i = written_in [OF w k(1) True]
    have "k < MAXFILE * BSIZE" using True le by linarith
    note j = written_out [OF v this disjI1 [OF True] conjunct1 [OF i]]
    have "k - off < length xs" using True k(1) by linarith
    then show ?thesis using i j by (simp add: nth_append)
  next
    case False
    then have "off + length xs \<le> k" "k < off + length xs + length ys" using k(2) by simp_all
    note i = written_in [OF v this]
    have "\<not> k - off < length xs" "k - off - length xs = k - (off + length xs)" using False by linarith+
    then show ?thesis using i by (simp add: nth_append)
  qed
next
  fix k
  assume k: "k < MAXFILE * BSIZE" "k < off \<or> off + length (xs @ ys) \<le> k" "fmap V A (k div BSIZE) \<noteq> 0"
  then have o1: "k < off \<or> off + length xs \<le> k" and o2: "k < off + length xs \<or> off + length xs + length ys \<le> k" by auto
  note i = written_out [OF w k(1) o1 k(3)]
  from written_out [OF v k(1) o2 conjunct1 [OF i]] i show "fmap V2 A2 (k div BSIZE) \<noteq> 0 \<and> fbyte V2 A2 k = fbyte V A k" by simp
next
  fix c
  assume c: "apart V sb st sz A c"
  note i = written_apart [OF w c]
  from written_apart [OF v conjunct2 [OF i]] i show "V2 c = V c \<and> apart V2 sb st sz A2 c" by simp
qed

text \<open>One turn of the loop of \<^verbatim>\<open>writei\<close>: the block is found or added, then changed.\<close>

lemma same_block: "k div BSIZE = off div BSIZE \<Longrightarrow> k + off mod BSIZE = off + k mod BSIZE"
  using div_mult_mod_eq [of k BSIZE] div_mult_mod_eq [of off BSIZE] by (metis add.assoc add.commute)

lemma mod_block: "k mod BSIZE < BSIZE"
  by (simp add: BSIZE_def)

lemma block_of:
  assumes "off \<le> k" "k + off mod BSIZE < off + BSIZE"
  shows "k div BSIZE = off div BSIZE"
proof -
  obtain j where j: "k = off + j" using assms(1) le_Suc_ex by blast
  then have "j < BSIZE" "off mod BSIZE + j < BSIZE" using assms(2) by linarith+
  then show ?thesis unfolding j div_add1_eq [of off j BSIZE] by simp
qed

lemma written_chunk:
  assumes m: "mapped sb st sz (off div BSIZE) V A V1 A1" and off: "off div BSIZE < MAXFILE" "off mod BSIZE + length src \<le> BSIZE" "src \<noteq> []"
    and len: "length (V1 (fmap V1 A1 (off div BSIZE))) = BSIZE" and f: "file_ok V sb st sz A"
    and W: "W = V1(fmap V1 A1 (off div BSIZE) := put_bytes (off mod BSIZE) src (V1 (fmap V1 A1 (off div BSIZE))))"
  shows "written sb st sz off src V A W A1" "\<And>c. c < sb_size sb \<Longrightarrow> is_used W sb c = is_used V1 sb c"
proof -
  let ?bn = "off div BSIZE"
  let ?b = "fmap V1 A1 ?bn"
  have f1: "file_ok V1 sb st sz A1" and nz: "?b \<noteq> 0"
    and other: "\<And>j. j < MAXFILE \<Longrightarrow> j \<noteq> ?bn \<Longrightarrow> fmap V1 A1 j = fmap V A j"
    and bcase: "?b = fmap V A ?bn \<or> \<not> is_used V sb ?b"
    and keep: "\<And>c. good V sb st sz c \<Longrightarrow> c \<noteq> unat (A ! NDIRECT) \<Longrightarrow> V1 c = V c"
      "\<And>c. good V sb st sz c \<Longrightarrow> c \<noteq> unat (A ! NDIRECT) \<Longrightarrow> good V1 sb st sz c"
      "\<And>c. good V sb st sz c \<Longrightarrow> c \<noteq> unat (A ! NDIRECT) \<Longrightarrow> c \<noteq> unat (A1 ! NDIRECT)"
    and old: "fmap V A ?bn \<noteq> 0 \<Longrightarrow> ?b = fmap V A ?bn"
    using m unfolding mapped_def by (blast | presburger)+
  have gb: "good V1 sb st sz ?b" "?b \<noteq> unat (A1 ! NDIRECT)" using f1 nz off(1) by (simp_all add: file_ok_def)
  have db: "data_block sb st sz ?b" using gb by (simp add: good_def)
  show us: "is_used W sb c = is_used V1 sb c" if "c < sb_size sb" for c
    using db that unfolding W by (auto simp: is_used_def data_block_def)
  then have gd: "good W sb st sz c = good V1 sb st sz c" for c by (auto simp: good_def data_block_def)
  have fm: "fmap W A1 j = fmap V1 A1 j" for j using gb(2) unfolding W by (simp add: fmap_def)
  have fW: "file_ok W sb st sz A1" using f1 unfolding file_ok_def gd fm .
  have inj: "j = ?bn" if "j < MAXFILE" "fmap V1 A1 j = ?b" for j using f1 that off(1) nz unfolding file_ok_def by metis
  have inblk: "k div BSIZE = ?bn \<and> off mod BSIZE \<le> k mod BSIZE \<and> k mod BSIZE - off mod BSIZE = k - off" if "off \<le> k" "k < off + length src" for k
  proof -
    have "k div BSIZE = ?bn" using that off(2) by (intro block_of) linarith+
    then show ?thesis using same_block [of k off] that(1) by linarith
  qed
  have put: "W ?b ! (k mod BSIZE) = (if off mod BSIZE \<le> k mod BSIZE \<and> k mod BSIZE < off mod BSIZE + length src then src ! (k mod BSIZE - off mod BSIZE) else V1 ?b ! (k mod BSIZE))" for k
    unfolding W using nth_put_bytes [of "off mod BSIZE" src "V1 ?b" "k mod BSIZE"] off(2) len mod_block [of k] by simp
  have new: "V1 ?b ! (k mod BSIZE) = fbyte V A k" if "k div BSIZE = ?bn" "fmap V A ?bn \<noteq> 0" for k
  proof -
    have g: "good V sb st sz (fmap V A ?bn)" "fmap V A ?bn \<noteq> unat (A ! NDIRECT)" using f off(1) that(2) by (simp_all add: file_ok_def)
    show ?thesis using old [OF that(2)] keep(1) [OF g] that(1) by (simp add: fbyte_def)
  qed
  show "written sb st sz off src V A W A1"
  proof (rule writtenI)
    show "file_ok W sb st sz A1" by (rule fW)
  next
    fix k
    assume k: "off \<le> k" "k < off + length src"
    note i = inblk [OF k]
    have "k mod BSIZE < off mod BSIZE + length src" using i k by linarith
    then show "fmap W A1 (k div BSIZE) \<noteq> 0 \<and> fbyte W A1 k = src ! (k - off)" using i put [of k] nz by (simp add: fbyte_def fm)
  next
    fix k
    assume kM: "k < MAXFILE * BSIZE" and k: "k < off \<or> off + length src \<le> k" "fmap V A (k div BSIZE) \<noteq> 0"
    have j: "k div BSIZE < MAXFILE" using kM by (simp add: BSIZE_def div_less_iff_less_mult)
    show "fmap W A1 (k div BSIZE) \<noteq> 0 \<and> fbyte W A1 k = fbyte V A k"
    proof (cases "k div BSIZE = ?bn")
      case True
      have "\<not> (off mod BSIZE \<le> k mod BSIZE \<and> k mod BSIZE < off mod BSIZE + length src)"
        using k(1) same_block [OF True] by linarith
      then have "W ?b ! (k mod BSIZE) = V1 ?b ! (k mod BSIZE)" unfolding put by (rule if_not_P)
      moreover have "V1 ?b ! (k mod BSIZE) = fbyte V A k" using k(2) True by (intro new) simp_all
      moreover have "fbyte W A1 k = W ?b ! (k mod BSIZE)" by (simp add: fbyte_def fm True)
      ultimately show ?thesis using nz True fm by simp
    next
      case False
      note s = other [OF j False]
      then have "fmap V1 A1 (k div BSIZE) \<noteq> ?b" using inj [OF j] False by blast
      moreover have "good V sb st sz (fmap V A (k div BSIZE))" "fmap V A (k div BSIZE) \<noteq> unat (A ! NDIRECT)"
        using f j k(2) by (simp_all add: file_ok_def)
      then have "V1 (fmap V A (k div BSIZE)) = V (fmap V A (k div BSIZE))" by (rule keep(1))
      ultimately show ?thesis using s k(2) unfolding fbyte_def fm by (simp add: W)
    qed
  next
    fix c
    assume c: "apart V sb st sz A c"
    then have g: "good V sb st sz c" "c \<noteq> unat (A ! NDIRECT)" "\<And>j. j < MAXFILE \<Longrightarrow> fmap V A j \<noteq> c" by (simp_all add: apart_def)
    note s = keep [OF g(1,2)]
    have cb: "c \<noteq> ?b" using bcase g(1) g(3) [OF off(1)] by (auto simp: good_def)
    have "fmap V1 A1 j \<noteq> c" if "j < MAXFILE" for j using other [OF that] g(3) [OF that] cb by (cases "j = ?bn") auto
    then show "W c = V c \<and> apart W sb st sz A1 c" using s cb unfolding apart_def gd fm by (simp add: W)
  qed
qed

text \<open>The number of blocks that \<open>n\<close> bytes at \<open>off\<close> touch, which is the number of turns of the loops.\<close>

definition nblk :: "nat \<Rightarrow> nat \<Rightarrow> nat" where
  "nblk off n = (if n = 0 then 0 else (off mod BSIZE + n + (BSIZE - 1)) div BSIZE)"

lemma nblk_step:
  assumes "0 < n"
  shows "nblk (off + min n (BSIZE - off mod BSIZE)) (n - min n (BSIZE - off mod BSIZE)) + 1 \<le> nblk off n"
proof (cases "n \<le> BSIZE - off mod BSIZE")
  case True
  have "BSIZE \<le> off mod BSIZE + n + (BSIZE - 1)" using assms by (simp add: BSIZE_def)
  then have "1 \<le> (off mod BSIZE + n + (BSIZE - 1)) div BSIZE" by (simp add: BSIZE_def)
  then show ?thesis using True assms by (simp add: nblk_def)
next
  case False
  have m: "off mod BSIZE < BSIZE" by (rule mod_block)
  let ?m = "BSIZE - off mod BSIZE"
  have z: "(off + ?m) mod BSIZE = 0" using m by (metis le_add_diff_inverse less_imp_le mod_add_left_eq mod_self)
  have "off mod BSIZE + n + (BSIZE - 1) = (n - ?m + (BSIZE - 1)) + BSIZE" using False m by linarith
  then have "(off mod BSIZE + n + (BSIZE - 1)) div BSIZE = (n - ?m + (BSIZE - 1)) div BSIZE + 1" by (simp add: BSIZE_def)
  then show ?thesis using False assms z by (simp add: nblk_def)
qed

section \<open>Writing\<close>

lemma write_chunk:
  assumes t: "in_trans pid Map.empty bs sb (fdk s)" and sb: "fsb s = sb" and ip: "ip < length (icache s)" "i_dev (icache s ! ip) = 1"
    and A: "i_addrs (icache s ! ip) = A" "file_ok (view (fdk s)) sb (st_of (fdk s)) (sz_of (fdk s)) A"
    and off: "off div BSIZE < MAXFILE" "off mod BSIZE + length src \<le> BSIZE" "src \<noteq> []"
    and r: "room Map.empty bs (fdk s) 6" and n: "2 \<le> nfree (view (fdk s)) sb"
  shows "\<exists>b A1 d1 d2 bs'. bmap pid ip (off div BSIZE) s = Ok (b, with_file ip A1 d1 s) \<and>
    upd_block pid 1 b (put_bytes (off mod BSIZE) src) d1 = Ok d2 \<and> in_trans pid Map.empty bs' sb d2 \<and> same_log (fdk s) d2 \<and>
    length bs' \<le> length bs + 6 \<and> nfree (view (fdk s)) sb - 2 \<le> nfree (view d2) sb \<and>
    written sb (st_of (fdk s)) (sz_of (fdk s)) off src (view (fdk s)) A (view d2) A1"
proof -
  let ?V = "view (fdk s)" and ?st = "st_of (fdk s)" and ?sz = "sz_of (fdk s)" and ?bn = "off div BSIZE"
  obtain A1 d1 bs1 where m: "bmap pid ip ?bn s = Ok (fmap (view d1) A1 ?bn, with_file ip A1 d1 s)" "in_trans pid Map.empty bs1 sb d1"
    "same_log (fdk s) d1" "length bs1 \<le> length bs + 5" "nfree ?V sb - 2 \<le> nfree (view d1) sb" "mapped sb ?st ?sz ?bn ?V A (view d1) A1"
    using bmap_spec [OF t sb ip A off(1) r n] by (elim exE conjE)
  let ?b = "fmap (view d1) A1 ?bn" and ?f = "put_bytes (off mod BSIZE) src"
  have "file_ok (view d1) sb ?st ?sz A1" "?b \<noteq> 0" using m(6) unfolding mapped_def by blast+
  then have "good (view d1) sb ?st ?sz ?b" using off(1) by (simp add: file_ok_def)
  then have db: "?b < sb_size sb" "home ?st ?sz ?b" by (simp_all add: good_def data_block_def)
  have sl: "st_of d1 = ?st" "sz_of d1 = ?sz" using m(3) by (simp_all add: same_log_def)
  have lh: "log_held pid Map.empty bs1 d1" "1 \<le> lg_outstanding (lg d1)" using m(2) by (simp_all add: in_trans_def)
  have len: "length (view d1 ?b) = BSIZE" by (rule in_trans_len [OF m(2)])
  have "home (st_of d1) (sz_of d1) ?b" using db(2) by (simp add: sl)
  moreover have "room Map.empty bs1 d1 1" by (rule room_less [OF r m(3)]) (use m(4) in simp)
  moreover have "length (?f (view d1 ?b)) = BSIZE" using len off(2) by simp
  ultimately obtain d2 bs2 where u: "upd_block pid 1 ?b ?f d1 = Ok d2" "log_held pid Map.empty bs2 d2"
    "view d2 = (view d1)(?b := ?f (view d1 ?b))" "same_log d1 d2" "length bs2 \<le> length bs1 + 1"
    using upd_block_room [where f = ?f, OF lh block_u32(2) [OF m(2) db(1)]] by auto
  note w = written_chunk [OF m(6) off len A(2) u(3)]
  have "in_trans pid Map.empty bs2 sb d2" by (rule in_trans_cong [OF m(2) u(2,4)]) (simp add: w(2))
  moreover have "nfree (view d2) sb = nfree (view d1) sb" unfolding nfree_def by (metis w(2))
  ultimately show ?thesis using m(1,4,5) u(1,5) w(1) same_log_trans [OF m(3) u(4)]
    by (intro exI [of _ ?b] exI [of _ A1] exI [of _ d1] exI [of _ d2] exI [of _ bs2]) simp
qed

declare writei_loop.simps [simp del] readi_loop.simps [simp del]

lemma writei_loop_spec:
  assumes "in_trans pid Map.empty bs sb (fdk s)" "fsb s = sb" "ip < length (icache s)" "i_dev (icache s ! ip) = 1" "i_addrs (icache s ! ip) = A"
    "file_ok (view (fdk s)) sb (st_of (fdk s)) (sz_of (fdk s)) A" "off + length src \<le> MAXFILE * BSIZE"
    "room Map.empty bs (fdk s) (6 * nblk off (length src))" "2 * nblk off (length src) \<le> nfree (view (fdk s)) sb"
  shows "\<exists>A' d' bs'. writei_loop pid ip off src s = Ok (off + length src, with_file ip A' d' s) \<and> in_trans pid Map.empty bs' sb d' \<and>
    same_log (fdk s) d' \<and> length bs' \<le> length bs + 6 * nblk off (length src) \<and>
    written sb (st_of (fdk s)) (sz_of (fdk s)) off src (view (fdk s)) A (view d') A'"
  using assms
proof (induction "length src" arbitrary: off src s A bs rule: less_induct)
  case less
  note t = less.prems(1) and sb = less.prems(2) and ip = less.prems(3,4) and A = less.prems(5,6) and le = less.prems(7)
  let ?V = "view (fdk s)" and ?st = "st_of (fdk s)" and ?sz = "sz_of (fdk s)"
  show ?case
  proof (cases "src = []")
    case True
    have "with_file ip A (fdk s) s = s" using with_file_same [OF ip(1), of "fdk s"] A(1) by (simp add: set_dk_def)
    then show ?thesis using True t written_nil [OF A(2)]
      by (intro exI [of _ A] exI [of _ "fdk s"] exI [of _ bs]) (simp add: writei_loop.simps)
  next
    case False
    define m where "m = min (length src) (BSIZE - off mod BSIZE)"
    have mp: "0 < m" "m \<le> length src" "off mod BSIZE + m \<le> BSIZE" using False mod_block [of off] by (auto simp: m_def)
    have nb: "nblk (off + m) (length src - m) + 1 \<le> nblk off (length src)" using nblk_step [of "length src" off] False by (simp add: m_def)
    have o: "off div BSIZE < MAXFILE" using le False by (simp add: div_less_iff_less_mult BSIZE_def) (metis length_greater_0_conv less_add_same_cancel1 less_le_trans)
    have ts: "off mod BSIZE + length (take m src) \<le> BSIZE" "take m src \<noteq> []" using mp False by auto
    have r6: "room Map.empty bs (fdk s) 6" and n2: "2 \<le> nfree ?V sb" using less.prems(8,9) nb by (simp_all add: room_def)
    obtain b A1 d1 d2 bs1 where c: "bmap pid ip (off div BSIZE) s = Ok (b, with_file ip A1 d1 s)"
      "upd_block pid 1 b (put_bytes (off mod BSIZE) (take m src)) d1 = Ok d2" "in_trans pid Map.empty bs1 sb d2" "same_log (fdk s) d2"
      "length bs1 \<le> length bs + 6" "nfree ?V sb - 2 \<le> nfree (view d2) sb" "written sb ?st ?sz off (take m src) ?V A (view d2) A1"
      using write_chunk [OF t sb ip A o ts r6 n2] by (elim exE conjE)
    let ?s = "with_file ip A1 d2 s"
    have sl: "st_of d2 = ?st" "sz_of d2 = ?sz" using c(4) by (simp_all add: same_log_def)
    have "length (drop m src) < length src" using mp by simp
    moreover have "in_trans pid Map.empty bs1 sb (fdk ?s)" "fsb ?s = sb" "ip < length (icache ?s)" "i_dev (icache ?s ! ip) = 1" "i_addrs (icache ?s ! ip) = A1"
      using c(3) sb ip by simp_all
    moreover have "file_ok (view (fdk ?s)) sb (st_of (fdk ?s)) (sz_of (fdk ?s)) A1" using written_file [OF c(7)] by (simp add: sl)
    moreover have "off + m + length (drop m src) \<le> MAXFILE * BSIZE" using le mp by simp
    moreover have "room Map.empty bs1 (fdk ?s) (6 * nblk (off + m) (length (drop m src)))"
      unfolding with_file_simps by (rule room_less [OF less.prems(8) c(4)]) (use c(5) nb in simp)
    moreover have "2 * nblk (off + m) (length (drop m src)) \<le> nfree (view (fdk ?s)) sb" using c(6) nb less.prems(9) by simp
    ultimately obtain A' d' bs' where i: "writei_loop pid ip (off + m) (drop m src) ?s = Ok (off + m + length (drop m src), with_file ip A' d' ?s)"
      "in_trans pid Map.empty bs' sb d'" "same_log (fdk ?s) d'" "length bs' \<le> length bs1 + 6 * nblk (off + m) (length (drop m src))"
      "written sb (st_of (fdk ?s)) (sz_of (fdk ?s)) (off + m) (drop m src) (view (fdk ?s)) A1 (view d') A'"
      using less.hyps [of "drop m src" bs1 ?s A1 "off + m"] by blast
    have "writei_loop pid ip off src s = Ok (off + length src, with_file ip A' d' s)"
      using False c(1,2) i(1) ip mp(2) by (subst writei_loop.simps) (simp add: m_def [symmetric] Let_def)
    moreover have "same_log (fdk s) d'" using same_log_trans [OF c(4)] i(3) by simp
    moreover have "length bs' \<le> length bs + 6 * nblk off (length src)" using i(4) c(5) nb by simp
    moreover have "written sb ?st ?sz off (take m src @ drop m src) ?V A (view d') A'"
      by (rule written_append [OF c(7)]) (use i(5) le mp(2) sl in \<open>simp_all add: min_absorb2\<close>)
    ultimately show ?thesis using i(2) by (intro exI [of _ A'] exI [of _ d'] exI [of _ bs']) simp
  qed
qed

section \<open>Reading\<close>

text \<open>A block that is there is found without a change.\<close>

lemma bmap_there:
  assumes t: "in_trans pid Map.empty bs sb (fdk s)" and ip: "ip < length (icache s)" "i_dev (icache s ! ip) = 1"
    and A: "i_addrs (icache s ! ip) = A" "file_ok (view (fdk s)) sb (st_of (fdk s)) (sz_of (fdk s)) A"
    and bn: "bn < MAXFILE" "fmap (view (fdk s)) A bn \<noteq> 0" and r: "room Map.empty bs (fdk s) 0"
  shows "\<exists>d'. bmap pid ip bn s = Ok (fmap (view (fdk s)) A bn, set_dk s d') \<and> in_trans pid Map.empty bs sb d' \<and> same_log (fdk s) d' \<and>
    view d' = view (fdk s)"
proof (cases "bn < NDIRECT")
  case True
  then have "A ! bn \<noteq> 0" using bn(2) by (auto simp: fmap_def)
  then have "addr_slot pid ip bn s = Ok (fmap (view (fdk s)) A bn, s)" using True A(1) by (simp add: addr_slot_def fmap_def Let_def)
  then show ?thesis using True t by (intro exI [of _ "fdk s"]) (simp add: bmap_def set_dk_def)
next
  case False
  let ?ind = "unat (A ! NDIRECT)"
  have nz: "A ! NDIRECT \<noteq> 0" and f: "fmap (view (fdk s)) A bn = unat (get32 (4 * (bn - NDIRECT)) (view (fdk s) ?ind))"
    using bn(2) False by (auto simp: fmap_def split: if_splits)
  have a: "addr_slot pid ip NDIRECT s = Ok (?ind, s)" using nz A(1) by (simp add: addr_slot_def)
  have g: "good (view (fdk s)) sb (st_of (fdk s)) (sz_of (fdk s)) ?ind" using A(2) nz by (simp add: file_ok_def)
  obtain i c where c: "bread pid 1 ?ind (bc (fdk s)) = Ok (i, c)" "b_data (bufs c ! i) = view (fdk s) ?ind"
    "\<exists>u. brelse pid i c = Ok u \<and> in_trans pid Map.empty bs sb (set_bc (fdk s) u) \<and> bview u = view (fdk s) \<and> same_log (fdk s) (set_bc (fdk s) u)"
    by (rule hold_indirect [OF t g r])
  obtain u where u: "brelse pid i c = Ok u" "in_trans pid Map.empty bs sb (set_bc (fdk s) u)" "bview u = view (fdk s)" "same_log (fdk s) (set_bc (fdk s) u)"
    using c(3) by (elim exE conjE)
  have e: "get32 (4 * (bn - NDIRECT)) (view (fdk s) ?ind) \<noteq> 0" using bn(2) f by auto
  have "bn - NDIRECT < NINDIRECT" using bn(1) False by (simp add: MAXFILE_def)
  then have "bmap pid ip bn s = Ok (fmap (view (fdk s)) A bn, set_dk s (set_bc (fdk s) u))"
    using False by (simp add: bmap_def a c(1,2) ip(2) u(1) e f Let_def del: One_nat_def)
  then show ?thesis using u by (intro exI [of _ "set_bc (fdk s) u"]) (simp add: set_bc_def)
qed

lemma get_bytes_file:
  assumes "off mod BSIZE + m \<le> BSIZE" "length (V (fmap V A (off div BSIZE))) = BSIZE"
  shows "get_bytes (off mod BSIZE) m (V (fmap V A (off div BSIZE))) = map (fbyte V A) [off..<off + m]"
proof (rule nth_equalityI)
  show "length (get_bytes (off mod BSIZE) m (V (fmap V A (off div BSIZE)))) = length (map (fbyte V A) [off..<off + m])" using assms by simp
next
  fix i
  assume "i < length (get_bytes (off mod BSIZE) m (V (fmap V A (off div BSIZE))))"
  then have i: "i < m" using assms by simp
  have d: "(off + i) div BSIZE = off div BSIZE" by (rule block_of) (use i assms(1) in linarith)+
  have "(off + i) mod BSIZE = off mod BSIZE + i" using same_block [OF d] by linarith
  then show "get_bytes (off mod BSIZE) m (V (fmap V A (off div BSIZE))) ! i = map (fbyte V A) [off..<off + m] ! i"
    using i assms d by (simp add: nth_get_bytes fbyte_def)
qed

lemma readi_loop_spec:
  assumes "in_trans pid Map.empty bs sb (fdk s)" "ip < length (icache s)" "i_dev (icache s ! ip) = 1" "i_addrs (icache s ! ip) = A"
    "file_ok (view (fdk s)) sb (st_of (fdk s)) (sz_of (fdk s)) A" "off + n \<le> MAXFILE * BSIZE" "room Map.empty bs (fdk s) 0"
    "\<And>k. off \<le> k \<Longrightarrow> k < off + n \<Longrightarrow> fmap (view (fdk s)) A (k div BSIZE) \<noteq> 0"
  shows "\<exists>d'. readi_loop pid ip off n s = Ok (map (fbyte (view (fdk s)) A) [off..<off + n], set_dk s d') \<and> in_trans pid Map.empty bs sb d' \<and>
    same_log (fdk s) d' \<and> view d' = view (fdk s)"
  using assms
proof (induction n arbitrary: off s rule: less_induct)
  case (less n)
  note t = less.prems(1) and ip = less.prems(2,3) and A = less.prems(4,5) and le = less.prems(6) and r = less.prems(7) and nz = less.prems(8)
  let ?V = "view (fdk s)" and ?bn = "off div BSIZE"
  show ?case
  proof (cases "n = 0")
    case True
    then show ?thesis using t by (intro exI [of _ "fdk s"]) (simp add: readi_loop.simps set_dk_def)
  next
    case False
    define m where "m = min n (BSIZE - off mod BSIZE)"
    have mp: "0 < m" "m \<le> n" "off mod BSIZE + m \<le> BSIZE" using False mod_block [of off] by (auto simp: m_def)
    have bn: "?bn < MAXFILE" using le False by (simp add: div_less_iff_less_mult BSIZE_def)
    have bz: "fmap ?V A ?bn \<noteq> 0" using nz [of off] False by simp
    obtain d1 where d1: "bmap pid ip ?bn s = Ok (fmap ?V A ?bn, set_dk s d1)" "in_trans pid Map.empty bs sb d1" "same_log (fdk s) d1" "view d1 = ?V"
      using bmap_there [OF t ip A bn bz r] by (elim exE conjE)
    have "fmap ?V A ?bn < sb_size sb" using A(2) bn bz by (simp add: file_ok_def good_def data_block_def)
    then have "fmap ?V A ?bn < disksize (bc d1)" by (rule block_u32(2) [OF d1(2)])
    moreover have "log_held pid Map.empty bs d1" using d1(2) by (simp add: in_trans_def)
    moreover have "room Map.empty bs d1 0" by (rule room_less [OF r d1(3)]) simp
    ultimately obtain d2 where d2: "get_block pid 1 (fmap ?V A ?bn) d1 = Ok (view d1 (fmap ?V A ?bn), d2)" "log_held pid Map.empty bs d2"
      "view d2 = view d1" "same_log d1 d2"
      using get_block_room [of pid Map.empty bs d1] by fastforce
    let ?s = "set_dk s d2"
    have V2: "view (fdk ?s) = ?V" using d1(4) d2(3) by (simp add: set_dk_def)
    have sl: "same_log (fdk s) (fdk ?s)" using same_log_trans [OF d1(3) d2(4)] by (simp add: set_dk_def)
    have ss: "st_of (fdk ?s) = st_of (fdk s)" "sz_of (fdk ?s) = sz_of (fdk s)" using sl by (simp_all add: same_log_def)
    have ic: "icache ?s = icache s" "fdk ?s = d2" "set_dk ?s d = set_dk s d" for d by (simp_all add: set_dk_def)
    have t2: "in_trans pid Map.empty bs sb (fdk ?s)" unfolding ic(2) by (rule in_trans_cong [OF d1(2) d2(2,4)]) (simp add: d2(3))
    have "\<exists>d'. readi_loop pid ip (off + m) (n - m) ?s = Ok (map (fbyte (view (fdk ?s)) A) [off + m..<off + m + (n - m)], set_dk ?s d') \<and>
        in_trans pid Map.empty bs sb d' \<and> same_log (fdk ?s) d' \<and> view d' = view (fdk ?s)"
    proof (rule less.IH)
      show "n - m < n" using mp False by simp
      show "in_trans pid Map.empty bs sb (fdk ?s)" by (rule t2)
      show "ip < length (icache ?s)" "i_dev (icache ?s ! ip) = 1" "i_addrs (icache ?s ! ip) = A" using ip A(1) unfolding ic by simp_all
      show "file_ok (view (fdk ?s)) sb (st_of (fdk ?s)) (sz_of (fdk ?s)) A" unfolding V2 ss by (rule A(2))
      show "off + m + (n - m) \<le> MAXFILE * BSIZE" using le mp by simp
      show "room Map.empty bs (fdk ?s) 0" by (rule room_less [OF r sl]) simp
      show "fmap (view (fdk ?s)) A (k div BSIZE) \<noteq> 0" if "off + m \<le> k" "k < off + m + (n - m)" for k
        unfolding V2 by (rule nz) (use that mp in linarith)+
    qed
    then obtain d' where d': "readi_loop pid ip (off + m) (n - m) ?s = Ok (map (fbyte ?V A) [off + m..<off + m + (n - m)], set_dk s d')"
      "in_trans pid Map.empty bs sb d'" "same_log (fdk ?s) d'" "view d' = ?V"
      unfolding V2 ic(3) by (elim exE conjE)
    have g: "get_bytes (off mod BSIZE) m (?V (fmap ?V A ?bn)) = map (fbyte ?V A) [off..<off + m]"
      by (rule get_bytes_file [OF mp(3) in_trans_len [OF t]])
    have "[off..<off + n] = [off..<off + m] @ [off + m..<off + m + (n - m)]" using mp(2) upt_add_eq_append [of off "off + m" "n - m"] by simp
    then have "readi_loop pid ip off n s = Ok (map (fbyte ?V A) [off..<off + n], set_dk s d')"
      using False d1(1,4) d2(1) d'(1) ip g by (subst readi_loop.simps) (simp add: m_def [symmetric] Let_def set_dk_def)
    then show ?thesis using d'(2,4) same_log_trans [OF sl d'(3)] by (intro exI [of _ d']) simp
  qed
qed

section \<open>Files as byte sequences\<close>

definition inode_area :: "superblock \<Rightarrow> nat \<Rightarrow> nat \<Rightarrow> nat \<Rightarrow> bool" where
  "inode_area sb st sz n \<longleftrightarrow> (\<forall>i < sb_ninodes sb. IBLOCK i sb < n \<and> home st sz (IBLOCK i sb) \<and> (\<forall>c < sb_size sb. IBLOCK i sb \<noteq> BBLOCK c sb))"

definition file_bytes :: "nat \<Rightarrow> 'a fs_scheme \<Rightarrow> u8 list" where
  "file_bytes ip s = map (fbyte (view (fdk s)) (i_addrs (icache s ! ip))) [0..<unat (i_size (icache s ! ip))]"

text \<open>The inode \<open>ip\<close> of the cache is a file or directory of the device, the calling process is in a transaction that has changed \<open>bs\<close>.\<close>

definition file_state :: "int \<Rightarrow> nat list \<Rightarrow> nat \<Rightarrow> 'a fs_scheme \<Rightarrow> bool" where
  "file_state pid bs ip s \<longleftrightarrow> in_trans pid Map.empty bs (fsb s) (fdk s) \<and> ip < length (icache s) \<and>
     inode_area (fsb s) (st_of (fdk s)) (sz_of (fdk s)) (disksize (bc (fdk s))) \<and>
     (let i = icache s ! ip in i_dev i = 1 \<and> i_inum i < sb_ninodes (fsb s) \<and> i_type i \<noteq> T_DEV \<and>
        file_ok (view (fdk s)) (fsb s) (st_of (fdk s)) (sz_of (fdk s)) (i_addrs i) \<and> unat (i_size i) \<le> MAXFILE * BSIZE \<and>
        (\<forall>k < unat (i_size i). fmap (view (fdk s)) (i_addrs i) (k div BSIZE) \<noteq> 0))"

text \<open>A block of a file other than \<open>ip\<close>.\<close>

definition other_block :: "nat \<Rightarrow> 'a fs_scheme \<Rightarrow> nat \<Rightarrow> bool" where
  "other_block ip s c \<longleftrightarrow> apart (view (fdk s)) (fsb s) (st_of (fdk s)) (sz_of (fdk s)) (i_addrs (icache s ! ip)) c"

lemma file_blocks_small: "MAXFILE * BSIZE < 2 ^ 31"
  by (simp add: MAXFILE_def NDIRECT_def NINDIRECT_def BSIZE_def)

lemma sint_unat:
  assumes "unat (n :: u32) < 2 ^ 31"
  shows "sint n = int (unat n)"
proof -
  have "uint n < 2 ^ 31" using of_nat_less_iff [where 'a = int, THEN iffD2, OF assms] by simp
  then have "signed_take_bit 31 (uint n) = uint n" using uint_ge_0 [of n] by (intro signed_take_bit_int_eq_self) linarith+
  then show ?thesis by (simp add: sint_uint)
qed

lemma no_wrap: "\<not> (off :: u32) + n < off \<longleftrightarrow> unat off + unat n < 2 ^ 32"
proof -
  have "off \<le> off + n \<longleftrightarrow> unat off + unat n < 2 ^ LENGTH(32)" by (rule no_olen_add_nat)
  then show ?thesis by (simp add: not_less)
qed

lemma other_view:
  assumes f: "file_ok V sb st sz A" and W: "W = V(x := e)" and x: "\<not> data_block sb st sz x" "\<And>c. c < sb_size sb \<Longrightarrow> x \<noteq> BBLOCK c sb"
  shows "file_ok W sb st sz A" "fmap W A m = fmap V A m"
    "m < MAXFILE \<Longrightarrow> fmap V A m \<noteq> 0 \<Longrightarrow> W (fmap V A m) = V (fmap V A m)" "c < sb_size sb \<Longrightarrow> is_used W sb c = is_used V sb c"
    "good W sb st sz b = good V sb st sz b"
proof -
  have us: "is_used W sb c = is_used V sb c" if "c < sb_size sb" for c using x(2) [OF that] unfolding W by (auto simp: is_used_def)
  then have gd: "good W sb st sz b = good V sb st sz b" for b by (auto simp: good_def data_block_def)
  have "unat (A ! NDIRECT) \<noteq> x" if "A ! NDIRECT \<noteq> 0" using f that x(1) by (auto simp: file_ok_def good_def)
  then have fm: "fmap W A m = fmap V A m" for m unfolding W by (auto simp: fmap_def)
  show "file_ok W sb st sz A" using f unfolding file_ok_def gd fm .
  show "fmap W A m = fmap V A m" by (rule fm)
  show "c < sb_size sb \<Longrightarrow> is_used W sb c = is_used V sb c" by (rule us)
  show "good W sb st sz b = good V sb st sz b" by (rule gd)
  show "W (fmap V A m) = V (fmap V A m)" if "m < MAXFILE" "fmap V A m \<noteq> 0"
    using f that x(1) unfolding W by (auto simp: file_ok_def good_def)
qed

lemma block_in_file: "k < MAXFILE * BSIZE \<Longrightarrow> k div BSIZE < MAXFILE"
  by (simp add: BSIZE_def div_less_iff_less_mult)

lemma file_stateD:
  assumes "file_state pid bs ip s"
  shows "in_trans pid Map.empty bs (fsb s) (fdk s)" "ip < length (icache s)"
    "inode_area (fsb s) (st_of (fdk s)) (sz_of (fdk s)) (disksize (bc (fdk s)))" "i_dev (icache s ! ip) = 1"
    "i_inum (icache s ! ip) < sb_ninodes (fsb s)" "i_type (icache s ! ip) \<noteq> T_DEV"
    "file_ok (view (fdk s)) (fsb s) (st_of (fdk s)) (sz_of (fdk s)) (i_addrs (icache s ! ip))"
    "unat (i_size (icache s ! ip)) \<le> MAXFILE * BSIZE"
    "\<And>k. k < unat (i_size (icache s ! ip)) \<Longrightarrow> fmap (view (fdk s)) (i_addrs (icache s ! ip)) (k div BSIZE) \<noteq> 0"
  using assms by (simp_all add: file_state_def Let_def)

section \<open>A small file system\<close>

text \<open>40 blocks: log at 2, one block of inodes, the free map at 33; inode 1 is a file of two bytes in block 34.\<close>

definition free_map_ex :: block where
  "free_map_ex = [255, 255, 255, 255, 7] @ replicate 507 0"

definition disk_ex :: "nat \<Rightarrow> block" where
  "disk_ex b = (if b = 33 then free_map_ex else if b = 34 then [72, 105] @ replicate 510 0 else replicate BSIZE 0)"

definition fs_ex :: fs where
  "fs_ex = \<lparr>fdk = \<lparr>lg = \<lparr>lg_start = 2, lg_size = 30, lg_outstanding = 1, lg_committing = False, lg_dev = 1,
       lg_lh = \<lparr>lh_n = 0, lh_block = replicate LOGSIZE 0\<rparr>\<rparr>,
       bc = binit \<lparr>bufs = [], lru = [], disk = disk_ex, disksize = 40, dtrace = []\<rparr>\<rparr>,
     fsb = \<lparr>sb_size = 40, sb_nblocks = 6, sb_ninodes = 8, sb_nlog = 30, sb_logstart = 2, sb_inodestart = 32, sb_bmapstart = 33\<rparr>,
     icache = [inode_init\<lparr>i_dev := 1, i_inum := 1, i_ref := 1, i_valid := True, i_type := T_FILE, i_nlink := 1, i_size := 2,
       i_addrs := 34 # replicate NDIRECT 0\<rparr>]\<rparr>"

lemma fs_ex_fields [simp]:
  "lg_start (lg (fdk fs_ex)) = 2" "lg_size (lg (fdk fs_ex)) = 30" "lg_outstanding (lg (fdk fs_ex)) = 1" "disksize (bc (fdk fs_ex)) = 40"
  "sb_size (fsb fs_ex) = 40" "sb_ninodes (fsb fs_ex) = 8" "length (icache fs_ex) = 1" "i_dev (icache fs_ex ! 0) = 1" "i_inum (icache fs_ex ! 0) = 1"
  "i_type (icache fs_ex ! 0) = T_FILE" "i_size (icache fs_ex ! 0) = 2" "i_addrs (icache fs_ex ! 0) = 34 # replicate NDIRECT 0"
  by (simp_all add: fs_ex_def binit_def)

lemma disk_ex_length: "length (disk_ex b) = BSIZE"
  by (simp add: disk_ex_def free_map_ex_def BSIZE_def)

lemma fs_ex_log: "log_held pid Map.empty [] (fdk fs_ex)"
proof -
  have "idle (bc (fdk fs_ex))" unfolding fs_ex_def by (simp add: binit_idle disk_ex_length)
  then have "held pid Map.empty {} (bc (fdk fs_ex))" using idle_held by blast
  then show ?thesis
    by (simp add: log_held_def fs_ex_def binit_def log_fits_def hdr_def get32_def get32s_def join4_def BSIZE_def NBUF_def disk_ex_def)
qed

lemma fs_ex_view: "view (fdk fs_ex) = disk_ex"
proof
  fix b
  have "held 0 Map.empty {} (bc (fdk fs_ex))" using fs_ex_log [of 0] by (simp add: log_held_def)
  then show "view (fdk fs_ex) b = disk_ex b" using held_view_clean [of 0 Map.empty "{}" "bc (fdk fs_ex)" b] by (simp add: fs_ex_def binit_def)
qed

lemma free_map_used: "list_all (\<lambda>b. in_use b free_map_ex) [0..<35]" "\<not> in_use 35 free_map_ex" "\<not> in_use 36 free_map_ex"
  by code_simp+

lemma fs_ex_blocks: "b < 40 \<Longrightarrow> BBLOCK b (fsb fs_ex) = 33" "i < 8 \<Longrightarrow> IBLOCK i (fsb fs_ex) = 32"
  by (simp_all add: fs_ex_def BBLOCK_def IBLOCK_def BPB_def BSIZE_def IPB_def DINODE_SIZE_def)

lemma fs_ex_used: "b < 40 \<Longrightarrow> is_used disk_ex (fsb fs_ex) b = in_use b free_map_ex"
  by (simp add: is_used_def fs_ex_blocks disk_ex_def BPB_def BSIZE_def)

lemma fs_ex_data: "35 \<le> b + 1 \<Longrightarrow> b < 40 \<Longrightarrow> data_block (fsb fs_ex) 2 30 b"
  by (simp add: data_block_def home_def fs_ex_blocks)

lemma fs_ex_trans: "in_trans pid Map.empty [] (fsb fs_ex) (fdk fs_ex)"
proof -
  have "data_block (fsb fs_ex) 2 30 b" if "b < 40" "\<not> is_used disk_ex (fsb fs_ex) b" for b
  proof -
    have "\<not> b < 35" using that free_map_used(1) by (auto simp: fs_ex_used list_all_iff)
    then show ?thesis using that(1) by (simp add: fs_ex_data)
  qed
  then show ?thesis using fs_ex_log by (simp add: in_trans_def map_ok_def fs_ex_view fs_ex_blocks home_def)
qed

lemma fs_ex_map: "m < MAXFILE \<Longrightarrow> fmap disk_ex (34 # replicate NDIRECT 0) m = (if m = 0 then 34 else 0)"
  by (simp add: fmap_def NDIRECT_def nth_Cons')

lemma fs_ex_file: "file_state pid [] 0 fs_ex"
proof -
  have "in_use 34 free_map_ex" using free_map_used(1) by (simp add: list_all_iff)
  then have "good disk_ex (fsb fs_ex) 2 30 34" by (simp add: good_def fs_ex_used fs_ex_data)
  then have "file_ok disk_ex (fsb fs_ex) 2 30 (34 # replicate NDIRECT 0)"
    by (auto simp: file_ok_def fs_ex_map nth_Cons' split: if_splits) (simp_all add: NDIRECT_def)
  moreover have "fmap disk_ex (34 # replicate NDIRECT 0) (k div BSIZE) \<noteq> 0" if "k < 2" for k
    using that fs_ex_map [of 0] by (simp add: BSIZE_def MAXFILE_def NDIRECT_def)
  moreover have "unat (2 :: u32) \<le> MAXFILE * BSIZE" by (simp add: MAXFILE_def NDIRECT_def NINDIRECT_def BSIZE_def)
  ultimately show ?thesis using fs_ex_trans [of pid]
    by (simp add: file_state_def fs_ex_view inode_area_def fs_ex_blocks home_def T_FILE_def T_DEV_def)
qed

lemma fs_ex_bytes: "file_bytes 0 fs_ex = [72, 105]"
  by (simp add: file_bytes_def fs_ex_view fbyte_def fmap_def disk_ex_def BSIZE_def NDIRECT_def upt_rec)

lemma fs_ex_free: "2 \<le> nfree disk_ex (fsb fs_ex)"
proof -
  have "{35, 36} \<subseteq> {b. b < sb_size (fsb fs_ex) \<and> \<not> is_used disk_ex (fsb fs_ex) b}" using free_map_used(2,3) by (simp add: fs_ex_used)
  then have "card {35 :: nat, 36} \<le> nfree disk_ex (fsb fs_ex)" unfolding nfree_def by (intro card_mono) simp_all
  then show ?thesis by simp
qed

text \<open>
  C17. \<^verbatim>\<open>readi\<close> gives the bytes of the file from the offset on, as many as asked for and as the file has, and changes neither the
  file nor any block; an offset past the end and a count that wraps around give -1.
\<close>

theorem readi_reads_file:
  assumes f: "file_state pid bs ip s" and r: "room Map.empty bs (fdk s) 0"
  shows "if unat off \<le> unat (i_size (icache s ! ip)) \<and> unat off + unat n < 2 ^ 32
    then let data = get_bytes (unat off) (unat n) (file_bytes ip s) in
      \<exists>s'. readi devs pid ip off n s = Ok (int (length data), data, s') \<and> file_state pid bs ip s' \<and> icache s' = icache s \<and>
        view (fdk s') = view (fdk s) \<and> same_log (fdk s) (fdk s')
    else readi devs pid ip off n s = Ok (-1, [], s)"
proof (cases "unat off \<le> unat (i_size (icache s ! ip)) \<and> unat off + unat n < 2 ^ 32")
  case False
  then have "off > i_size (icache s ! ip) \<or> off + n < off" using no_wrap [of off n] by (auto simp: word_less_nat_alt)
  then show ?thesis using False file_stateD(6) [OF f] by (simp add: readi_def Let_def)
next
  case True
  note D = file_stateD [OF f]
  let ?i = "icache s ! ip" and ?V = "view (fdk s)"
  define m where "m = (if off + n > i_size ?i then i_size ?i - off else n)"
  have nw: "\<not> off + n < off" "unat (off + n) = unat off + unat n" using True no_wrap [of off n] by (simp_all add: unat_word_ariths(1))
  have le: "off \<le> i_size ?i" using True by (simp add: word_le_nat_alt)
  have un: "unat m = min (unat n) (unat (i_size ?i) - unat off)" using True le nw(2) by (auto simp: m_def word_less_nat_alt unat_sub min_def)
  then have e: "unat off + unat m \<le> unat (i_size ?i)" using True by linarith
  have "unat off + unat m \<le> MAXFILE * BSIZE" using e D(8) by linarith
  moreover have "fmap ?V (i_addrs ?i) (k div BSIZE) \<noteq> 0" if "k < unat off + unat m" for k using D(9) that e by simp
  ultimately obtain d' where d': "readi_loop pid ip (unat off) (unat m) s = Ok (map (fbyte ?V (i_addrs ?i)) [unat off..<unat off + unat m], set_dk s d')"
    "in_trans pid Map.empty bs (fsb s) d'" "same_log (fdk s) d'" "view d' = ?V"
    using readi_loop_spec [OF D(1,2,4) refl D(7) _ r, of "unat off" "unat m"] by blast
  have g: "get_bytes (unat off) (unat n) (file_bytes ip s) = map (fbyte ?V (i_addrs ?i)) [unat off..<unat off + unat m]"
    using e un by (intro nth_equalityI) (auto simp: get_bytes_def file_bytes_def)
  have "unat m < 2 ^ 31" using e D(8) file_blocks_small by linarith
  then have "sint m = int (length (map (fbyte ?V (i_addrs ?i)) [unat off..<unat off + unat m]))" by (simp add: sint_unat)
  then have "readi devs pid ip off n s = Ok (int (length (get_bytes (unat off) (unat n) (file_bytes ip s))), get_bytes (unat off) (unat n) (file_bytes ip s), set_dk s d')"
    using D(6) not_less [THEN iffD2, OF le] nw(1) d'(1) unfolding g by (simp add: readi_def Let_def m_def [symmetric] del: not_less)
  moreover have "file_state pid bs ip (set_dk s d')" using f d'(2-4) by (simp add: file_state_def set_dk_def same_log_def same_disk_def)
  ultimately show ?thesis using True d'(3,4) by (simp add: set_dk_def Let_def)
qed

lemma readi_reads_file_witness: "\<exists>s'. readi (\<lambda>_. None) 7 0 1 5 fs_ex = Ok (1, [105], s')"
proof -
  have "room Map.empty [] (fdk fs_ex) 0" by (simp add: room_def NBUF_def)
  from readi_reads_file [where pid = 7 and off = 1 and n = 5 and devs = "\<lambda>_. None", OF fs_ex_file this] show ?thesis by (auto simp: fs_ex_bytes get_bytes_def Let_def)
qed

lemma written_state:
  assumes f: "file_state pid bs ip s" and off: "off \<le> unat (i_size (icache s ! ip))" "off + length src \<le> MAXFILE * BSIZE"
    and w: "written (fsb s) (st_of (fdk s)) (sz_of (fdk s)) off src (view (fdk s)) (i_addrs (icache s ! ip)) V' A'"
    and t: "in_trans pid Map.empty bs' (fsb s) (fdk s')" "same_log (fdk s) (fdk s')" "fsb s' = fsb s" "length (icache s') = length (icache s)"
    and i: "icache s' ! ip = (icache s ! ip)\<lparr>i_addrs := A', i_size := z\<rparr>" "unat z = max (unat (i_size (icache s ! ip))) (off + length src)"
    and e: "file_ok (view (fdk s')) (fsb s) (st_of (fdk s)) (sz_of (fdk s)) A'" "\<And>m. fmap (view (fdk s')) A' m = fmap V' A' m"
      "\<And>m. m < MAXFILE \<Longrightarrow> fmap V' A' m \<noteq> 0 \<Longrightarrow> view (fdk s') (fmap V' A' m) = V' (fmap V' A' m)"
  shows "file_state pid bs' ip s'" "file_bytes ip s' = put_bytes off src (file_bytes ip s)"
proof -
  note D = file_stateD [OF f]
  let ?V = "view (fdk s)" and ?A = "i_addrs (icache s ! ip)" and ?n = "unat (i_size (icache s ! ip))" and ?W = "view (fdk s')"
  have M: "k < MAXFILE * BSIZE" if "k < unat z" for k using that i(2) off(2) D(8) by linarith
  have b: "fmap V' A' (k div BSIZE) \<noteq> 0 \<and> fbyte V' A' k = (if off \<le> k \<and> k < off + length src then src ! (k - off) else fbyte ?V ?A k)"
    if k: "k < unat z" for k
  proof (cases "off \<le> k \<and> k < off + length src")
    case True
    then show ?thesis using written_in [OF w, of k] by simp
  next
    case False
    then have "k < off \<or> off + length src \<le> k" "k < ?n" using k i(2) off by linarith+
    then show ?thesis using written_out [OF w M [OF k]] D(9) False by auto
  qed
  have W: "fbyte ?W A' k = fbyte V' A' k" if k: "k < unat z" for k
    using e(2,3) b [OF k] block_in_file [OF M [OF k]] by (simp add: fbyte_def)
  have z: "unat z \<le> MAXFILE * BSIZE" using i(2) off(2) D(8) by linarith
  show "file_state pid bs' ip s'"
    unfolding file_state_def Let_def i(1) t(3) using t D(2-6) e(1) z b e(2) by (simp add: same_log_def same_disk_def)
  show "file_bytes ip s' = put_bytes off src (file_bytes ip s)"
  proof (rule nth_equalityI)
    show "length (file_bytes ip s') = length (put_bytes off src (file_bytes ip s))"
      using i off(1) by (simp add: file_bytes_def put_bytes_def)
  next
    fix k
    assume "k < length (file_bytes ip s')"
    then have k: "k < unat z" by (simp add: file_bytes_def i(1))
    have "file_bytes ip s' ! k = (if off \<le> k \<and> k < off + length src then src ! (k - off) else fbyte ?V ?A k)"
      using k b [OF k] W [OF k] by (simp add: file_bytes_def i(1))
    moreover have "put_bytes off src (file_bytes ip s) ! k = (if off \<le> k \<and> k < off + length src then src ! (k - off) else fbyte ?V ?A k)"
      using k i(2) off(1) by (auto simp: put_bytes_def file_bytes_def nth_append min_absorb2)
    ultimately show "file_bytes ip s' ! k = put_bytes off src (file_bytes ip s) ! k" by simp
  qed
qed

text \<open>\<^verbatim>\<open>iupdate\<close> copies the inode to its place on disk and touches nothing else of the block's neighbours in use.\<close>

lemma iupdate_encodes:
  assumes t: "in_trans pid Map.empty bs (fsb s) (fdk s)" and ar: "inode_area (fsb s) (st_of (fdk s)) (sz_of (fdk s)) (disksize (bc (fdk s)))"
    and i: "i_dev (icache s ! ip) = 1" "i_inum (icache s ! ip) < sb_ninodes (fsb s)" "length (i_addrs (icache s ! ip)) = NDIRECT + 1"
    and r: "room Map.empty bs (fdk s) 1"
  defines "x \<equiv> IBLOCK (i_inum (icache s ! ip)) (fsb s)"
  shows "\<exists>d' bs'. iupdate pid ip s = Ok (set_dk s d') \<and> in_trans pid Map.empty bs' (fsb s) d' \<and> same_log (fdk s) d' \<and> length bs' \<le> length bs + 1 \<and>
    view d' = (view (fdk s))(x := encode_dinode (DINODE_SIZE * (i_inum (icache s ! ip) mod IPB)) (dinode_of (icache s ! ip)) (view (fdk s) x))"
proof -
  let ?x = "IBLOCK (i_inum (icache s ! ip)) (fsb s)" and ?o = "DINODE_SIZE * (i_inum (icache s ! ip) mod IPB)"
  let ?f = "encode_dinode ?o (dinode_of (icache s ! ip))"
  have x: "?x < disksize (bc (fdk s))" "home (st_of (fdk s)) (sz_of (fdk s)) ?x" "\<And>c. c < sb_size (fsb s) \<Longrightarrow> ?x \<noteq> BBLOCK c (fsb s)"
    using ar i(2) by (simp_all add: inode_area_def)
  have len: "length (view (fdk s) ?x) = BSIZE" by (rule in_trans_len [OF t])
  have "i_inum (icache s ! ip) mod IPB < IPB" by (simp add: IPB_def BSIZE_def DINODE_SIZE_def)
  then have o: "?o + DINODE_SIZE \<le> length (view (fdk s) ?x)" unfolding len by (simp add: IPB_def BSIZE_def DINODE_SIZE_def)
  have la: "length (d_addrs (dinode_of (icache s ! ip))) = NDIRECT + 1" using i(3) by (simp add: dinode_of_def)
  have lh: "log_held pid Map.empty bs (fdk s)" "1 \<le> lg_outstanding (lg (fdk s))" using t by (simp_all add: in_trans_def)
  have lf: "length (?f (view (fdk s) ?x)) = BSIZE" using length_encode_dinode [OF o la] len by simp
  have nr: "?x \<notin> ran Map.empty" by simp
  obtain d' bs' where u: "upd_block pid 1 ?x ?f (fdk s) = Ok d'" "log_held pid Map.empty bs' d'" "view d' = (view (fdk s))(?x := ?f (view (fdk s) ?x))"
    "same_log (fdk s) d'" "length bs' \<le> length bs + 1"
    using upd_block_room [where f = ?f, OF lh x(1) nr x(2) r lf] by (elim exE conjE)
  have "in_trans pid Map.empty bs' (fsb s) d'"
    by (rule in_trans_cong [OF t u(2,4)]) (simp add: is_used_def u(3) not_sym [OF x(3)])
  moreover have "iupdate pid ip s = Ok (set_dk s d')" using u(1) i(1) by (simp add: iupdate_def Let_def)
  ultimately show ?thesis using u(3-5) unfolding x_def by (intro exI [of _ d'] exI [of _ bs']) simp
qed

lemma iupdate_spec:
  assumes t: "in_trans pid Map.empty bs (fsb s) (fdk s)" and ar: "inode_area (fsb s) (st_of (fdk s)) (sz_of (fdk s)) (disksize (bc (fdk s)))"
    and i: "i_dev (icache s ! ip) = 1" "i_inum (icache s ! ip) < sb_ninodes (fsb s)" "length (i_addrs (icache s ! ip)) = NDIRECT + 1"
    and r: "room Map.empty bs (fdk s) 1"
  shows "\<exists>d' bs' e. iupdate pid ip s = Ok (set_dk s d') \<and> in_trans pid Map.empty bs' (fsb s) d' \<and> same_log (fdk s) d' \<and> length bs' \<le> length bs + 1 \<and>
    view d' = (view (fdk s))(IBLOCK (i_inum (icache s ! ip)) (fsb s) := e) \<and>
    decode_dinode (DINODE_SIZE * (i_inum (icache s ! ip) mod IPB)) e = dinode_of (icache s ! ip)"
proof -
  have "length (view (fdk s) b) = BSIZE" for b by (rule in_trans_len [OF t])
  then have "decode_dinode (DINODE_SIZE * (i_inum (icache s ! ip) mod IPB))
      (encode_dinode (DINODE_SIZE * (i_inum (icache s ! ip) mod IPB)) (dinode_of (icache s ! ip)) (view (fdk s) b)) = dinode_of (icache s ! ip)" for b
    using dinode_fits i(3) by (intro decode_encode_dinode) (simp_all add: dinode_of_def)
  then show ?thesis using iupdate_encodes [OF assms] by blast
qed






lemma unat_u32: "b < 2 ^ 32 \<Longrightarrow> unat (of_nat b :: u32) = b"
  by (simp add: unat_of_nat take_bit_nat_eq_self_iff)

text \<open>The end of a write that grows the file: the new size goes into the inode and the inode to the disk.\<close>

lemma grow_inode:
  assumes f: "file_state pid bs ip s" and off: "off \<le> unat (i_size (icache s ! ip))" "off + length src \<le> MAXFILE * BSIZE"
    and gr: "unat (i_size (icache s ! ip)) < off + length src"
    and t: "in_trans pid Map.empty bs' (fsb s) d'" "same_log (fdk s) d'" "room Map.empty bs' d' 1"
    and w: "written (fsb s) (st_of (fdk s)) (sz_of (fdk s)) off src (view (fdk s)) (i_addrs (icache s ! ip)) (view d') A'"
  shows "\<exists>s' bs2. iupdate pid ip (upd_inode ip (\<lambda>i. i\<lparr>i_size := of_nat (off + length src)\<rparr>) (with_file ip A' d' s)) = Ok s' \<and>
    length bs2 \<le> length bs' + 1 \<and> file_state pid bs2 ip s' \<and> file_bytes ip s' = put_bytes off src (file_bytes ip s) \<and>
    (\<forall>c. other_block ip s c \<longrightarrow> view (fdk s') c = view (fdk s) c \<and> other_block ip s' c) \<and>
    decode_dinode (DINODE_SIZE * (i_inum (icache s ! ip) mod IPB)) (view (fdk s') (IBLOCK (i_inum (icache s ! ip)) (fsb s))) = dinode_of (icache s' ! ip)"
proof -
  note D = file_stateD [OF f] and fk = written_file [OF w]
  let ?i = "icache s ! ip" and ?V = "view (fdk s)" and ?sb = "fsb s" and ?st = "st_of (fdk s)" and ?sz = "sz_of (fdk s)"
  let ?x = "IBLOCK (i_inum ?i) ?sb"
  define z where "z = (of_nat (off + length src) :: u32)"
  define s2 where "s2 = upd_inode ip (\<lambda>i. i\<lparr>i_size := z\<rparr>) (with_file ip A' d' s)"
  have "off + length src < 2 ^ 31" using off(2) file_blocks_small by linarith
  then have z: "unat z = max (unat (i_size ?i)) (off + length src)" unfolding z_def using gr by (subst unat_u32) simp_all
  have ic: "icache s2 ! ip = ?i\<lparr>i_addrs := A', i_size := z\<rparr>" "fdk s2 = d'" "fsb s2 = ?sb" "length (icache s2) = length (icache s)"
    using D(2) by (simp_all add: s2_def upd_inode_def)
  have sl: "st_of d' = ?st" "sz_of d' = ?sz" "disksize (bc d') = disksize (bc (fdk s))" using t(2) by (simp_all add: same_log_def same_disk_def)
  have "in_trans pid Map.empty bs' (fsb s2) (fdk s2)" "inode_area (fsb s2) (st_of (fdk s2)) (sz_of (fdk s2)) (disksize (bc (fdk s2)))"
    "i_dev (icache s2 ! ip) = 1" "i_inum (icache s2 ! ip) < sb_ninodes (fsb s2)" "length (i_addrs (icache s2 ! ip)) = NDIRECT + 1"
    "room Map.empty bs' (fdk s2) 1"
    unfolding ic sl using t(1,3) D(3-5) fk by (simp_all add: file_ok_def)
  from iupdate_spec [OF this] obtain d2 bs2 e where u: "iupdate pid ip s2 = Ok (set_dk s2 d2)" "in_trans pid Map.empty bs2 ?sb d2" "same_log d' d2"
    "length bs2 \<le> length bs' + 1" "view d2 = (view d')(?x := e)" "decode_dinode (DINODE_SIZE * (i_inum ?i mod IPB)) e = dinode_of (icache s2 ! ip)"
    unfolding ic by auto
  define s3 where "s3 = set_dk s2 d2"
  have i3: "icache s3 ! ip = ?i\<lparr>i_addrs := A', i_size := z\<rparr>" "fdk s3 = d2" "fsb s3 = ?sb" "length (icache s3) = length (icache s)"
    using ic by (simp_all add: s3_def set_dk_def)
  have x: "\<not> data_block ?sb ?st ?sz ?x" "\<And>c. c < sb_size ?sb \<Longrightarrow> ?x \<noteq> BBLOCK c ?sb" using D(3,5) by (auto simp: inode_area_def data_block_def)
  note o = other_view [OF fk u(5) x]
  have s3: "same_log (fdk s) (fdk s3)" unfolding i3 by (rule same_log_trans [OF t(2) u(3)])
  have "file_state pid bs2 ip s3" "file_bytes ip s3 = put_bytes off src (file_bytes ip s)"
    by (rule written_state [OF f off w _ s3 i3(3,4,1) z]; use u(2) i3(2) o(1-3) in simp)+
  moreover have "view (fdk s3) c = ?V c \<and> other_block ip s3 c" if "other_block ip s c" for c
  proof -
    have c: "view d' c = ?V c" "apart (view d') ?sb ?st ?sz A' c" using written_apart [OF w, of c] that by (simp_all add: other_block_def)
    then have "c \<noteq> ?x" using x(1) by (auto simp: apart_def good_def)
    then have "view d2 c = ?V c" using c(1) by (simp add: u(5))
    moreover have "st_of d2 = ?st" "sz_of d2 = ?sz" using s3 by (simp_all add: i3 same_log_def)
    moreover have "apart (view d2) ?sb ?st ?sz A' c" using c(2) by (simp add: apart_def o(2,5))
    ultimately show ?thesis by (simp add: other_block_def i3)
  qed
  moreover have "view (fdk s3) ?x = e" unfolding i3 u(5) by simp
  ultimately show ?thesis using u(1,4,6) unfolding ic(1) i3(1) [symmetric] s2_def [symmetric] z_def [symmetric] s3_def [symmetric]
    by (intro exI [of _ s3] exI [of _ bs2]) simp
qed

text \<open>
  C16. \<^verbatim>\<open>writei\<close> at an offset within the file puts the bytes there, over what the file has and past its end, allocating the blocks that
  are missing; the blocks of other files stay as they are, and a size that grew is in the inode on disk. The transaction has room in
  the log for six blocks for each block that is written and one for the inode, and the disk has two free blocks for each.
\<close>

theorem writei_writes_file:
  assumes f: "file_state pid bs ip s" and off: "unat off \<le> unat (i_size (icache s ! ip))" "unat off + length src \<le> MAXFILE * BSIZE"
    and r: "room Map.empty bs (fdk s) (6 * nblk (unat off) (length src) + 1)" and n: "2 * nblk (unat off) (length src) \<le> nfree (view (fdk s)) (fsb s)"
  shows "\<exists>s' bs'. writei devs pid ip src off s = Ok (int (length src), s') \<and> file_state pid bs' ip s' \<and>
    length bs' \<le> length bs + 6 * nblk (unat off) (length src) + 1 \<and> file_bytes ip s' = put_bytes (unat off) src (file_bytes ip s) \<and>
    (\<forall>c. other_block ip s c \<longrightarrow> view (fdk s') c = view (fdk s) c \<and> other_block ip s' c) \<and>
    (unat (i_size (icache s ! ip)) < unat off + length src \<longrightarrow>
       decode_dinode (DINODE_SIZE * (i_inum (icache s ! ip) mod IPB)) (view (fdk s') (IBLOCK (i_inum (icache s ! ip)) (fsb s))) = dinode_of (icache s' ! ip))"
proof -
  note D = file_stateD [OF f]
  let ?i = "icache s ! ip" and ?V = "view (fdk s)" and ?o = "unat off" and ?sb = "fsb s" and ?st = "st_of (fdk s)" and ?sz = "sz_of (fdk s)"
  define n where "n = (of_nat (length src) :: u32)"
  have l31: "?o + length src < 2 ^ 31" using off(2) file_blocks_small by linarith
  then have un: "unat n = length src" unfolding n_def by (intro unat_u32) simp
  have sn: "sint n = int (length src)" using l31 un by (subst sint_unat) simp_all
  have nw: "\<not> off + n < off" "unat (off + n) = ?o + length src" using l31 un no_wrap [of off n] by (simp_all add: unat_word_ariths(1))
  have le: "\<not> off > i_size ?i" using off(1) by (simp add: word_less_nat_alt)
  have r0: "room Map.empty bs (fdk s) (6 * nblk ?o (length src))" using r by (simp add: room_def)
  obtain A' d' bs' where w: "writei_loop pid ip ?o src s = Ok (?o + length src, with_file ip A' d' s)" "in_trans pid Map.empty bs' ?sb d'" "same_log (fdk s) d'"
    "length bs' \<le> length bs + 6 * nblk ?o (length src)" "written ?sb ?st ?sz ?o src ?V (i_addrs ?i) (view d') A'"
    using writei_loop_spec [OF D(1) refl D(2,4) refl D(7) off(2) r0 n] by (elim exE conjE)
  define s1 where "s1 = with_file ip A' d' s"
  note fk = written_file [OF w(5)]
  have wr: "writei devs pid ip src off s =
      (if src \<noteq> [] \<and> ?o + length src > unat (i_size ?i)
       then bnd (iupdate pid ip (upd_inode ip (\<lambda>i. i\<lparr>i_size := of_nat (?o + length src)\<rparr>) s1)) (\<lambda>s. Ok (int (length src), s))
       else Ok (int (length src), s1))"
    using D(2,6) le nw off(2) w(1) sn by (simp add: writei_def Let_def n_def [symmetric] s1_def del: not_less of_nat_add)
  show ?thesis
  proof (cases "unat (i_size ?i) < ?o + length src")
    case False
    have i: "icache s1 ! ip = ?i\<lparr>i_addrs := A', i_size := i_size ?i\<rparr>" "unat (i_size ?i) = max (unat (i_size ?i)) (?o + length src)"
      using D(2) False by (simp_all add: s1_def)
    have e: "fdk s1 = d'" "fsb s1 = ?sb" "length (icache s1) = length (icache s)" by (simp_all add: s1_def)
    have "file_state pid bs' ip s1" "file_bytes ip s1 = put_bytes ?o src (file_bytes ip s)"
      by (rule written_state [OF f off w(5) _ _ e(2,3) i]; use w(2,3) e(1) fk in simp)+
    moreover have "view (fdk s1) c = ?V c \<and> other_block ip s1 c" if "other_block ip s c" for c
      using written_apart [OF w(5), of c] that i(1) w(3) e by (simp add: other_block_def same_log_def)
    ultimately show ?thesis using wr False w(4) by (intro exI [of _ s1] exI [of _ bs']) simp
  next
    case True
    have "room Map.empty bs' d' 1" by (rule room_less [OF r w(3)]) (use w(4) in simp)
    from grow_inode [OF f off True w(2,3) this w(5)] obtain s3 bs2 where
      u: "iupdate pid ip (upd_inode ip (\<lambda>i. i\<lparr>i_size := of_nat (?o + length src)\<rparr>) s1) = Ok s3" "length bs2 \<le> length bs' + 1"
      "file_state pid bs2 ip s3" "file_bytes ip s3 = put_bytes ?o src (file_bytes ip s)"
      "\<forall>c. other_block ip s c \<longrightarrow> view (fdk s3) c = view (fdk s) c \<and> other_block ip s3 c"
      "decode_dinode (DINODE_SIZE * (i_inum ?i mod IPB)) (view (fdk s3) (IBLOCK (i_inum ?i) ?sb)) = dinode_of (icache s3 ! ip)"
      unfolding s1_def [symmetric] by (elim exE conjE)
    have "writei devs pid ip src off s = Ok (int (length src), s3)" using True off(1) unfolding wr u(1) by auto
    moreover have "length bs2 \<le> length bs + 6 * nblk ?o (length src) + 1" using u(2) w(4) by linarith
    ultimately show ?thesis using u(3-6) by blast
  qed
qed

lemma writei_writes_file_witness:
  "\<exists>s'. writei (\<lambda>_. None) 7 0 [1, 2, 3] 1 fs_ex = Ok (3, s') \<and> file_bytes 0 s' = [72, 1, 2, 3]"
proof -
  have nb: "nblk 1 3 = 1" by (simp add: nblk_def BSIZE_def)
  have "unat (1 :: u32) \<le> unat (i_size (icache fs_ex ! 0))" by simp
  moreover have "unat (1 :: u32) + length [1 :: u8, 2, 3] \<le> MAXFILE * BSIZE" by (simp add: MAXFILE_def NDIRECT_def NINDIRECT_def BSIZE_def)
  moreover have "room Map.empty [] (fdk fs_ex) (6 * nblk (unat (1 :: u32)) (length [1 :: u8, 2, 3]) + 1)"
    using nb by (simp add: room_def NBUF_def numeral_3_eq_3)
  moreover have "2 * nblk (unat (1 :: u32)) (length [1 :: u8, 2, 3]) \<le> nfree (view (fdk fs_ex)) (fsb fs_ex)"
    using nb fs_ex_free by (simp add: fs_ex_view numeral_3_eq_3)
  ultimately show ?thesis using writei_writes_file [where pid = 7 and off = 1 and src = "[1, 2, 3]" and devs = "\<lambda>_. None", OF fs_ex_file]
    by (fastforce simp: fs_ex_bytes put_bytes_def)
qed

end
