(* ===== verification/Ring.thy ===== *)
theory Ring
  imports Kernel_Base
begin

text \<open>
  Ring buffers indexed by 32-bit counters that only grow and wrap around: the pipe buffer of \<^verbatim>\<open>pipe.c\<close> and the input
  line buffer of \<^verbatim>\<open>console.c\<close>. \<open>ring_abs N data r w\<close> is the queue of the bytes between the counters \<open>r\<close> and \<open>w\<close>.
\<close>

definition ring_len :: "u32 \<Rightarrow> u32 \<Rightarrow> nat" where
  "ring_len r w = unat (w - r)"

definition ring_abs :: "nat \<Rightarrow> u8 list \<Rightarrow> u32 \<Rightarrow> u32 \<Rightarrow> u8 list" where
  "ring_abs N data r w = map (\<lambda>k. data ! (unat (r + of_nat k) mod N)) [0..<ring_len r w]"

definition ring_ok :: "nat \<Rightarrow> u8 list \<Rightarrow> u32 \<Rightarrow> u32 \<Rightarrow> bool" where
  "ring_ok N data r w \<longleftrightarrow> length data = N \<and> N dvd 2 ^ 32 \<and> 0 < N \<and> N < 2 ^ 32 \<and> ring_len r w \<le> N"

lemma length_ring_abs [simp]: "length (ring_abs N data r w) = ring_len r w"
  by (simp add: ring_abs_def)

lemma ring_empty: "ring_abs N data r r = []"
  by (simp add: ring_abs_def ring_len_def)

lemma ring_len_0: "ring_len r w = 0 \<longleftrightarrow> r = w"
  by (auto simp: ring_len_def unat_eq_0)

lemma unat_add_mod: "N dvd 2 ^ 32 \<Longrightarrow> unat (r + of_nat k :: u32) mod N = (unat r + k) mod N"
proof -
  assume N: "N dvd 2 ^ 32"
  have "unat (r + of_nat k) = (unat r + k) mod 2 ^ 32" by (simp add: unat_word_ariths unat_of_nat mod_simps)
  then show ?thesis using N by (simp add: mod_mod_cancel)
qed

lemma ring_len_put:
  assumes "ring_len r w < N" "N < 2 ^ 32"
  shows "ring_len r (w + 1) = Suc (ring_len r w)"
proof -
  have lt: "unat (w - r) + 1 < 2 ^ 32" using assms by (simp add: ring_len_def)
  have "unat (w + 1 - r) = unat ((w - r) + 1)" by (simp add: algebra_simps)
  also have "\<dots> = (unat (w - r) + 1) mod 2 ^ 32" by (simp only: unat_word_ariths) simp
  also have "\<dots> = Suc (unat (w - r))" using lt by simp
  finally show ?thesis by (simp only: ring_len_def)
qed

lemma ring_len_get: "r \<noteq> w \<Longrightarrow> ring_len r w = Suc (ring_len (r + 1) w)"
  using unat_distance_step [of w r] unat_distance_pos [of w r] by (simp add: ring_len_def)

lemma ring_slot:
  assumes "ring_len r w < N" "N dvd 2 ^ 32" "k \<le> ring_len r w"
  shows "unat (r + of_nat k) mod N = unat w mod N \<longleftrightarrow> k = ring_len r w"
proof -
  let ?d = "ring_len r w"
  have w: "w = r + of_nat ?d" by (simp add: ring_len_def)
  have "(unat r + k) mod N = (unat r + ?d) mod N \<longleftrightarrow> k = ?d"
  proof
    assume "(unat r + k) mod N = (unat r + ?d) mod N"
    then have "N dvd (unat r + ?d) - (unat r + k)" using mod_eq_dvd_iff_nat [of "unat r + k" "unat r + ?d" N] assms(3) by simp
    then have "N dvd ?d - k" by simp
    moreover have "?d - k < N" using assms(1) by simp
    ultimately have "?d - k = 0" by (metis dvd_imp_le linorder_not_less neq0_conv)
    then show "k = ?d" using assms(3) by simp
  qed simp
  then show ?thesis
    using unat_add_mod [OF assms(2), of r k] unat_add_mod [OF assms(2), of r ?d] w by metis
qed

lemma ring_put:
  assumes "ring_ok N data r w" "ring_len r w < N"
  shows "ring_abs N (data[unat w mod N := x]) r (w + 1) = ring_abs N data r w @ [x]"
    "ring_ok N (data[unat w mod N := x]) r (w + 1)"
proof -
  have N: "N dvd 2 ^ 32" "N < 2 ^ 32" "0 < N" "length data = N" using assms(1) by (simp_all add: ring_ok_def)
  have len: "ring_len r (w + 1) = Suc (ring_len r w)" by (rule ring_len_put [OF assms(2) N(2)])
  have at: "data[unat w mod N := x] ! (unat (r + of_nat k) mod N) =
      (if k = ring_len r w then x else data ! (unat (r + of_nat k) mod N))" if "k \<le> ring_len r w" for k
    using ring_slot [OF assms(2) N(1) that] N by (auto simp: nth_list_update)
  show "ring_abs N (data[unat w mod N := x]) r (w + 1) = ring_abs N data r w @ [x]"
    unfolding ring_abs_def len using at by simp
  show "ring_ok N (data[unat w mod N := x]) r (w + 1)" using assms len by (simp add: ring_ok_def)
qed

lemma ring_get:
  assumes "ring_ok N data r w" "r \<noteq> w"
  shows "ring_abs N data r w = data ! (unat r mod N) # ring_abs N data (r + 1) w" "ring_ok N data (r + 1) w"
proof -
  have len: "ring_len r w = Suc (ring_len (r + 1) w)" by (rule ring_len_get [OF assms(2)])
  show "ring_abs N data r w = data ! (unat r mod N) # ring_abs N data (r + 1) w"
    unfolding ring_abs_def len by (simp add: upt_conv_Cons map_Suc_upt [symmetric] comp_def ac_simps del: upt_Suc)
  show "ring_ok N data (r + 1) w" using assms len by (simp add: ring_ok_def)
qed

lemma ring_full: "ring_ok N data r w \<Longrightarrow> w = r + of_nat N \<longleftrightarrow> ring_len r w = N"
proof
  assume "ring_ok N data r w" "ring_len r w = N"
  then have "of_nat N = w - r" by (auto simp: ring_len_def)
  then show "w = r + of_nat N" by simp
qed (auto simp: ring_ok_def ring_len_def unat_of_nat)

end
