(* ===== verification/Pipe.thy ===== *)
theory Pipe
  imports Ring Kalloc
begin

text \<open>
  Pipes of \<^verbatim>\<open>pipe.c\<close>. A call runs under the lock of the pipe until it returns or sleeps; the result of a run says which,
  and for a writer that sleeps which bytes it still has to write. The wakeups that end the sleeps are the ones the
  code issues when a run stops, so a sleeping call is a call that runs again.
\<close>

definition PIPESIZE :: nat where "PIPESIZE = 512"

record pipe =
  p_data :: "u8 list"
  nread :: u32
  nwrite :: u32
  readopen :: bool
  writeopen :: bool

text \<open>The pipe that \<^verbatim>\<open>pipealloc\<close> sets up in its page; the data bytes keep what the page held.\<close>

definition new_pipe :: "u8 list \<Rightarrow> pipe" where
  "new_pipe data = \<lparr>p_data = data, nread = 0, nwrite = 0, readopen = True, writeopen = True\<rparr>"

text \<open>The pipe after \<^verbatim>\<open>pipeclose\<close>, and whether its page is freed.\<close>

definition pipeclose :: "bool \<Rightarrow> pipe \<Rightarrow> pipe \<times> bool" where
  "pipeclose wr p =
     (let p = (if wr then p\<lparr>writeopen := False\<rparr> else p\<lparr>readopen := False\<rparr>)
      in (p, \<not> readopen p \<and> \<not> writeopen p))"

datatype wstatus = WDone int | WSleep "u8 list"

fun pipewrite_loop :: "bool \<Rightarrow> int \<Rightarrow> u8 list \<Rightarrow> pipe \<Rightarrow> pipe \<times> wstatus" where
  "pipewrite_loop killed n [] p = (p, WDone n)"
| "pipewrite_loop killed n (x # xs) p =
     (if nwrite p = nread p + of_nat PIPESIZE
      then (if \<not> readopen p \<or> killed then (p, WDone (-1)) else (p, WSleep (x # xs)))
      else pipewrite_loop killed n xs
             (p\<lparr>p_data := (p_data p)[unat (nwrite p) mod PIPESIZE := x], nwrite := nwrite p + 1\<rparr>))"

definition pipewrite :: "bool \<Rightarrow> u8 list \<Rightarrow> pipe \<Rightarrow> pipe \<times> wstatus" where
  "pipewrite killed bs p = pipewrite_loop killed (int (length bs)) bs p"

datatype rstatus = RDone int "u8 list" | RSleep

fun piperead_loop :: "nat \<Rightarrow> pipe \<Rightarrow> u8 list \<times> pipe" where
  "piperead_loop 0 p = ([], p)"
| "piperead_loop (Suc n) p =
     (if nread p = nwrite p then ([], p)
      else let (bs, p') = piperead_loop n (p\<lparr>nread := nread p + 1\<rparr>)
           in (p_data p ! (unat (nread p) mod PIPESIZE) # bs, p'))"

definition piperead :: "bool \<Rightarrow> int \<Rightarrow> pipe \<Rightarrow> pipe \<times> rstatus" where
  "piperead killed n p =
     (if nread p = nwrite p \<and> writeopen p
      then (if killed then (p, RDone (-1) []) else (p, RSleep))
      else let (bs, p) = piperead_loop (nat n) p in (p, RDone (int (length bs)) bs))"

section \<open>The pipe as a bounded queue\<close>

definition pipe_abs :: "pipe \<Rightarrow> u8 list" where
  "pipe_abs p = ring_abs PIPESIZE (p_data p) (nread p) (nwrite p)"

definition pipe_ok :: "pipe \<Rightarrow> bool" where
  "pipe_ok p \<longleftrightarrow> ring_ok PIPESIZE (p_data p) (nread p) (nwrite p)"

text \<open>
  The interface of a bounded byte queue: what adding a byte and taking a byte do to the queue it stands for.
\<close>

locale byte_queue =
  fixes q_ok :: "'q \<Rightarrow> bool" and q_abs :: "'q \<Rightarrow> u8 list" and q_cap :: nat
    and q_full :: "'q \<Rightarrow> bool" and q_put :: "u8 \<Rightarrow> 'q \<Rightarrow> 'q"
    and q_empty :: "'q \<Rightarrow> bool" and q_head :: "'q \<Rightarrow> u8" and q_pop :: "'q \<Rightarrow> 'q"
  assumes full: "q_ok q \<Longrightarrow> q_full q \<longleftrightarrow> length (q_abs q) = q_cap"
    and cap: "q_ok q \<Longrightarrow> length (q_abs q) \<le> q_cap"
    and put: "q_ok q \<Longrightarrow> \<not> q_full q \<Longrightarrow> q_ok (q_put x q) \<and> q_abs (q_put x q) = q_abs q @ [x]"
    and empty: "q_ok q \<Longrightarrow> q_empty q \<longleftrightarrow> q_abs q = []"
    and pop: "q_ok q \<Longrightarrow> \<not> q_empty q \<Longrightarrow> q_ok (q_pop q) \<and> q_abs q = q_head q # q_abs (q_pop q)"
begin

text \<open>Put as many of the bytes as fit; take at most \<open>n\<close> bytes.\<close>

fun put_all :: "u8 list \<Rightarrow> 'q \<Rightarrow> 'q \<times> u8 list" where
  "put_all [] q = (q, [])"
| "put_all (x # xs) q = (if q_full q then (q, x # xs) else put_all xs (q_put x q))"

fun take_all :: "nat \<Rightarrow> 'q \<Rightarrow> u8 list \<times> 'q" where
  "take_all 0 q = ([], q)"
| "take_all (Suc n) q =
     (if q_empty q then ([], q) else let (bs, q') = take_all n (q_pop q) in (q_head q # bs, q'))"

lemma put_all_abs:
  "q_ok q \<Longrightarrow> let room = q_cap - length (q_abs q) in
     q_ok (fst (put_all xs q)) \<and> q_abs (fst (put_all xs q)) = q_abs q @ take room xs \<and> snd (put_all xs q) = drop room xs"
proof (induction xs q rule: put_all.induct)
  case (2 x xs q)
  show ?case
  proof (cases "q_full q")
    case True
    then show ?thesis using 2 full by simp
  next
    case False
    have p: "q_ok (q_put x q)" "q_abs (q_put x q) = q_abs q @ [x]" using put [OF "2.prems" False] by auto
    have "length (q_abs q) < q_cap" using full [OF "2.prems"] cap [OF "2.prems"] False by auto
    then obtain m where m: "q_cap - length (q_abs q) = Suc m" by (metis Suc_diff_Suc)
    then have "q_cap - length (q_abs (q_put x q)) = m" using p by simp
    then show ?thesis using "2.IH" [OF False p(1)] False p m by (simp add: Let_def)
  qed
qed simp

lemma take_all_abs:
  "q_ok q \<Longrightarrow> q_ok (snd (take_all n q)) \<and> fst (take_all n q) = take n (q_abs q) \<and> q_abs (snd (take_all n q)) = drop n (q_abs q)"
proof (induction n q rule: take_all.induct)
  case (2 n q)
  then show ?case using empty [OF "2.prems"] pop [OF "2.prems"] by (cases "q_empty q") (auto simp: split_beta Let_def)
qed simp

end

text \<open>The ring of a pipe is such a queue.\<close>

definition pipe_put :: "u8 \<Rightarrow> pipe \<Rightarrow> pipe" where
  "pipe_put x p = p\<lparr>p_data := (p_data p)[unat (nwrite p) mod PIPESIZE := x], nwrite := nwrite p + 1\<rparr>"

interpretation pq: byte_queue pipe_ok pipe_abs PIPESIZE "\<lambda>p. nwrite p = nread p + of_nat PIPESIZE" pipe_put
  "\<lambda>p. nread p = nwrite p" "\<lambda>p. p_data p ! (unat (nread p) mod PIPESIZE)" "\<lambda>p. p\<lparr>nread := nread p + 1\<rparr>"
proof
  fix q :: pipe and x :: u8
  assume ok: "pipe_ok q"
  then have r: "ring_ok PIPESIZE (p_data q) (nread q) (nwrite q)" by (simp add: pipe_ok_def)
  show f: "nwrite q = nread q + of_nat PIPESIZE \<longleftrightarrow> length (pipe_abs q) = PIPESIZE"
    using ring_full [OF r] by (simp add: pipe_abs_def)
  show "length (pipe_abs q) \<le> PIPESIZE" using r by (simp add: pipe_abs_def ring_ok_def)
  show "nread q = nwrite q \<longleftrightarrow> pipe_abs q = []" using ring_len_0 by (simp add: pipe_abs_def flip: length_0_conv)
  show "pipe_ok (pipe_put x q) \<and> pipe_abs (pipe_put x q) = pipe_abs q @ [x]" if "nwrite q \<noteq> nread q + of_nat PIPESIZE"
  proof -
    have "ring_len (nread q) (nwrite q) < PIPESIZE" using that ring_full [OF r] r by (auto simp: ring_ok_def)
    then show ?thesis using ring_put [OF r] by (simp add: pipe_ok_def pipe_abs_def pipe_put_def)
  qed
  show "pipe_ok (q\<lparr>nread := nread q + 1\<rparr>) \<and>
      pipe_abs q = p_data q ! (unat (nread q) mod PIPESIZE) # pipe_abs (q\<lparr>nread := nread q + 1\<rparr>)" if "nread q \<noteq> nwrite q"
    using ring_get [OF r that] by (simp add: pipe_ok_def pipe_abs_def)
qed

lemma pipe_put_open [simp]: "readopen (pipe_put x p) = readopen p"
  by (simp add: pipe_put_def)

lemma pipewrite_loop_queue:
  "pipewrite_loop killed n xs p =
     (fst (pq.put_all xs p),
      (if snd (pq.put_all xs p) = [] then WDone n
       else if \<not> readopen p \<or> killed then WDone (-1) else WSleep (snd (pq.put_all xs p))))"
  by (induction killed n xs p rule: pipewrite_loop.induct) (auto simp: pipe_put_def [symmetric])

lemma piperead_loop_queue: "piperead_loop n p = pq.take_all n p"
  by (induction n p rule: piperead_loop.induct) (auto simp: split_beta Let_def)

lemma pipewrite_spec:
  assumes ok: "pipe_ok p" and w: "pipewrite killed bs p = (p', st)"
  defines "room \<equiv> PIPESIZE - length (pipe_abs p)"
  shows "pipe_ok p'" "pipe_abs p' = pipe_abs p @ take room bs"
    "st = (if length bs \<le> room then WDone (int (length bs))
           else if \<not> readopen p \<or> killed then WDone (-1) else WSleep (drop room bs))"
proof -
  have "pipe_ok (fst (pq.put_all bs p)) \<and> pipe_abs (fst (pq.put_all bs p)) = pipe_abs p @ take room bs \<and>
      snd (pq.put_all bs p) = drop room bs"
    using pq.put_all_abs [OF ok, of bs] by (simp add: room_def Let_def)
  then show "pipe_ok p'" "pipe_abs p' = pipe_abs p @ take room bs"
    "st = (if length bs \<le> room then WDone (int (length bs))
           else if \<not> readopen p \<or> killed then WDone (-1) else WSleep (drop room bs))"
    using w by (auto simp: pipewrite_def pipewrite_loop_queue)
qed

lemma piperead_spec:
  assumes ok: "pipe_ok p" and r: "piperead killed n p = (p', st)"
  shows "pipe_ok p'"
    "(\<exists>bs. st = RDone (int (length bs)) bs \<and> bs = take (nat n) (pipe_abs p) \<and> pipe_abs p' = drop (nat n) (pipe_abs p) \<and>
        (pipe_abs p = [] \<longrightarrow> \<not> writeopen p)) \<or>
     (st = RDone (-1) [] \<and> killed \<or> st = RSleep \<and> \<not> killed) \<and> p' = p \<and> pipe_abs p = [] \<and> writeopen p"
  using pq.take_all_abs [OF ok, of "nat n"] pq.empty [OF ok] r ok
  by (auto simp: piperead_def piperead_loop_queue split_beta Let_def split: if_splits)

section \<open>Readers and writers\<close>

text \<open>
  Any number of processes read and write. A writer that went to sleep has bytes left, and runs the loop again from there
  when it is woken up. Beside the pipe and the sleeping writers, a state has three histories: what each process asked to
  write, the bytes that arrived in the pipe with the process they came from, and the bytes that were read.
\<close>

record psys =
  ps_pipe :: pipe
  ps_wait :: "nat \<Rightarrow> (int \<times> u8 list) option"
  ps_asked :: "nat \<Rightarrow> u8 list"
  ps_in :: "(nat \<times> u8) list"
  ps_out :: "u8 list"

definition bytes_from :: "nat \<Rightarrow> (nat \<times> u8) list \<Rightarrow> u8 list" where
  "bytes_from q h = map snd (filter (\<lambda>e. fst e = q) h)"

text \<open>
  The state after a run of the loop of \<^verbatim>\<open>pipewrite\<close> by process \<open>q\<close> on the bytes \<open>xs\<close>. How many bytes arrived is how far the buffer
  grew. A call that returns -1 has asked for no more than what arrived.
\<close>

definition after_write :: "nat \<Rightarrow> int \<Rightarrow> u8 list \<Rightarrow> pipe \<times> wstatus \<Rightarrow> psys \<Rightarrow> psys" where
  "after_write q n xs r s =
     (let p = fst r; h = ps_in s @ map (Pair q) (take (length (pipe_abs p) - length (pipe_abs (ps_pipe s))) xs);
          s = s\<lparr>ps_pipe := p, ps_in := h\<rparr>
      in case snd r of
           WSleep rest \<Rightarrow> s\<lparr>ps_wait := (ps_wait s)(q := Some (n, rest))\<rparr>
         | WDone v \<Rightarrow> s\<lparr>ps_wait := (ps_wait s)(q := None),
             ps_asked := (if v = -1 then (ps_asked s)(q := bytes_from q h) else ps_asked s)\<rparr>)"

inductive pipe_step :: "psys \<Rightarrow> psys \<Rightarrow> bool" where
  step_write: "ps_wait s q = None \<Longrightarrow>
    pipe_step s (after_write q (int (length bs)) bs (pipewrite killed bs (ps_pipe s)) (s\<lparr>ps_asked := (ps_asked s)(q := ps_asked s q @ bs)\<rparr>))"
| step_resume: "ps_wait s q = Some (n, rest) \<Longrightarrow> pipe_step s (after_write q n rest (pipewrite_loop killed n rest (ps_pipe s)) s)"
| step_read: "piperead killed n (ps_pipe s) = (p', RDone r bs) \<Longrightarrow> pipe_step s (s\<lparr>ps_pipe := p', ps_out := ps_out s @ bs\<rparr>)"
| step_close: "pipeclose wr (ps_pipe s) = (p', freed) \<Longrightarrow> pipe_step s (s\<lparr>ps_pipe := p'\<rparr>)"

definition left :: "psys \<Rightarrow> nat \<Rightarrow> u8 list" where
  "left s q = (case ps_wait s q of None \<Rightarrow> [] | Some (n, rest) \<Rightarrow> rest)"

definition pipe_inv :: "psys \<Rightarrow> bool" where
  "pipe_inv s \<longleftrightarrow> pipe_ok (ps_pipe s) \<and> map snd (ps_in s) = ps_out s @ pipe_abs (ps_pipe s) \<and>
     (\<forall>q. ps_asked s q = bytes_from q (ps_in s) @ left s q) \<and> (\<forall>q n rest. ps_wait s q = Some (n, rest) \<longrightarrow> rest \<noteq> [] \<and> 0 \<le> n)"

definition psys0 :: "u8 list \<Rightarrow> psys" where
  "psys0 data = \<lparr>ps_pipe = new_pipe data, ps_wait = (\<lambda>_. None), ps_asked = (\<lambda>_. []), ps_in = [], ps_out = []\<rparr>"

lemma bytes_from_append: "bytes_from q (h @ map (Pair q') bs) = bytes_from q h @ (if q = q' then bs else [])"
proof -
  have "filter (\<lambda>e. fst e = q) (map (Pair q') bs) = (if q = q' then map (Pair q') bs else [])" by (induction bs) auto
  then show ?thesis by (simp add: bytes_from_def comp_def)
qed

lemma pipewrite_loop_spec:
  assumes "pipe_ok p" "pipewrite_loop killed n xs p = (p', st)"
  shows "pipe_ok p'" "pipe_abs p' = pipe_abs p @ take (PIPESIZE - length (pipe_abs p)) xs"
    "st = (if length xs \<le> PIPESIZE - length (pipe_abs p) then WDone n
           else if \<not> readopen p \<or> killed then WDone (-1) else WSleep (drop (PIPESIZE - length (pipe_abs p)) xs))"
  using pq.put_all_abs [OF assms(1), of xs] assms(2) by (auto simp: pipewrite_loop_queue Let_def)

lemma after_write_inv:
  assumes ok: "pipe_ok (ps_pipe s)" "map snd (ps_in s) = ps_out s @ pipe_abs (ps_pipe s)"
    and w: "\<And>q' n rest. ps_wait s q' = Some (n, rest) \<Longrightarrow> rest \<noteq> [] \<and> 0 \<le> n" and n: "0 \<le> n"
    and a: "\<And>q'. q' \<noteq> q \<Longrightarrow> ps_asked s q' = bytes_from q' (ps_in s) @ left s q'" "ps_asked s q = bytes_from q (ps_in s) @ xs"
  shows "pipe_inv (after_write q n xs (pipewrite_loop killed n xs (ps_pipe s)) s)"
proof -
  obtain p' st where r: "pipewrite_loop killed n xs (ps_pipe s) = (p', st)" by fastforce
  define room where "room = PIPESIZE - length (pipe_abs (ps_pipe s))"
  note sp = pipewrite_loop_spec [OF ok(1) r, folded room_def]
  have put: "take (length (pipe_abs p') - length (pipe_abs (ps_pipe s))) xs = take room xs" unfolding sp(2) by (simp add: min_def)
  show ?thesis
  proof (cases "length xs \<le> room")
    case True
    then show ?thesis using ok w a n sp put
      by (auto simp: pipe_inv_def after_write_def r Let_def bytes_from_append left_def comp_def)
  next
    case False
    then have "drop room xs \<noteq> []" by simp
    then show ?thesis using False ok w a n sp put
      by (auto simp: pipe_inv_def after_write_def r Let_def bytes_from_append left_def comp_def split: if_splits)
  qed
qed

lemma pipe_step_inv: "pipe_step s s' \<Longrightarrow> pipe_inv s \<Longrightarrow> pipe_inv s'"
proof (induction rule: pipe_step.induct)
  case (step_write s q bs killed)
  then show ?case unfolding pipewrite_def
    using after_write_inv [of "s\<lparr>ps_asked := (ps_asked s)(q := ps_asked s q @ bs)\<rparr>" "int (length bs)" q bs killed]
    by (simp add: pipe_inv_def left_def)
next
  case (step_resume s q n rest killed)
  then show ?case using after_write_inv [of s n q rest killed] by (simp add: pipe_inv_def left_def)
next
  case (step_read killed n s p' r bs)
  then have ok: "pipe_ok (ps_pipe s)" by (simp add: pipe_inv_def)
  show ?case using piperead_spec [OF ok step_read.hyps] step_read.prems by (auto simp: pipe_inv_def left_def)
next
  case (step_close wr s p' freed)
  then show ?case by (auto simp: pipe_inv_def left_def pipeclose_def Let_def pipe_ok_def pipe_abs_def split: if_splits)
qed

lemma pipe_reachable_inv: "pipe_step\<^sup>*\<^sup>* x y \<Longrightarrow> pipe_inv x \<Longrightarrow> pipe_inv y"
  by (induction rule: rtranclp_induct) (auto intro: pipe_step_inv)

lemma psys0_inv: "length data = PIPESIZE \<Longrightarrow> pipe_inv (psys0 data)"
  by (simp add: pipe_inv_def psys0_def bytes_from_def left_def new_pipe_def pipe_ok_def pipe_abs_def ring_ok_def ring_empty ring_len_def PIPESIZE_def)

text \<open>
  C22. A pipe is a first-in first-out channel for any interleaving of readers, writers and closes, with the counters
  wrapping around at 32 bits. What has been read followed by what is in the buffer is exactly what arrived, and the buffer
  never holds more than \<^verbatim>\<open>PIPESIZE\<close> bytes. Nothing is lost or repeated on the way in: what a process asked to write is what
  arrived from it, in order, followed by what its sleeping call has left. A call that returns has put all its bytes
  in and returns its count, or it has put in some of them and returns -1 with the read end closed or the process killed. A writer sleeps only when the buffer is full with the read end open, a
  reader sleeps only when it is empty with the write end open, so a reader and a writer never both sleep; and a reader sees
  end of file only when every byte has been read and the write end is closed.
\<close>

theorem pipe_fifo:
  assumes "pipe_step\<^sup>*\<^sup>* (psys0 data) s" and "length data = PIPESIZE"
  shows "map snd (ps_in s) = ps_out s @ pipe_abs (ps_pipe s) \<and> length (pipe_abs (ps_pipe s)) \<le> PIPESIZE \<and>
    (\<forall>q. ps_asked s q = bytes_from q (ps_in s) @ (case ps_wait s q of None \<Rightarrow> [] | Some (n, rest) \<Rightarrow> rest)) \<and>
    (\<forall>killed n bs p' v. pipewrite_loop killed n bs (ps_pipe s) = (p', WDone v) \<longrightarrow>
       v = n \<and> pipe_abs p' = pipe_abs (ps_pipe s) @ bs \<or> v = -1 \<and> (\<not> readopen (ps_pipe s) \<or> killed) \<and> (\<exists>k. pipe_abs p' = pipe_abs (ps_pipe s) @ take k bs)) \<and>
    (\<forall>killed n bs p' rest. pipewrite_loop killed n bs (ps_pipe s) = (p', WSleep rest) \<longrightarrow>
       length (pipe_abs p') = PIPESIZE \<and> readopen (ps_pipe s)) \<and>
    (\<forall>killed n p'. piperead killed n (ps_pipe s) = (p', RSleep) \<longrightarrow> pipe_abs (ps_pipe s) = [] \<and> writeopen (ps_pipe s)) \<and>
    (\<forall>killed n p'. n > 0 \<longrightarrow> piperead killed n (ps_pipe s) = (p', RDone 0 []) \<longrightarrow>
       pipe_abs (ps_pipe s) = [] \<and> \<not> writeopen (ps_pipe s))"
proof -
  let ?p = "ps_pipe s"
  have inv: "pipe_inv s" by (rule pipe_reachable_inv [OF assms(1) psys0_inv [OF assms(2)]])
  then have ok: "pipe_ok ?p" by (simp add: pipe_inv_def)
  have "v = n \<and> pipe_abs p' = pipe_abs ?p @ bs \<or> v = -1 \<and> (\<not> readopen ?p \<or> killed) \<and> (\<exists>k. pipe_abs p' = pipe_abs ?p @ take k bs)"
    if "pipewrite_loop killed n bs ?p = (p', WDone v)" for killed n bs p' v
    using pipewrite_loop_spec [OF ok that] by (auto split: if_splits)
  moreover have "length (pipe_abs p') = PIPESIZE \<and> readopen ?p" if "pipewrite_loop killed n bs ?p = (p', WSleep rest)" for killed n bs p' rest
    using pipewrite_loop_spec [OF ok that] pq.cap [OF ok] by (auto split: if_splits)
  moreover have "pipe_abs ?p = [] \<and> writeopen ?p" if "piperead killed n ?p = (p', RSleep)" for killed n p'
    using piperead_spec [OF ok that] by auto
  moreover have "pipe_abs ?p = [] \<and> \<not> writeopen ?p" if "n > 0" "piperead killed n ?p = (p', RDone 0 [])" for killed n p'
    using piperead_spec [OF ok that(2)] that(1) by auto
  ultimately show ?thesis using inv pq.cap [OF ok] unfolding pipe_inv_def left_def by blast
qed

lemma pipe_fifo_witness:
  "\<exists>s. pipe_step\<^sup>*\<^sup>* (psys0 (replicate PIPESIZE 0)) s \<and> ps_wait s 1 = Some (513, [2]) \<and> bytes_from 1 (ps_in s) = replicate 512 1"
proof -
  let ?z = "psys0 (replicate PIPESIZE 0)" and ?bs = "replicate 512 1 @ [2] :: u8 list"
  have ok: "pipe_ok (ps_pipe ?z)" using psys0_inv [of "replicate PIPESIZE 0"] by (simp add: pipe_inv_def)
  have e: "pipe_abs (ps_pipe ?z) = []" "ps_wait ?z 1 = None" "readopen (ps_pipe ?z)" "ps_asked ?z 1 = []"
    using psys0_inv [of "replicate PIPESIZE 0"] unfolding pipe_inv_def by (simp_all add: psys0_def new_pipe_def)
  obtain p' st where r: "pipewrite False ?bs (ps_pipe ?z) = (p', st)" by fastforce
  have st: "st = WSleep [2]" using pipewrite_spec(3) [OF ok r] e by (simp add: PIPESIZE_def)
  let ?s = "after_write 1 (int (length ?bs)) ?bs (p', st) (?z\<lparr>ps_asked := (ps_asked ?z)(1 := ps_asked ?z 1 @ ?bs)\<rparr>)"
  have s: "pipe_step\<^sup>*\<^sup>* ?z ?s" using step_write [OF e(2), of ?bs False] by (simp add: r r_into_rtranclp)
  have w: "ps_wait ?s 1 = Some (513, [2])" "ps_asked ?s 1 = ?bs" by (simp_all add: after_write_def st Let_def e(4) del: One_nat_def)
  have "\<forall>q. ps_asked ?s q = bytes_from q (ps_in ?s) @ (case ps_wait ?s q of None \<Rightarrow> [] | Some (n, rest) \<Rightarrow> rest)"
    using pipe_fifo [OF s] by simp
  then have "bytes_from 1 (ps_in ?s) @ [2] = ?bs" using w by (metis (no_types, lifting) case_prod_conv option.simps(5))
  then show ?thesis using s w(1) by (intro exI [of _ ?s]) simp
qed

end
