(* ===== verification/Ide.thy ===== *)
theory Ide
  imports Bcache
begin

text \<open>
  The driver of the hardware disk, \<^verbatim>\<open>ide.c\<close>. The controller is a parameter: what the driver writes to its ports is the list
  \<open>ports\<close>, the last write first; what it reads (status bytes, the data of a sector) are arguments of the operations.
  The queue through \<^verbatim>\<open>qnext\<close> is the list \<open>idequeue\<close> of buffer indices. The bodies run under \<^verbatim>\<open>idelock\<close>. A process that waits
  for its request leaves \<^verbatim>\<open>iderw\<close> at \<^verbatim>\<open>sleep\<close>, after \<open>ide_submit\<close>, and comes back to \<open>ide_wait\<close> when it is woken.
\<close>

unbundle bit_operations_syntax

definition SECTOR_SIZE :: nat where "SECTOR_SIZE = 512"
definition IDE_BSY :: u8 where "IDE_BSY = 0x80"
definition IDE_DRDY :: u8 where "IDE_DRDY = 0x40"
definition IDE_DF :: u8 where "IDE_DF = 0x20"
definition IDE_ERR :: u8 where "IDE_ERR = 0x01"
definition IDE_CMD_READ :: u8 where "IDE_CMD_READ = 0x20"
definition IDE_CMD_WRITE :: u8 where "IDE_CMD_WRITE = 0x30"
definition IDE_CMD_RDMUL :: u8 where "IDE_CMD_RDMUL = 0xc4"
definition IDE_CMD_WRMUL :: u8 where "IDE_CMD_WRMUL = 0xc5"
definition FSSIZE :: nat where "FSSIZE = 1000"

datatype pio = Outb u16 u8 | Outsl u16 block

record ide =
  ide_bufs :: "buf list"
  idequeue :: "nat list"
  havedisk1 :: bool
  ports :: "pio list"
  ide_woken :: "nat list"

section \<open>The driver\<close>

text \<open>\<^verbatim>\<open>idewait\<close> on the status bytes that the controller delivers; with none left it is never ready.\<close>

fun idewait :: "bool \<Rightarrow> u8 list \<Rightarrow> (int \<times> u8 list) res" where
  "idewait checkerr [] = Hang"
| "idewait checkerr (r # st) =
     (if r AND (IDE_BSY OR IDE_DRDY) \<noteq> IDE_DRDY then idewait checkerr st
      else Ok (if checkerr \<and> r AND (IDE_DF OR IDE_ERR) \<noteq> 0 then -1 else 0, st))"

definition ideinit :: "u8 list \<Rightarrow> ide \<Rightarrow> ide res" where
  "ideinit st s =
     bnd (idewait False st) (\<lambda>(_, st).
     Ok (s\<lparr>havedisk1 := havedisk1 s \<or> list_ex (\<lambda>r. r \<noteq> 0) (take 1000 st),
           ports := Outb 0x1f6 (0xe0 OR push_bit 4 0) # Outb 0x1f6 (0xe0 OR push_bit 4 1) # ports s\<rparr>))"

definition sector_per_block :: nat where "sector_per_block = BSIZE div SECTOR_SIZE"

definition ide_sector :: "buf \<Rightarrow> u32" where
  "ide_sector b = word_of_nat (b_blockno b * sector_per_block)"

text \<open>What \<^verbatim>\<open>idestart\<close> writes to the ports, the last write first.\<close>

definition start_ports :: "buf \<Rightarrow> pio list" where
  "start_ports b =
     (let sector = ide_sector b;
          read_cmd = (if sector_per_block = 1 then IDE_CMD_READ else IDE_CMD_RDMUL);
          write_cmd = (if sector_per_block = 1 then IDE_CMD_WRITE else IDE_CMD_WRMUL)
      in (if b_dirty b then [Outsl 0x1f0 (b_data b), Outb 0x1f7 write_cmd] else [Outb 0x1f7 read_cmd]) @
         [Outb 0x1f6 (0xe0 OR push_bit 4 (word_of_nat (b_dev b) AND 1) OR (ucast (drop_bit 24 sector) AND 0x0f)),
          Outb 0x1f5 (ucast (drop_bit 16 sector AND 0xff)),
          Outb 0x1f4 (ucast (drop_bit 8 sector AND 0xff)),
          Outb 0x1f3 (ucast (sector AND 0xff)),
          Outb 0x1f2 (word_of_nat sector_per_block),
          Outb 0x3f6 0])"

definition idestart :: "nat option \<Rightarrow> u8 list \<Rightarrow> ide \<Rightarrow> (u8 list \<times> ide) res" where
  "idestart b st s =
     (case b of
        None \<Rightarrow> Panic ''idestart''
      | Some i \<Rightarrow>
          if b_blockno (ide_bufs s ! i) \<ge> FSSIZE then Panic ''incorrect blockno''
          else if sector_per_block > 7 then Panic ''idestart''
          else
            bnd (idewait False st) (\<lambda>(_, st).
            Ok (st, s\<lparr>ports := start_ports (ide_bufs s ! i) @ ports s\<rparr>)))"

definition ide_upd :: "nat \<Rightarrow> (buf \<Rightarrow> buf) \<Rightarrow> ide \<Rightarrow> ide" where
  "ide_upd i f s = s\<lparr>ide_bufs := (ide_bufs s)[i := f (ide_bufs s ! i)]\<rparr>"

text \<open>The read of the data in \<^verbatim>\<open>ideintr\<close>; \<open>inp\<close> is what the data port delivers.\<close>

definition ide_input :: "block \<Rightarrow> nat \<Rightarrow> u8 list \<Rightarrow> ide \<Rightarrow> (u8 list \<times> ide) res" where
  "ide_input inp i st s =
     (if b_dirty (ide_bufs s ! i) then Ok (st, s)
      else
        bnd (idewait True st) (\<lambda>(r, st).
        Ok (st, if r \<ge> 0 then ide_upd i (\<lambda>b. b\<lparr>b_data := inp\<rparr>) s else s)))"

definition ideintr :: "block \<Rightarrow> u8 list \<Rightarrow> ide \<Rightarrow> (u8 list \<times> ide) res" where
  "ideintr inp st s =
     (case idequeue s of
        [] \<Rightarrow> Ok (st, s)
      | i # q \<Rightarrow>
          bnd (ide_input inp i st (s\<lparr>idequeue := q\<rparr>)) (\<lambda>(st, s).
          let s = ide_upd i (\<lambda>b. b\<lparr>b_valid := True, b_dirty := False\<rparr>) s;
              s = s\<lparr>ide_woken := i # ide_woken s\<rparr>
          in if q \<noteq> [] then idestart (Some (hd q)) st s else Ok (st, s)))"

text \<open>\<^verbatim>\<open>iderw\<close> up to its waiting loop, and the test of that loop.\<close>

definition ide_submit :: "int \<Rightarrow> nat \<Rightarrow> u8 list \<Rightarrow> ide \<Rightarrow> (u8 list \<times> ide) res" where
  "ide_submit pid i st s =
     (let b = ide_bufs s ! i
      in if \<not> holdingsleep pid (b_lock b) then Panic ''iderw: buf not locked''
         else if b_valid b \<and> \<not> b_dirty b then Panic ''iderw: nothing to do''
         else if b_dev b \<noteq> 0 \<and> \<not> havedisk1 s then Panic ''iderw: ide disk 1 not present''
         else
           let s = s\<lparr>idequeue := idequeue s @ [i]\<rparr>
           in if hd (idequeue s) = i then idestart (Some i) st s else Ok (st, s))"

definition ide_wait :: "nat \<Rightarrow> ide \<Rightarrow> ide res" where
  "ide_wait i s = (if b_valid (ide_bufs s ! i) \<and> \<not> b_dirty (ide_bufs s ! i) then Ok s else Blocked)"

section \<open>The controller\<close>

text \<open>
  What the driver relies on. \<open>dev tr (d, n)\<close> is sector \<open>n\<close> of drive \<open>d\<close> after the port writes \<open>tr\<close>, and \<open>din tr\<close> what the data
  port delivers then. The sector number is spread over four registers, the drive is bit 4 of the last one.
\<close>

definition lba :: "u8 \<Rightarrow> u8 \<Rightarrow> u8 \<Rightarrow> u8 \<Rightarrow> nat" where
  "lba r3 r4 r5 r6 = unat r3 + 256 * unat r4 + 65536 * unat r5 + 16777216 * unat (r6 AND 0x0f)"

abbreviation request :: "u8 \<Rightarrow> u8 \<Rightarrow> u8 \<Rightarrow> u8 \<Rightarrow> pio list" where
  "request r3 r4 r5 r6 \<equiv> [Outb 0x1f6 r6, Outb 0x1f5 r5, Outb 0x1f4 r4, Outb 0x1f3 r3, Outb 0x1f2 1, Outb 0x3f6 0]"

definition ata_disk :: "(pio list \<Rightarrow> bool \<times> nat \<Rightarrow> block) \<Rightarrow> (pio list \<Rightarrow> block) \<Rightarrow> bool" where
  "ata_disk dev din \<longleftrightarrow>
     (\<forall>tr r3 r4 r5 r6. dev (Outb 0x1f7 0x20 # request r3 r4 r5 r6 @ tr) = dev tr) \<and>
     (\<forall>tr r3 r4 r5 r6. din (Outb 0x1f7 0x20 # request r3 r4 r5 r6 @ tr) = dev tr (bit r6 4, lba r3 r4 r5 r6)) \<and>
     (\<forall>tr r3 r4 r5 r6 d. dev (Outsl 0x1f0 d # Outb 0x1f7 0x30 # request r3 r4 r5 r6 @ tr) =
        (dev tr)((bit r6 4, lba r3 r4 r5 r6) := d))"

section \<open>The registers\<close>

lemma ide_geometry [simp]: "sector_per_block = 1"
  by (simp add: sector_per_block_def BSIZE_def SECTOR_SIZE_def)

definition reg6 :: "buf \<Rightarrow> u8" where
  "reg6 b = 0xe0 OR push_bit 4 (word_of_nat (b_dev b) AND 1) OR (ucast (drop_bit 24 (ide_sector b)) AND 0x0f)"

lemma unat_drop_bit: "unat (drop_bit k w) = unat (w :: u32) div 2 ^ k"
proof -
  have "take_bit 32 (unat w) = unat w" using unsigned_less [of w, where 'a = nat] by (simp add: take_bit_nat_eq_self_iff)
  then have "unat (drop_bit k w) = drop_bit k (unat w)" by (simp add: unsigned_drop_bit_eq)
  then show ?thesis by (simp only: drop_bit_eq_div)
qed

lemma unat_low_byte: "unat (ucast (w AND 0xff) :: u8) = unat (w :: u32) mod 256"
proof -
  have m: "(0xff :: u32) = mask 8" by (simp add: mask_eq_exp_minus_1)
  have "unat (ucast (w AND 0xff) :: u8) = take_bit 8 (unat w)"
    unfolding m take_bit_eq_mask [symmetric] by (simp add: unsigned_ucast_eq unsigned_take_bit_eq)
  then show ?thesis by (simp add: take_bit_eq_mod)
qed

lemma unat_byte: "unat (ucast (drop_bit k w AND 0xff) :: u8) = unat (w :: u32) div 2 ^ k mod 256"
  by (simp only: unat_low_byte unat_drop_bit)

lemma reg6_drive: "bit (reg6 b) 4 = odd (b_dev b)"
  by (simp add: reg6_def bit_simps bit_0 unsigned_or_eq)

lemma ide_sector_unat: "b_blockno b < FSSIZE \<Longrightarrow> unat (ide_sector b) = b_blockno b"
  by (simp add: ide_sector_def FSSIZE_def unat_of_nat take_bit_nat_eq_self_iff)

lemma reg6_sector:
  assumes "b_blockno b < FSSIZE"
  shows "reg6 b AND 0x0f = 0"
proof -
  have "unat (drop_bit 24 (ide_sector b)) = 0" using assms unfolding unat_drop_bit ide_sector_unat [OF assms] by (simp add: FSSIZE_def)
  then have z: "drop_bit 24 (ide_sector b) = 0" by (simp only: unsigned_eq_0_iff)
  have m: "(0x0f :: u8) = mask 4" by (simp add: mask_eq_exp_minus_1)
  show ?thesis unfolding reg6_def z m take_bit_eq_mask [symmetric] take_bit_or by (simp add: take_bit_push_bit)
qed

lemma lba_block:
  assumes "b_blockno b < FSSIZE"
  shows "lba (ucast (ide_sector b AND 0xff)) (ucast (drop_bit 8 (ide_sector b) AND 0xff))
    (ucast (drop_bit 16 (ide_sector b) AND 0xff)) (reg6 b) = b_blockno b"
  using assms unfolding lba_def unat_byte unat_low_byte unat_drop_bit reg6_sector [OF assms] ide_sector_unat [OF assms] by (simp add: FSSIZE_def)

lemma start_ports_request:
  "start_ports b = (if b_dirty b then [Outsl 0x1f0 (b_data b), Outb 0x1f7 0x30] else [Outb 0x1f7 0x20]) @
     request (ucast (ide_sector b AND 0xff)) (ucast (drop_bit 8 (ide_sector b) AND 0xff))
       (ucast (drop_bit 16 (ide_sector b) AND 0xff)) (reg6 b)"
  by (simp add: start_ports_def Let_def reg6_def IDE_CMD_READ_def IDE_CMD_WRITE_def)

text \<open>A started request has its effect on the drive and block of the buffer.\<close>

lemma start_ports_effect:
  assumes "ata_disk dev din" "b_blockno b < FSSIZE"
  shows "dev (start_ports b @ tr) = (if b_dirty b then (dev tr)((odd (b_dev b), b_blockno b) := b_data b) else dev tr)"
    "\<not> b_dirty b \<Longrightarrow> din (start_ports b @ tr) = dev tr (odd (b_dev b), b_blockno b)"
  using assms(1) unfolding ata_disk_def start_ports_request reg6_drive [symmetric] lba_block [OF assms(2), symmetric]
  by simp_all

section \<open>A controller\<close>

text \<open>A controller with this behaviour exists: registers that a command reads, on a disk that starts with \<open>init\<close>.\<close>

type_synonym ata = "u8 \<times> u8 \<times> u8 \<times> u8 \<times> (bool \<times> nat \<Rightarrow> block) \<times> block"

fun ata_step :: "pio \<Rightarrow> ata \<Rightarrow> ata" where
  "ata_step (Outb p v) (r3, r4, r5, r6, D, inp) =
     (if p = 0x1f3 then (v, r4, r5, r6, D, inp)
      else if p = 0x1f4 then (r3, v, r5, r6, D, inp)
      else if p = 0x1f5 then (r3, r4, v, r6, D, inp)
      else if p = 0x1f6 then (r3, r4, r5, v, D, inp)
      else if p = 0x1f7 \<and> v = 0x20 then (r3, r4, r5, r6, D, D (bit r6 4, lba r3 r4 r5 r6))
      else (r3, r4, r5, r6, D, inp))"
| "ata_step (Outsl p d) (r3, r4, r5, r6, D, inp) = (r3, r4, r5, r6, D((bit r6 4, lba r3 r4 r5 r6) := d), inp)"

definition ata_run :: "(bool \<times> nat \<Rightarrow> block) \<Rightarrow> pio list \<Rightarrow> ata" where
  "ata_run D tr = foldr ata_step tr (0, 0, 0, 0, D, [])"

definition ata_dev :: "(bool \<times> nat \<Rightarrow> block) \<Rightarrow> pio list \<Rightarrow> bool \<times> nat \<Rightarrow> block" where
  "ata_dev D tr = (case ata_run D tr of (r3, r4, r5, r6, D, inp) \<Rightarrow> D)"

definition ata_din :: "(bool \<times> nat \<Rightarrow> block) \<Rightarrow> pio list \<Rightarrow> block" where
  "ata_din D tr = (case ata_run D tr of (r3, r4, r5, r6, D, inp) \<Rightarrow> inp)"

lemma ata_controller: "ata_disk (ata_dev D) (ata_din D)"
proof -
  have s: "ata_run D (xs @ tr) = foldr ata_step xs (ata_run D tr)" for xs tr by (simp add: ata_run_def)
  have c: "ata_run D (x # tr) = ata_step x (ata_run D tr)" for x tr by (simp add: ata_run_def)
  show ?thesis unfolding ata_disk_def
  proof (intro conjI allI)
    fix tr r3 r4 r5 r6 d
    obtain a b e f g h where r: "ata_run D tr = (a, b, e, f, g, h)" by (rule prod_cases6)
    show "ata_dev D (Outb 0x1f7 0x20 # request r3 r4 r5 r6 @ tr) = ata_dev D tr"
      "ata_din D (Outb 0x1f7 0x20 # request r3 r4 r5 r6 @ tr) = ata_dev D tr (bit r6 4, lba r3 r4 r5 r6)"
      "ata_dev D (Outsl 0x1f0 d # Outb 0x1f7 0x30 # request r3 r4 r5 r6 @ tr) = (ata_dev D tr)((bit r6 4, lba r3 r4 r5 r6) := d)"
      by (simp_all add: ata_dev_def ata_din_def c s r)
  qed
qed

section \<open>Requests\<close>

text \<open>
  Any interleaving of processes that submit a request for a buffer they hold, of disk interrupts, and of processes that work on
  buffers with no request pending.
\<close>

inductive ide_reach :: "ide \<Rightarrow> bool" where
  start: "idequeue s = [] \<Longrightarrow> ide_reach s"
| submit: "ide_reach s \<Longrightarrow> i < length (ide_bufs s) \<Longrightarrow> i \<notin> set (idequeue s) \<Longrightarrow> ide_submit pid i st s = Ok (st', s') \<Longrightarrow> ide_reach s'"
| interrupt: "ide_reach s \<Longrightarrow> ideintr inp st s = Ok (st', s') \<Longrightarrow> ide_reach s'"
| work: "ide_reach s \<Longrightarrow> i \<notin> set (idequeue s) \<Longrightarrow> ide_reach (ide_upd i f s)"

definition ide_inv :: "ide \<Rightarrow> bool" where
  "ide_inv s \<longleftrightarrow> distinct (idequeue s) \<and>
     (\<forall>i \<in> set (idequeue s). i < length (ide_bufs s) \<and> (b_valid (ide_bufs s ! i) \<longrightarrow> b_dirty (ide_bufs s ! i))) \<and>
     (idequeue s \<noteq> [] \<longrightarrow> b_blockno (ide_bufs s ! hd (idequeue s)) < FSSIZE \<and>
        (\<exists>tr. ports s = start_ports (ide_bufs s ! hd (idequeue s)) @ tr))"

lemma ide_upd_simps [simp]:
  "idequeue (ide_upd i f s) = idequeue s" "ports (ide_upd i f s) = ports s" "havedisk1 (ide_upd i f s) = havedisk1 s"
  "ide_bufs (ide_upd i f s) = (ide_bufs s)[i := f (ide_bufs s ! i)]" "ide_woken (ide_upd i f s) = ide_woken s"
  by (simp_all add: ide_upd_def)

lemma idestart_Ok:
  assumes "idestart (Some i) st s = Ok (st', s')"
  shows "b_blockno (ide_bufs s ! i) < FSSIZE \<and> s' = s\<lparr>ports := start_ports (ide_bufs s ! i) @ ports s\<rparr>"
  using assms by (cases "idewait False st") (auto simp: idestart_def split: if_splits)

lemma ide_input_Ok:
  assumes "ide_input inp i st s = Ok (st', s')"
  shows "\<exists>d. s' = ide_upd i (\<lambda>b. b\<lparr>b_data := d\<rparr>) s"
proof (cases "s' = s")
  case True
  then have "s' = ide_upd i (\<lambda>b. b\<lparr>b_data := b_data (ide_bufs s ! i)\<rparr>) s" by (simp add: ide_upd_def)
  then show ?thesis ..
next
  case False
  then have "s' = ide_upd i (\<lambda>b. b\<lparr>b_data := inp\<rparr>) s"
    using assms by (cases "idewait True st") (auto simp: ide_input_def split: if_splits)
  then show ?thesis ..
qed

text \<open>An interrupt takes the head of the queue, marks it done and starts the next request.\<close>

lemma ideintr_Ok:
  assumes "ideintr inp st s = Ok (st', s')" "idequeue s = i # q"
  shows "\<exists>d st1. ide_input inp i st (s\<lparr>idequeue := q\<rparr>) = Ok (st1, ide_upd i (\<lambda>b. b\<lparr>b_data := d\<rparr>) (s\<lparr>idequeue := q\<rparr>)) \<and>
    ide_bufs s' = (ide_bufs s)[i := (ide_bufs s ! i)\<lparr>b_data := d, b_valid := True, b_dirty := False\<rparr>] \<and>
    idequeue s' = q \<and> ide_woken s' = i # ide_woken s \<and>
    (if q = [] then ports s' = ports s
     else b_blockno (ide_bufs s' ! hd q) < FSSIZE \<and> ports s' = start_ports (ide_bufs s' ! hd q) @ ports s)"
proof (cases "ide_input inp i st (s\<lparr>idequeue := q\<rparr>)")
  case (Ok x)
  obtain st1 s1 where x: "x = (st1, s1)" by (cases x)
  obtain d where d: "s1 = ide_upd i (\<lambda>b. b\<lparr>b_data := d\<rparr>) (s\<lparr>idequeue := q\<rparr>)" using ide_input_Ok [OF Ok [unfolded x]] by blast
  let ?s = "(ide_upd i (\<lambda>b. b\<lparr>b_valid := True, b_dirty := False\<rparr>) s1)\<lparr>ide_woken := i # ide_woken s1\<rparr>"
  have bufs: "ide_bufs ?s = (ide_bufs s)[i := (ide_bufs s ! i)\<lparr>b_data := d, b_valid := True, b_dirty := False\<rparr>]"
    by (cases "i < length (ide_bufs s)") (simp_all add: d list_update_beyond)
  have "(if q \<noteq> [] then idestart (Some (hd q)) st1 ?s else Ok (st1, ?s)) = Ok (st', s')"
    using assms Ok x by (cases "q = []") (simp_all add: ideintr_def Let_def)
  then have "(if q = [] then s' = ?s else b_blockno (ide_bufs ?s ! hd q) < FSSIZE \<and>
      s' = ?s\<lparr>ports := start_ports (ide_bufs ?s ! hd q) @ ports ?s\<rparr>)"
    using idestart_Ok [of "hd q" st1 ?s st' s'] by (cases "q = []") simp_all
  then show ?thesis using Ok x d bufs by (cases "q = []") (intro exI [of _ d] exI [of _ st1], simp add: d)+
qed (use assms in \<open>simp_all add: ideintr_def\<close>)

lemma ide_submit_Ok:
  assumes "ide_submit pid i st s = Ok (st', s')" "i \<notin> set (idequeue s)"
  shows "(b_valid (ide_bufs s ! i) \<longrightarrow> b_dirty (ide_bufs s ! i)) \<and> ide_bufs s' = ide_bufs s \<and> idequeue s' = idequeue s @ [i] \<and>
    (if idequeue s = [] then b_blockno (ide_bufs s ! i) < FSSIZE \<and> ports s' = start_ports (ide_bufs s ! i) @ ports s
     else ports s' = ports s)"
proof (cases "idequeue s = []")
  case True
  then have "idestart (Some i) st (s\<lparr>idequeue := [i]\<rparr>) = Ok (st', s')" "b_valid (ide_bufs s ! i) \<longrightarrow> b_dirty (ide_bufs s ! i)"
    using assms(1) by (auto simp: ide_submit_def Let_def split: if_splits)
  then show ?thesis using True idestart_Ok [of i st "s\<lparr>idequeue := [i]\<rparr>" st' s'] by simp
next
  case False
  then have "hd (idequeue s) \<noteq> i" using assms(2) hd_in_set by metis
  then show ?thesis using False assms(1) by (auto simp: ide_submit_def Let_def split: if_splits)
qed

lemma ide_reach_inv: "ide_reach s \<Longrightarrow> ide_inv s"
proof (induction rule: ide_reach.induct)
  case (start s)
  then show ?case by (simp add: ide_inv_def)
next
  case (submit s i pid st st' s')
  then show ?case using ide_submit_Ok [OF submit.hyps(4,3)]
    by (cases "idequeue s = []") (auto simp: ide_inv_def)
next
  case (interrupt s inp st st' s')
  show ?case
  proof (cases "idequeue s")
    case Nil
    then show ?thesis using interrupt by (simp add: ideintr_def)
  next
    case (Cons i q)
    obtain d where s': "ide_bufs s' = (ide_bufs s)[i := (ide_bufs s ! i)\<lparr>b_data := d, b_valid := True, b_dirty := False\<rparr>]"
      "idequeue s' = q" "if q = [] then ports s' = ports s
     else b_blockno (ide_bufs s' ! hd q) < FSSIZE \<and> ports s' = start_ports (ide_bufs s' ! hd q) @ ports s"
      using ideintr_Ok [OF interrupt.hyps(2) Cons] by (elim exE conjE)
    have "j \<noteq> i" if "j \<in> set q" for j using interrupt.IH that by (auto simp: ide_inv_def Cons)
    then have "ide_bufs s' ! j = ide_bufs s ! j" if "j \<in> set q" for j using that s'(1) by (metis nth_list_update_neq)
    then show ?thesis using s' interrupt.IH by (auto simp: ide_inv_def Cons)
  qed
next
  case (work s i f)
  have "ide_bufs (ide_upd i f s) ! j = ide_bufs s ! j" if "j \<in> set (idequeue s)" for j using that work.hyps(2) unfolding ide_upd_simps by (metis nth_list_update_neq)
  moreover have "ide_bufs (ide_upd i f s) ! hd (idequeue s) = ide_bufs s ! hd (idequeue s)" if "idequeue s \<noteq> []"
    using calculation [OF hd_in_set [OF that]] .
  ultimately show ?case using work.IH unfolding ide_inv_def by (simp del: ide_upd_simps(4)) (simp add: ide_upd_def)
qed

section \<open>Properties\<close>

text \<open>A completed read delivers, and a completed write has left, the contents of the buffer on the disk.\<close>

lemma ideintr_completes:
  assumes "ata_disk dev din" "ide_reach s" "idequeue s = i # q" "ideintr (din (ports s)) st s = Ok (st', s')"
    "b_dirty (ide_bufs s ! i) \<or> (\<exists>st1. idewait True st = Ok (0, st1))"
  shows "ide_bufs s' = (ide_bufs s)[i := (ide_bufs s ! i)\<lparr>b_data := dev (ports s) (odd (b_dev (ide_bufs s ! i)), b_blockno (ide_bufs s ! i)),
      b_valid := True, b_dirty := False\<rparr>]"
proof -
  let ?b = "ide_bufs s ! i"
  have inv: "i < length (ide_bufs s)" "b_blockno ?b < FSSIZE" "\<exists>tr. ports s = start_ports ?b @ tr"
    using ide_reach_inv [OF assms(2)] by (simp_all add: ide_inv_def assms(3))
  from inv(3) obtain tr where tr: "ports s = start_ports ?b @ tr" ..
  obtain d st1 where d: "ide_input (din (ports s)) i st (s\<lparr>idequeue := q\<rparr>) = Ok (st1, ide_upd i (\<lambda>b. b\<lparr>b_data := d\<rparr>) (s\<lparr>idequeue := q\<rparr>))"
    "ide_bufs s' = (ide_bufs s)[i := ?b\<lparr>b_data := d, b_valid := True, b_dirty := False\<rparr>]"
    using ideintr_Ok [OF assms(4,3)] by (elim exE conjE)
  have data: "b_data (ide_bufs (ide_upd i (\<lambda>b. b\<lparr>b_data := d\<rparr>) (s\<lparr>idequeue := q\<rparr>)) ! i) = d" using inv(1) by simp
  have "d = dev (ports s) (odd (b_dev ?b), b_blockno ?b)"
  proof (cases "b_dirty ?b")
    case True
    then have "s\<lparr>idequeue := q\<rparr> = ide_upd i (\<lambda>b. b\<lparr>b_data := d\<rparr>) (s\<lparr>idequeue := q\<rparr>)" using d(1) by (simp add: ide_input_def)
    then have "b_data ?b = d" using data by (metis ide.select_convs(1) ide.surjective ide.update_convs(2))
    then show ?thesis using True start_ports_effect(1) [OF assms(1) inv(2), of tr] by (simp add: tr)
  next
    case False
    then obtain st1 where "idewait True st = Ok (0, st1)" using assms(5) by blast
    then have "ide_upd i (\<lambda>b. b\<lparr>b_data := din (ports s)\<rparr>) (s\<lparr>idequeue := q\<rparr>) = ide_upd i (\<lambda>b. b\<lparr>b_data := d\<rparr>) (s\<lparr>idequeue := q\<rparr>)"
      using d(1) False by (simp add: ide_input_def)
    then have "din (ports s) = d" using data inv(1) by (metis buf.select_convs(7) ide_upd_simps(4) nth_list_update_eq buf.update_convs(7) buf.surjective ide.update_convs(2) ide.surjective ide.select_convs(1))
    then show ?thesis using False start_ports_effect [OF assms(1) inv(2), of tr] by (simp add: tr)
  qed
  then show ?thesis using d(2) by simp
qed

lemma pending_write_on_disk:
  assumes "ata_disk dev din" "ide_reach s" "idequeue s = i # q" "b_dirty (ide_bufs s ! i)"
  shows "dev (ports s) (odd (b_dev (ide_bufs s ! i)), b_blockno (ide_bufs s ! i)) = b_data (ide_bufs s ! i)"
proof -
  let ?b = "ide_bufs s ! i"
  obtain tr where tr: "ports s = start_ports ?b @ tr" "b_blockno ?b < FSSIZE"
    using ide_reach_inv [OF assms(2)] by (auto simp: ide_inv_def assms(3))
  show ?thesis unfolding tr(1) start_ports_effect(1) [OF assms(1) tr(2)] using assms(4) by simp
qed

lemma iderw_memory:
  assumes "holdingsleep pid (b_lock b)" "b_dev b = 1" "b_blockno b < FSSIZE" "b_valid b \<longrightarrow> b_dirty b" "bs ! i = b"
    "b_dirty b \<longrightarrow> D (b_blockno b) = b_data b"
  shows "\<exists>t. iderw pid i \<lparr>bufs = bs, lru = [], disk = D, disksize = FSSIZE, dtrace = []\<rparr> = Ok t \<and> disk t = D \<and>
    bufs t = bs[i := b\<lparr>b_data := D (b_blockno b), b_valid := True, b_dirty := False\<rparr>]"
proof (cases "b_dirty b")
  case True
  have "b\<lparr>b_data := D (b_blockno b), b_valid := True, b_dirty := False\<rparr> = b\<lparr>b_dirty := False, b_valid := True\<rparr>"
    using assms(6) True by (cases b) simp
  then show ?thesis unfolding \<open>b\<lparr>b_data := D (b_blockno b), b_valid := True, b_dirty := False\<rparr> = _\<close>
    using assms True by (simp add: iderw_def upd_buf_def Let_def fun_upd_idem)
next
  case False
  then have "b\<lparr>b_data := D (b_blockno b), b_valid := True, b_dirty := False\<rparr> = b\<lparr>b_data := D (b_blockno b), b_valid := True\<rparr>" by (cases b) simp
  then show ?thesis unfolding \<open>b\<lparr>b_data := D (b_blockno b), b_valid := True, b_dirty := False\<rparr> = _\<close>
    using assms False by (simp add: iderw_def upd_buf_def Let_def)
qed

lemma next_request_effect:
  assumes "ata_disk dev din" "ide_reach s" "idequeue s = i # q" "ideintr inp st s = Ok (st', s')"
  shows "idequeue s' = q \<and>
    dev (ports s') =
      (if q \<noteq> [] \<and> b_dirty (ide_bufs s ! hd q)
       then (dev (ports s))((odd (b_dev (ide_bufs s ! hd q)), b_blockno (ide_bufs s ! hd q)) := b_data (ide_bufs s ! hd q))
       else dev (ports s))"
proof -
  obtain d where s': "ide_bufs s' = (ide_bufs s)[i := (ide_bufs s ! i)\<lparr>b_data := d, b_valid := True, b_dirty := False\<rparr>]"
    "idequeue s' = q" "if q = [] then ports s' = ports s
     else b_blockno (ide_bufs s' ! hd q) < FSSIZE \<and> ports s' = start_ports (ide_bufs s' ! hd q) @ ports s"
    using ideintr_Ok [OF assms(4,3)] by (elim exE conjE)
  show ?thesis
  proof (cases "q = []")
    case True
    then show ?thesis using s' by simp
  next
    case False
    then have "hd q \<noteq> i" using ide_reach_inv [OF assms(2)] hd_in_set by (fastforce simp: ide_inv_def assms(3))
    then have "ide_bufs s' ! hd q = ide_bufs s ! hd q" using s'(1) by (metis nth_list_update_neq)
    then show ?thesis using False s' start_ports_effect(1) [OF assms(1), of "ide_bufs s ! hd q" "ports s"] by simp
  qed
qed

text \<open>
  C39. With a controller that behaves as documented, every disk interrupt in any interleaving of requests completes exactly the
  oldest pending request, with the same effect on the buffer and the disk as the \<^verbatim>\<open>iderw\<close> of the memory disk; the waiting
  process may then return, and the next request in the queue is the one that is started.
\<close>

theorem ide_refines_memory_disk:
  assumes "ata_disk dev din" "ide_reach s" "idequeue s = i # q" "ideintr (din (ports s)) st s = Ok (st', s')"
    "b_dirty (ide_bufs s ! i) \<or> (\<exists>st1. idewait True st = Ok (0, st1))"
    "holdingsleep pid (b_lock (ide_bufs s ! i))" "b_dev (ide_bufs s ! i) = 1"
  shows "(\<exists>t. iderw pid i \<lparr>bufs = ide_bufs s, lru = [], disk = (\<lambda>n. dev (ports s) (True, n)), disksize = FSSIZE, dtrace = []\<rparr> = Ok t \<and>
      disk t = (\<lambda>n. dev (ports s) (True, n)) \<and> bufs t = ide_bufs s') \<and>
    ide_wait i s' = Ok s' \<and> idequeue s' = q \<and>
    dev (ports s') =
      (if q \<noteq> [] \<and> b_dirty (ide_bufs s ! hd q)
       then (dev (ports s))((odd (b_dev (ide_bufs s ! hd q)), b_blockno (ide_bufs s ! hd q)) := b_data (ide_bufs s ! hd q))
       else dev (ports s))"
proof -
  let ?b = "ide_bufs s ! i" and ?D = "\<lambda>n. dev (ports s) (True, n)"
  have inv: "i < length (ide_bufs s)" "b_blockno ?b < FSSIZE" "b_valid ?b \<longrightarrow> b_dirty ?b"
    using ide_reach_inv [OF assms(2)] by (simp_all add: ide_inv_def assms(3))
  have w: "b_dirty ?b \<longrightarrow> ?D (b_blockno ?b) = b_data ?b" using pending_write_on_disk [OF assms(1-3)] assms(7) by simp
  have s': "ide_bufs s' = (ide_bufs s)[i := ?b\<lparr>b_data := ?D (b_blockno ?b), b_valid := True, b_dirty := False\<rparr>]"
    using ideintr_completes [OF assms(1-5)] assms(7) by simp
  have ready: "ide_wait i s' = Ok s'" using inv(1) by (simp add: ide_wait_def s')
  show ?thesis unfolding s'
    by (intro conjI ready iderw_memory [of pid ?b "ide_bufs s" i ?D, OF assms(6,7) inv(2,3) refl w]
        next_request_effect [OF assms(1-4), THEN conjunct1] next_request_effect [OF assms(1-4), THEN conjunct2])
qed

text \<open>A read of block 5 from a disk of sevens.\<close>

definition ide_buf0 :: buf where
  "ide_buf0 = \<lparr>b_valid = False, b_dirty = False, b_dev = 1, b_blockno = 5, b_lock = \<lparr>slocked = True, sname = ''buffer'', spid = 3\<rparr>,
     b_refcnt = 1, b_data = replicate BSIZE 0\<rparr>"

definition ide0 :: ide where
  "ide0 = \<lparr>ide_bufs = [ide_buf0], idequeue = [], havedisk1 = True, ports = [], ide_woken = []\<rparr>"

definition ide1 :: ide where
  "ide1 = ide0\<lparr>idequeue := [0], ports := start_ports ide_buf0\<rparr>"

lemma ide1_reach: "ide_reach ide1"
proof (rule ide_reach.submit [of ide0 0 3 "[0x40]" "[]"])
  show "ide_submit 3 0 [0x40] ide0 = Ok ([], ide1)"
    by (simp add: ide_submit_def ide0_def ide1_def ide_buf0_def holdingsleep_def idestart_def FSSIZE_def IDE_BSY_def IDE_DRDY_def Let_def)
qed (simp_all add: ide_reach.start ide0_def)

abbreviation sevens :: "bool \<times> nat \<Rightarrow> block" where
  "sevens \<equiv> (\<lambda>_. replicate BSIZE 7)"

definition ide2 :: ide where
  "ide2 = ide1\<lparr>ide_bufs := [ide_buf0\<lparr>b_data := ata_din sevens (ports ide1), b_valid := True, b_dirty := False\<rparr>], idequeue := [], ide_woken := [0]\<rparr>"

lemma ide2_data: "b_data (ide_bufs ide2 ! 0) = replicate BSIZE 7"
proof -
  have "ata_din sevens (start_ports ide_buf0 @ []) = ata_dev sevens [] (odd (b_dev ide_buf0), b_blockno ide_buf0)"
    by (rule start_ports_effect(2) [OF ata_controller]) (simp_all add: ide_buf0_def FSSIZE_def)
  then show ?thesis by (simp add: ide2_def ide1_def ata_dev_def ata_run_def)
qed

lemma ideintr_ide1: "ideintr (ata_din sevens (ports ide1)) [0x40] ide1 = Ok ([], ide2)"
  by (simp add: ideintr_def ide_input_def ide_upd_def ide1_def ide0_def ide2_def ide_buf0_def IDE_BSY_def IDE_DRDY_def IDE_DF_def IDE_ERR_def)

theorem ide_refines_memory_disk_witness:
  "(\<exists>t. iderw 3 0 \<lparr>bufs = [ide_buf0], lru = [], disk = (\<lambda>n. ata_dev sevens (ports ide1) (True, n)), disksize = FSSIZE, dtrace = []\<rparr> = Ok t \<and>
     bufs t = ide_bufs ide2) \<and> ide_wait 0 ide2 = Ok ide2 \<and> b_data (ide_bufs ide2 ! 0) = replicate BSIZE 7"
proof -
  have q: "idequeue ide1 = 0 # []" and b: "ide_bufs ide1 = [ide_buf0]" by (simp_all add: ide1_def ide0_def)
  have w: "b_dirty (ide_bufs ide1 ! 0) \<or> (\<exists>st1. idewait True [0x40] = Ok (0, st1))"
    by (simp add: IDE_BSY_def IDE_DRDY_def IDE_DF_def IDE_ERR_def)
  have "holdingsleep 3 (b_lock (ide_bufs ide1 ! 0))" "b_dev (ide_bufs ide1 ! 0) = 1"
    by (simp_all add: b ide_buf0_def holdingsleep_def)
  from ide_refines_memory_disk [OF ata_controller ide1_reach q ideintr_ide1 w this]
  show ?thesis using ide2_data unfolding b by blast
qed

text \<open>A failed read: the controller reports an error, yet the buffer is marked valid with its old contents.\<close>

lemma ide_error_ignored:
  "ideintr inp [0x41] ide1 = Ok ([], ide1\<lparr>ide_bufs := [ide_buf0\<lparr>b_valid := True, b_dirty := False\<rparr>], idequeue := [], ide_woken := [0]\<rparr>)"
  by (simp add: ideintr_def ide_input_def ide_upd_def ide1_def ide0_def ide_buf0_def IDE_BSY_def IDE_DRDY_def IDE_DF_def IDE_ERR_def)

end
