(* ===== verification/Kern.thy ===== *)
theory Kern
  imports Fs_Dir Pipe Proc_Table
begin

text \<open>
  The state of the whole kernel, and the file table of \<^verbatim>\<open>file.c\<close> with the part of \<^verbatim>\<open>pipe.c\<close> that allocates and frees.
  The state extends the state of the file system by the file table, the pipes (by the address of their page), the page
  allocator with physical memory, and the process table. The calls run in the process of slot \<open>me\<close>. The outcome
  \<open>Blocked\<close> says that the call goes to sleep; the model does not follow it further.
\<close>

definition NFILE :: nat where "NFILE = 100"

datatype ftype = FD_NONE | FD_PIPE | FD_INODE

record file_t =
  f_type :: ftype
  f_ref :: int
  f_readable :: bool
  f_writable :: bool
  f_pipe :: u32
  f_ip :: nat
  f_off :: u32

record kern = fs +
  k_files :: "file_t list"
  k_pipes :: "u32 \<Rightarrow> pipe option"
  k_mem :: kmem
  k_pt :: ptable

text \<open>Addresses that the linker chooses.\<close>

record kenv =
  ke_end :: u32
  ke_data :: u32
  ke_trapret :: u32
  ke_forkret :: u32
  ke_log :: u32
  ke_ticks :: u32
  ke_input :: u32

abbreviation proc_of :: "nat \<Rightarrow> 'a kern_scheme \<Rightarrow> proc" where
  "proc_of me s \<equiv> procs (k_pt s) ! me"

abbreviation pid_of :: "nat \<Rightarrow> 'a kern_scheme \<Rightarrow> int" where
  "pid_of me s \<equiv> p_pid (proc_of me s)"

definition set_proc :: "nat \<Rightarrow> (proc \<Rightarrow> proc) \<Rightarrow> 'a kern_scheme \<Rightarrow> 'a kern_scheme" where
  "set_proc me f s = s\<lparr>k_pt := upd_proc me f (k_pt s)\<rparr>"

definition upd_file :: "nat \<Rightarrow> (file_t \<Rightarrow> file_t) \<Rightarrow> 'a kern_scheme \<Rightarrow> 'a kern_scheme" where
  "upd_file f g s = s\<lparr>k_files := (k_files s)[f := g (k_files s ! f)]\<rparr>"

definition wake :: "u32 \<Rightarrow> 'a kern_scheme \<Rightarrow> 'a kern_scheme" where
  "wake a s = s\<lparr>k_pt := wakeup (Some (Ch_addr a)) (k_pt s)\<rparr>"

text \<open>\<^verbatim>\<open>begin_op\<close> and \<^verbatim>\<open>end_op\<close> on the kernel state, with the wakeups of sleepers on \<^verbatim>\<open>&log\<close>.\<close>

definition kbegin_op :: "'a kern_scheme \<Rightarrow> 'a kern_scheme res" where
  "kbegin_op s = bnd (begin_op (lg (fdk s))) (\<lambda>l. Ok (s\<lparr>fdk := (fdk s)\<lparr>lg := l\<rparr>\<rparr>))"

definition kend_op :: "kenv \<Rightarrow> nat \<Rightarrow> 'a kern_scheme \<Rightarrow> 'a kern_scheme res" where
  "kend_op env me s = bnd (end_op (pid_of me s) (fdk s)) (\<lambda>d. Ok (wake (ke_log env) (s\<lparr>fdk := d\<rparr>)))"

section \<open>Pipes\<close>

text \<open>Offsets in \<^verbatim>\<open>struct pipe\<close>, after the lock of 52 bytes.\<close>

definition PIPE_DATA :: u32 where "PIPE_DATA = 52"
definition PIPE_NREAD :: u32 where "PIPE_NREAD = 564"
definition PIPE_NWRITE :: u32 where "PIPE_NWRITE = 568"

definition kpipeclose :: "kenv \<Rightarrow> u32 \<Rightarrow> bool \<Rightarrow> 'a kern_scheme \<Rightarrow> 'a kern_scheme res" where
  "kpipeclose env p wr s =
     (case k_pipes s p of
        None \<Rightarrow> Panic ''no pipe''
      | Some pp \<Rightarrow>
          let (pp, freed) = pipeclose wr pp; s = wake (if wr then p + PIPE_NREAD else p + PIPE_NWRITE) s
          in if freed
             then bnd (kfree (ke_end env) p (k_mem s)) (\<lambda>m. Ok (s\<lparr>k_mem := m, k_pipes := (k_pipes s)(p := None)\<rparr>))
             else Ok (s\<lparr>k_pipes := (k_pipes s)(p := Some pp)\<rparr>))"

section \<open>The file table\<close>

definition file_init :: file_t where
  "file_init = \<lparr>f_type = FD_NONE, f_ref = 0, f_readable = False, f_writable = False, f_pipe = 0, f_ip = 0, f_off = 0\<rparr>"

fun free_file :: "file_t list \<Rightarrow> nat option" where
  "free_file [] = None"
| "free_file (f # fs) = (if f_ref f = 0 then Some 0 else map_option Suc (free_file fs))"

definition filealloc :: "'a kern_scheme \<Rightarrow> nat option \<times> 'a kern_scheme" where
  "filealloc s =
     (case free_file (k_files s) of
        Some f \<Rightarrow> (Some f, upd_file f (\<lambda>f. f\<lparr>f_ref := 1\<rparr>) s)
      | None \<Rightarrow> (None, s))"

definition filedup :: "nat \<Rightarrow> 'a kern_scheme \<Rightarrow> 'a kern_scheme res" where
  "filedup f s =
     (if f_ref (k_files s ! f) < 1 then Panic ''filedup''
      else Ok (upd_file f (\<lambda>f. f\<lparr>f_ref := f_ref f + 1\<rparr>) s))"

definition fileclose :: "kenv \<Rightarrow> nat \<Rightarrow> nat \<Rightarrow> 'a kern_scheme \<Rightarrow> 'a kern_scheme res" where
  "fileclose env me f s =
     (let ff = k_files s ! f in
      if f_ref ff < 1 then Panic ''fileclose''
      else if f_ref ff - 1 > 0 then Ok (upd_file f (\<lambda>f. f\<lparr>f_ref := f_ref f - 1\<rparr>) s)
      else
        let s = upd_file f (\<lambda>f. f\<lparr>f_ref := 0, f_type := FD_NONE\<rparr>) s in
        case f_type ff of
          FD_PIPE \<Rightarrow> kpipeclose env (f_pipe ff) (f_writable ff) s
        | FD_INODE \<Rightarrow>
            bnd (kbegin_op s) (\<lambda>s.
            bnd (iput (pid_of me s) (f_ip ff) s) (\<lambda>s. kend_op env me s))
        | FD_NONE \<Rightarrow> Ok s)"

definition filestat :: "nat \<Rightarrow> nat \<Rightarrow> 'a kern_scheme \<Rightarrow> (stat option \<times> 'a kern_scheme) res" where
  "filestat me f s =
     (let ff = k_files s ! f in
      case f_type ff of
        FD_INODE \<Rightarrow>
          bnd (ilock (pid_of me s) (f_ip ff) s) (\<lambda>s.
          let st = stati (f_ip ff) s in
          bnd (iunlock (pid_of me s) (f_ip ff) s) (\<lambda>s. Ok (Some st, s)))
      | _ \<Rightarrow> Ok (None, s))"

definition fileread :: "'a kern_scheme dev_reads \<Rightarrow> nat \<Rightarrow> nat \<Rightarrow> int \<Rightarrow> 'a kern_scheme \<Rightarrow>
    (int \<times> u8 list \<times> 'a kern_scheme) res" where
  "fileread devs me f n s =
     (let ff = k_files s ! f in
      if \<not> f_readable ff then Ok (-1, [], s)
      else case f_type ff of
        FD_PIPE \<Rightarrow>
          (case k_pipes s (f_pipe ff) of
             None \<Rightarrow> Panic ''no pipe''
           | Some pp \<Rightarrow>
               (case piperead (p_killed (proc_of me s)) n pp of
                  (pp, RSleep) \<Rightarrow> Blocked
                | (pp, RDone r bs) \<Rightarrow>
                    Ok (r, bs, let s = s\<lparr>k_pipes := (k_pipes s)(f_pipe ff := Some pp)\<rparr>
                               in if r = -1 then s else wake (f_pipe ff + PIPE_NWRITE) s)))
      | FD_INODE \<Rightarrow>
          bnd (ilock (pid_of me s) (f_ip ff) s) (\<lambda>s.
          bnd (readi devs (pid_of me s) (f_ip ff) (f_off ff) (word_of_int n) s) (\<lambda>(r, bs, s).
          let s = (if r > 0 then upd_file f (\<lambda>f. f\<lparr>f_off := f_off f + word_of_int r\<rparr>) s else s) in
          bnd (iunlock (pid_of me s) (f_ip ff) s) (\<lambda>s. Ok (r, bs, s))))
      | FD_NONE \<Rightarrow> Panic ''fileread'')"

definition write_max :: nat where
  "write_max = ((MAXOPBLOCKS - 1 - 1 - 2) div 2) * 512"

text \<open>The loop of \<^verbatim>\<open>filewrite\<close> with the bytes still to write; the result says whether all were written.\<close>

function filewrite_loop :: "'a kern_scheme dev_writes \<Rightarrow> kenv \<Rightarrow> nat \<Rightarrow> nat \<Rightarrow> u8 list \<Rightarrow> 'a kern_scheme \<Rightarrow>
    (bool \<times> 'a kern_scheme) res" where
  "filewrite_loop devs env me f bs s =
     (if bs = [] then Ok (True, s)
      else
        let ip = f_ip (k_files s ! f); bs1 = take write_max bs in
        bnd (kbegin_op s) (\<lambda>s.
        bnd (ilock (pid_of me s) ip s) (\<lambda>s.
        bnd (writei devs (pid_of me s) ip bs1 (f_off (k_files s ! f)) s) (\<lambda>(r, s).
        let s = (if r > 0 then upd_file f (\<lambda>f. f\<lparr>f_off := f_off f + word_of_int r\<rparr>) s else s) in
        bnd (iunlock (pid_of me s) ip s) (\<lambda>s.
        bnd (kend_op env me s) (\<lambda>s.
        if r < 0 then Ok (False, s)
        else if r \<noteq> int (length bs1) then Panic ''short filewrite''
        else filewrite_loop devs env me f (drop write_max bs) s))))))"
  by pat_completeness auto
termination
  by (relation "measure (\<lambda>(devs, env, me, f, bs, s). length bs)") (auto simp: write_max_def MAXOPBLOCKS_def)

definition filewrite :: "'a kern_scheme dev_writes \<Rightarrow> kenv \<Rightarrow> nat \<Rightarrow> nat \<Rightarrow> u8 list \<Rightarrow> 'a kern_scheme \<Rightarrow>
    (int \<times> 'a kern_scheme) res" where
  "filewrite devs env me f bs s =
     (let ff = k_files s ! f in
      if \<not> f_writable ff then Ok (-1, s)
      else case f_type ff of
        FD_PIPE \<Rightarrow>
          (case k_pipes s (f_pipe ff) of
             None \<Rightarrow> Panic ''no pipe''
           | Some pp \<Rightarrow>
               (case pipewrite (p_killed (proc_of me s)) bs pp of
                  (pp, WSleep rest) \<Rightarrow> Blocked
                | (pp, WDone r) \<Rightarrow>
                    Ok (r, let s = s\<lparr>k_pipes := (k_pipes s)(f_pipe ff := Some pp)\<rparr>
                           in if r = -1 then s else wake (f_pipe ff + PIPE_NREAD) s)))
      | FD_INODE \<Rightarrow>
          bnd (filewrite_loop devs env me f bs s) (\<lambda>(ok, s). Ok (if ok then int (length bs) else -1, s))
      | FD_NONE \<Rightarrow> Panic ''filewrite'')"

text \<open>\<^verbatim>\<open>pipealloc\<close>; a file it gives back on failure has type \<^verbatim>\<open>FD_NONE\<close>, or what a reused entry held before.\<close>

definition pipealloc :: "kenv \<Rightarrow> nat \<Rightarrow> 'a kern_scheme \<Rightarrow> ((nat \<times> nat) option \<times> 'a kern_scheme) res" where
  "pipealloc env me s =
     (case filealloc s of
        (None, s) \<Rightarrow> Ok (None, s)
      | (Some f0, s) \<Rightarrow>
          (case filealloc s of
             (None, s) \<Rightarrow> bnd (fileclose env me f0 s) (\<lambda>s. Ok (None, s))
           | (Some f1, s) \<Rightarrow>
               (case kalloc (k_mem s) of
                  (p, m) \<Rightarrow>
                    if p = 0
                    then
                      bnd (fileclose env me f0 s) (\<lambda>s.
                      bnd (fileclose env me f1 s) (\<lambda>s. Ok (None, s)))
                    else
                      let data = map (\<lambda>i. km_mem m (p + PIPE_DATA + of_nat i)) [0..<PIPESIZE];
                          s = s\<lparr>k_mem := m, k_pipes := (k_pipes s)(p := Some (new_pipe data))\<rparr>;
                          s = upd_file f0 (\<lambda>f. f\<lparr>f_type := FD_PIPE, f_readable := True, f_writable := False, f_pipe := p\<rparr>) s;
                          s = upd_file f1 (\<lambda>f. f\<lparr>f_type := FD_PIPE, f_readable := False, f_writable := True, f_pipe := p\<rparr>) s
                      in Ok (Some (f0, f1), s))))"

declare filewrite_loop.simps [simp del]

end
