(* ===== verification/Console.thy ===== *)
theory Console
  imports Ring Mem_String
begin

unbundle bit_operations_syntax

text \<open>
  The console of \<^verbatim>\<open>console.c\<close> with the colour codes of \<^verbatim>\<open>graphics.h\<close> and the serial output of \<^verbatim>\<open>uart.c\<close>: printing to
  the screen memory, scrolling, colours, line drawing, formatted output and the editing of input lines.

  C ints are \<open>int\<close>. The screen memory \<^verbatim>\<open>crt\<close> is a map from the index of a cell; the cells of the screen are
  \<open>0\<close> to \<open>1999\<close>, and an index outside the window of the adapter is other memory. The cursor register of the
  adapter holds 16 bits, which the code writes as two bytes.
\<close>

section \<open>Colours\<close>

definition RED :: int where "RED = 0xe0"
definition LRED :: int where "LRED = 0xe1"
definition MAGENTA :: int where "MAGENTA = 0x10"
definition DMAGENTA :: int where "DMAGENTA = 0x11"
definition CYAN :: int where "CYAN = 0x1e"
definition DCYAN :: int where "DCYAN = 0x1f"
definition BLUE :: int where "BLUE = 0xe6"
definition DBLUE :: int where "DBLUE = 0xe7"
definition GREEN :: int where "GREEN = 0xe8"
definition DGREEN :: int where "DGREEN = 0xe9"
definition YELLOW :: int where "YELLOW = 0xea"
definition WHITE :: int where "WHITE = 0xeb"
definition GREY :: int where "GREY = 0xec"
definition LGREY :: int where "LGREY = 0xed"
definition BLACK :: int where "BLACK = 0xee"
definition BROWN :: int where "BROWN = 0xef"
definition BRED :: int where "BRED = 0xc0"
definition BLRED :: int where "BLRED = 0xc1"
definition BMAGENTA :: int where "BMAGENTA = 0xc2"
definition BDMAGENTA :: int where "BDMAGENTA = 0xc3"
definition BCYAN :: int where "BCYAN = 0xc4"
definition BDCYAN :: int where "BDCYAN = 0xc5"
definition BBLUE :: int where "BBLUE = 0xc6"
definition BDBLUE :: int where "BDBLUE = 0xc7"
definition BGREEN :: int where "BGREEN = 0xc8"
definition BDGREEN :: int where "BDGREEN = 0xc9"
definition BYELLOW :: int where "BYELLOW = 0xca"
definition BWHITE :: int where "BWHITE = 0xcb"
definition BGREY :: int where "BGREY = 0xcc"
definition BLGREY :: int where "BLGREY = 0xcd"
definition BBLACK :: int where "BBLACK = 0xce"
definition BBROWN :: int where "BBROWN = 0xcf"

lemmas colour_defs = RED_def LRED_def MAGENTA_def DMAGENTA_def CYAN_def DCYAN_def BLUE_def DBLUE_def GREEN_def
  DGREEN_def YELLOW_def WHITE_def GREY_def LGREY_def BLACK_def BROWN_def BRED_def BLRED_def BMAGENTA_def
  BDMAGENTA_def BCYAN_def BDCYAN_def BBLUE_def BDBLUE_def BGREEN_def BDGREEN_def BYELLOW_def BWHITE_def
  BGREY_def BLGREY_def BBLACK_def BBROWN_def

definition getfbytecolor :: "int \<Rightarrow> int" where
  "getfbytecolor colorcode =
     (if colorcode = 0x0 then BLACK
      else if colorcode = 0x1 then DBLUE
      else if colorcode = 0x2 then DGREEN
      else if colorcode = 0x3 then DCYAN
      else if colorcode = 0x4 then RED
      else if colorcode = 0x5 then DMAGENTA
      else if colorcode = 0x6 then BROWN
      else if colorcode = 0x7 then LGREY
      else if colorcode = 0x8 then GREY
      else if colorcode = 0x9 then BLUE
      else if colorcode = 0xa then GREEN
      else if colorcode = 0xb then CYAN
      else if colorcode = 0xc then LRED
      else if colorcode = 0xd then MAGENTA
      else if colorcode = 0xe then YELLOW
      else WHITE)"

definition getbbytecolor :: "int \<Rightarrow> int" where
  "getbbytecolor colorcode =
     (if colorcode = 0x0 then BBLACK
      else if colorcode = 0x1 then BDBLUE
      else if colorcode = 0x2 then BDGREEN
      else if colorcode = 0x3 then BDCYAN
      else if colorcode = 0x4 then BRED
      else if colorcode = 0x5 then BDMAGENTA
      else if colorcode = 0x6 then BBROWN
      else if colorcode = 0x7 then BLGREY
      else if colorcode = 0x8 then BGREY
      else if colorcode = 0x9 then BBLUE
      else if colorcode = 0xa then BGREEN
      else if colorcode = 0xb then BCYAN
      else if colorcode = 0xc then BLRED
      else if colorcode = 0xd then BMAGENTA
      else if colorcode = 0xe then BYELLOW
      else BWHITE)"

definition getcolorcode :: "int \<Rightarrow> int" where
  "getcolorcode bytecolor =
     (if bytecolor = RED \<or> bytecolor = BRED then 0x4
      else if bytecolor = LRED \<or> bytecolor = BLRED then 0xc
      else if bytecolor = MAGENTA \<or> bytecolor = BMAGENTA then 0xd
      else if bytecolor = DMAGENTA \<or> bytecolor = BDMAGENTA then 0x5
      else if bytecolor = CYAN \<or> bytecolor = BCYAN then 0xb
      else if bytecolor = DCYAN \<or> bytecolor = BDCYAN then 0x3
      else if bytecolor = BLUE \<or> bytecolor = BBLUE then 0x9
      else if bytecolor = DBLUE \<or> bytecolor = BDBLUE then 0x1
      else if bytecolor = GREEN \<or> bytecolor = BGREEN then 0xa
      else if bytecolor = DGREEN \<or> bytecolor = BDGREEN then 0x2
      else if bytecolor = YELLOW \<or> bytecolor = BYELLOW then 0xe
      else if bytecolor = WHITE \<or> bytecolor = BWHITE then 0xf
      else if bytecolor = GREY \<or> bytecolor = BGREY then 0x8
      else if bytecolor = LGREY \<or> bytecolor = BLGREY then 0x7
      else if bytecolor = BLACK \<or> bytecolor = BBLACK then 0x0
      else 0x6)"

section \<open>The state of the console\<close>

definition INPUT_BUF :: nat where "INPUT_BUF = 128"

record console =
  c_panicked :: bool
  c_locking :: bool
  c_fg :: int
  c_bg :: int
  c_crt :: "int \<Rightarrow> u16"
  c_cursor :: int
  c_uart :: bool
  c_serial :: "u8 list"
  i_buf :: "u8 list"
  i_r :: u32
  i_w :: u32
  i_e :: u32

section \<open>Output of a character\<close>

text \<open>\<^verbatim>\<open>uartputc\<close>: at most 128 polls of the line status, then the byte is written in any case.\<close>

definition uartputc :: "int \<Rightarrow> console \<Rightarrow> console" where
  "uartputc c s = (if \<not> c_uart s then s else s\<lparr>c_serial := c_serial s @ [word_of_int c]\<rparr>)"

definition set_cursor :: "int \<Rightarrow> console \<Rightarrow> console" where
  "set_cursor pos s = s\<lparr>c_cursor := push_bit 8 (take_bit 8 (drop_bit 8 pos)) OR take_bit 8 pos\<rparr>"

text \<open>A cell: the character and its colour byte.\<close>

definition cell :: "int \<Rightarrow> int \<Rightarrow> u16" where
  "cell c color = word_of_int ((c AND 0xff) OR push_bit 8 color)"

definition is_fgcode :: "int \<Rightarrow> bool" where
  "is_fgcode c \<longleftrightarrow> (c \<ge> 0xe6 \<and> c \<le> 0xef) \<or> c = RED \<or> c = LRED \<or> c = 0x10 \<or> c = 0x11 \<or> c = 0x1e \<or> c = 0x1f"

definition is_bgcode :: "int \<Rightarrow> bool" where
  "is_bgcode c \<longleftrightarrow> c \<ge> 0xc0 \<and> c \<le> 0xcf"

definition BACKSPACE :: int where "BACKSPACE = 0x100"

definition scroll :: "int \<Rightarrow> console \<Rightarrow> int \<times> console" where
  "scroll pos s =
     (let crt = (\<lambda>i. if 0 \<le> i \<and> i < 23 * 80 then c_crt s (i + 80) else c_crt s i);
          pos = pos - 80
      in (pos, s\<lparr>c_crt := (\<lambda>i. if pos \<le> i \<and> i < 24 * 80 then 0 else crt i)\<rparr>))"

text \<open>The end of \<^verbatim>\<open>cgaputc\<close>, with the new position: the check, scrolling, the cursor.\<close>

definition cga_finish :: "int \<Rightarrow> console \<Rightarrow> console res" where
  "cga_finish pos s =
     (if pos < 0 \<or> pos > 25 * 80 then Panic ''pos under/overflow''
      else
        let (pos, s) = (if pos div 80 \<ge> 24 then scroll pos s else (pos, s));
            s = set_cursor pos s
        in Ok (s\<lparr>c_crt := (c_crt s)(pos := 0x0720)\<rparr>))"

definition cgaputc :: "int \<Rightarrow> console \<Rightarrow> console res" where
  "cgaputc c s =
     (let pos = c_cursor s in
      if c = 10 then cga_finish (pos + (80 - pos mod 80)) s
      else if c = BACKSPACE then cga_finish (if pos > 0 then pos - 1 else pos) s
      else if is_fgcode c then cga_finish pos (s\<lparr>c_fg := getcolorcode c\<rparr>)
      else if is_bgcode c then cga_finish pos (s\<lparr>c_bg := getcolorcode c\<rparr>)
      else cga_finish (pos + 1) (s\<lparr>c_crt := (c_crt s)(pos := cell c (c_fg s OR push_bit 4 (c_bg s)))\<rparr>))"

definition consputc :: "int \<Rightarrow> console \<Rightarrow> console res" where
  "consputc c s =
     (if c_panicked s then Hang
      else
        let s = (if c = BACKSPACE then uartputc 8 (uartputc 32 (uartputc 8 s))
                 else if \<not> is_fgcode c then uartputc c s
                 else s)
        in cgaputc c s)"

fun consputs :: "int list \<Rightarrow> console \<Rightarrow> console res" where
  "consputs [] s = Ok s"
| "consputs (c # cs) s = bnd (consputc c s) (consputs cs)"

section \<open>Formatted output\<close>

text \<open>
  \<^verbatim>\<open>printint\<close>: the digits of the loop, last digit first, then a sign. The loop ends because the quotient
  shrinks.
\<close>

definition digit_char :: "nat \<Rightarrow> int" where
  "digit_char d = (if d < 10 then 48 + int d else 97 + int d - 10)"

function int_digits :: "nat \<Rightarrow> nat \<Rightarrow> int list" where
  "int_digits base x =
     digit_char (x mod base) # (if base < 2 \<or> x div base = 0 then [] else int_digits base (x div base))"
  by pat_completeness auto
termination
proof (relation "measure snd")
  fix base x :: nat assume "\<not> (base < 2 \<or> x div base = 0)"
  then show "((base, x div base), (base, x)) \<in> measure snd" by (cases "x = 0") (auto intro: div_less_dividend)
qed simp

definition printint_chars :: "u32 \<Rightarrow> nat \<Rightarrow> bool \<Rightarrow> int list" where
  "printint_chars xx base sign =
     (let neg = sign \<and> sint xx < 0;
          x = (if neg then - xx else xx)
      in rev (int_digits base (unat x) @ (if neg then [45] else [])))"

definition printint :: "u32 \<Rightarrow> nat \<Rightarrow> bool \<Rightarrow> console \<Rightarrow> console res" where
  "printint xx base sign s = consputs (printint_chars xx base sign) s"

text \<open>
  The arguments of \<^verbatim>\<open>cprintf\<close>: a word, or a string (\<open>None\<close> is the null pointer), whose characters are signed. A
  conversion with no argument or one of the other kind reads memory that the caller did not pass: \<open>Panic\<close>.
\<close>

datatype carg = CInt u32 | CStr "u8 list option"

abbreviation ch :: "char \<Rightarrow> int" where "ch c \<equiv> of_char c"

fun cprintf_loop :: "string \<Rightarrow> carg list \<Rightarrow> console \<Rightarrow> console res" where
  "cprintf_loop [] args s = Ok s"
| "cprintf_loop (c # fmt) args s =
     (if c = CHR 0x00 then Ok s
      else if c \<noteq> CHR ''%'' then bnd (consputc (ch c) s) (cprintf_loop fmt args)
      else
        case fmt of
          [] \<Rightarrow> Ok s
        | c # fmt \<Rightarrow>
            if c = CHR 0x00 then Ok s
            else if c = CHR ''d'' then
              (case args of CInt x # args \<Rightarrow> bnd (printint x 10 True s) (cprintf_loop fmt args) | _ \<Rightarrow> Panic ''cprintf'')
            else if c = CHR ''x'' \<or> c = CHR ''p'' then
              (case args of CInt x # args \<Rightarrow> bnd (printint x 16 False s) (cprintf_loop fmt args) | _ \<Rightarrow> Panic ''cprintf'')
            else if c = CHR ''s'' then
              (case args of
                 CStr None # args \<Rightarrow> bnd (consputs (map ch ''(null)'') s) (cprintf_loop fmt args)
               | CStr (Some bs) # args \<Rightarrow>
                   bnd (consputs (map sint (takeWhile (\<lambda>b. b \<noteq> 0) bs)) s) (cprintf_loop fmt args)
               | _ \<Rightarrow> Panic ''cprintf'')
            else if c = CHR ''%'' then bnd (consputc 37 s) (cprintf_loop fmt args)
            else if c = CHR ''c'' then
              (case args of CInt x # args \<Rightarrow> bnd (consputc (sint x) s) (cprintf_loop fmt args) | _ \<Rightarrow> Panic ''cprintf'')
            else bnd (consputc 37 s) (\<lambda>s. bnd (consputc (ch c) s) (cprintf_loop fmt args)))"

definition cprintf :: "string \<Rightarrow> carg list \<Rightarrow> console \<Rightarrow> console res" where
  "cprintf fmt args s = cprintf_loop fmt args s"

text \<open>
  \<^verbatim>\<open>panic\<close> prints the message and the call stack \<open>pcs\<close> and then runs an empty loop for ever; this is the state in
  which it does so.
\<close>

definition panic_print :: "u32 \<Rightarrow> string \<Rightarrow> u32 list \<Rightarrow> console \<Rightarrow> console res" where
  "panic_print lapicid msg pcs s =
     (let s = s\<lparr>c_locking := False\<rparr> in
      bnd (cprintf ''%clapicid %d: panic: '' [CInt (word_of_int RED), CInt lapicid] s) (\<lambda>s.
      bnd (cprintf msg [] s) (\<lambda>s.
      bnd (cprintf ''\<newline>'' [] s) (\<lambda>s.
      bnd (fold (\<lambda>pc r. bnd r (cprintf '' %p'' [CInt pc])) pcs (Ok s)) (\<lambda>s.
      Ok (s\<lparr>c_panicked := True\<rparr>))))))"

section \<open>The screen\<close>

text \<open>\<^verbatim>\<open>memset\<close> stores the low byte of its argument in both bytes of each cell.\<close>

definition clear :: "console \<Rightarrow> console" where
  "clear s =
     (let b = word_of_int (push_bit 8 (c_bg s) OR 0) :: u8; v = word_of_int (uint b * 0x101) :: u16
      in set_cursor 0 (s\<lparr>c_crt := (\<lambda>i. if 0 \<le> i \<and> i < 24 * 80 then v else c_crt s i)\<rparr>))"

definition setColor :: "int \<Rightarrow> console \<Rightarrow> console" where
  "setColor colorcode s = s\<lparr>c_fg := colorcode AND 0x0f, c_bg := drop_bit 4 colorcode\<rparr>"

definition getColor :: "console \<Rightarrow> int" where
  "getColor s = getfbytecolor (c_fg s)"

record line_pars =
  l_xi :: int
  l_yi :: int
  l_xr :: int
  l_yr :: int
  l_avR :: int
  l_avI :: int
  l_av :: int

text \<open>The arithmetic of \<^verbatim>\<open>int\<close>: 32 bits in two's complement, wrapping around as the processor does.\<close>

definition i32 :: "int \<Rightarrow> int" where
  "i32 v = (v + 2 ^ 31) mod 2 ^ 32 - 2 ^ 31"

text \<open>The set-up of \<^verbatim>\<open>drawline\<close>: the increments, the error terms and the first error.\<close>

definition line_setup :: "int \<Rightarrow> int \<Rightarrow> int \<Rightarrow> int \<Rightarrow> line_pars" where
  "line_setup ax ay bx by =
     (let dx = i32 (bx - ax); dy = i32 (by - ay);
          (dy, yi) = (if dy \<ge> 0 then (dy, 1) else (i32 (- dy), -1));
          (dx, xi) = (if dx \<ge> 0 then (dx, 1) else (i32 (- dx), -1));
          (xr, yr, dx, dy) = (if dx \<ge> dy then (xi, 0, dx, dy) else (0, yi, dy, dx));
          avR = i32 (2 * dy); av = i32 (avR - dx); avI = i32 (av - dx)
      in \<lparr>l_xi = xi, l_yi = yi, l_xr = xr, l_yr = yr, l_avR = avR, l_avI = avI, l_av = av\<rparr>)"

definition plot :: "int \<Rightarrow> int \<Rightarrow> int \<Rightarrow> int \<Rightarrow> console \<Rightarrow> console" where
  "plot x y color pixel s =
     s\<lparr>c_crt := (c_crt s)(i32 (80 * (y - 1) + x) := cell pixel (color OR push_bit 4 (c_bg s)))\<rparr>"

text \<open>The main loop need not end, so it is a partial function; \<open>None\<close> is the loop that runs for ever.\<close>

partial_function (option) line_loop :: "line_pars \<Rightarrow> int \<Rightarrow> int \<Rightarrow> int \<Rightarrow> int \<Rightarrow> int \<Rightarrow> int \<Rightarrow> console \<Rightarrow> console option" where
  [code]: "line_loop L bx color pixel x y av s =
     (let s = plot x y color pixel s;
          (x, y, av) = (if av \<ge> 0 then (i32 (x + l_xi L), i32 (y + l_yi L), i32 (av + l_avI L))
                        else (i32 (x + l_xr L), i32 (y + l_yr L), i32 (av + l_avR L)))
      in if x \<noteq> bx then line_loop L bx color pixel x y av s else Some s)"

definition drawline :: "int \<Rightarrow> int \<Rightarrow> int \<Rightarrow> int \<Rightarrow> int \<Rightarrow> int \<Rightarrow> console \<Rightarrow> console option" where
  "drawline ax ay bx by color pixel s =
     (let L = line_setup ax ay bx by in line_loop L bx color pixel ax ay (l_av L) s)"

section \<open>Input lines\<close>

definition Ctl :: "char \<Rightarrow> int" where "Ctl c = ch c - 64"

text \<open>Killing the line; printing leaves the indices alone, so setting them again after it changes nothing.\<close>

function kill_line :: "console \<Rightarrow> console res" where
  "kill_line s =
     (if i_e s \<noteq> i_w s \<and> i_buf s ! (unat (i_e s - 1) mod INPUT_BUF) \<noteq> 10
      then (case consputc BACKSPACE (s\<lparr>i_e := i_e s - 1\<rparr>) of
              Ok s' \<Rightarrow> kill_line (s'\<lparr>i_e := i_e s - 1, i_w := i_w s\<rparr>)
            | r \<Rightarrow> r)
      else Ok s)"
  by pat_completeness auto
termination
proof (relation "measure (\<lambda>s. unat (i_e s - i_w s))")
  fix s s' assume "i_e s \<noteq> i_w s \<and> i_buf s ! (unat (i_e s - 1) mod INPUT_BUF) \<noteq> 10"
  then have "unat (i_e s - 1 - i_w s) < unat (i_e s - i_w s)"
    using unat_minus_one [of "i_e s - i_w s"] by (simp add: algebra_simps unat_gt_0)
  then show "(s'\<lparr>i_e := i_e s - 1, i_w := i_w s\<rparr>, s) \<in> measure (\<lambda>s. unat (i_e s - i_w s))" by simp
qed simp

text \<open>One character of \<^verbatim>\<open>consoleintr\<close>: the new state and whether readers are woken.\<close>

definition input_char :: "int \<Rightarrow> console \<Rightarrow> (bool \<times> console) res" where
  "input_char c s =
     (if c = Ctl CHR ''U'' then bnd (kill_line s) (\<lambda>s. Ok (False, s))
      else if c = Ctl CHR ''H'' \<or> c = 0x7f then
        (if i_e s \<noteq> i_w s
         then bnd (consputc BACKSPACE (s\<lparr>i_e := i_e s - 1\<rparr>)) (\<lambda>s. Ok (False, s))
         else Ok (False, s))
      else if c \<noteq> 0 \<and> unat (i_e s - i_r s) < INPUT_BUF then
        let c = (if c = 13 then 10 else c);
            s = s\<lparr>i_buf := (i_buf s)[unat (i_e s) mod INPUT_BUF := word_of_int c], i_e := i_e s + 1\<rparr>
        in bnd (consputc c s) (\<lambda>s.
           if c = 10 \<or> c = Ctl CHR ''D'' \<or> i_e s = i_r s + of_nat INPUT_BUF
           then Ok (True, s\<lparr>i_w := i_e s\<rparr>) else Ok (False, s))
      else Ok (False, s))"

text \<open>
  \<^verbatim>\<open>consoleintr\<close> on the characters that \<^verbatim>\<open>getc\<close> returned before its \<open>-1\<close>: whether to print the process list,
  whether to wake the readers.
\<close>

fun consoleintr :: "int list \<Rightarrow> console \<Rightarrow> (bool \<times> bool \<times> console) res" where
  "consoleintr [] s = Ok (False, False, s)"
| "consoleintr (c # cs) s =
     (if c = Ctl CHR ''P'' then bnd (consoleintr cs s) (\<lambda>(dump, wk, s). Ok (True, wk, s))
      else bnd (input_char c s) (\<lambda>(wk1, s).
           bnd (consoleintr cs s) (\<lambda>(dump, wk, s). Ok (dump, wk1 \<or> wk, s))))"

text \<open>
  The loop of \<^verbatim>\<open>consoleread\<close>: the bytes it delivers; \<open>CKilled\<close> is its return of -1, and in \<open>CSleep\<close> it waits for
  input with the bytes read so far.
\<close>

datatype cread = CRead "u8 list" | CKilled | CSleep "u8 list"

fun cread_cons :: "u8 \<Rightarrow> cread \<Rightarrow> cread" where
  "cread_cons b (CRead bs) = CRead (b # bs)"
| "cread_cons b (CSleep bs) = CSleep (b # bs)"
| "cread_cons b CKilled = CKilled"

primrec consoleread_loop :: "bool \<Rightarrow> bool \<Rightarrow> nat \<Rightarrow> console \<Rightarrow> cread \<times> console" where
  "consoleread_loop killed first 0 s = (CRead [], s)"
| "consoleread_loop killed first (Suc n) s =
     (if i_r s = i_w s then (if killed then CKilled else CSleep [], s)
      else
        let c = i_buf s ! (unat (i_r s) mod INPUT_BUF); s1 = s\<lparr>i_r := i_r s + 1\<rparr> in
        if sint c = Ctl CHR ''D'' then (CRead [], if first then s1 else s1\<lparr>i_r := i_r s1 - 1\<rparr>)
        else if c = 10 then (CRead [c], s1)
        else let (r, s) = consoleread_loop killed False n s1 in (cread_cons c r, s))"

definition consoleinit :: "console \<Rightarrow> console" where
  "consoleinit s = s\<lparr>c_locking := True\<rparr>"

declare kill_line.simps [simp del] int_digits.simps [simp del]

end
