(* ===== verification/Kbd.thy ===== *)
theory Kbd
  imports Kernel_Base
begin

unbundle bit_operations_syntax

text \<open>
  The keyboard driver: the key maps of \<^verbatim>\<open>kbd.h\<close> and \<^verbatim>\<open>kbdgetc\<close> of \<^verbatim>\<open>kbd.c\<close>, a state machine on the modifier bits that turns scan
  codes into characters. A map is its initial segment followed by the entries with a designated index; every other entry
  is 0.
\<close>

section \<open>Key maps\<close>

definition SHIFT :: u32 where "SHIFT = 1"
definition CTL :: u32 where "CTL = 2"
definition ALT :: u32 where "ALT = 4"
definition CAPSLOCK :: u32 where "CAPSLOCK = 8"
definition NUMLOCK :: u32 where "NUMLOCK = 16"
definition SCROLLLOCK :: u32 where "SCROLLLOCK = 32"
definition E0ESC :: u32 where "E0ESC = 64"

definition KEY_HOME :: u32 where "KEY_HOME = 0xE0"
definition KEY_END :: u32 where "KEY_END = 0xE1"
definition KEY_UP :: u32 where "KEY_UP = 0xE2"
definition KEY_DN :: u32 where "KEY_DN = 0xE3"
definition KEY_LF :: u32 where "KEY_LF = 0xE4"
definition KEY_RT :: u32 where "KEY_RT = 0xE5"
definition KEY_PGUP :: u32 where "KEY_PGUP = 0xE6"
definition KEY_PGDN :: u32 where "KEY_PGDN = 0xE7"
definition KEY_INS :: u32 where "KEY_INS = 0xE8"
definition KEY_DEL :: u32 where "KEY_DEL = 0xE9"

lemmas modifier_defs = SHIFT_def CTL_def ALT_def CAPSLOCK_def NUMLOCK_def SCROLLLOCK_def E0ESC_def

definition key_table :: "u32 list \<Rightarrow> (nat \<times> u32) list \<Rightarrow> nat \<Rightarrow> u32" where
  "key_table initial entries i =
     (case map_of entries i of Some c \<Rightarrow> c | None \<Rightarrow> if i < length initial then initial ! i else 0)"

definition shiftcode :: "nat \<Rightarrow> u32" where
  "shiftcode = key_table [] [(0x1D, CTL), (0x2A, SHIFT), (0x36, SHIFT), (0x38, ALT), (0x9D, CTL), (0xB8, ALT)]"

definition togglecode :: "nat \<Rightarrow> u32" where
  "togglecode = key_table [] [(0x3A, CAPSLOCK), (0x45, NUMLOCK), (0x46, SCROLLLOCK)]"

definition edit_keys :: "(nat \<times> u32) list" where
  "edit_keys = [(0xC8, KEY_UP), (0xD0, KEY_DN), (0xC9, KEY_PGUP), (0xD1, KEY_PGDN), (0xCB, KEY_LF), (0xCD, KEY_RT),
     (0x97, KEY_HOME), (0xCF, KEY_END), (0xD2, KEY_INS), (0xD3, KEY_DEL)]"

abbreviation key :: "char \<Rightarrow> u32" where "key c \<equiv> of_char c"

text \<open>The macro \<^verbatim>\<open>C(x)\<close>, cut to the \<^verbatim>\<open>uchar\<close> of the table.\<close>

abbreviation ctl :: "char \<Rightarrow> u32" where "ctl c \<equiv> (of_char c - 64) AND 0xFF"

definition normal_keys :: "u32 list" where
  "normal_keys =
     [0, 0x1B, key CHR ''1'', key CHR ''2'', key CHR ''3'', key CHR ''4'', key CHR ''5'', key CHR ''6'',
      key CHR ''7'', key CHR ''8'', key CHR ''9'', key CHR ''0'', key CHR ''-'', key CHR ''='', 8, 9,
      key CHR ''q'', key CHR ''w'', key CHR ''e'', key CHR ''r'', key CHR ''t'', key CHR ''y'', key CHR ''u'', key CHR ''i'',
      key CHR ''o'', key CHR ''p'', key CHR ''['', key CHR '']'', 10, 0, key CHR ''a'', key CHR ''s'',
      key CHR ''d'', key CHR ''f'', key CHR ''g'', key CHR ''h'', key CHR ''j'', key CHR ''k'', key CHR ''l'', key CHR '';'',
      0x27, 0x60, 0, 0x5C, key CHR ''z'', key CHR ''x'', key CHR ''c'', key CHR ''v'',
      key CHR ''b'', key CHR ''n'', key CHR ''m'', key CHR '','', key CHR ''.'', key CHR ''/'', 0, key CHR ''*'',
      0, key CHR '' '', 0, 0, 0, 0, 0, 0,
      0, 0, 0, 0, 0, 0, 0, key CHR ''7'',
      key CHR ''8'', key CHR ''9'', key CHR ''-'', key CHR ''4'', key CHR ''5'', key CHR ''6'', key CHR ''+'', key CHR ''1'',
      key CHR ''2'', key CHR ''3'', key CHR ''0'', key CHR ''.'', 0, 0, 0, 0]"

definition normalmap :: "nat \<Rightarrow> u32" where
  "normalmap = key_table normal_keys
     ([(0x9C, 10), (0xB5, key CHR ''/'')] @ edit_keys)"

definition shift_keys :: "u32 list" where
  "shift_keys =
     [0, 27, key CHR ''!'', key CHR ''@'', key CHR ''#'', key CHR ''$'', key CHR ''%'', key CHR ''^'',
      key CHR ''&'', key CHR ''*'', key CHR ''('', key CHR '')'', key CHR ''_'', key CHR ''+'', 8, 9,
      key CHR ''Q'', key CHR ''W'', key CHR ''E'', key CHR ''R'', key CHR ''T'', key CHR ''Y'', key CHR ''U'', key CHR ''I'',
      key CHR ''O'', key CHR ''P'', key CHR ''{'', key CHR ''}'', 10, 0, key CHR ''A'', key CHR ''S'',
      key CHR ''D'', key CHR ''F'', key CHR ''G'', key CHR ''H'', key CHR ''J'', key CHR ''K'', key CHR ''L'', key CHR '':'',
      0x22, key CHR ''~'', 0, key CHR ''|'', key CHR ''Z'', key CHR ''X'', key CHR ''C'', key CHR ''V'',
      key CHR ''B'', key CHR ''N'', key CHR ''M'', key CHR ''<'', key CHR ''>'', key CHR ''?'', 0, key CHR ''*'',
      0, key CHR '' '', 0, 0, 0, 0, 0, 0,
      0, 0, 0, 0, 0, 0, 0, key CHR ''7'',
      key CHR ''8'', key CHR ''9'', key CHR ''-'', key CHR ''4'', key CHR ''5'', key CHR ''6'', key CHR ''+'', key CHR ''1'',
      key CHR ''2'', key CHR ''3'', key CHR ''0'', key CHR ''.'', 0, 0, 0, 0]"

definition shiftmap :: "nat \<Rightarrow> u32" where
  "shiftmap = key_table shift_keys
     ([(0x9C, 10), (0xB5, key CHR ''/'')] @ edit_keys)"

definition ctl_keys :: "u32 list" where
  "ctl_keys =
     [0, 0, 0, 0, 0, 0, 0, 0,
      0, 0, 0, 0, 0, 0, 0, 0,
      ctl CHR ''Q'', ctl CHR ''W'', ctl CHR ''E'', ctl CHR ''R'', ctl CHR ''T'', ctl CHR ''Y'', ctl CHR ''U'', ctl CHR ''I'',
      ctl CHR ''O'', ctl CHR ''P'', 0, 0, 13, 0, ctl CHR ''A'', ctl CHR ''S'',
      ctl CHR ''D'', ctl CHR ''F'', ctl CHR ''G'', ctl CHR ''H'', ctl CHR ''J'', ctl CHR ''K'', ctl CHR ''L'', 0,
      0, 0, 0, 28, ctl CHR ''Z'', ctl CHR ''X'', ctl CHR ''C'', ctl CHR ''V'',
      ctl CHR ''B'', ctl CHR ''N'', ctl CHR ''M'', 0, 0, ctl CHR ''/'', 0, 0]"

definition ctlmap :: "nat \<Rightarrow> u32" where
  "ctlmap = key_table ctl_keys
     ([(0x9C, 13), (0xB5, ctl CHR ''/'')] @ edit_keys)"

section \<open>Scan codes to characters\<close>

definition charcode :: "u32 \<Rightarrow> nat \<Rightarrow> u32" where
  "charcode sel = (if sel = 0 then normalmap else if sel = SHIFT then shiftmap else ctlmap)"

definition swap_case :: "u32 \<Rightarrow> u32" where
  "swap_case c =
     (if key CHR ''a'' \<le> c \<and> c \<le> key CHR ''z'' then c + (key CHR ''A'' - key CHR ''a'')
      else if key CHR ''A'' \<le> c \<and> c \<le> key CHR ''Z'' then c + (key CHR ''a'' - key CHR ''A'')
      else c)"

text \<open>\<^verbatim>\<open>kbdgetc\<close> with \<open>data\<close> in the buffer of the controller: the modifiers and the character (0 for none).\<close>

definition kbd_key :: "nat \<Rightarrow> u32 \<Rightarrow> u32 \<times> u32" where
  "kbd_key data shift =
     (let shift = shift OR shiftcode data;
          shift = shift XOR togglecode data;
          c = charcode (shift AND (CTL OR SHIFT)) data
      in (shift, if shift AND CAPSLOCK \<noteq> 0 then swap_case c else c))"

definition kbdgetc :: "u8 \<Rightarrow> u32 \<Rightarrow> u32 \<times> u32" where
  "kbdgetc data shift =
     (if data = 0xE0 then (shift OR E0ESC, 0)
      else if data AND 0x80 \<noteq> 0 then
        let data = (if shift AND E0ESC \<noteq> 0 then data else data AND 0x7F)
        in (shift AND NOT (shiftcode (unat data) OR E0ESC), 0)
      else if shift AND E0ESC \<noteq> 0 then kbd_key (unat (data OR 0x80)) (shift AND NOT E0ESC)
      else kbd_key (unat data) shift)"

text \<open>The characters for the bytes that the controller delivers before its buffer is empty.\<close>

fun kbd_input :: "u8 list \<Rightarrow> u32 \<Rightarrow> u32 \<times> int list" where
  "kbd_input [] shift = (shift, [])"
| "kbd_input (d # ds) shift =
     (let (shift, c) = kbdgetc d shift; (shift, cs) = kbd_input ds shift in (shift, uint c # cs))"

section \<open>The keyboard\<close>



















































section \<open>Properties\<close>



text \<open>The Home key sends \<open>0xE0 0x47\<close>; the maps have its code under \<open>0x97\<close> instead of \<open>0xC7\<close>, so the key gives nothing.\<close>

lemma home_key_lost: "snd (kbd_input [0xE0, 0x47] 0) = [0, 0]"
  by (simp add: kbdgetc_def kbd_key_def E0ESC_def shiftcode_def togglecode_def key_table_def charcode_def modifier_defs normalmap_def normal_keys_def
      edit_keys_def)

end
