(* ===== verification/Machine.thy ===== *)
theory Machine
  imports Kern Console Uvm Kbd
begin

text \<open>
  The machine as the kernel sees it: the kernel state with the console and the clock. It holds the page-fault part of
  \<^verbatim>\<open>trap.c\<close> (lazy allocation), the access of the kernel to user memory, which may fault, and the operations of \<^verbatim>\<open>proc.c\<close> that
  need files or user memory: \<^verbatim>\<open>userinit\<close>, \<^verbatim>\<open>fork\<close>, \<^verbatim>\<open>exit\<close>, \<^verbatim>\<open>wait\<close>, \<^verbatim>\<open>forkret\<close> and \<^verbatim>\<open>procdump\<close>.
\<close>

record machine = kern +
  m_cons :: console
  m_ticks :: u32
  m_first :: bool
  m_shift :: u32

section \<open>The trap frame\<close>

definition TF_EAX :: u32 where "TF_EAX = 28"
definition TF_ES :: u32 where "TF_ES = 40"
definition TF_DS :: u32 where "TF_DS = 44"
definition TF_TRAPNO :: u32 where "TF_TRAPNO = 48"
definition TF_ERR :: u32 where "TF_ERR = 52"
definition TF_EIP :: u32 where "TF_EIP = 56"
definition TF_CS :: u32 where "TF_CS = 60"
definition TF_EFLAGS :: u32 where "TF_EFLAGS = 64"
definition TF_ESP :: u32 where "TF_ESP = 68"
definition TF_SS :: u32 where "TF_SS = 72"

abbreviation mem_of :: "machine \<Rightarrow> memory" where
  "mem_of s \<equiv> km_mem (k_mem s)"

definition set_mem :: "memory \<Rightarrow> machine \<Rightarrow> machine" where
  "set_mem m s = s\<lparr>k_mem := (k_mem s)\<lparr>km_mem := m\<rparr>\<rparr>"

definition tf_get :: "nat \<Rightarrow> u32 \<Rightarrow> machine \<Rightarrow> u32" where
  "tf_get me off s = ld32 (mem_of s) (p_tf (proc_of me s) + off)"

definition tf_set :: "nat \<Rightarrow> u32 \<Rightarrow> u32 \<Rightarrow> machine \<Rightarrow> machine" where
  "tf_set me off v s = set_mem (st32 (mem_of s) (p_tf (proc_of me s) + off) v) s"

definition print :: "string \<Rightarrow> carg list \<Rightarrow> machine \<Rightarrow> machine res" where
  "print fmt args s = bnd (cprintf fmt args (m_cons s)) (\<lambda>c. Ok (s\<lparr>m_cons := c\<rparr>))"

section \<open>Page faults\<close>

abbreviation col :: "int \<Rightarrow> carg" where "col c \<equiv> CInt (word_of_int c)"

definition set_killed :: "nat \<Rightarrow> machine \<Rightarrow> machine" where
  "set_killed me s = set_proc me (\<lambda>p. p\<lparr>p_killed := True\<rparr>) s"

text \<open>The case \<^verbatim>\<open>T_PGFLT\<close> of \<^verbatim>\<open>trap\<close> in the process of slot \<open>me\<close>; \<open>cr2\<close> is the address of the fault.\<close>

definition page_fault :: "kenv \<Rightarrow> nat \<Rightarrow> u32 \<Rightarrow> machine \<Rightarrow> machine res" where
  "page_fault env me cr2 s =
     (let ocolor = getColor (m_cons s); p = proc_of me s; verr = PGROUNDDOWN cr2; err = tf_get me TF_ERR s in
      if PGROUNDUP cr2 > p_sz p \<or> verr \<ge> KERNBASE then
        bnd (if verr \<ge> KERNBASE
             then print ''%caddr%c 0x%x%c: illegal memory access -- kill proc\<newline>%c'' [col RED, col CYAN, CInt cr2, col RED, col ocolor] s
             else print ''%caddr%c 0x%x%c: page could not be allocated -- kill proc\<newline>%c'' [col RED, col CYAN, CInt cr2, col RED, col ocolor] s)
          (\<lambda>s. Ok (set_killed me s))
      else if err = 7 \<or> err = 5 then
        bnd (print ''%caddr%c 0x%x%c err %d: illegal memory access -- kill proc\<newline>%c''
               [col RED, col CYAN, CInt cr2, col RED, CInt err, col ocolor] s)
          (\<lambda>s. Ok (set_killed me s))
      else
        case kalloc (k_mem s) of
          (mem, km) \<Rightarrow>
            if mem = 0 then
              bnd (print ''%clazy alloc: could not allocate page (1)\<newline>%c'' [col RED, col ocolor] (s\<lparr>k_mem := km\<rparr>))
                (\<lambda>s. Ok (set_killed me s))
            else
              bnd (mappages (p_pgdir p) verr PGSIZE (V2P mem) (PTE_W OR PTE_U) (km\<lparr>km_mem := memset (km_mem km) mem 0 PGSIZE\<rparr>))
                (\<lambda>(r, km).
                  if r < 0 then
                    bnd (print ''%clazy alloc: could not allocate page (2)\<newline>%c'' [col RED, col ocolor] (s\<lparr>k_mem := km\<rparr>)) (\<lambda>s.
                    bnd (kfree (ke_end env) mem (k_mem s)) (\<lambda>km. Ok (set_killed me (s\<lparr>k_mem := km\<rparr>))))
                  else Ok (s\<lparr>k_mem := km\<rparr>)))"

section \<open>User memory\<close>

text \<open>
  The kernel reads and writes user memory through the page table of the process. An address of the kernel half is its own
  translation. An access to a page that is not present faults: the handler runs and the instruction is tried again. When the
  handler does not map the page, the same access faults for ever, because the process is killed only on the way
  back to user mode: \<open>Hang\<close>.
\<close>

definition uaddr :: "nat \<Rightarrow> u32 \<Rightarrow> machine \<Rightarrow> u32" where
  "uaddr me va s =
     (if va \<ge> KERNBASE then va
      else uframe (mem_of s) (p_pgdir (proc_of me s)) va + (va - PGROUNDDOWN va))"

definition fault_in :: "kenv \<Rightarrow> nat \<Rightarrow> u32 \<Rightarrow> machine \<Rightarrow> machine res" where
  "fault_in env me va s =
     (if va \<ge> KERNBASE \<or> upresent (mem_of s) (p_pgdir (proc_of me s)) va then Ok s
      else bnd (page_fault env me va s) (\<lambda>s.
           if upresent (mem_of s) (p_pgdir (proc_of me s)) va then Ok s else Hang))"

primrec uload :: "kenv \<Rightarrow> nat \<Rightarrow> u32 \<Rightarrow> nat \<Rightarrow> machine \<Rightarrow> (u8 list \<times> machine) res" where
  "uload env me va 0 s = Ok ([], s)"
| "uload env me va (Suc n) s =
     bnd (fault_in env me va s) (\<lambda>s.
     let b = mem_of s (uaddr me va s) in
     bnd (uload env me (va + 1) n s) (\<lambda>(bs, s). Ok (b # bs, s)))"

primrec ustore :: "kenv \<Rightarrow> nat \<Rightarrow> u32 \<Rightarrow> u8 list \<Rightarrow> machine \<Rightarrow> machine res" where
  "ustore env me va [] s = Ok s"
| "ustore env me va (b # bs) s =
     bnd (fault_in env me va s) (\<lambda>s.
     ustore env me (va + 1) bs (set_mem ((mem_of s)(uaddr me va s := b)) s))"

definition word_bytes :: "u32 \<Rightarrow> u8 list" where
  "word_bytes v = [byte_of 0 v, byte_of 1 v, byte_of 2 v, byte_of 3 v]"

definition bytes_word :: "u8 list \<Rightarrow> u32" where
  "bytes_word bs = join4 (bs ! 0) (bs ! 1) (bs ! 2) (bs ! 3)"

section \<open>Devices\<close>

definition CONSOLE :: nat where "CONSOLE = 1"

definition consoleread :: "nat \<Rightarrow> nat \<Rightarrow> int \<Rightarrow> machine \<Rightarrow> (int \<times> u8 list \<times> machine) res" where
  "consoleread me ip n s =
     bnd (iunlock (pid_of me s) ip s) (\<lambda>s.
     case consoleread_loop (p_killed (proc_of me s)) True (nat n) (m_cons s) of
       (CSleep bs, c) \<Rightarrow> Blocked
     | (CKilled, c) \<Rightarrow> bnd (ilock (pid_of me s) ip (s\<lparr>m_cons := c\<rparr>)) (\<lambda>s. Ok (-1, [], s))
     | (CRead bs, c) \<Rightarrow>
         bnd (ilock (pid_of me s) ip (s\<lparr>m_cons := c\<rparr>)) (\<lambda>s. Ok (int (length bs), bs, s)))"

definition consolewrite :: "nat \<Rightarrow> nat \<Rightarrow> u8 list \<Rightarrow> machine \<Rightarrow> (int \<times> machine) res" where
  "consolewrite me ip bs s =
     bnd (iunlock (pid_of me s) ip s) (\<lambda>s.
     bnd (consputs (map uint bs) (m_cons s)) (\<lambda>c.
     bnd (ilock (pid_of me s) ip (s\<lparr>m_cons := c\<rparr>)) (\<lambda>s.
     Ok (int (length bs), s))))"

definition devsw_read :: "nat \<Rightarrow> machine dev_reads" where
  "devsw_read me major = (if major = CONSOLE then Some (consoleread me) else None)"

definition devsw_write :: "nat \<Rightarrow> machine dev_writes" where
  "devsw_write me major = (if major = CONSOLE then Some (consolewrite me) else None)"

text \<open>\<^verbatim>\<open>kbdintr\<close> and \<^verbatim>\<open>uartintr\<close> on the machine; procdump runs after the input is handled.\<close>

definition state_name :: "procstate \<Rightarrow> string" where
  "state_name st =
     (case st of UNUSED \<Rightarrow> ''unused  '' | EMBRYO \<Rightarrow> ''embryo  '' | SLEEPING \<Rightarrow> ''sleep   '' | RUNNABLE \<Rightarrow> ''runnable''
      | RUNNING \<Rightarrow> ''running '' | ZOMBIE \<Rightarrow> ''zombie  '')"

definition CTX_EBP :: u32 where "CTX_EBP = 12"

fun dump_pcs :: "u32 list \<Rightarrow> machine \<Rightarrow> machine res" where
  "dump_pcs [] s = Ok s"
| "dump_pcs (x # xs) s = (if x = 0 then Ok s else bnd (print '' %p'' [CInt x] s) (dump_pcs xs))"

definition dump_proc :: "proc \<Rightarrow> machine \<Rightarrow> machine res" where
  "dump_proc p s =
     (if p_state p = UNUSED then Ok s
      else
        bnd (print ''%d %s %s %d'' [CInt (word_of_int (p_pid p)), CStr (Some (map of_char (state_name (p_state p)))),
               CStr (Some (p_name p)), CInt (word_of_int (p_prio p))] s) (\<lambda>s.
        bnd (if p_state p = SLEEPING
             then dump_pcs (getcallerpcs (mem_of s) (ld32 (mem_of s) (p_context p + CTX_EBP) + 8)) s
             else Ok s) (\<lambda>s.
        print ''\<newline>'' [] s)))"

fun dump_procs :: "proc list \<Rightarrow> machine \<Rightarrow> machine res" where
  "dump_procs [] s = Ok s"
| "dump_procs (p # ps) s = bnd (dump_proc p s) (dump_procs ps)"

definition procdump :: "machine \<Rightarrow> machine res" where
  "procdump s = dump_procs (procs (k_pt s)) s"

definition console_interrupt :: "kenv \<Rightarrow> int list \<Rightarrow> machine \<Rightarrow> machine res" where
  "console_interrupt env cs s =
     bnd (consoleintr cs (m_cons s)) (\<lambda>(dump, wk, c).
     let s = s\<lparr>m_cons := c\<rparr>; s = (if wk then wake (ke_input env) s else s)
     in if dump then procdump s else Ok s)"

section \<open>Processes\<close>

definition SEG_UCODE :: u32 where "SEG_UCODE = 3"
definition SEG_UDATA :: u32 where "SEG_UDATA = 4"
definition DPL_USER :: u32 where "DPL_USER = 3"
definition FL_IF :: u32 where "FL_IF = 0x200"

definition st16 :: "memory \<Rightarrow> u32 \<Rightarrow> u32 \<Rightarrow> memory" where
  "st16 m a v = m(a := byte_of 0 v, a + 1 := byte_of 1 v)"

definition proc_name :: "proc \<Rightarrow> u8 list \<Rightarrow> u8 list" where
  "proc_name p name = map (safestrcpy (rd (p_name p)) (rd name) 16) [0..<16]"

text \<open>\<^verbatim>\<open>userinit\<close> with the bytes of \<^verbatim>\<open>initcode\<close>; \<^verbatim>\<open>allocproc\<close> is not checked for failure.\<close>

definition userinit :: "kenv \<Rightarrow> u8 list \<Rightarrow> machine \<Rightarrow> machine res" where
  "userinit env code s =
     (case allocproc (ke_trapret env) (ke_forkret env) (k_pt s) (k_mem s) of
        (None, T, km) \<Rightarrow> Panic ''trap''
      | (Some i, T, km) \<Rightarrow>
          let s = s\<lparr>k_pt := T\<lparr>initproc := Some i\<rparr>, k_mem := km\<rparr>; s = set_proc i (\<lambda>p. p\<lparr>p_prio := NORMAL\<rparr>) s in
          bnd (setupkvm (ke_end env) (ke_data env) (k_mem s)) (\<lambda>(pgdir, km).
          let s = set_proc i (\<lambda>p. p\<lparr>p_pgdir := pgdir\<rparr>) (s\<lparr>k_mem := km\<rparr>) in
          if pgdir = 0 then Panic ''userinit: out of memory?''
          else
            bnd (inituvm pgdir code (k_mem s)) (\<lambda>km.
            let tf = p_tf (proc_of i s);
                m = memset (km_mem km) tf 0 TF_SIZE;
                m = st16 m (tf + TF_CS) (push_bit 3 SEG_UCODE OR DPL_USER);
                m = st16 m (tf + TF_DS) (push_bit 3 SEG_UDATA OR DPL_USER);
                m = st16 m (tf + TF_ES) (push_bit 3 SEG_UDATA OR DPL_USER);
                m = st16 m (tf + TF_SS) (push_bit 3 SEG_UDATA OR DPL_USER);
                m = st32 m (tf + TF_EFLAGS) FL_IF;
                m = st32 m (tf + TF_ESP) PGSIZE;
                m = st32 m (tf + TF_EIP) 0;
                s = set_proc i (\<lambda>p. p\<lparr>p_sz := PGSIZE, p_name := proc_name p (map of_char ''initcode'')\<rparr>)
                      (s\<lparr>k_mem := km\<lparr>km_mem := m\<rparr>\<rparr>)
            in bnd (namei (devsw_read i) 0 0 [SLASH] s) (\<lambda>(root, s).
               Ok (set_proc i (\<lambda>p. p\<lparr>p_cwd := root, p_state := RUNNABLE\<rparr>) s)))))"

text \<open>The descriptors that \<^verbatim>\<open>fork\<close> duplicates, slot by slot.\<close>

fun dup_ofiles :: "nat option list \<Rightarrow> nat \<Rightarrow> nat \<Rightarrow> 'a kern_scheme \<Rightarrow> 'a kern_scheme res" where
  "dup_ofiles [] i np s = Ok s"
| "dup_ofiles (None # os) i np s = dup_ofiles os (Suc i) np s"
| "dup_ofiles (Some f # os) i np s =
     bnd (filedup f s) (\<lambda>s. dup_ofiles os (Suc i) np (set_proc np (\<lambda>p. p\<lparr>p_ofile := (p_ofile p)[i := Some f]\<rparr>) s))"

definition fork :: "kenv \<Rightarrow> nat \<Rightarrow> machine \<Rightarrow> (int \<times> machine) res" where
  "fork env me s =
     (case allocproc (ke_trapret env) (ke_forkret env) (k_pt s) (k_mem s) of
        (None, T, km) \<Rightarrow> Ok (-1, s\<lparr>k_pt := T, k_mem := km\<rparr>)
      | (Some np, T, km) \<Rightarrow>
          let s = s\<lparr>k_pt := T, k_mem := km\<rparr>; cur = proc_of me s in
          bnd (copyuvm (ke_end env) (ke_data env) (p_pgdir cur) (p_sz cur) (k_mem s)) (\<lambda>(pgdir, km).
          let s = set_proc np (\<lambda>p. p\<lparr>p_pgdir := pgdir\<rparr>) (s\<lparr>k_mem := km\<rparr>) in
          if pgdir = 0 then
            bnd (kfree (ke_end env) (p_kstack (proc_of np s)) (k_mem s)) (\<lambda>km.
            Ok (-1, set_proc np (\<lambda>p. p\<lparr>p_kstack := 0, p_state := UNUSED\<rparr>) (s\<lparr>k_mem := km\<rparr>)))
          else
            let s = set_proc np (\<lambda>p. p\<lparr>p_sz := p_sz cur, p_parent := Some me\<rparr>) s;
                frame = map (\<lambda>i. mem_of s (p_tf cur + of_nat i)) [0..<unat TF_SIZE];
                s = set_mem (store_bytes (mem_of s) (p_tf (proc_of np s)) frame) s;
                s = tf_set np TF_EAX 0 s in
            bnd (dup_ofiles (p_ofile cur) 0 np s) (\<lambda>s.
            case p_cwd cur of
              None \<Rightarrow> Panic ''trap''
            | Some cwd \<Rightarrow>
                let s = idup cwd s;
                    s = set_proc np (\<lambda>p. p\<lparr>p_cwd := Some cwd, p_name := proc_name p (p_name cur),
                          p_prio := p_prio cur, p_state := RUNNABLE\<rparr>) s
                in Ok (p_pid (proc_of np s), s))))"

text \<open>
  \<^verbatim>\<open>exit\<close>: the state in which the process gives up the processor as a zombie; it never runs again.
\<close>

fun close_ofiles :: "kenv \<Rightarrow> nat \<Rightarrow> nat list \<Rightarrow> machine \<Rightarrow> machine res" where
  "close_ofiles env me [] s = Ok s"
| "close_ofiles env me (fd # fds) s =
     (case p_ofile (proc_of me s) ! fd of
        None \<Rightarrow> close_ofiles env me fds s
      | Some f \<Rightarrow>
          bnd (fileclose env me f s) (\<lambda>s.
          close_ofiles env me fds (set_proc me (\<lambda>p. p\<lparr>p_ofile := (p_ofile p)[fd := None]\<rparr>) s)))"

definition exit :: "kenv \<Rightarrow> nat \<Rightarrow> int \<Rightarrow> machine \<Rightarrow> machine res" where
  "exit env me status s =
     (if initproc (k_pt s) = Some me then Panic ''init exiting''
      else
        bnd (close_ofiles env me [0..<NOFILE] s) (\<lambda>s.
        bnd (kbegin_op s) (\<lambda>s.
        case p_cwd (proc_of me s) of
          None \<Rightarrow> Panic ''trap''
        | Some cwd \<Rightarrow>
            bnd (iput (pid_of me s) cwd s) (\<lambda>s.
            bnd (kend_op env me s) (\<lambda>s.
            let s = set_proc me (\<lambda>p. p\<lparr>p_cwd := None\<rparr>) s in
            bnd (exit_zombie (ke_end env) me status (k_pt s) (k_mem s)) (\<lambda>(T, km).
            Ok (s\<lparr>k_pt := T, k_mem := km\<rparr>)))))))"

text \<open>\<^verbatim>\<open>wait\<close>: the status is stored before the child is freed.\<close>

definition wait :: "kenv \<Rightarrow> nat \<Rightarrow> u32 \<Rightarrow> machine \<Rightarrow> (int \<times> machine) res" where
  "wait env me status s =
     bnd (case scan (\<lambda>p. p_parent p = Some me \<and> p_state p = ZOMBIE) (procs (k_pt s)) of
            Some i \<Rightarrow>
              if status = 0 then Ok s
              else ustore env me status (word_bytes (word_of_int (p_ret (proc_of i s)))) s
          | None \<Rightarrow> Ok s) (\<lambda>s.
     bnd (wait_scan (ke_end env) me (k_pt s) (k_mem s)) (\<lambda>(pid, _, T, km).
     Ok (pid, s\<lparr>k_pt := T, k_mem := km\<rparr>)))"

definition forkret :: "nat \<Rightarrow> machine \<Rightarrow> machine res" where
  "forkret me s =
     (if m_first s
      then bnd (iinit (pid_of me s) ROOTDEV (s\<lparr>m_first := False\<rparr>)) (\<lambda>s.
           bnd (initlog (pid_of me s) ROOTDEV (fdk s)) (\<lambda>d. Ok (s\<lparr>fdk := d\<rparr>)))
      else Ok s)"

end
