(* ===== verification/Syscall.thy ===== *)
theory Syscall
  imports Machine
begin

text \<open>
  System-call arguments (\<^verbatim>\<open>syscall.c\<close>) and the process system calls (\<^verbatim>\<open>sysproc.c\<close>), run by the process of slot \<open>me\<close>. An
  argument that fails its check is \<open>None\<close>. The value of a call is the C int it returns; a call that
  does not return to the process has the value \<open>None\<close>.
\<close>

section \<open>Arguments\<close>

definition fetchint :: "kenv \<Rightarrow> nat \<Rightarrow> u32 \<Rightarrow> machine \<Rightarrow> (u32 option \<times> machine) res" where
  "fetchint env me addr s =
     (let sz = p_sz (proc_of me s) in
      if addr \<ge> sz \<or> addr + 4 > sz then Ok (None, s)
      else bnd (uload env me addr 4 s) (\<lambda>(bs, s). Ok (Some (bytes_word bs), s)))"

text \<open>\<^verbatim>\<open>fetchstr\<close>: the bytes of the string before its NUL, with \<open>n\<close> addresses left below \<^verbatim>\<open>sz\<close>.\<close>

primrec fetchstr_loop :: "kenv \<Rightarrow> nat \<Rightarrow> nat \<Rightarrow> u32 \<Rightarrow> machine \<Rightarrow> (u8 list option \<times> machine) res" where
  "fetchstr_loop env me 0 a s = Ok (None, s)"
| "fetchstr_loop env me (Suc n) a s =
     bnd (uload env me a 1 s) (\<lambda>(bs, s).
     if hd bs = 0 then Ok (Some [], s)
     else bnd (fetchstr_loop env me n (a + 1) s) (\<lambda>(r, s). Ok (map_option ((#) (hd bs)) r, s)))"

definition fetchstr :: "kenv \<Rightarrow> nat \<Rightarrow> u32 \<Rightarrow> machine \<Rightarrow> (u8 list option \<times> machine) res" where
  "fetchstr env me addr s =
     (let sz = p_sz (proc_of me s) in
      if addr \<ge> sz then Ok (None, s) else fetchstr_loop env me (unat (sz - addr)) addr s)"

definition argint :: "kenv \<Rightarrow> nat \<Rightarrow> nat \<Rightarrow> machine \<Rightarrow> (u32 option \<times> machine) res" where
  "argint env me n s = fetchint env me (tf_get me TF_ESP s + 4 + 4 * of_nat n) s"

definition argptr :: "kenv \<Rightarrow> nat \<Rightarrow> nat \<Rightarrow> int \<Rightarrow> machine \<Rightarrow> (u32 option \<times> machine) res" where
  "argptr env me n len s =
     bnd (argint env me n s) (\<lambda>(r, s).
     case r of
       None \<Rightarrow> Ok (None, s)
     | Some i \<Rightarrow>
         let sz = p_sz (proc_of me s) in
         if len < 0 \<or> i \<ge> sz \<or> i + word_of_int len > sz then Ok (None, s) else Ok (Some i, s))"

definition argstr :: "kenv \<Rightarrow> nat \<Rightarrow> nat \<Rightarrow> machine \<Rightarrow> (u8 list option \<times> machine) res" where
  "argstr env me n s =
     bnd (argint env me n s) (\<lambda>(r, s).
     case r of None \<Rightarrow> Ok (None, s) | Some addr \<Rightarrow> fetchstr env me addr s)"

section \<open>Returning\<close>

type_synonym sysret = "(int option \<times> machine) res"

abbreviation ret :: "int \<Rightarrow> machine \<Rightarrow> sysret" where "ret r s \<equiv> Ok (Some r, s)"

text \<open>\<open>arg m f\<close>: the idiom \<^verbatim>\<open>if(arg...(..., &x) < 0) return -1;\<close>\<close>

definition arg :: "('a option \<times> machine) res \<Rightarrow> ('a \<Rightarrow> machine \<Rightarrow> sysret) \<Rightarrow> sysret" where
  "arg m f = bnd m (\<lambda>(r, s). case r of None \<Rightarrow> ret (-1) s | Some x \<Rightarrow> f x s)"

section \<open>Process system calls\<close>

definition sys_fork :: "kenv \<Rightarrow> nat \<Rightarrow> machine \<Rightarrow> sysret" where
  "sys_fork env me s = bnd (fork env me s) (\<lambda>(r, s). ret r s)"

definition sys_exit :: "kenv \<Rightarrow> nat \<Rightarrow> machine \<Rightarrow> sysret" where
  "sys_exit env me s =
     arg (argint env me 0 s) (\<lambda>status s.
     bnd (exit env me (sint (push_bit 8 status)) s) (\<lambda>s. Ok (None, s)))"

text \<open>The size argument of \<^verbatim>\<open>argptr\<close> in \<^verbatim>\<open>sys_wait\<close> is the value of the comparison \<^verbatim>\<open>sizeof(int*) < 0\<close>, which is 0.\<close>

definition sys_wait :: "kenv \<Rightarrow> nat \<Rightarrow> machine \<Rightarrow> sysret" where
  "sys_wait env me s =
     arg (argptr env me 0 0 s) (\<lambda>pstatus s. bnd (wait env me pstatus s) (\<lambda>(r, s). ret r s))"

definition sys_kill :: "kenv \<Rightarrow> nat \<Rightarrow> machine \<Rightarrow> sysret" where
  "sys_kill env me s =
     arg (argint env me 0 s) (\<lambda>pid s.
     let (r, T) = kill (sint pid) (k_pt s) in ret r (s\<lparr>k_pt := T\<rparr>))"

definition sys_getpid :: "nat \<Rightarrow> machine \<Rightarrow> sysret" where
  "sys_getpid me s = ret (pid_of me s) s"

definition sys_sbrk :: "kenv \<Rightarrow> nat \<Rightarrow> machine \<Rightarrow> sysret" where
  "sys_sbrk env me s =
     (let old = p_sz (proc_of me s) in
      arg (argint env me 0 s) (\<lambda>n s.
      if sint n \<ge> 0 then ret (sint old) (set_proc me (\<lambda>p. p\<lparr>p_sz := p_sz p + n\<rparr>) s)
      else
        bnd (growproc (ke_end env) me (sint n) (k_pt s) (k_mem s)) (\<lambda>(r, T, km).
        let s = s\<lparr>k_pt := T, k_mem := km\<rparr> in if r < 0 then ret (-1) s else ret (sint old) s)))"

text \<open>
  \<^verbatim>\<open>sys_sleep\<close> up to its first sleep, and the test it makes each time it runs again, \<open>ticks0\<close> being the time
  at its start. The comparison is unsigned.
\<close>

definition sleep_test :: "nat \<Rightarrow> u32 \<Rightarrow> u32 \<Rightarrow> machine \<Rightarrow> sysret" where
  "sleep_test me ticks0 n s =
     (if m_ticks s - ticks0 < n
      then (if p_killed (proc_of me s) then ret (-1) s else Blocked)
      else ret 0 s)"

definition sys_sleep :: "kenv \<Rightarrow> nat \<Rightarrow> machine \<Rightarrow> sysret" where
  "sys_sleep env me s = arg (argint env me 0 s) (\<lambda>n s. sleep_test me (m_ticks s) n s)"

definition sys_uptime :: "machine \<Rightarrow> sysret" where
  "sys_uptime s = ret (sint (m_ticks s)) s"

definition sys_color :: "kenv \<Rightarrow> nat \<Rightarrow> machine \<Rightarrow> sysret" where
  "sys_color env me s =
     arg (argint env me 0 s) (\<lambda>c s.
     if sint c < 0 \<or> sint c > 255 then ret (-1) s
     else ret 0 (s\<lparr>m_cons := setColor (sint c) (m_cons s)\<rparr>))"

definition sys_getcolor :: "machine \<Rightarrow> sysret" where
  "sys_getcolor s = ret (getColor (m_cons s)) s"

definition sys_clear :: "machine \<Rightarrow> sysret" where
  "sys_clear s = ret 0 (s\<lparr>m_cons := clear (m_cons s)\<rparr>)"

text \<open>\<^verbatim>\<open>sys_drawline\<close>; a loop of \<^verbatim>\<open>drawline\<close> that does not end is \<open>Hang\<close>.\<close>

definition sys_drawline :: "kenv \<Rightarrow> nat \<Rightarrow> machine \<Rightarrow> sysret" where
  "sys_drawline env me s =
     arg (argint env me 0 s) (\<lambda>ax s.
     arg (argint env me 1 s) (\<lambda>ay s.
     arg (argint env me 2 s) (\<lambda>bx s.
     arg (argint env me 3 s) (\<lambda>by s.
     arg (argint env me 4 s) (\<lambda>color s.
     arg (argint env me 5 s) (\<lambda>pixel s.
     case drawline (sint ax) (sint ay) (sint bx) (sint by) (sint color) (sint pixel) (m_cons s) of
       None \<Rightarrow> Hang
     | Some c \<Rightarrow> ret 0 (s\<lparr>m_cons := c\<rparr>)))))))"

definition sys_getprio :: "kenv \<Rightarrow> nat \<Rightarrow> machine \<Rightarrow> sysret" where
  "sys_getprio env me s =
     arg (argint env me 0 s) (\<lambda>pid s.
     if sint pid < 0 then ret (-1) s else ret (getprocprio (sint pid) (k_pt s)) s)"

text \<open>\<^verbatim>\<open>sys_setprio\<close>; the enumeration type is unsigned, so \<^verbatim>\<open>prio<0\<close> is never true.\<close>

definition sys_setprio :: "kenv \<Rightarrow> nat \<Rightarrow> machine \<Rightarrow> sysret" where
  "sys_setprio env me s =
     arg (argint env me 0 s) (\<lambda>pid s.
     arg (argint env me 1 s) (\<lambda>prio s.
     if sint pid < 0 \<or> uint prio > 2 then ret (-1) s
     else ret 0 (s\<lparr>k_pt := setprocprio (sint pid) (uint prio) (k_pt s)\<rparr>)))"

section \<open>The date\<close>

text \<open>
  \<^verbatim>\<open>cmostime\<close> on the readings of the clock chip: the status register, and for each turn of its loop the first reading of
  the six fields, whether an update is in progress, and the second reading. With no turn that succeeds the loop goes
  on: \<open>None\<close>.
\<close>

definition CMOS_UIP :: u8 where "CMOS_UIP = 0x80"

fun rtc_stable :: "(u8 list \<times> u8 \<times> u8 list) list \<Rightarrow> u8 list option" where
  "rtc_stable [] = None"
| "rtc_stable ((t1, stata, t2) # ts) =
     (if stata AND CMOS_UIP \<noteq> 0 then rtc_stable ts else if t1 = t2 then Some t1 else rtc_stable ts)"

definition bcd_conv :: "u32 \<Rightarrow> u32" where
  "bcd_conv x = drop_bit 4 x * 10 + (x AND 0xf)"

definition cmostime :: "u8 \<Rightarrow> (u8 list \<times> u8 \<times> u8 list) list \<Rightarrow> u32 list option" where
  "cmostime sb ts =
     (case rtc_stable ts of
        None \<Rightarrow> None
      | Some t \<Rightarrow>
          let bcd = (sb AND 4 = 0);
              t = map (\<lambda>x. if bcd then bcd_conv (ucast x) else ucast x) t
          in Some (t[5 := t ! 5 + 2000]))"

definition sys_date :: "kenv \<Rightarrow> u8 \<Rightarrow> (u8 list \<times> u8 \<times> u8 list) list \<Rightarrow> nat \<Rightarrow> machine \<Rightarrow> sysret" where
  "sys_date env sb ts me s =
     arg (argptr env me 0 24 s) (\<lambda>r s.
     case cmostime sb ts of
       None \<Rightarrow> Hang
     | Some date \<Rightarrow> bnd (ustore env me r (concat (map word_bytes date)) s) (\<lambda>s. ret 0 s))"

end
