(* ===== verification/Sysfile.thy ===== *)
theory Sysfile
  imports Syscall
begin

text \<open>
  The file system calls of \<^verbatim>\<open>sysfile.c\<close>, \<^verbatim>\<open>exec\<close> of \<^verbatim>\<open>exec.c\<close> and \<^verbatim>\<open>loaduvm\<close> of \<^verbatim>\<open>vm.c\<close>. The bytes that a call reads from
  the buffer of the process are fetched before the file operation starts, and the bytes that it delivers are stored after it
  has ended; the file operations do not look at user memory otherwise.
\<close>

section \<open>File descriptors\<close>

definition argfd :: "kenv \<Rightarrow> nat \<Rightarrow> nat \<Rightarrow> machine \<Rightarrow> ((nat \<times> nat) option \<times> machine) res" where
  "argfd env me n s =
     bnd (argint env me n s) (\<lambda>(r, s).
     case r of
       None \<Rightarrow> Ok (None, s)
     | Some fd \<Rightarrow>
         if sint fd < 0 \<or> sint fd \<ge> int NOFILE then Ok (None, s)
         else (case p_ofile (proc_of me s) ! unat fd of
                 None \<Rightarrow> Ok (None, s)
               | Some f \<Rightarrow> Ok (Some (unat fd, f), s)))"

fun first_free :: "nat option list \<Rightarrow> nat option" where
  "first_free [] = None"
| "first_free (None # os) = Some 0"
| "first_free (Some f # os) = map_option Suc (first_free os)"

definition set_ofile :: "nat \<Rightarrow> nat \<Rightarrow> nat option \<Rightarrow> machine \<Rightarrow> machine" where
  "set_ofile me fd f s = set_proc me (\<lambda>p. p\<lparr>p_ofile := (p_ofile p)[fd := f]\<rparr>) s"

definition fdalloc :: "nat \<Rightarrow> nat \<Rightarrow> machine \<Rightarrow> nat option \<times> machine" where
  "fdalloc me f s =
     (case first_free (p_ofile (proc_of me s)) of
        Some fd \<Rightarrow> (Some fd, set_ofile me fd (Some f) s)
      | None \<Rightarrow> (None, s))"

definition sys_dup :: "kenv \<Rightarrow> nat \<Rightarrow> machine \<Rightarrow> sysret" where
  "sys_dup env me s =
     arg (argfd env me 0 s) (\<lambda>(_, f) s.
     case fdalloc me f s of
       (None, s) \<Rightarrow> ret (-1) s
     | (Some fd, s) \<Rightarrow> bnd (filedup f s) (\<lambda>s. ret (int fd) s))"

text \<open>
  \<^verbatim>\<open>sys_dup2\<close>. Its range checks admit \<^verbatim>\<open>NOFILE\<close> itself. The word after \<^verbatim>\<open>ofile[NOFILE]\<close> is the field \<^verbatim>\<open>cwd\<close>, which the call then
  takes for a file: the model stops there with \<open>Panic\<close>.
\<close>

definition sys_dup2 :: "kenv \<Rightarrow> nat \<Rightarrow> machine \<Rightarrow> sysret" where
  "sys_dup2 env me s =
     arg (argint env me 0 s) (\<lambda>oldfd s.
     if sint oldfd < 0 \<or> sint oldfd > int NOFILE then ret (-1) s
     else if sint oldfd = int NOFILE then Panic ''ofile overrun''
     else case p_ofile (proc_of me s) ! unat oldfd of
       None \<Rightarrow> ret (-1) s
     | Some f0 \<Rightarrow>
         arg (argint env me 1 s) (\<lambda>newfd s.
         if sint newfd < 0 \<or> sint newfd > int NOFILE then ret (-1) s
         else if newfd = oldfd then ret (sint newfd) s
         else if sint newfd = int NOFILE then Panic ''ofile overrun''
         else
           bnd (case p_ofile (proc_of me s) ! unat newfd of
                  None \<Rightarrow> Ok s
                | Some fnew \<Rightarrow> fileclose env me fnew (set_ofile me (unat newfd) None s)) (\<lambda>s.
           bnd (filedup f0 s) (\<lambda>s.
           ret (sint newfd) (set_ofile me (unat newfd) (Some f0) s)))))"

definition sys_read :: "kenv \<Rightarrow> nat \<Rightarrow> machine \<Rightarrow> sysret" where
  "sys_read env me s =
     arg (argfd env me 0 s) (\<lambda>(_, f) s.
     arg (argint env me 2 s) (\<lambda>n s.
     arg (argptr env me 1 (sint n) s) (\<lambda>p s.
     bnd (fileread (devsw_read me) me f (sint n) s) (\<lambda>(r, bs, s).
     bnd (ustore env me p bs s) (\<lambda>s. ret r s)))))"

definition sys_write :: "kenv \<Rightarrow> nat \<Rightarrow> machine \<Rightarrow> sysret" where
  "sys_write env me s =
     arg (argfd env me 0 s) (\<lambda>(_, f) s.
     arg (argint env me 2 s) (\<lambda>n s.
     arg (argptr env me 1 (sint n) s) (\<lambda>p s.
     if \<not> f_writable (k_files s ! f) then ret (-1) s
     else
       bnd (uload env me p (nat (sint n)) s) (\<lambda>(bs, s).
       bnd (filewrite (devsw_write me) env me f bs s) (\<lambda>(r, s). ret r s)))))"

definition sys_close :: "kenv \<Rightarrow> nat \<Rightarrow> machine \<Rightarrow> sysret" where
  "sys_close env me s =
     arg (argfd env me 0 s) (\<lambda>(fd, f) s.
     bnd (fileclose env me f (set_ofile me fd None s)) (\<lambda>s. ret 0 s))"

text \<open>The layout of \<^verbatim>\<open>struct stat\<close>: two bytes of padding follow the type, which the structure assignment leaves alone.\<close>

definition sys_fstat :: "kenv \<Rightarrow> nat \<Rightarrow> machine \<Rightarrow> sysret" where
  "sys_fstat env me s =
     arg (argfd env me 0 s) (\<lambda>(_, f) s.
     arg (argptr env me 1 20 s) (\<lambda>st s.
     bnd (filestat me f s) (\<lambda>(r, s).
     case r of
       None \<Rightarrow> ret (-1) s
     | Some t \<Rightarrow>
         bnd (ustore env me st (take 2 (word_bytes (ucast (st_type t)))) s) (\<lambda>s.
         bnd (ustore env me (st + 4) (word_bytes (of_nat (st_dev t)) @ word_bytes (of_nat (st_ino t))) s) (\<lambda>s.
         bnd (ustore env me (st + 12) (take 2 (word_bytes (ucast (st_nlink t)))) s) (\<lambda>s.
         bnd (ustore env me (st + 16) (word_bytes (st_size t)) s) (\<lambda>s. ret 0 s)))))))"

section \<open>Links\<close>

definition cwd_of :: "nat \<Rightarrow> machine \<Rightarrow> nat" where
  "cwd_of me s = (case p_cwd (proc_of me s) of Some ip \<Rightarrow> ip | None \<Rightarrow> 0)"

abbreviation name0 :: "u8 list" where "name0 \<equiv> replicate DIRSIZ 0"

definition add_nlink :: "int \<Rightarrow> nat \<Rightarrow> machine \<Rightarrow> machine" where
  "add_nlink k ip s = upd_inode ip (\<lambda>i. i\<lparr>i_nlink := i_nlink i + word_of_int k\<rparr>) s"

text \<open>\<open>fail_op\<close> ends the transaction and returns -1.\<close>

definition fail_op :: "kenv \<Rightarrow> nat \<Rightarrow> machine \<Rightarrow> sysret" where
  "fail_op env me s = bnd (kend_op env me s) (\<lambda>s. ret (-1) s)"

definition link_bad :: "kenv \<Rightarrow> nat \<Rightarrow> nat \<Rightarrow> machine \<Rightarrow> sysret" where
  "link_bad env me ip s =
     bnd (ilock (pid_of me s) ip s) (\<lambda>s.
     bnd (iupdate (pid_of me s) ip (add_nlink (-1) ip s)) (\<lambda>s.
     bnd (iunlockput (pid_of me s) ip s) (\<lambda>s. fail_op env me s)))"

definition sys_link :: "kenv \<Rightarrow> nat \<Rightarrow> machine \<Rightarrow> sysret" where
  "sys_link env me s =
     arg (argstr env me 0 s) (\<lambda>old s.
     arg (argstr env me 1 s) (\<lambda>new s.
     bnd (kbegin_op s) (\<lambda>s.
     bnd (namei (devsw_read me) (pid_of me s) (cwd_of me s) old s) (\<lambda>(r, s).
     case r of
       None \<Rightarrow> fail_op env me s
     | Some ip \<Rightarrow>
         bnd (ilock (pid_of me s) ip s) (\<lambda>s.
         if i_type (icache s ! ip) = T_DIR
         then bnd (iunlockput (pid_of me s) ip s) (\<lambda>s. fail_op env me s)
         else
           bnd (iupdate (pid_of me s) ip (add_nlink 1 ip s)) (\<lambda>s.
           bnd (iunlock (pid_of me s) ip s) (\<lambda>s.
           bnd (nameiparent (devsw_read me) (pid_of me s) (cwd_of me s) new name0 s) (\<lambda>(r, name, s).
           case r of
             None \<Rightarrow> link_bad env me ip s
           | Some dp \<Rightarrow>
               bnd (ilock (pid_of me s) dp s) (\<lambda>s.
               bnd (if i_dev (icache s ! dp) \<noteq> i_dev (icache s ! ip) then Ok (-1, s)
                    else dirlink (devsw_read me) (devsw_write me) (pid_of me s) dp name (i_inum (icache s ! ip)) s) (\<lambda>(r, s).
               bnd (iunlockput (pid_of me s) dp s) (\<lambda>s.
               if r < 0 then link_bad env me ip s
               else
                 bnd (iput (pid_of me s) ip s) (\<lambda>s.
                 bnd (kend_op env me s) (\<lambda>s. ret 0 s)))))))))))))"

text \<open>The loop of \<^verbatim>\<open>isdirempty\<close> from offset \<open>off\<close>.\<close>

function isdirempty_loop :: "nat \<Rightarrow> nat \<Rightarrow> nat \<Rightarrow> machine \<Rightarrow> (bool \<times> machine) res" where
  "isdirempty_loop me dp off s =
     (if off < unat (i_size (icache s ! dp)) \<and> off < 2 ^ 32
      then
        bnd (readi (devsw_read me) (pid_of me s) dp (of_nat off) (of_nat DIRENT_SIZE) s) (\<lambda>(r, bs, s).
        if r \<noteq> int DIRENT_SIZE then Panic ''isdirempty: readi''
        else if de_inum (decode_dirent bs) \<noteq> 0 then Ok (False, s)
        else isdirempty_loop me dp (off + DIRENT_SIZE) s)
      else Ok (True, s))"
  by pat_completeness auto
termination
  by (relation "measure (\<lambda>(me, dp, off, s). 2 ^ 32 - off)") (auto simp: DIRENT_SIZE_def)

declare isdirempty_loop.simps [simp del]

definition isdirempty :: "nat \<Rightarrow> nat \<Rightarrow> machine \<Rightarrow> (bool \<times> machine) res" where
  "isdirempty me dp s = isdirempty_loop me dp (2 * DIRENT_SIZE) s"

definition unlink_bad :: "kenv \<Rightarrow> nat \<Rightarrow> nat \<Rightarrow> machine \<Rightarrow> sysret" where
  "unlink_bad env me dp s = bnd (iunlockput (pid_of me s) dp s) (\<lambda>s. fail_op env me s)"

definition sys_unlink :: "kenv \<Rightarrow> nat \<Rightarrow> machine \<Rightarrow> sysret" where
  "sys_unlink env me s =
     arg (argstr env me 0 s) (\<lambda>path s.
     bnd (kbegin_op s) (\<lambda>s.
     bnd (nameiparent (devsw_read me) (pid_of me s) (cwd_of me s) path name0 s) (\<lambda>(r, name, s).
     case r of
       None \<Rightarrow> fail_op env me s
     | Some dp \<Rightarrow>
         bnd (ilock (pid_of me s) dp s) (\<lambda>s.
         if namecmp name (map of_char ''.'') = 0 \<or> namecmp name (map of_char ''..'') = 0 then unlink_bad env me dp s
         else
           bnd (dirlookup (devsw_read me) (pid_of me s) dp name s) (\<lambda>(r, s).
           case r of
             None \<Rightarrow> unlink_bad env me dp s
           | Some (ip, off) \<Rightarrow>
               bnd (ilock (pid_of me s) ip s) (\<lambda>s.
               if sint (i_nlink (icache s ! ip)) < 1 then Panic ''unlink: nlink < 1''
               else
                 bnd (if i_type (icache s ! ip) = T_DIR then isdirempty me ip s else Ok (True, s)) (\<lambda>(ok, s).
                 if \<not> ok
                 then bnd (iunlockput (pid_of me s) ip s) (\<lambda>s. unlink_bad env me dp s)
                 else
                   bnd (writei (devsw_write me) (pid_of me s) dp (replicate DIRENT_SIZE 0) (of_nat off) s) (\<lambda>(r, s).
                   if r \<noteq> int DIRENT_SIZE then Panic ''unlink: writei''
                   else
                     bnd (if i_type (icache s ! ip) = T_DIR
                          then iupdate (pid_of me s) dp (add_nlink (-1) dp s) else Ok s) (\<lambda>s.
                     bnd (iunlockput (pid_of me s) dp s) (\<lambda>s.
                     bnd (iupdate (pid_of me s) ip (add_nlink (-1) ip s)) (\<lambda>s.
                     bnd (iunlockput (pid_of me s) ip s) (\<lambda>s.
                     bnd (kend_op env me s) (\<lambda>s. ret 0 s)))))))))))))"

section \<open>Creating and opening\<close>

definition create :: "nat \<Rightarrow> u8 list \<Rightarrow> u16 \<Rightarrow> u16 \<Rightarrow> u16 \<Rightarrow> machine \<Rightarrow> (nat option \<times> machine) res" where
  "create me path type major minor s =
     bnd (nameiparent (devsw_read me) (pid_of me s) (cwd_of me s) path name0 s) (\<lambda>(r, name, s).
     case r of
       None \<Rightarrow> Ok (None, s)
     | Some dp \<Rightarrow>
         bnd (ilock (pid_of me s) dp s) (\<lambda>s.
         bnd (dirlookup (devsw_read me) (pid_of me s) dp name s) (\<lambda>(r, s).
         case r of
           Some (ip, off) \<Rightarrow>
             bnd (iunlockput (pid_of me s) dp s) (\<lambda>s.
             bnd (ilock (pid_of me s) ip s) (\<lambda>s.
             if type = T_FILE \<and> i_type (icache s ! ip) = T_FILE then Ok (Some ip, s)
             else bnd (iunlockput (pid_of me s) ip s) (\<lambda>s. Ok (None, s))))
         | None \<Rightarrow>
             bnd (ialloc (pid_of me s) (i_dev (icache s ! dp)) type s) (\<lambda>(ip, s).
             bnd (ilock (pid_of me s) ip s) (\<lambda>s.
             let s = upd_inode ip (\<lambda>i. i\<lparr>i_major := major, i_minor := minor, i_nlink := 1\<rparr>) s in
             bnd (iupdate (pid_of me s) ip s) (\<lambda>s.
             bnd (if type = T_DIR
                  then
                    bnd (iupdate (pid_of me s) dp (add_nlink 1 dp s)) (\<lambda>s.
                    bnd (dirlink (devsw_read me) (devsw_write me) (pid_of me s) ip (map of_char ''.'') (i_inum (icache s ! ip)) s) (\<lambda>(r, s).
                    if r < 0 then Panic ''create dots''
                    else
                      bnd (dirlink (devsw_read me) (devsw_write me) (pid_of me s) ip (map of_char ''..'') (i_inum (icache s ! dp)) s) (\<lambda>(r, s).
                      if r < 0 then Panic ''create dots'' else Ok s)))
                  else Ok s) (\<lambda>s.
             bnd (dirlink (devsw_read me) (devsw_write me) (pid_of me s) dp name (i_inum (icache s ! ip)) s) (\<lambda>(r, s).
             if r < 0 then Panic ''create: dirlink''
             else bnd (iunlockput (pid_of me s) dp s) (\<lambda>s. Ok (Some ip, s))))))))))"

definition O_RDONLY :: u32 where "O_RDONLY = 0"
definition O_WRONLY :: u32 where "O_WRONLY = 1"
definition O_RDWR :: u32 where "O_RDWR = 2"
definition O_CREATE :: u32 where "O_CREATE = 0x200"

text \<open>The part of \<^verbatim>\<open>sys_open\<close> that finds or creates the inode and locks it; \<open>None\<close> after a failure that ended the transaction.\<close>

definition open_inode :: "kenv \<Rightarrow> nat \<Rightarrow> u8 list \<Rightarrow> u32 \<Rightarrow> machine \<Rightarrow> (nat option \<times> machine) res" where
  "open_inode env me path omode s =
     (if omode AND O_CREATE \<noteq> 0
      then
        bnd (create me path T_FILE 0 0 s) (\<lambda>(r, s).
        case r of None \<Rightarrow> bnd (kend_op env me s) (\<lambda>s. Ok (None, s)) | Some ip \<Rightarrow> Ok (Some ip, s))
      else
        bnd (namei (devsw_read me) (pid_of me s) (cwd_of me s) path s) (\<lambda>(r, s).
        case r of
          None \<Rightarrow> bnd (kend_op env me s) (\<lambda>s. Ok (None, s))
        | Some ip \<Rightarrow>
            bnd (ilock (pid_of me s) ip s) (\<lambda>s.
            if i_type (icache s ! ip) = T_DIR \<and> omode \<noteq> O_RDONLY
            then bnd (iunlockput (pid_of me s) ip s) (\<lambda>s. bnd (kend_op env me s) (\<lambda>s. Ok (None, s)))
            else Ok (Some ip, s))))"

definition open_fail :: "kenv \<Rightarrow> nat \<Rightarrow> nat \<Rightarrow> machine \<Rightarrow> sysret" where
  "open_fail env me ip s = bnd (iunlockput (pid_of me s) ip s) (\<lambda>s. fail_op env me s)"

definition sys_open :: "kenv \<Rightarrow> nat \<Rightarrow> machine \<Rightarrow> sysret" where
  "sys_open env me s =
     arg (argstr env me 0 s) (\<lambda>path s.
     arg (argint env me 1 s) (\<lambda>omode s.
     bnd (kbegin_op s) (\<lambda>s.
     bnd (open_inode env me path omode s) (\<lambda>(r, s).
     case r of
       None \<Rightarrow> ret (-1) s
     | Some ip \<Rightarrow>
         (case filealloc s of
            (None, s) \<Rightarrow> open_fail env me ip s
          | (Some f, s) \<Rightarrow>
              (case fdalloc me f s of
                 (None, s) \<Rightarrow> bnd (fileclose env me f s) (\<lambda>s. open_fail env me ip s)
               | (Some fd, s) \<Rightarrow>
                   bnd (iunlock (pid_of me s) ip s) (\<lambda>s.
                   bnd (kend_op env me s) (\<lambda>s.
                   ret (int fd) (upd_file f (\<lambda>f. f\<lparr>f_type := FD_INODE, f_ip := ip, f_off := 0,
                     f_readable := (omode AND O_WRONLY = 0),
                     f_writable := (omode AND O_WRONLY \<noteq> 0 \<or> omode AND O_RDWR \<noteq> 0)\<rparr>) s)))))))))"

definition made :: "kenv \<Rightarrow> nat \<Rightarrow> (nat option \<times> machine) res \<Rightarrow> sysret" where
  "made env me r =
     bnd r (\<lambda>(r, s).
     case r of
       None \<Rightarrow> fail_op env me s
     | Some ip \<Rightarrow>
         bnd (iunlockput (pid_of me s) ip s) (\<lambda>s.
         bnd (kend_op env me s) (\<lambda>s. ret 0 s)))"

text \<open>\<open>op_arg\<close>: a failed argument inside a transaction.\<close>

definition op_arg :: "kenv \<Rightarrow> nat \<Rightarrow> ('a option \<times> machine) res \<Rightarrow> ('a \<Rightarrow> machine \<Rightarrow> sysret) \<Rightarrow> sysret" where
  "op_arg env me m f = bnd m (\<lambda>(r, s). case r of None \<Rightarrow> fail_op env me s | Some x \<Rightarrow> f x s)"

definition sys_mkdir :: "kenv \<Rightarrow> nat \<Rightarrow> machine \<Rightarrow> sysret" where
  "sys_mkdir env me s =
     bnd (kbegin_op s) (\<lambda>s.
     op_arg env me (argstr env me 0 s) (\<lambda>path s. made env me (create me path T_DIR 0 0 s)))"

definition sys_mknod :: "kenv \<Rightarrow> nat \<Rightarrow> machine \<Rightarrow> sysret" where
  "sys_mknod env me s =
     bnd (kbegin_op s) (\<lambda>s.
     op_arg env me (argstr env me 0 s) (\<lambda>path s.
     op_arg env me (argint env me 1 s) (\<lambda>major s.
     op_arg env me (argint env me 2 s) (\<lambda>minor s.
     made env me (create me path T_DEV (ucast major) (ucast minor) s)))))"

definition sys_chdir :: "kenv \<Rightarrow> nat \<Rightarrow> machine \<Rightarrow> sysret" where
  "sys_chdir env me s =
     bnd (kbegin_op s) (\<lambda>s.
     op_arg env me (argstr env me 0 s) (\<lambda>path s.
     op_arg env me (namei (devsw_read me) (pid_of me s) (cwd_of me s) path s) (\<lambda>ip s.
     bnd (ilock (pid_of me s) ip s) (\<lambda>s.
     if i_type (icache s ! ip) \<noteq> T_DIR then open_fail env me ip s
     else
       bnd (iunlock (pid_of me s) ip s) (\<lambda>s.
       bnd (iput (pid_of me s) (cwd_of me s) s) (\<lambda>s.
       bnd (kend_op env me s) (\<lambda>s.
       ret 0 (set_proc me (\<lambda>p. p\<lparr>p_cwd := Some ip\<rparr>) s))))))))"

definition sys_pipe :: "kenv \<Rightarrow> nat \<Rightarrow> machine \<Rightarrow> sysret" where
  "sys_pipe env me s =
     arg (argptr env me 0 8 s) (\<lambda>fd s.
     arg (pipealloc env me s) (\<lambda>(rf, wf) s.
     case fdalloc me rf s of
       (None, s) \<Rightarrow> bnd (fileclose env me rf s) (\<lambda>s. bnd (fileclose env me wf s) (\<lambda>s. ret (-1) s))
     | (Some fd0, s) \<Rightarrow>
         (case fdalloc me wf s of
            (None, s) \<Rightarrow>
              bnd (fileclose env me rf (set_ofile me fd0 None s)) (\<lambda>s. bnd (fileclose env me wf s) (\<lambda>s. ret (-1) s))
          | (Some fd1, s) \<Rightarrow>
              bnd (ustore env me fd (word_bytes (of_nat fd0) @ word_bytes (of_nat fd1)) s) (\<lambda>s. ret 0 s))))"

section \<open>Executing a program\<close>

definition ELF_MAGIC :: u32 where "ELF_MAGIC = 0x464C457F"
definition ELF_PROG_LOAD :: u32 where "ELF_PROG_LOAD = 1"
definition MAXARG :: nat where "MAXARG = 32"

text \<open>The fields of \<^verbatim>\<open>struct elfhdr\<close> (52 bytes) and \<^verbatim>\<open>struct proghdr\<close> (32 bytes) that the loader uses.\<close>

record elfhdr =
  e_magic :: u32
  e_entry :: u32
  e_phoff :: u32
  e_phnum :: u16

record proghdr =
  ph_type :: u32
  ph_off :: u32
  ph_vaddr :: u32
  ph_filesz :: u32
  ph_memsz :: u32

definition ELFHDR_SIZE :: nat where "ELFHDR_SIZE = 52"
definition PROGHDR_SIZE :: nat where "PROGHDR_SIZE = 32"

definition decode_elfhdr :: "u8 list \<Rightarrow> elfhdr" where
  "decode_elfhdr bs = \<lparr>e_magic = get32 0 bs, e_entry = get32 24 bs, e_phoff = get32 28 bs, e_phnum = get16 44 bs\<rparr>"

definition decode_proghdr :: "u8 list \<Rightarrow> proghdr" where
  "decode_proghdr bs = \<lparr>ph_type = get32 0 bs, ph_off = get32 4 bs, ph_vaddr = get32 8 bs, ph_filesz = get32 16 bs, ph_memsz = get32 20 bs\<rparr>"

text \<open>\<^verbatim>\<open>loaduvm\<close>: \<open>i\<close> bytes are loaded already.\<close>

function loaduvm_loop :: "nat \<Rightarrow> u32 \<Rightarrow> u32 \<Rightarrow> nat \<Rightarrow> u32 \<Rightarrow> nat \<Rightarrow> nat \<Rightarrow> machine \<Rightarrow> (int \<times> machine) res" where
  "loaduvm_loop me pgdir addr ip offset sz i s =
     (if i < sz
      then
        let pte = fst (walkpgdir pgdir (addr + of_nat i) False (k_mem s)) in
        if pte = 0 then Panic ''loaduvm: address should exist''
        else
          let pa = PTE_ADDR (ld32 (mem_of s) pte); n = min (sz - i) 4096 in
          bnd (readi (devsw_read me) (pid_of me s) ip (offset + of_nat i) (of_nat n) s) (\<lambda>(r, bs, s).
          let s = set_mem (store_bytes (mem_of s) (P2V pa) bs) s in
          if r \<noteq> int n then Ok (-1, s)
          else loaduvm_loop me pgdir addr ip offset sz (i + 4096) s)
      else Ok (0, s))"
  by pat_completeness auto
termination
  by (relation "measure (\<lambda>(me, pgdir, addr, ip, offset, sz, i, s). sz - i)") auto

declare loaduvm_loop.simps [simp del]

definition loaduvm :: "nat \<Rightarrow> u32 \<Rightarrow> u32 \<Rightarrow> nat \<Rightarrow> u32 \<Rightarrow> u32 \<Rightarrow> machine \<Rightarrow> (int \<times> machine) res" where
  "loaduvm me pgdir addr ip offset sz s =
     (if addr mod PGSIZE \<noteq> 0 then Panic ''loaduvm: addr must be page aligned''
      else loaduvm_loop me pgdir addr ip offset (unat sz) 0 s)"

text \<open>The loading loop of \<^verbatim>\<open>exec\<close> with \<open>n\<close> program headers to go; \<open>None\<close> is its jump to \<^verbatim>\<open>bad\<close>.\<close>

primrec exec_load :: "kenv \<Rightarrow> nat \<Rightarrow> u32 \<Rightarrow> nat \<Rightarrow> nat \<Rightarrow> u32 \<Rightarrow> u32 \<Rightarrow> machine \<Rightarrow> (u32 option \<times> machine) res" where
  "exec_load env me pgdir ip 0 off sz s = Ok (Some sz, s)"
| "exec_load env me pgdir ip (Suc n) off sz s =
     bnd (readi (devsw_read me) (pid_of me s) ip off (of_nat PROGHDR_SIZE) s) (\<lambda>(r, bs, s).
     if r \<noteq> int PROGHDR_SIZE then Ok (None, s)
     else
       let ph = decode_proghdr bs in
       if ph_type ph \<noteq> ELF_PROG_LOAD \<or> ph_memsz ph = 0 then exec_load env me pgdir ip n (off + of_nat PROGHDR_SIZE) sz s
       else if ph_memsz ph < ph_filesz ph then Ok (None, s)
       else if ph_vaddr ph + ph_memsz ph < ph_vaddr ph then Ok (None, s)
       else
         bnd (allocuvm (ke_end env) pgdir sz (ph_vaddr ph + ph_memsz ph) (k_mem s)) (\<lambda>(sz, km).
         let s = s\<lparr>k_mem := km\<rparr> in
         if sz = 0 then Ok (None, s)
         else if ph_vaddr ph mod PGSIZE \<noteq> 0 then Ok (None, s)
         else
           bnd (loaduvm me pgdir (ph_vaddr ph) ip (ph_off ph) (ph_filesz ph) s) (\<lambda>(r, s).
           if r < 0 then Ok (None, s)
           else exec_load env me pgdir ip n (off + of_nat PROGHDR_SIZE) sz s)))"

text \<open>The word at address 0 of the loaded address space, which \<^verbatim>\<open>uva2ka\<close> may read.\<close>

definition null_word :: "nat \<Rightarrow> machine \<Rightarrow> u32 option" where
  "null_word me s =
     (if upresent (mem_of s) (p_pgdir (proc_of me s)) 0 then Some (ld32 (mem_of s) (uaddr me 0 s)) else None)"

definition push_bytes :: "nat \<Rightarrow> u32 \<Rightarrow> u32 \<Rightarrow> u8 list \<Rightarrow> machine \<Rightarrow> (int \<times> machine) res" where
  "push_bytes me pgdir sp bs s =
     bnd (copyout (null_word me s) pgdir sp bs (k_mem s)) (\<lambda>(r, km). Ok (r, s\<lparr>k_mem := km\<rparr>))"

text \<open>Pushing the argument strings: the stack pointer, and the pointers to the strings.\<close>

fun push_args :: "nat \<Rightarrow> u32 \<Rightarrow> u8 list list \<Rightarrow> nat \<Rightarrow> u32 \<Rightarrow> machine \<Rightarrow> ((u32 \<times> u32 list) option \<times> machine) res" where
  "push_args me pgdir [] argc sp s = Ok (Some (sp, []), s)"
| "push_args me pgdir (a # as) argc sp s =
     (if argc \<ge> MAXARG then Ok (None, s)
      else
        let sp = (sp - of_nat (length a + 1)) AND NOT 3 in
        bnd (push_bytes me pgdir sp (a @ [0]) s) (\<lambda>(r, s).
        if r < 0 then Ok (None, s)
        else bnd (push_args me pgdir as (Suc argc) sp s) (\<lambda>(r, s).
             Ok (map_option (\<lambda>(sp', ps). (sp', sp # ps)) r, s))))"

definition exec_bad :: "kenv \<Rightarrow> nat \<Rightarrow> u32 \<Rightarrow> nat option \<Rightarrow> machine \<Rightarrow> (int \<times> machine) res" where
  "exec_bad env me pgdir ip s =
     bnd (if pgdir \<noteq> 0 then bnd (freevm (ke_end env) pgdir True (k_mem s)) (\<lambda>km. Ok (s\<lparr>k_mem := km\<rparr>)) else Ok s) (\<lambda>s.
     case ip of
       None \<Rightarrow> Ok (-1, s)
     | Some ip \<Rightarrow>
         bnd (iunlockput (pid_of me s) ip s) (\<lambda>s.
         bnd (kend_op env me s) (\<lambda>s. Ok (-1, s))))"

definition last_elem :: "u8 list \<Rightarrow> u8 list" where
  "last_elem path = rev (takeWhile (\<lambda>c. c \<noteq> SLASH) (rev path))"

text \<open>The second half of \<^verbatim>\<open>exec\<close>, after the program is loaded: the stack, the arguments, and the switch to the new image.\<close>

definition exec_image :: "kenv \<Rightarrow> nat \<Rightarrow> u8 list \<Rightarrow> u8 list list \<Rightarrow> u32 \<Rightarrow> u32 \<Rightarrow> u32 \<Rightarrow> machine \<Rightarrow> (int \<times> machine) res" where
  "exec_image env me path argv entry pgdir sz s =
     (let sz = PGROUNDUP sz in
      bnd (allocuvm (ke_end env) pgdir sz (sz + 2 * PGSIZE) (k_mem s)) (\<lambda>(sz, km).
      let s = s\<lparr>k_mem := km\<rparr> in
      if sz = 0 then exec_bad env me pgdir None s
      else
        bnd (clearpteu pgdir (sz - 2 * PGSIZE) (k_mem s)) (\<lambda>km.
        bnd (push_args me pgdir argv 0 sz (s\<lparr>k_mem := km\<rparr>)) (\<lambda>(r, s).
        case r of
          None \<Rightarrow> exec_bad env me pgdir None s
        | Some (sp, ps) \<Rightarrow>
            let argc = of_nat (length argv);
                ustack = [0xffffffff, argc, sp - (argc + 1) * 4] @ ps @ [0];
                sp = sp - (3 + argc + 1) * 4 in
            bnd (push_bytes me pgdir sp (concat (map word_bytes ustack)) s) (\<lambda>(r, s).
            if r < 0 then exec_bad env me pgdir None s
            else
              let oldpgdir = p_pgdir (proc_of me s);
                  s = set_proc me (\<lambda>p. p\<lparr>p_name := proc_name p (last_elem path), p_pgdir := pgdir, p_sz := sz\<rparr>) s;
                  s = tf_set me TF_EIP entry s;
                  s = tf_set me TF_ESP sp s in
              bnd (freevm (ke_end env) oldpgdir True (k_mem s)) (\<lambda>km. Ok (0, s\<lparr>k_mem := km\<rparr>)))))))"

definition exec :: "kenv \<Rightarrow> nat \<Rightarrow> u8 list \<Rightarrow> u8 list list \<Rightarrow> machine \<Rightarrow> (int \<times> machine) res" where
  "exec env me path argv s =
     bnd (kbegin_op s) (\<lambda>s.
     bnd (namei (devsw_read me) (pid_of me s) (cwd_of me s) path s) (\<lambda>(r, s).
     case r of
       None \<Rightarrow>
         bnd (kend_op env me s) (\<lambda>s.
         bnd (print ''%cexec: fail\<newline>%c'' [col RED, col LGREY] s) (\<lambda>s. Ok (-1, s)))
     | Some ip \<Rightarrow>
         bnd (ilock (pid_of me s) ip s) (\<lambda>s.
         bnd (readi (devsw_read me) (pid_of me s) ip 0 (of_nat ELFHDR_SIZE) s) (\<lambda>(r, bs, s).
         let elf = decode_elfhdr bs in
         if r \<noteq> int ELFHDR_SIZE \<or> e_magic elf \<noteq> ELF_MAGIC then exec_bad env me 0 (Some ip) s
         else
           bnd (setupkvm (ke_end env) (ke_data env) (k_mem s)) (\<lambda>(pgdir, km).
           let s = s\<lparr>k_mem := km\<rparr> in
           if pgdir = 0 then exec_bad env me 0 (Some ip) s
           else
             bnd (exec_load env me pgdir ip (unat (e_phnum elf)) (e_phoff elf) 0 s) (\<lambda>(r, s).
             case r of
               None \<Rightarrow> exec_bad env me pgdir (Some ip) s
             | Some sz \<Rightarrow>
                 bnd (iunlockput (pid_of me s) ip s) (\<lambda>s.
                 bnd (kend_op env me s) (\<lambda>s.
                 exec_image env me path argv (e_entry elf) pgdir sz s))))))))"

text \<open>The loop of \<^verbatim>\<open>sys_exec\<close> that fetches the arguments, with \<open>n\<close> places left in \<^verbatim>\<open>argv\<close>.\<close>

primrec fetch_args :: "kenv \<Rightarrow> nat \<Rightarrow> nat \<Rightarrow> u32 \<Rightarrow> machine \<Rightarrow> (u8 list list option \<times> machine) res" where
  "fetch_args env me 0 uargv s = Ok (None, s)"
| "fetch_args env me (Suc n) uargv s =
     bnd (fetchint env me uargv s) (\<lambda>(r, s).
     case r of
       None \<Rightarrow> Ok (None, s)
     | Some uarg \<Rightarrow>
         if uarg = 0 then Ok (Some [], s)
         else
           bnd (fetchstr env me uarg s) (\<lambda>(r, s).
           case r of
             None \<Rightarrow> Ok (None, s)
           | Some a \<Rightarrow> bnd (fetch_args env me n (uargv + 4) s) (\<lambda>(r, s). Ok (map_option ((#) a) r, s))))"

definition sys_exec :: "kenv \<Rightarrow> nat \<Rightarrow> machine \<Rightarrow> sysret" where
  "sys_exec env me s =
     arg (argstr env me 0 s) (\<lambda>path s.
     arg (argint env me 1 s) (\<lambda>uargv s.
     arg (fetch_args env me MAXARG uargv s) (\<lambda>argv s.
     bnd (exec env me path argv s) (\<lambda>(r, s). ret r s))))"

end
