(* ===== verification/Trap.thy ===== *)
theory Trap
  imports Sysfile
begin

text \<open>
  The dispatch of system calls (\<^verbatim>\<open>syscall\<close> of \<^verbatim>\<open>syscall.c\<close>) and of traps and interrupts (\<^verbatim>\<open>trap\<close> of \<^verbatim>\<open>trap.c\<close>).
\<close>

section \<open>System calls\<close>

text \<open>What the devices deliver while a trap is handled.\<close>

record device_input =
  di_cpu :: nat
  di_cr2 :: u32
  di_kbd :: "u8 list"
  di_uart :: "u8 list"
  di_statb :: u8
  di_rtc :: "(u8 list \<times> u8 \<times> u8 list) list"

definition syscalls :: "kenv \<Rightarrow> device_input \<Rightarrow> nat \<Rightarrow> int \<Rightarrow> (machine \<Rightarrow> sysret) option" where
  "syscalls env di me num =
     (if num = 1 then Some (sys_fork env me)
      else if num = 2 then Some (sys_exit env me)
      else if num = 3 then Some (sys_wait env me)
      else if num = 4 then Some (sys_pipe env me)
      else if num = 5 then Some (sys_read env me)
      else if num = 6 then Some (sys_kill env me)
      else if num = 7 then Some (sys_exec env me)
      else if num = 8 then Some (sys_fstat env me)
      else if num = 9 then Some (sys_chdir env me)
      else if num = 10 then Some (sys_dup env me)
      else if num = 11 then Some (sys_dup2 env me)
      else if num = 12 then Some (sys_getpid me)
      else if num = 13 then Some (sys_sbrk env me)
      else if num = 14 then Some (sys_sleep env me)
      else if num = 15 then Some sys_uptime
      else if num = 16 then Some (sys_open env me)
      else if num = 17 then Some (sys_write env me)
      else if num = 18 then Some (sys_mknod env me)
      else if num = 19 then Some (sys_unlink env me)
      else if num = 20 then Some (sys_link env me)
      else if num = 21 then Some (sys_mkdir env me)
      else if num = 22 then Some (sys_close env me)
      else if num = 23 then Some (sys_date env (di_statb di) (di_rtc di) me)
      else if num = 24 then Some sys_clear
      else if num = 25 then Some sys_getcolor
      else if num = 26 then Some (sys_color env me)
      else if num = 27 then Some (sys_drawline env me)
      else if num = 28 then Some (sys_getprio env me)
      else if num = 29 then Some (sys_setprio env me)
      else None)"

text \<open>\<^verbatim>\<open>syscall\<close>: whether the process goes on, and the state.\<close>

definition syscall :: "kenv \<Rightarrow> device_input \<Rightarrow> nat \<Rightarrow> machine \<Rightarrow> (bool \<times> machine) res" where
  "syscall env di me s =
     (let num = sint (tf_get me TF_EAX s) in
      case syscalls env di me num of
        Some f \<Rightarrow>
          bnd (f s) (\<lambda>(r, s).
          case r of
            None \<Rightarrow> Ok (False, s)
          | Some v \<Rightarrow> Ok (True, tf_set me TF_EAX (word_of_int v) s))
      | None \<Rightarrow>
          bnd (print ''%d %s: unknown sys call %d\<newline>''
                 [CInt (word_of_int (pid_of me s)), CStr (Some (p_name (proc_of me s))), CInt (word_of_int num)] s) (\<lambda>s.
          Ok (True, tf_set me TF_EAX (- 1) s)))"

section \<open>Traps\<close>

definition T_PGFLT :: u32 where "T_PGFLT = 14"
definition T_SYSCALL :: u32 where "T_SYSCALL = 64"
definition T_IRQ0 :: u32 where "T_IRQ0 = 32"
definition IRQ_TIMER :: u32 where "IRQ_TIMER = 0"
definition IRQ_KBD :: u32 where "IRQ_KBD = 1"
definition IRQ_COM1 :: u32 where "IRQ_COM1 = 4"
definition IRQ_IDE :: u32 where "IRQ_IDE = 14"
definition IRQ_SPURIOUS :: u32 where "IRQ_SPURIOUS = 31"

lemmas trap_numbers = T_PGFLT_def T_SYSCALL_def T_IRQ0_def IRQ_TIMER_def IRQ_KBD_def IRQ_COM1_def IRQ_IDE_def IRQ_SPURIOUS_def

text \<open>How a trap ends: back to the interrupted code, with the process a zombie, or with the processor given up.\<close>

datatype trap_end = Return | Exited | Yielded

definition from_user :: "u32 \<Rightarrow> machine \<Rightarrow> bool" where
  "from_user tf s \<longleftrightarrow> ld32 (mem_of s) (tf + TF_CS) AND 3 = DPL_USER"

definition timer_tick :: "kenv \<Rightarrow> nat \<Rightarrow> machine \<Rightarrow> machine" where
  "timer_tick env cpu s = (if cpu = 0 then wake (ke_ticks env) (s\<lparr>m_ticks := m_ticks s + 1\<rparr>) else s)"

definition kbdintr :: "kenv \<Rightarrow> u8 list \<Rightarrow> machine \<Rightarrow> machine res" where
  "kbdintr env ds s =
     (let (shift, cs) = kbd_input ds (m_shift s) in console_interrupt env cs (s\<lparr>m_shift := shift\<rparr>))"

definition uartintr :: "kenv \<Rightarrow> u8 list \<Rightarrow> machine \<Rightarrow> machine res" where
  "uartintr env ds s = console_interrupt env (if c_uart (m_cons s) then map uint ds else []) s"

text \<open>
  The default case: a trap that no other case handles. It is the kernel's own fault when no process runs or the trap
  came from kernel code.
\<close>

definition trap_other :: "device_input \<Rightarrow> nat option \<Rightarrow> u32 \<Rightarrow> machine \<Rightarrow> machine res" where
  "trap_other di me tf s =
     (let tn = ld32 (mem_of s) (tf + TF_TRAPNO); eip = ld32 (mem_of s) (tf + TF_EIP); err = ld32 (mem_of s) (tf + TF_ERR);
          cpu = CInt (of_nat (di_cpu di)); ocolor = getColor (m_cons s) in
      case me of
        Some i \<Rightarrow>
          if ld32 (mem_of s) (tf + TF_CS) AND 3 = 0 then Panic ''trap''
          else
            bnd (print ''%c'' [col RED] s) (\<lambda>s.
            bnd (print ''pid %d %s: trap %d err %d on cpu %d eip 0x%x addr 0x%x -- kill proc\<newline>''
                   [CInt (word_of_int (pid_of i s)), CStr (Some (p_name (proc_of i s))), CInt tn, CInt err, cpu, CInt eip, CInt (di_cr2 di)] s) (\<lambda>s.
            bnd (print ''%c'' [col ocolor] s) (\<lambda>s.
            Ok (set_killed i s))))
      | None \<Rightarrow> Panic ''trap'')"

text \<open>The switch of \<^verbatim>\<open>trap\<close>; the disk of the memory file system raises no interrupt that needs work.\<close>

definition trap_switch :: "kenv \<Rightarrow> device_input \<Rightarrow> nat option \<Rightarrow> u32 \<Rightarrow> machine \<Rightarrow> machine res" where
  "trap_switch env di me tf s =
     (let tn = ld32 (mem_of s) (tf + TF_TRAPNO) in
      if tn = T_IRQ0 + IRQ_TIMER then Ok (timer_tick env (di_cpu di) s)
      else if tn = T_IRQ0 + IRQ_IDE then Ok s
      else if tn = T_IRQ0 + IRQ_IDE + 1 then Ok s
      else if tn = T_IRQ0 + IRQ_KBD then kbdintr env (di_kbd di) s
      else if tn = T_IRQ0 + IRQ_COM1 then uartintr env (di_uart di) s
      else if tn = T_IRQ0 + 7 \<or> tn = T_IRQ0 + IRQ_SPURIOUS then
        print ''cpu%d: spurious interrupt at %x:%x\<newline>''
          [CInt (of_nat (di_cpu di)), CInt (ld32 (mem_of s) (tf + TF_CS) AND 0xFFFF), CInt (ld32 (mem_of s) (tf + TF_EIP))] s
      else if tn = T_PGFLT then
        (case me of None \<Rightarrow> Panic ''trap'' | Some i \<Rightarrow> page_fault env i (di_cr2 di) s)
      else trap_other di me tf s)"

definition exit_if_killed :: "kenv \<Rightarrow> nat option \<Rightarrow> u32 \<Rightarrow> machine \<Rightarrow> (bool \<times> machine) res" where
  "exit_if_killed env me tf s =
     (case me of
        Some i \<Rightarrow>
          if p_killed (proc_of i s) \<and> from_user tf s
          then bnd (exit env i (sint (ld32 (mem_of s) (tf + TF_TRAPNO) + 1)) s) (\<lambda>s. Ok (True, s))
          else Ok (False, s)
      | None \<Rightarrow> Ok (False, s))"

definition trap :: "kenv \<Rightarrow> device_input \<Rightarrow> nat option \<Rightarrow> u32 \<Rightarrow> machine \<Rightarrow> (trap_end \<times> machine) res" where
  "trap env di me tf s =
     (if ld32 (mem_of s) (tf + TF_TRAPNO) = T_SYSCALL
      then
        case me of
          None \<Rightarrow> Panic ''trap''
        | Some i \<Rightarrow>
            if p_killed (proc_of i s) then bnd (exit env i 1 s) (\<lambda>s. Ok (Exited, s))
            else
              bnd (syscall env di i (set_proc i (\<lambda>p. p\<lparr>p_tf := tf\<rparr>) s)) (\<lambda>(on, s).
              if \<not> on then Ok (Exited, s)
              else if p_killed (proc_of i s) then bnd (exit env i 1 s) (\<lambda>s. Ok (Exited, s))
              else Ok (Return, s))
      else
        bnd (trap_switch env di me tf s) (\<lambda>s.
        bnd (exit_if_killed env me tf s) (\<lambda>(gone, s).
        if gone then Ok (Exited, s)
        else
          case me of
            None \<Rightarrow> Ok (Return, s)
          | Some i \<Rightarrow>
              if p_state (proc_of i s) = RUNNING \<and> ld32 (mem_of s) (tf + TF_TRAPNO) = T_IRQ0 + IRQ_TIMER
              then Ok (Yielded, s\<lparr>k_pt := yield i (k_pt s)\<rparr>)
              else bnd (exit_if_killed env me tf s) (\<lambda>(gone, s). Ok (if gone then Exited else Return, s)))))"

text \<open>What remains of \<^verbatim>\<open>trap\<close> when a process that yielded runs again.\<close>

definition trap_resume :: "kenv \<Rightarrow> nat \<Rightarrow> u32 \<Rightarrow> machine \<Rightarrow> (trap_end \<times> machine) res" where
  "trap_resume env me tf s =
     bnd (exit_if_killed env (Some me) tf s) (\<lambda>(gone, s). Ok (if gone then Exited else Return, s))"

end
