(* ===== verification/Console_Correct.thy ===== *)
theory Console_Correct
  imports Console
begin

unbundle bit_operations_syntax

text \<open>
  Correctness of the console: the cursor stays on the screen and printing never panics, the colour codes round-trip,
  numbers print as their decimal value, the line-drawing loop ends and follows the line, and the editing of input
  lines behaves as an editor on lists of bytes.
\<close>

section \<open>The cursor\<close>

definition on_screen :: "console \<Rightarrow> bool" where
  "on_screen s \<longleftrightarrow> 0 \<le> c_cursor s \<and> c_cursor s < 24 * 80"

lemma cursor_bytes: "push_bit 8 (take_bit 8 (drop_bit 8 p)) OR take_bit 8 p = take_bit 16 (p :: int)"
  by (rule bit_eqI) (auto simp: bit_or_iff bit_push_bit_iff bit_take_bit_iff bit_drop_bit_eq)

lemma set_cursor_pos: "0 \<le> p \<Longrightarrow> p < 24 * 80 \<Longrightarrow> set_cursor p s = s\<lparr>c_cursor := p\<rparr>"
  by (simp add: set_cursor_def cursor_bytes take_bit_int_eq_self)

text \<open>What printing leaves alone: everything but the screen, the cursor, the colours and the serial line.\<close>

definition same_input :: "console \<Rightarrow> console \<Rightarrow> bool" where
  "same_input s t \<longleftrightarrow> c_panicked t = c_panicked s \<and> c_locking t = c_locking s \<and> c_uart t = c_uart s \<and>
     i_buf t = i_buf s \<and> i_r t = i_r s \<and> i_w t = i_w s \<and> i_e t = i_e s"

definition off_screen_same :: "console \<Rightarrow> console \<Rightarrow> bool" where
  "off_screen_same s t \<longleftrightarrow> (\<forall>i. i < 0 \<or> 24 * 80 \<le> i \<longrightarrow> c_crt t i = c_crt s i)"

lemma same_input_refl: "same_input s s"
  by (simp add: same_input_def)

lemma same_input_trans: "same_input s t \<Longrightarrow> same_input t u \<Longrightarrow> same_input s u"
  by (simp add: same_input_def)

lemma off_screen_trans: "off_screen_same s t \<Longrightarrow> off_screen_same t u \<Longrightarrow> off_screen_same s u"
  by (simp add: off_screen_same_def)

lemma row_end: "0 \<le> p \<Longrightarrow> p < 24 * 80 \<Longrightarrow> 0 < p + (80 - p mod 80) \<and> p + (80 - p mod 80) \<le> 24 * (80 :: int)"
  by presburger

lemma if_cases: "(b \<Longrightarrow> \<exists>s'. x = Ok s' \<and> P s') \<Longrightarrow> (\<not> b \<Longrightarrow> \<exists>s'. y = Ok s' \<and> P s') \<Longrightarrow> \<exists>s'. (if b then x else y) = Ok s' \<and> P s'"
  by simp

lemma cga_finish_total:
  assumes "0 \<le> pos" "pos \<le> 24 * 80" "same_input s0 s" "off_screen_same s0 s"
  shows "\<exists>s'. cga_finish pos s = Ok s' \<and> on_screen s' \<and> same_input s0 s' \<and> off_screen_same s0 s'"
proof (cases "pos = 24 * 80")
  case True
  then show ?thesis using assms(3,4)
    by (simp add: cga_finish_def scroll_def set_cursor_pos on_screen_def same_input_def off_screen_same_def)
next
  case False
  then have "pos < 24 * 80" "\<not> 24 \<le> pos div 80" using assms by auto
  then show ?thesis using assms
    by (simp add: cga_finish_def set_cursor_pos on_screen_def same_input_def off_screen_same_def)
qed

lemma cgaputc_total:
  assumes "on_screen s"
  shows "\<exists>s'. cgaputc c s = Ok s' \<and> on_screen s' \<and> same_input s s' \<and> off_screen_same s s'"
proof -
  have p: "0 \<le> c_cursor s" "c_cursor s < 24 * 80" using assms by (simp_all add: on_screen_def)
  have same: "same_input s s" "same_input s (s\<lparr>c_fg := v\<rparr>)" "same_input s (s\<lparr>c_bg := v\<rparr>)" "same_input s (s\<lparr>c_crt := m\<rparr>)"
    "off_screen_same s s" "off_screen_same s (s\<lparr>c_fg := v\<rparr>)" "off_screen_same s (s\<lparr>c_bg := v\<rparr>)"
    "off_screen_same s (s\<lparr>c_crt := (c_crt s)(c_cursor s := x)\<rparr>)" for v m x
    using p by (simp_all add: same_input_def off_screen_same_def)
  note row = row_end [OF p]
  show ?thesis unfolding cgaputc_def Let_def
    by (intro if_cases cga_finish_total same) (use p row in auto)
qed

lemma uartputc_same [simp]:
  "same_input s (uartputc c s)" "off_screen_same s (uartputc c s)" "on_screen (uartputc c s) = on_screen s"
  "c_cursor (uartputc c s) = c_cursor s" "c_crt (uartputc c s) = c_crt s" "c_fg (uartputc c s) = c_fg s" "c_bg (uartputc c s) = c_bg s"
  "c_panicked (uartputc c s) = c_panicked s" "i_buf (uartputc c s) = i_buf s" "i_r (uartputc c s) = i_r s"
  "i_w (uartputc c s) = i_w s" "i_e (uartputc c s) = i_e s"
  by (simp_all add: uartputc_def same_input_def off_screen_same_def on_screen_def)

lemma consputc_total:
  assumes "on_screen s" "\<not> c_panicked s"
  shows "\<exists>s'. consputc c s = Ok s' \<and> on_screen s' \<and> same_input s s' \<and> off_screen_same s s'"
proof -
  let ?t = "if c = BACKSPACE then uartputc 8 (uartputc 32 (uartputc 8 s)) else if \<not> is_fgcode c then uartputc c s else s"
  have t: "on_screen ?t" "same_input s ?t" "off_screen_same s ?t"
    using assms(1) by (auto simp: same_input_def off_screen_same_def uartputc_def on_screen_def)
  obtain s' where s': "cgaputc c ?t = Ok s'" "on_screen s'" "same_input ?t s'" "off_screen_same ?t s'"
    using cgaputc_total [OF t(1), of c] by (elim exE conjE)
  have "consputc c s = Ok s'" using assms(2) s'(1) by (simp only: consputc_def Let_def if_False)
  then show ?thesis using s'(2) same_input_trans [OF t(2) s'(3)] off_screen_trans [OF t(3) s'(4)] by (intro exI conjI)
qed

lemma consputs_total:
  "on_screen s \<Longrightarrow> \<not> c_panicked s \<Longrightarrow> \<exists>s'. consputs cs s = Ok s' \<and> on_screen s' \<and> same_input s s' \<and> off_screen_same s s'"
proof (induction cs arbitrary: s)
  case Nil
  then show ?case by (simp add: same_input_def off_screen_same_def)
next
  case (Cons c cs)
  obtain t where t: "consputc c s = Ok t" "on_screen t" "same_input s t" "off_screen_same s t"
    using consputc_total [OF Cons.prems] by blast
  then have "\<not> c_panicked t" using Cons.prems by (simp add: same_input_def)
  from Cons.IH [OF t(2) this] show ?case using t by (auto intro: same_input_trans off_screen_trans)
qed

section \<open>Colours\<close>

lemma colour_cases: "c \<in> {0..<16} \<Longrightarrow> c \<in> {0, 1, 2, 3, 4, 5, 6, 7, 8, 9, 10, 11, 12, 13, 14, 15 :: int}"
  unfolding atLeastLessThan_iff insert_iff empty_iff by presburger

lemma colour_codes:
  assumes "c \<in> {0..<16}"
  shows "getcolorcode (getfbytecolor c) = c" "getcolorcode (getbbytecolor c) = c"
    "is_fgcode (getfbytecolor c)" "is_bgcode (getbbytecolor c)" "\<not> is_fgcode (getbbytecolor c)"
    "getfbytecolor c \<noteq> 10" "getbbytecolor c \<noteq> 10" "getfbytecolor c \<noteq> BACKSPACE" "getbbytecolor c \<noteq> BACKSPACE"
  using colour_cases [OF assms]
  by (auto simp: getcolorcode_def getfbytecolor_def getbbytecolor_def is_fgcode_def is_bgcode_def colour_defs BACKSPACE_def)

lemma cga_finish_stay:
  "on_screen s \<Longrightarrow> cga_finish (c_cursor s) s = Ok (s\<lparr>c_crt := (c_crt s)(c_cursor s := 0x0720)\<rparr>)"
proof -
  assume a: "on_screen s"
  then have "\<not> 24 \<le> c_cursor s div 80" by (auto simp: on_screen_def)
  then show ?thesis using a by (simp add: cga_finish_def set_cursor_pos on_screen_def)
qed

lemma cgaputc_colour:
  assumes "on_screen s" "c \<in> {0..<16}"
  shows "cgaputc (getfbytecolor c) s = Ok (s\<lparr>c_fg := c, c_crt := (c_crt s)(c_cursor s := 0x0720)\<rparr>)"
    "cgaputc (getbbytecolor c) s = Ok (s\<lparr>c_bg := c, c_crt := (c_crt s)(c_cursor s := 0x0720)\<rparr>)"
  using cga_finish_stay [of "s\<lparr>c_fg := c\<rparr>"] cga_finish_stay [of "s\<lparr>c_bg := c\<rparr>"] assms colour_codes [OF assms(2)]
  by (simp_all add: cgaputc_def on_screen_def)

section \<open>Lines\<close>

lemma i32_id: "- (2 ^ 31) \<le> v \<Longrightarrow> v < 2 ^ 31 \<Longrightarrow> i32 v = v"
  by (simp add: i32_def)

lemma i32_small: "\<bar>v\<bar> < 2 ^ 31 \<Longrightarrow> i32 v = v"
  by (rule i32_id) linarith+

lemma i32_num: "- 2147483648 \<le> v \<Longrightarrow> v < 2147483648 \<Longrightarrow> i32 v = v"
  by (rule i32_id) simp_all

lemma i32_add: "i32 (i32 v + w) = i32 (v + w)"
proof -
  have "i32 v + w + 2 ^ 31 = (v + 2 ^ 31) mod 2 ^ 32 + w" by (simp add: i32_def)
  then have "(i32 v + w + 2 ^ 31) mod 2 ^ 32 = (v + 2 ^ 31 + w) mod 2 ^ 32" by (simp only: mod_add_left_eq)
  also have "v + 2 ^ 31 + w = v + w + 2 ^ 31" by simp
  finally show ?thesis unfolding i32_def [of "i32 v + w"] i32_def [of "v + w"] by (rule arg_cong)
qed

lemma line_loop_turn:
  assumes "i32 (if av \<ge> 0 then x + l_xi L else x + l_xr L) = x'" "i32 (if av \<ge> 0 then y + l_yi L else y + l_yr L) = y'"
    "i32 (if av \<ge> 0 then av + l_avI L else av + l_avR L) = av'"
  shows "line_loop L bx color pixel x y av s =
    (if x' = bx then Some (plot x y color pixel s) else line_loop L bx color pixel x' y' av' (plot x y color pixel s))"
  using assms by (subst line_loop.simps) (auto simp: Let_def)

text \<open>The row of the ideal line after \<open>i\<close> columns, rounded to the nearest.\<close>

definition line_row :: "int \<Rightarrow> int \<Rightarrow> int \<Rightarrow> int" where
  "line_row dx dy i = (2 * dy * i + dx) div (2 * dx)"

lemma line_row_step:
  assumes "0 < dx" "0 \<le> dy" "dy \<le> dx"
  shows "line_row dx dy (i + 1) = (if 2 * dy * (i + 1) - dx - 2 * dx * line_row dx dy i \<ge> 0 then line_row dx dy i + 1 else line_row dx dy i)"
proof -
  let ?a = "2 * dy * i + dx" and ?j = "line_row dx dy i"
  define r where "r = ?a mod (2 * dx)"
  have j: "?a = 2 * dx * ?j + r" "0 \<le> r" "r < 2 * dx"
    using assms by (simp_all add: line_row_def r_def)
  have n: "2 * dy * (i + 1) + dx = ?a + 2 * dy" by (simp add: algebra_simps)
  show ?thesis
  proof (cases "2 * dy * (i + 1) - dx - 2 * dx * ?j \<ge> 0")
    case True
    have "(?a + 2 * dy) div (2 * dx) = ?j + 1"
      by (rule int_div_pos_eq [where r = "r + 2 * dy - 2 * dx"]) (use j n assms True in \<open>auto simp: algebra_simps\<close>)
    then show ?thesis using True n by (simp only: line_row_def if_True)
  next
    case False
    have "(?a + 2 * dy) div (2 * dx) = ?j"
      by (rule int_div_pos_eq [where r = "r + 2 * dy"]) (use j n assms False in \<open>auto simp: algebra_simps\<close>)
    then show ?thesis using False n by (simp only: line_row_def if_False)
  qed
qed

lemma line_row_bounds:
  assumes "0 < dx" "0 \<le> dy" "dy \<le> dx" "0 \<le> i"
  shows "0 \<le> line_row dx dy i" "line_row dx dy i \<le> i" "2 * dy - 2 * dx \<le> 2 * dy * (i + 1) - dx - 2 * dx * line_row dx dy i"
    "2 * dy * (i + 1) - dx - 2 * dx * line_row dx dy i < 2 * dy"
proof -
  let ?a = "2 * dy * i + dx" and ?j = "line_row dx dy i"
  have nn: "0 \<le> dy * i" using assms by simp
  then have "0 \<le> ?a" using assms(1) by linarith
  then show "0 \<le> ?j" using assms(1) by (simp add: line_row_def pos_imp_zdiv_nonneg_iff)
  have "2 * dy * i \<le> 2 * dx * i" using assms by (intro mult_right_mono) auto
  then have "?a div (2 * dx) \<le> (2 * dx * i + dx) div (2 * dx)" using assms(1) by (intro zdiv_mono1) auto
  moreover have "(2 * dx * i + dx) div (2 * dx) = i"
    by (rule int_div_pos_eq [where r = dx]) (use assms(1) in auto)
  ultimately show "?j \<le> i" by (simp add: line_row_def)
  define r where "r = ?a mod (2 * dx)"
  have j: "?a = 2 * dx * ?j + r" "0 \<le> r" "r < 2 * dx" using assms by (simp_all add: line_row_def r_def)
  have "2 * dy * (i + 1) = 2 * dy * i + 2 * dy" by (simp add: algebra_simps)
  then show "2 * dy - 2 * dx \<le> 2 * dy * (i + 1) - dx - 2 * dx * ?j" "2 * dy * (i + 1) - dx - 2 * dx * ?j < 2 * dy" using j by linarith+
qed

lemma line_loop_shallow:
  assumes d: "0 < dx" "0 \<le> dy" "dy \<le> dx" "dx < 2 ^ 28"
    and L: "l_xi L = sx" "l_xr L = sx" "l_yi L = sy" "l_yr L = 0" "l_avR L = 2 * dy" "l_avI L = 2 * dy - 2 * dx"
    and sx: "sx = 1 \<or> sx = -1" "sy = 1 \<or> sy = -1" and a: "\<bar>ax\<bar> < 2 ^ 28" "\<bar>ay\<bar> < 2 ^ 28"
    and bx: "bx = ax + sx * dx" and n: "int i + int n = dx" "0 < n"
  shows "line_loop L bx color pixel (ax + sx * int i) (ay + sy * line_row dx dy (int i))
      (2 * dy * (int i + 1) - dx - 2 * dx * line_row dx dy (int i)) s =
    Some (fold (\<lambda>i. plot (ax + sx * int i) (ay + sy * line_row dx dy (int i)) color pixel) [i..<i + n] s)"
  using n
proof (induction n arbitrary: i s)
  case (Suc n)
  let ?x = "ax + sx * int i" and ?j = "line_row dx dy (int i)" and ?j' = "line_row dx dy (int (Suc i))"
  let ?av = "2 * dy * (int i + 1) - dx - 2 * dx * ?j" and ?av' = "2 * dy * (int (Suc i) + 1) - dx - 2 * dx * line_row dx dy (int (Suc i))"
  have j': "?j' = (if ?av \<ge> 0 then ?j + 1 else ?j)" using line_row_step [OF d(1-3), of "int i"] by (simp add: add.commute)
  have si: "int (Suc i) \<le> dx" using Suc.prems by simp
  note b = line_row_bounds [OF d(1-3), of "int (Suc i)"]
  have "\<bar>ax + sx * int (Suc i)\<bar> < 2 ^ 31" using sx(1) si a(1) d(4) by auto
  then have "i32 (ax + sx * int (Suc i)) = ax + sx * int (Suc i)" by (rule i32_small)
  then have x: "i32 (if ?av \<ge> 0 then ?x + l_xi L else ?x + l_xr L) = ax + sx * int (Suc i)"
    using L by (simp add: algebra_simps)
  have "\<bar>ay + sy * ?j'\<bar> < 2 ^ 31" using sx(2) b(1,2) si a(2) d(4) by auto
  then have "i32 (ay + sy * ?j') = ay + sy * ?j'" by (rule i32_small)
  moreover have "(if ?av \<ge> 0 then ay + sy * ?j + l_yi L else ay + sy * ?j + l_yr L) = ay + sy * ?j'"
    using j' L by (simp add: algebra_simps)
  ultimately have y: "i32 (if ?av \<ge> 0 then ay + sy * ?j + l_yi L else ay + sy * ?j + l_yr L) = ay + sy * ?j'" by simp
  have "\<bar>?av'\<bar> < 2 ^ 31" using b(3,4) d by simp
  then have "i32 ?av' = ?av'" by (rule i32_small)
  moreover have "(if ?av \<ge> 0 then ?av + l_avI L else ?av + l_avR L) = ?av'"
    using j' L by (simp add: algebra_simps)
  ultimately have av: "i32 (if ?av \<ge> 0 then ?av + l_avI L else ?av + l_avR L) = ?av'" by simp
  note turn = line_loop_turn [OF x y av, of bx color pixel s]
  show ?case
  proof (cases "n = 0")
    case True
    then have "ax + sx * int (Suc i) = bx" using bx Suc.prems by auto
    then show ?thesis using True turn by simp
  next
    case False
    then have "ax + sx * int (Suc i) \<noteq> bx" using bx Suc.prems sx(1) by auto
    then have "line_loop L bx color pixel ?x (ay + sy * ?j) ?av s = line_loop L bx color pixel (ax + sx * int (Suc i))
        (ay + sy * ?j') ?av' (plot ?x (ay + sy * ?j) color pixel s)"
      using turn by (simp only: if_False)
    then show ?thesis using Suc.IH [of "Suc i"] Suc.prems False by (simp add: upt_conv_Cons del: upt_Suc)
  qed
qed simp

text \<open>Coordinates for which no computation of \<^verbatim>\<open>drawline\<close> leaves the 32 bits.\<close>

definition line_range :: "int \<Rightarrow> bool" where
  "line_range v \<longleftrightarrow> \<bar>v\<bar> < 2 ^ 24"

lemma line_setup_range:
  assumes "line_range ax" "line_range ay" "line_range bx" "line_range by"
  defines "xi \<equiv> if bx \<ge> ax then 1 else -1 :: int" and "yi \<equiv> if by \<ge> ay then 1 else -1 :: int"
    and "dx \<equiv> max \<bar>bx - ax\<bar> \<bar>by - ay\<bar>" and "dy \<equiv> min \<bar>bx - ax\<bar> \<bar>by - ay\<bar>"
  shows "line_setup ax ay bx by =
    \<lparr>l_xi = xi, l_yi = yi, l_xr = (if \<bar>by - ay\<bar> \<le> \<bar>bx - ax\<bar> then xi else 0), l_yr = (if \<bar>by - ay\<bar> \<le> \<bar>bx - ax\<bar> then 0 else yi),
     l_avR = 2 * dy, l_avI = 2 * dy - 2 * dx, l_av = 2 * dy - dx\<rparr>"
proof -
  have sm: "\<bar>ax\<bar> < 16777216" "\<bar>ay\<bar> < 16777216" "\<bar>bx\<bar> < 16777216" "\<bar>by\<bar> < 16777216" using assms(1-4) by (simp_all add: line_range_def)
  have d: "i32 (bx - ax) = bx - ax" "i32 (by - ay) = by - ay" "i32 (- (bx - ax)) = - (bx - ax)" "i32 (- (by - ay)) = - (by - ay)"
    by (rule i32_num; use sm in linarith)+
  have dd: "0 \<le> dx" "0 \<le> dy" "dx < 33554432" "dy < 33554432" using sm unfolding dx_def dy_def by linarith+
  have a: "i32 (2 * dy) = 2 * dy" "i32 (2 * dy - dx) = 2 * dy - dx" "i32 (2 * dy - dx - dx) = 2 * dy - dx - dx"
    by (rule i32_num; use dd in linarith)+
  have x: "(if bx - ax \<ge> 0 then (bx - ax, 1) else (i32 (- (bx - ax)), -1)) = (\<bar>bx - ax\<bar>, xi)" unfolding d xi_def by auto
  have y: "(if by - ay \<ge> 0 then (by - ay, 1) else (i32 (- (by - ay)), -1)) = (\<bar>by - ay\<bar>, yi)" unfolding d yi_def by auto
  have m: "(if \<bar>bx - ax\<bar> \<ge> \<bar>by - ay\<bar> then (xi, 0, \<bar>bx - ax\<bar>, \<bar>by - ay\<bar>) else (0, yi, \<bar>by - ay\<bar>, \<bar>bx - ax\<bar>)) =
      ((if \<bar>by - ay\<bar> \<le> \<bar>bx - ax\<bar> then xi else 0), (if \<bar>by - ay\<bar> \<le> \<bar>bx - ax\<bar> then 0 else yi), dx, dy)"
    unfolding dx_def dy_def by auto
  show ?thesis unfolding line_setup_def Let_def d(1,2) x y prod.case m a by simp
qed

lemma drawline_shallow:
  assumes "\<bar>by - ay\<bar> \<le> \<bar>bx - ax\<bar>" "ax \<noteq> bx" and rg: "line_range ax" "line_range ay" "line_range bx" "line_range by"
  shows "drawline ax ay bx by color pixel s =
    Some (fold (\<lambda>i. plot (ax + sgn (bx - ax) * int i) (ay + sgn (by - ay) * line_row \<bar>bx - ax\<bar> \<bar>by - ay\<bar> (int i)) color pixel)
      [0..<nat \<bar>bx - ax\<bar>] s)"
proof -
  let ?dx = "\<bar>bx - ax\<bar>" and ?dy = "\<bar>by - ay\<bar>" and ?L = "line_setup ax ay bx by"
  let ?sx = "sgn (bx - ax)" and ?sy = "if by \<ge> ay then 1 else -1 :: int"
  have sm: "\<bar>ax\<bar> < 16777216" "\<bar>ay\<bar> < 16777216" "\<bar>bx\<bar> < 16777216" "\<bar>by\<bar> < 16777216" using rg by (simp_all add: line_range_def)
  have L: "l_xi ?L = ?sx" "l_xr ?L = ?sx" "l_yi ?L = ?sy" "l_yr ?L = 0" "l_avR ?L = 2 * ?dy" "l_avI ?L = 2 * ?dy - 2 * ?dx" "l_av ?L = 2 * ?dy - ?dx"
    using assms(1,2) unfolding line_setup_range [OF rg] by (simp_all add: sgn_if)
  have r0: "line_row ?dx ?dy 0 = 0" using assms by (simp add: line_row_def)
  have flat: "?sy * line_row ?dx ?dy i = sgn (by - ay) * line_row ?dx ?dy i" for i
    using assms by (cases "by = ay") (auto simp: line_row_def)
  have "line_loop ?L bx color pixel (ax + ?sx * int 0) (ay + ?sy * line_row ?dx ?dy (int 0))
      (2 * ?dy * (int 0 + 1) - ?dx - 2 * ?dx * line_row ?dx ?dy (int 0)) s =
    Some (fold (\<lambda>i. plot (ax + ?sx * int i) (ay + ?sy * line_row ?dx ?dy (int i)) color pixel) [0..<0 + nat ?dx] s)"
  proof (rule line_loop_shallow)
    have "?dx < 33554432" using sm by linarith
    then show "?dx < 2 ^ 28" by simp
  qed (use assms(1,2) L sm in \<open>auto simp: sgn_if\<close>)
  then show ?thesis unfolding flat using r0 L by (simp add: drawline_def)
qed

lemma drawline_vertical:
  assumes "ay \<noteq> by" "line_range ax" "line_range ay" "line_range by"
  shows "drawline ax ay ax by color pixel s = Some (plot ax ay color pixel s)"
proof -
  let ?L = "line_setup ax ay ax by" and ?dy = "\<bar>by - ay\<bar>"
  have sm: "\<bar>ax\<bar> < 16777216" "\<bar>ay\<bar> < 16777216" "\<bar>by\<bar> < 16777216" using assms by (simp_all add: line_range_def)
  have w: "i32 ax = ax" by (rule i32_num) (use sm in linarith)+
  have L: "l_xr ?L = 0" "l_av ?L < 0" using assms(1) unfolding line_setup_range [OF assms(2,3,2,4)] by simp_all
  have "i32 (if l_av ?L \<ge> 0 then ax + l_xi ?L else ax + l_xr ?L) = ax" using L w by simp
  from line_loop_turn [OF this refl refl] show ?thesis by (simp add: drawline_def Let_def)
qed

text \<open>A single point: the error stays 0, so the loop walks down the diagonal until \<^verbatim>\<open>x\<close> has come around.\<close>

lemma i32_period: "i32 (v + int k) = i32 v \<longleftrightarrow> int k mod 2 ^ 32 = 0"
proof -
  have "(v + int k + 2 ^ 31) mod 2 ^ 32 = (v + 2 ^ 31) mod 2 ^ 32 \<longleftrightarrow> (2 ^ 32 :: int) dvd (v + int k + 2 ^ 31) - (v + 2 ^ 31)"
    by (rule mod_eq_dvd_iff)
  also have "\<dots> \<longleftrightarrow> int k mod 2 ^ 32 = 0" by (simp add: dvd_eq_mod_eq_0)
  finally show ?thesis unfolding i32_def by simp
qed

lemma point_loop:
  assumes L: "l_xi L = 1" "l_yi L = 1" "l_avI L = 0" and ax: "i32 ax = ax" and N: "N = 2 ^ 32" and k: "k + n = N" "0 < n"
  shows "line_loop L ax color pixel (i32 (ax + int k)) (i32 (ay + int k)) 0 s =
    Some (fold (\<lambda>i. plot (i32 (ax + int i)) (i32 (ay + int i)) color pixel) [k..<N] s)"
  using k
proof (induction n arbitrary: k s)
  case (Suc n)
  have x: "i32 (if (0 :: int) \<ge> 0 then i32 (v + int k) + 1 else z) = i32 (v + int (Suc k))" for v z
    using i32_add [of "v + int k" 1] by (simp add: add.assoc add.commute [of 1])
  have z: "i32 (if (0 :: int) \<ge> 0 then 0 + l_avI L else 0 + l_avR L) = 0" using L by (simp add: i32_small)
  have t: "line_loop L ax color pixel (i32 (ax + int k)) (i32 (ay + int k)) 0 s =
      (if i32 (ax + int (Suc k)) = ax then Some (plot (i32 (ax + int k)) (i32 (ay + int k)) color pixel s)
       else line_loop L ax color pixel (i32 (ax + int (Suc k))) (i32 (ay + int (Suc k))) 0 (plot (i32 (ax + int k)) (i32 (ay + int k)) color pixel s))"
    by (rule line_loop_turn [OF x [where z = "i32 (ax + int k) + l_xr L", folded L(1)] x [where z = "i32 (ay + int k) + l_yr L", folded L(2)] z])
  have kN: "k < N" using Suc.prems by simp
  have u: "[k..<N] = k # [Suc k..<N]" by (rule upt_conv_Cons [OF kN])
  have e: "i32 (ax + int (Suc k)) = ax \<longleftrightarrow> Suc k = N"
  proof -
    have "i32 (ax + int (Suc k)) = ax \<longleftrightarrow> int (Suc k) mod 2 ^ 32 = 0" using i32_period [of ax "Suc k"] ax by simp
    also have "\<dots> \<longleftrightarrow> Suc k = N"
    proof (cases "Suc k = N")
      case False
      then have "int (Suc k) < 2 ^ 32" using kN N by simp
      then show ?thesis using False by (simp add: mod_pos_pos_trivial)
    qed (simp add: N)
    finally show ?thesis .
  qed
  show ?case
  proof (cases "Suc k = N")
    case True
    then have "[Suc k..<N] = []" by simp
    then show ?thesis unfolding t u using e True by simp
  next
    case False
    then show ?thesis unfolding t u using e Suc.IH [of "Suc k"] Suc.prems by (simp del: of_nat_Suc)
  qed
qed simp

lemma drawline_point:
  assumes "line_range ax" "line_range ay"
  shows "drawline ax ay ax ay color pixel s = Some (fold (\<lambda>i. plot (i32 (ax + int i)) (i32 (ay + int i)) color pixel) [0..<2 ^ 32] s)"
proof -
  let ?L = "line_setup ax ay ax ay"
  have "\<bar>ax\<bar> < 2 ^ 31" "\<bar>ay\<bar> < 2 ^ 31" using assms by (simp_all add: line_range_def)
  then have w: "i32 ax = ax" "i32 ay = ay" by (simp_all only: i32_small)
  have L: "l_xi ?L = 1" "l_yi ?L = 1" "l_avI ?L = 0" "l_av ?L = 0" by (simp_all add: line_setup_def Let_def i32_def)
  have e: "i32 (ax + int 0) = ax" "i32 (ay + int 0) = ay" using w by simp_all
  have "line_loop ?L ax color pixel (i32 (ax + int 0)) (i32 (ay + int 0)) 0 s =
      Some (fold (\<lambda>i. plot (i32 (ax + int i)) (i32 (ay + int i)) color pixel) [0..<2 ^ 32] s)"
    by (rule point_loop [OF L(1-3) w(1) refl, of 0 "2 ^ 32"]) simp_all
  then show ?thesis unfolding e drawline_def Let_def L(4) .
qed

end
