(* ===== verification/Console_Input.thy ===== *)
theory Console_Input
  imports Console_Correct
begin

text \<open>
  The input side of the console as an editor on two lists of bytes: the bytes ready for \<^verbatim>\<open>consoleread\<close> and the line
  being edited. The three wrapping indices of \<^verbatim>\<open>struct input\<close> and the buffer implement this editor.
\<close>

definition in_queue :: "console \<Rightarrow> u8 list" where
  "in_queue s = ring_abs INPUT_BUF (i_buf s) (i_r s) (i_e s)"

definition in_abs :: "console \<Rightarrow> u8 list \<times> u8 list" where
  "in_abs s = (take (ring_len (i_r s) (i_w s)) (in_queue s), drop (ring_len (i_r s) (i_w s)) (in_queue s))"

definition in_ok :: "console \<Rightarrow> bool" where
  "in_ok s \<longleftrightarrow> ring_ok INPUT_BUF (i_buf s) (i_r s) (i_e s) \<and> ring_len (i_r s) (i_w s) \<le> ring_len (i_r s) (i_e s) \<and>
     10 \<notin> set (snd (in_abs s))"

text \<open>The editor: what a character does to the ready bytes and the line.\<close>

fun edit_char :: "int \<Rightarrow> u8 list \<times> u8 list \<Rightarrow> u8 list \<times> u8 list" where
  "edit_char c (ready, line) =
     (if c = 16 then (ready, line)
      else if c = 21 then (ready, [])
      else if c = 8 \<or> c = 127 then (ready, butlast line)
      else if c \<noteq> 0 \<and> length ready + length line < INPUT_BUF then
        let c = (if c = 13 then 10 else c); line = line @ [word_of_int c]
        in if c = 10 \<or> c = 4 \<or> length ready + length line = INPUT_BUF then (ready @ line, []) else (ready, line)
      else (ready, line))"

lemma ctl_codes [simp]: "Ctl CHR ''U'' = 21" "Ctl CHR ''H'' = 8" "Ctl CHR ''D'' = 4" "Ctl CHR ''P'' = 16"
  by (simp_all add: Ctl_def)

lemma ring_len_inj: "ring_len r a = ring_len r b \<longleftrightarrow> a = b"
  by (simp add: ring_len_def word_unat_eq_iff [symmetric])

lemma ring_unput:
  assumes "r \<noteq> e"
  shows "ring_len r (e - 1) = ring_len r e - 1" "ring_abs N d r (e - 1) = butlast (ring_abs N d r e)"
    "last (ring_abs N d r e) = d ! (unat (e - 1) mod N)"
proof -
  have ne: "e - r \<noteq> 0" using assms by simp
  have "e - 1 - r = e - r - 1" by (simp add: algebra_simps)
  then show len: "ring_len r (e - 1) = ring_len r e - 1" using unat_minus_one [OF ne] by (simp only: ring_len_def)
  show "ring_abs N d r (e - 1) = butlast (ring_abs N d r e)"
    unfolding ring_abs_def len by (simp add: butlast_conv_take take_map)
  have pos: "0 < ring_len r e" using ne by (simp add: ring_len_def unat_gt_0)
  then have "r + of_nat (ring_len r e - 1) = e - 1" by (simp add: ring_len_def of_nat_diff Suc_le_eq)
  moreover have "last (ring_abs N d r e) = d ! (unat (r + of_nat (ring_len r e - 1)) mod N)"
    using pos by (simp only: ring_abs_def last_map upt_eq_Nil_conv last_upt not_less_zero neq0_conv) (simp add: last_map)
  ultimately show "last (ring_abs N d r e) = d ! (unat (e - 1) mod N)" by (simp only:)
qed

lemma same_input_in: "same_input s t \<Longrightarrow> in_abs t = in_abs s \<and> in_ok t = in_ok s"
  by (simp add: in_abs_def in_ok_def in_queue_def same_input_def)

lemma in_ok_lens:
  assumes "in_ok s"
  shows "length (in_queue s) = ring_len (i_r s) (i_e s)" "ring_len (i_r s) (i_w s) \<le> ring_len (i_r s) (i_e s)"
    "length (fst (in_abs s)) + length (snd (in_abs s)) = ring_len (i_r s) (i_e s)"
    "snd (in_abs s) = [] \<longleftrightarrow> i_e s = i_w s"
proof -
  show l: "length (in_queue s) = ring_len (i_r s) (i_e s)" by (simp add: in_queue_def)
  show le: "ring_len (i_r s) (i_w s) \<le> ring_len (i_r s) (i_e s)" using assms by (simp add: in_ok_def)
  show "length (fst (in_abs s)) + length (snd (in_abs s)) = ring_len (i_r s) (i_e s)" using l le by (simp add: in_abs_def)
  have "ring_len (i_r s) (i_e s) \<le> ring_len (i_r s) (i_w s) \<longleftrightarrow> ring_len (i_r s) (i_e s) = ring_len (i_r s) (i_w s)" using le by auto
  also have "\<dots> \<longleftrightarrow> i_e s = i_w s" by (rule ring_len_inj)
  finally show "snd (in_abs s) = [] \<longleftrightarrow> i_e s = i_w s" using l by (simp add: in_abs_def)
qed

lemma erase_one:
  assumes "in_ok s" "i_e s \<noteq> i_w s"
  defines "t \<equiv> s\<lparr>i_e := i_e s - 1\<rparr>"
  shows "in_abs t = (fst (in_abs s), butlast (snd (in_abs s)))" "in_ok t"
    "last (snd (in_abs s)) = i_buf s ! (unat (i_e s - 1) mod INPUT_BUF)"
proof -
  let ?k = "ring_len (i_r s) (i_w s)"
  have lt: "?k < ring_len (i_r s) (i_e s)"
    using in_ok_lens(2) [OF assms(1)] assms(2) by (auto simp: ring_len_inj le_less)
  then have ne: "i_r s \<noteq> i_e s" by (auto simp: ring_len_def)
  have q: "in_queue t = butlast (in_queue s)" using ring_unput(2) [OF ne] by (simp add: in_queue_def t_def)
  have k: "?k < length (in_queue s)" using lt by (simp add: in_queue_def)
  show abs: "in_abs t = (fst (in_abs s), butlast (snd (in_abs s)))"
    using k q by (simp add: in_abs_def t_def butlast_take take_butlast drop_butlast)
  have "set (butlast (snd (in_abs s))) \<subseteq> set (snd (in_abs s))" by (auto dest: in_set_butlastD)
  then show "in_ok t" using assms(1) abs lt ring_unput(1) [OF ne]
    by (auto simp: in_ok_def t_def ring_ok_def)
  show "last (snd (in_abs s)) = i_buf s ! (unat (i_e s - 1) mod INPUT_BUF)"
    using ring_unput(3) [OF ne, of INPUT_BUF "i_buf s"] k by (simp add: in_abs_def in_queue_def last_drop)
qed

lemma kill_line_spec:
  "in_ok s \<Longrightarrow> on_screen s \<Longrightarrow> \<not> c_panicked s \<Longrightarrow>
   \<exists>t. kill_line s = Ok t \<and> in_ok t \<and> on_screen t \<and> \<not> c_panicked t \<and> in_abs t = (fst (in_abs s), [])"
proof (induction s rule: kill_line.induct)
  case (1 s)
  show ?case
  proof (cases "i_e s = i_w s")
    case True
    then have "snd (in_abs s) = []" using in_ok_lens(4) [OF "1.prems"(1)] by simp
    then show ?thesis using "1.prems" True by (intro exI [of _ s]) (simp add: prod_eq_iff kill_line.simps)
  next
    case False
    note er = erase_one [OF "1.prems"(1) False]
    have ne: "snd (in_abs s) \<noteq> []" using in_ok_lens(4) [OF "1.prems"(1)] False by simp
    then have "last (snd (in_abs s)) \<noteq> 10" using "1.prems"(1) last_in_set by (fastforce simp: in_ok_def)
    then have c: "i_e s \<noteq> i_w s \<and> i_buf s ! (unat (i_e s - 1) mod INPUT_BUF) \<noteq> 10" using False er(3) by simp
    obtain u where u: "consputc BACKSPACE (s\<lparr>i_e := i_e s - 1\<rparr>) = Ok u" "on_screen u" "same_input (s\<lparr>i_e := i_e s - 1\<rparr>) u"
      using consputc_total [of "s\<lparr>i_e := i_e s - 1\<rparr>" BACKSPACE] "1.prems" by (auto simp: on_screen_def)
    have eq: "u\<lparr>i_e := i_e s - 1, i_w := i_w s\<rparr> = u" using u(3) by (simp add: same_input_def)
    have "in_ok u" "in_abs u = (fst (in_abs s), butlast (snd (in_abs s)))" "\<not> c_panicked u"
      using same_input_in [OF u(3)] er u(3) "1.prems" by (simp_all add: same_input_def)
    then show ?thesis using "1.IH" [OF c u(1)] u(1,2) c unfolding eq by (subst kill_line.simps) (simp add: eq)
  qed
qed

lemma add_one:
  assumes "in_ok s" "ring_len (i_r s) (i_e s) < INPUT_BUF" "x \<noteq> 10"
  defines "t \<equiv> s\<lparr>i_buf := (i_buf s)[unat (i_e s) mod INPUT_BUF := x], i_e := i_e s + 1\<rparr>"
  shows "in_abs t = (fst (in_abs s), snd (in_abs s) @ [x])" "in_ok t"
proof -
  have r: "ring_ok INPUT_BUF (i_buf s) (i_r s) (i_e s)" using assms(1) by (simp add: in_ok_def)
  note put = ring_put [OF r assms(2), of x]
  have len: "ring_len (i_r s) (i_e s + 1) = Suc (ring_len (i_r s) (i_e s))"
    using ring_len_put [OF assms(2)] r by (simp add: ring_ok_def)
  have k: "ring_len (i_r s) (i_w s) \<le> length (in_queue s)" using in_ok_lens(1,2) [OF assms(1)] by simp
  show abs: "in_abs t = (fst (in_abs s), snd (in_abs s) @ [x])"
    using put(1) k by (simp add: in_abs_def in_queue_def t_def)
  show "in_ok t" using assms(1,3) abs put(2) len by (simp add: in_ok_def t_def)
qed

lemma commit_one:
  fixes x :: u8
  assumes "in_ok s" "ring_len (i_r s) (i_e s) < INPUT_BUF"
  defines "t \<equiv> s\<lparr>i_buf := (i_buf s)[unat (i_e s) mod INPUT_BUF := x], i_e := i_e s + 1, i_w := i_e s + 1\<rparr>"
  shows "in_abs t = (fst (in_abs s) @ snd (in_abs s) @ [x], [])" "in_ok t"
proof -
  have r: "ring_ok INPUT_BUF (i_buf s) (i_r s) (i_e s)" using assms(1) by (simp add: in_ok_def)
  note put = ring_put [OF r assms(2), of x]
  have q: "in_queue t = in_queue s @ [x]" using put(1) by (simp add: in_queue_def t_def)
  have len: "length (in_queue t) = ring_len (i_r t) (i_w t)" by (simp add: in_queue_def t_def)
  have "fst (in_abs s) @ snd (in_abs s) = in_queue s" by (simp add: in_abs_def)
  then show abs: "in_abs t = (fst (in_abs s) @ snd (in_abs s) @ [x], [])" using q len by (simp add: in_abs_def)
  show "in_ok t" using abs put(2) by (simp add: in_ok_def t_def)
qed

lemma byte_ten: "0 \<le> c \<Longrightarrow> c < 256 \<Longrightarrow> word_of_int c = (10 :: u8) \<longleftrightarrow> c = 10"
proof -
  assume c: "0 \<le> c" "c < 256"
  have "word_of_int c = (10 :: u8) \<longleftrightarrow> uint (word_of_int c :: u8) = uint (10 :: u8)" by (simp only: word_uint_eq_iff)
  also have "\<dots> \<longleftrightarrow> c = 10" using c by (simp add: uint_word_of_int)
  finally show ?thesis .
qed

lemma input_store:
  assumes "in_ok s" "on_screen s" "\<not> c_panicked s" "unat (i_e s - i_r s) < INPUT_BUF" "0 \<le> c" "c < 256"
  defines "u \<equiv> s\<lparr>i_buf := (i_buf s)[unat (i_e s) mod INPUT_BUF := word_of_int c], i_e := i_e s + 1\<rparr>"
  shows "\<exists>wk t. bnd (consputc c u) (\<lambda>s. if c = 10 \<or> c = 4 \<or> i_e s = i_r s + of_nat INPUT_BUF
        then Ok (True, s\<lparr>i_w := i_e s\<rparr>) else Ok (False, s)) = Ok (wk, t) \<and> in_ok t \<and> on_screen t \<and> \<not> c_panicked t \<and>
     wk = (c = 10 \<or> c = 4 \<or> length (fst (in_abs s)) + length (snd (in_abs s)) + 1 = INPUT_BUF) \<and>
     in_abs t = (if wk then (fst (in_abs s) @ snd (in_abs s) @ [word_of_int c], []) else (fst (in_abs s), snd (in_abs s) @ [word_of_int c]))"
proof -
  have room: "ring_len (i_r s) (i_e s) < INPUT_BUF" using assms(4) by (simp add: ring_len_def)
  have r: "ring_ok INPUT_BUF (i_buf s) (i_r s) (i_e s)" using assms(1) by (simp add: in_ok_def)
  obtain v where v: "consputc c u = Ok v" "on_screen v" "same_input u v"
    using consputc_total [of u c] assms(2,3) by (auto simp: on_screen_def u_def)
  have f: "i_e v = i_e s + 1" "i_r v = i_r s" "\<not> c_panicked v" using v(3) assms(3) by (simp_all add: same_input_def u_def)
  have full: "i_e v = i_r v + of_nat INPUT_BUF \<longleftrightarrow> length (fst (in_abs s)) + length (snd (in_abs s)) + 1 = INPUT_BUF"
    using ring_full [OF ring_put(2) [OF r room]] in_ok_lens(3) [OF assms(1)] ring_len_put [OF room] r f by (simp add: ring_ok_def)
  show ?thesis
  proof (cases "c = 10 \<or> c = 4 \<or> i_e v = i_r v + of_nat INPUT_BUF")
    case True
    have "same_input (u\<lparr>i_w := i_e s + 1\<rparr>) (v\<lparr>i_w := i_e s + 1\<rparr>)" using v(3) by (simp add: same_input_def)
    from same_input_in [OF this] commit_one [OF assms(1) room, of "word_of_int c"]
    have "in_abs (v\<lparr>i_w := i_e s + 1\<rparr>) = (fst (in_abs s) @ snd (in_abs s) @ [word_of_int c], [])" "in_ok (v\<lparr>i_w := i_e s + 1\<rparr>)"
      by (simp_all add: u_def)
    then show ?thesis using v f True full by (intro exI [of _ True] exI [of _ "v\<lparr>i_w := i_e v\<rparr>"]) (auto simp: on_screen_def)
  next
    case False
    then have "word_of_int c \<noteq> (10 :: u8)" using byte_ten assms(5,6) by simp
    from add_one [OF assms(1) room this] same_input_in [OF v(3)]
    have "in_abs v = (fst (in_abs s), snd (in_abs s) @ [word_of_int c])" "in_ok v" by (simp_all add: u_def)
    then show ?thesis using v f False full by (intro exI [of _ False] exI [of _ v]) auto
  qed
qed

lemma input_char_spec:
  assumes "in_ok s" "on_screen s" "\<not> c_panicked s" "0 \<le> c" "c < 256" "c \<noteq> 16"
  shows "\<exists>wk t. input_char c s = Ok (wk, t) \<and> in_ok t \<and> on_screen t \<and> \<not> c_panicked t \<and> in_abs t = edit_char c (in_abs s) \<and>
     (wk \<longrightarrow> length (fst (in_abs s)) < length (fst (in_abs t))) \<and> (\<not> wk \<longrightarrow> fst (in_abs t) = fst (in_abs s))"
proof -
  obtain ready line where a: "in_abs s = (ready, line)" by (cases "in_abs s")
  have len: "length ready + length line = ring_len (i_r s) (i_e s)" using in_ok_lens(3) [OF assms(1)] a by simp
  consider "c = 21" | "c = 8 \<or> c = 127" | "c \<notin> {21, 8, 127}" "c \<noteq> 0 \<and> unat (i_e s - i_r s) < INPUT_BUF"
    | "c \<notin> {21, 8, 127}" "\<not> (c \<noteq> 0 \<and> unat (i_e s - i_r s) < INPUT_BUF)" by blast
  then show ?thesis
  proof cases
    case 1
    then show ?thesis using kill_line_spec [OF assms(1-3)] a by (auto simp: input_char_def)
  next
    case 2
    show ?thesis
    proof (cases "i_e s = i_w s")
      case True
      then have "line = []" using in_ok_lens(4) [OF assms(1)] a by simp
      then show ?thesis using 2 True assms a by (auto simp: input_char_def)
    next
      case False
      obtain u where u: "consputc BACKSPACE (s\<lparr>i_e := i_e s - 1\<rparr>) = Ok u" "on_screen u" "same_input (s\<lparr>i_e := i_e s - 1\<rparr>) u"
        using consputc_total [of "s\<lparr>i_e := i_e s - 1\<rparr>" BACKSPACE] assms by (auto simp: on_screen_def)
      have "in_ok u" "in_abs u = (ready, butlast line)" "\<not> c_panicked u"
        using same_input_in [OF u(3)] erase_one [OF assms(1) False] u(3) assms(3) a by (simp_all add: same_input_def)
      moreover have "input_char c s = Ok (False, u)"
        unfolding input_char_def ctl_codes using 2 False by (auto simp: u(1))
      moreover have "edit_char c (ready, line) = (ready, butlast line)" using 2 by auto
      ultimately show ?thesis using u(2) unfolding a by (intro exI [of _ False] exI [of _ u]) simp
    qed
  next
    case 3
    let ?c = "if c = 13 then 10 else c"
    have c: "0 \<le> ?c" "?c < 256" using assms by auto
    from input_store [OF assms(1-3) conjunct2 [OF 3(2)] c]
    obtain wk t where e: "bnd (consputc ?c (s\<lparr>i_buf := (i_buf s)[unat (i_e s) mod INPUT_BUF := word_of_int ?c], i_e := i_e s + 1\<rparr>))
        (\<lambda>s. if ?c = 10 \<or> ?c = 4 \<or> i_e s = i_r s + of_nat INPUT_BUF then Ok (True, s\<lparr>i_w := i_e s\<rparr>) else Ok (False, s)) = Ok (wk, t)"
      and t: "in_ok t" "on_screen t" "\<not> c_panicked t"
      and wk: "wk = (?c = 10 \<or> ?c = 4 \<or> length ready + length line + 1 = INPUT_BUF)"
      and abs: "in_abs t = (if wk then (ready @ line @ [word_of_int ?c], []) else (ready, line @ [word_of_int ?c]))"
      unfolding a fst_conv snd_conv by (elim exE conjE)
    have i: "input_char c s = Ok (wk, t)"
      unfolding input_char_def Let_def ctl_codes using 3 by (simp only: insert_iff empty_iff simp_thms if_True if_False e de_Morgan_disj)
    have "edit_char c (ready, line) = (if wk then (ready @ line @ [word_of_int ?c], []) else (ready, line @ [word_of_int ?c]))"
      unfolding edit_char.simps Let_def wk using 3 assms(6) len by (simp add: ring_len_def)
    then have "in_abs t = edit_char c (ready, line)" using abs by (simp only:)
    moreover have "(wk \<longrightarrow> length ready < length (fst (in_abs t))) \<and> (\<not> wk \<longrightarrow> fst (in_abs t) = ready)" unfolding abs by simp
    ultimately show ?thesis using i t unfolding a fst_conv by (intro exI [of _ wk] exI [of _ t] conjI) simp_all
  next
    case 4
    have "input_char c s = Ok (False, s)"
      unfolding input_char_def ctl_codes using 4 by (simp only: insert_iff empty_iff simp_thms if_True if_False de_Morgan_disj)
    moreover have "edit_char c (ready, line) = (ready, line)"
      unfolding edit_char.simps using 4 assms(6) len by (simp only: insert_iff empty_iff simp_thms if_True if_False de_Morgan_disj ring_len_def)
    ultimately show ?thesis using assms(1-3) unfolding a by (intro exI [of _ False] exI [of _ s]) (simp add: a)
  qed
qed

lemma edit_char_extends: "\<exists>xs. fst (edit_char c q) = fst q @ xs"
  by (cases q) (auto simp: Let_def)

lemma fold_edit_extends: "\<exists>xs. fst (fold edit_char cs q) = fst q @ xs"
proof (induction cs arbitrary: q)
  case (Cons c cs)
  then show ?case using edit_char_extends [of c q] by (metis append_assoc comp_apply fold_Cons)
qed simp

lemma consoleintr_spec:
  assumes "in_ok s" "on_screen s" "\<not> c_panicked s" "\<forall>c\<in>set cs. 0 \<le> c \<and> c < 256"
  shows "\<exists>wk t. consoleintr cs s = Ok (16 \<in> set cs, wk, t) \<and> in_ok t \<and> on_screen t \<and> \<not> c_panicked t \<and>
    in_abs t = fold edit_char cs (in_abs s) \<and> wk = (fst (in_abs t) \<noteq> fst (in_abs s))"
  using assms
proof (induction cs arbitrary: s)
  case (Cons c cs)
  show ?case
  proof (cases "c = 16")
    case True
    have "edit_char c (in_abs s) = in_abs s" using True by (cases "in_abs s") simp
    then show ?thesis using Cons.IH [OF Cons.prems(1-3)] Cons.prems(4) True by fastforce
  next
    case False
    obtain wk t where t: "input_char c s = Ok (wk, t)" "in_ok t" "on_screen t" "\<not> c_panicked t" "in_abs t = edit_char c (in_abs s)"
      "wk \<longrightarrow> length (fst (in_abs s)) < length (fst (in_abs t))" "\<not> wk \<longrightarrow> fst (in_abs t) = fst (in_abs s)"
      using input_char_spec [OF Cons.prems(1-3), of c] Cons.prems(4) False by auto
    obtain wk' u where u: "consoleintr cs t = Ok (16 \<in> set cs, wk', u)" "in_ok u" "on_screen u" "\<not> c_panicked u"
      "in_abs u = fold edit_char cs (in_abs t)" "wk' = (fst (in_abs u) \<noteq> fst (in_abs t))"
      using Cons.IH [OF t(2-4)] Cons.prems(4) by auto
    obtain xs where xs: "fst (in_abs u) = fst (in_abs t) @ xs" using fold_edit_extends [of cs "in_abs t"] u(5) by auto
    obtain ys where ys: "fst (in_abs t) = fst (in_abs s) @ ys" using edit_char_extends [of c "in_abs s"] t(5) by auto
    have "(wk \<or> wk') = (fst (in_abs u) \<noteq> fst (in_abs s))" using t(6,7) u(6) xs ys by auto
    moreover have "consoleintr (c # cs) s = Ok (16 \<in> set cs, wk \<or> wk', u)" using t(1) u(1) False by simp
    ultimately show ?thesis using u t(5) False by (intro exI [of _ "wk \<or> wk'"] exI [of _ u]) auto
  qed
next
  case Nil
  then show ?case by (intro exI [of _ False] exI [of _ s]) simp
qed

text \<open>Reading from the list of ready bytes: up to a newline, the end-of-file character or \<open>n\<close> bytes.\<close>

primrec read_ready :: "bool \<Rightarrow> bool \<Rightarrow> nat \<Rightarrow> u8 list \<Rightarrow> cread \<times> u8 list" where
  "read_ready killed first 0 q = (CRead [], q)"
| "read_ready killed first (Suc n) q =
     (case q of
        [] \<Rightarrow> (if killed then CKilled else CSleep [], [])
      | c # q' \<Rightarrow>
          if c = 4 then (CRead [], if first then q' else q)
          else if c = 10 then (CRead [c], q')
          else let (r, q) = read_ready killed False n q' in (cread_cons c r, q))"

lemma take_ready:
  assumes "in_ok s" "i_r s \<noteq> i_w s"
  defines "t \<equiv> s\<lparr>i_r := i_r s + 1\<rparr>"
  shows "fst (in_abs s) = i_buf s ! (unat (i_r s) mod INPUT_BUF) # fst (in_abs t)" "snd (in_abs t) = snd (in_abs s)" "in_ok t"
proof -
  have r: "ring_ok INPUT_BUF (i_buf s) (i_r s) (i_e s)" using assms(1) by (simp add: in_ok_def)
  have w: "ring_len (i_r s) (i_w s) = Suc (ring_len (i_r t) (i_w t))" using ring_len_get [OF assms(2)] by (simp add: t_def)
  then have ne: "i_r s \<noteq> i_e s" using in_ok_lens(2) [OF assms(1)] by (auto simp: ring_len_def)
  note get = ring_get [OF r ne]
  have q: "in_queue s = i_buf s ! (unat (i_r s) mod INPUT_BUF) # in_queue t" using get(1) by (simp add: in_queue_def t_def)
  show f: "fst (in_abs s) = i_buf s ! (unat (i_r s) mod INPUT_BUF) # fst (in_abs t)" and g: "snd (in_abs t) = snd (in_abs s)"
    using q w by (simp_all add: in_abs_def)
  have "ring_len (i_r s) (i_e s) = Suc (ring_len (i_r t) (i_e t))" using ring_len_get [OF ne] by (simp add: t_def)
  then show "in_ok t" using assms(1) get(2) g w by (simp add: in_ok_def) (simp add: t_def)
qed

lemma no_ready: "in_ok s \<Longrightarrow> i_r s = i_w s \<Longrightarrow> fst (in_abs s) = []"
  by (simp add: in_abs_def ring_len_def)

lemma sint_four: "sint c = 4 \<longleftrightarrow> c = (4 :: u8)"
proof
  assume "sint c = 4"
  then have "word_of_int (sint c) = (word_of_int 4 :: u8)" by (simp only:)
  then show "c = 4" by simp
qed simp

lemma consoleread_spec:
  assumes "in_ok s"
  shows "\<exists>t. consoleread_loop killed first n s = (fst (read_ready killed first n (fst (in_abs s))), t) \<and> in_ok t \<and>
    in_abs t = (snd (read_ready killed first n (fst (in_abs s))), snd (in_abs s))"
  using assms
proof (induction n arbitrary: first s)
  case (Suc n)
  show ?case
  proof (cases "i_r s = i_w s")
    case True
    then show ?thesis using no_ready [OF Suc.prems True] Suc.prems by (auto simp: prod_eq_iff)
  next
    case False
    let ?t = "s\<lparr>i_r := i_r s + 1\<rparr>" and ?c = "i_buf s ! (unat (i_r s) mod INPUT_BUF)"
    note t = take_ready [OF Suc.prems False]
    consider "?c = 4" | "?c \<noteq> 4" "?c = 10" | "?c \<noteq> 4" "?c \<noteq> 10" by blast
    then show ?thesis
    proof cases
      case 1
      have "?t\<lparr>i_r := i_r ?t - 1\<rparr> = s" by simp
      then show ?thesis using t False 1 Suc.prems by (simp add: sint_four Let_def prod_eq_iff)
    next
      case 2
      then show ?thesis using t False by (simp add: sint_four Let_def prod_eq_iff)
    next
      case 3
      obtain u where "consoleread_loop killed False n ?t = (fst (read_ready killed False n (fst (in_abs ?t))), u)" "in_ok u"
        "in_abs u = (snd (read_ready killed False n (fst (in_abs ?t))), snd (in_abs ?t))" using Suc.IH [OF t(3)] by blast
      then show ?thesis using t(1,2) False 3 by (simp add: sint_four Let_def case_prod_unfold)
    qed
  qed
qed simp

section \<open>Properties\<close>

definition console0 :: console where
  "console0 = \<lparr>c_panicked = False, c_locking = True, c_fg = 7, c_bg = 0, c_crt = (\<lambda>_. 0), c_cursor = 0, c_uart = True,
     c_serial = [], i_buf = replicate 128 0, i_r = 0, i_w = 0, i_e = 0\<rparr>"

lemma console0_ok: "in_ok console0" "on_screen console0" "\<not> c_panicked console0" "in_abs console0 = ([], [])"
  by (simp_all add: in_ok_def on_screen_def console0_def in_abs_def in_queue_def ring_ok_def ring_len_def ring_abs_def INPUT_BUF_def)

text \<open>
  C23. The console input buffer implements the line editor. Interrupt input of any characters never panics, keeps the
  indices well formed, and changes the ready bytes and the edited line as the editor says (kill line, backspace, storing
  with carriage return as newline, completing the line at a newline, the end-of-file character or a full buffer). Readers
  are woken exactly when bytes became ready. A later read then takes bytes from the ready list only, up to a newline, the
  end-of-file character or the requested count.
\<close>

theorem console_input_refines_editor:
  assumes "in_ok s" "on_screen s" "\<not> c_panicked s" "\<forall>c\<in>set cs. 0 \<le> c \<and> c < 256"
  shows "\<exists>wk t. consoleintr cs s = Ok (16 \<in> set cs, wk, t) \<and> in_ok t \<and> on_screen t \<and>
    in_abs t = fold edit_char cs (in_abs s) \<and> wk = (fst (in_abs t) \<noteq> fst (in_abs s)) \<and>
    (\<exists>u. consoleread_loop killed True n t = (fst (read_ready killed True n (fst (in_abs t))), u) \<and> in_ok u \<and>
      in_abs u = (snd (read_ready killed True n (fst (in_abs t))), snd (in_abs t)))"
  using consoleintr_spec [OF assms] consoleread_spec by meson

theorem console_input_refines_editor_witness:
  "\<exists>t u. consoleintr [97, 98, 8, 99, 13] console0 = Ok (False, True, t) \<and> in_abs t = ([97, 99, 10], []) \<and>
     consoleread_loop False True 3 t = (CRead [97, 99, 10], u) \<and> in_abs u = ([], [])"
proof -
  have r: "read_ready False True 3 [97, 99, 10 :: u8] = (CRead [97, 99, 10], [])"
    unfolding numeral_3_eq_3 by simp
  have f: "fold edit_char [97, 98, 8, 99, 13] (in_abs console0) = ([97, 99, 10], [])"
    by (simp add: console0_ok INPUT_BUF_def)
  have "\<exists>wk t. consoleintr [97, 98, 8, 99, 13] console0 = Ok (16 \<in> set [97, 98, 8, 99, 13 :: int], wk, t) \<and> in_ok t \<and> on_screen t \<and>
    in_abs t = fold edit_char [97, 98, 8, 99, 13] (in_abs console0) \<and> wk = (fst (in_abs t) \<noteq> fst (in_abs console0)) \<and>
    (\<exists>u. consoleread_loop False True 3 t = (fst (read_ready False True 3 (fst (in_abs t))), u) \<and> in_ok u \<and>
      in_abs u = (snd (read_ready False True 3 (fst (in_abs t))), snd (in_abs t)))"
    by (rule console_input_refines_editor) (simp_all add: console0_ok)
  then show ?thesis unfolding f by (elim exE conjE) (simp add: r console0_ok)
qed

text \<open>
  C24. Printing any characters from a cursor on the screen returns without the panic for a position out of range, keeps the
  cursor on the screen, and changes no memory outside the 24 rows of the screen and nothing of the input side.
\<close>

theorem console_output_in_bounds:
  assumes "on_screen s" "\<not> c_panicked s"
  shows "\<exists>t. consputs cs s = Ok t \<and> on_screen t \<and> in_abs t = in_abs s \<and> (\<forall>i. i < 0 \<or> 24 * 80 \<le> i \<longrightarrow> c_crt t i = c_crt s i)"
  using consputs_total [OF assms, of cs] same_input_in by (auto simp: off_screen_same_def)

theorem console_output_in_bounds_witness:
  "\<exists>t. consputs (replicate 30 10 @ map of_char ''ok'') console0 = Ok t \<and> on_screen t \<and> c_crt t (-1) = 0 \<and> c_crt t 5000 = 0"
  using console_output_in_bounds [of console0 "replicate 30 10 @ map of_char ''ok''"] console0_ok
  by (auto simp: console0_def)

text \<open>
  C27. The colour codes round-trip: printing the foreground or the background byte of a colour selects that colour, leaves
  the cursor where it is and only refreshes the cell under it, and the byte the console reports for the
  current colour is the one that was printed.
\<close>

theorem colour_bytes_roundtrip:
  assumes "on_screen s" "c \<in> {0..<16}"
  shows "(\<exists>t. cgaputc (getfbytecolor c) s = Ok t \<and> c_fg t = c \<and> c_bg t = c_bg s \<and> c_cursor t = c_cursor s \<and>
        getColor t = getfbytecolor c \<and> c_crt t = (c_crt s)(c_cursor s := 0x0720)) \<and>
      (\<exists>t. cgaputc (getbbytecolor c) s = Ok t \<and> c_bg t = c \<and> c_fg t = c_fg s \<and> c_cursor t = c_cursor s) \<and>
      getcolorcode (getfbytecolor c) = c \<and> getcolorcode (getbbytecolor c) = c"
  using cgaputc_colour [OF assms] colour_codes [OF assms(2)] by (simp add: getColor_def)

theorem colour_bytes_roundtrip_witness:
  "\<exists>t. cgaputc (getfbytecolor 4) console0 = Ok t \<and> c_fg t = 4 \<and> getColor t = RED"
  using colour_bytes_roundtrip [of console0 4] console0_ok by (auto simp: getfbytecolor_def)

text \<open>
  C25. Drawing a line that is at least as wide as it is high ends, and paints one cell in each column from the first up
  to but not including the last, in the row of the ideal line rounded to the nearest. The arithmetic is that of 32-bit
  integers; the coordinates are below 2^24 in absolute value, so that nothing overflows.
\<close>

theorem drawline_follows_line:
  assumes "\<bar>by - ay\<bar> \<le> \<bar>bx - ax\<bar>" "ax \<noteq> bx" and "line_range ax" "line_range ay" "line_range bx" "line_range by"
  shows "drawline ax ay bx by color pixel s =
    Some (fold (\<lambda>i. plot (ax + sgn (bx - ax) * int i)
        (ay + sgn (by - ay) * ((2 * \<bar>by - ay\<bar> * int i + \<bar>bx - ax\<bar>) div (2 * \<bar>bx - ax\<bar>))) color pixel)
      [0..<nat \<bar>bx - ax\<bar>] s)"
  using drawline_shallow [OF assms] by (simp only: line_row_def)

theorem drawline_follows_line_witness:
  "drawline 1 1 5 3 4 42 console0 = Some (plot 4 3 4 42 (plot 3 2 4 42 (plot 2 2 4 42 (plot 1 1 4 42 console0))))"
  using drawline_follows_line [of 3 1 5 1 4 42 console0] by (simp add: upt_rec line_range_def)



section \<open>Printed numbers\<close>

lemma int_digits_value:
  assumes "2 \<le> b"
  shows "\<exists>ds. int_digits b x = map digit_char ds \<and> ds \<noteq> [] \<and> (\<forall>d\<in>set ds. d < b) \<and> foldr (\<lambda>d v. b * v + d) ds 0 = x \<and>
    (last ds = 0 \<longrightarrow> length ds = 1)"
proof (induction x rule: less_induct)
  case (less x)
  show ?case
  proof (cases "x div b = 0")
    case True
    then have "x < b" using assms div_eq_0_iff [of x b] by auto
    then have "int_digits b x = map digit_char [x]" using True by (subst int_digits.simps) simp
    then show ?thesis using \<open>x < b\<close> by (intro exI [of _ "[x]"]) simp
  next
    case False
    then have "0 < x" by (cases "x = 0") auto
    then have "x div b < x" using assms by (intro div_less_dividend) auto
    from less.IH [OF this] obtain ds where ds: "int_digits b (x div b) = map digit_char ds" "ds \<noteq> []" "\<forall>d\<in>set ds. d < b"
      "foldr (\<lambda>d v. b * v + d) ds 0 = x div b" "last ds = 0 \<longrightarrow> length ds = 1" by (elim exE conjE)
    have nz: "last ds \<noteq> 0"
    proof
      assume "last ds = 0"
      then obtain d where "ds = [d]" "d = 0" using ds(2,5) by (cases ds) auto
      then show False using ds(4) False by simp
    qed
    have "int_digits b x = map digit_char (x mod b # ds)" using False assms ds(1) by (subst int_digits.simps) simp
    moreover have "foldr (\<lambda>d v. b * v + d) (x mod b # ds) 0 = x"
      unfolding foldr.simps comp_apply ds(4) by (rule mult_div_mod_eq)
    moreover have "\<forall>d\<in>set (x mod b # ds). d < b" using ds(3) assms by simp
    moreover have "last (x mod b # ds) \<noteq> 0" using nz ds(2) by simp
    ultimately show ?thesis by (intro exI [of _ "x mod b # ds"] conjI impI) (auto simp only: list.distinct)
  qed
qed

lemma uint_wrap: "uint (word_of_int k :: u32) = k mod 2 ^ 32"
  by (simp add: uint_word_of_int)

lemma negate_value: "sint (xx :: u32) < 0 \<Longrightarrow> unat (- xx) = nat \<bar>sint xx\<bar>"
proof -
  assume neg: "sint xx < 0"
  have "- xx = word_of_int (- sint xx)" by simp
  then have "uint (- xx) = (- sint xx) mod 2 ^ 32" by (simp only: uint_wrap)
  also have "\<dots> = - sint xx" using neg sint_ge [of xx] by (intro mod_pos_pos_trivial) auto
  finally show ?thesis using neg by (simp only: unat_eq_nat_uint)
qed

lemma keep_value: "\<not> sint (xx :: u32) < 0 \<Longrightarrow> unat xx = nat \<bar>sint xx\<bar>"
proof -
  assume pos: "\<not> sint xx < 0"
  have "xx = word_of_int (sint xx)" by simp
  then have "uint xx = sint xx mod 2 ^ 32" by (metis uint_wrap)
  also have "\<dots> = sint xx" using pos sint_lt [of xx] by (intro mod_pos_pos_trivial) auto
  finally show ?thesis using pos by (simp only: unat_eq_nat_uint)
qed

text \<open>
  C28. A number is printed as its digits in the base, most significant first and without leading zeros, with a minus sign
  exactly for negative numbers in signed conversions; the least 32-bit integer is no exception.
\<close>

theorem printint_prints_value:
  assumes "2 \<le> base"
  shows "\<exists>ds. printint_chars xx base sign = (if sign \<and> sint xx < 0 then [45] else []) @ map digit_char ds \<and> ds \<noteq> [] \<and>
    (\<forall>d\<in>set ds. d < base) \<and> foldl (\<lambda>v d. base * v + d) 0 ds = (if sign then nat \<bar>sint xx\<bar> else unat xx) \<and>
    (hd ds = 0 \<longrightarrow> length ds = 1)"
proof -
  let ?x = "if sign \<and> sint xx < 0 then - xx else xx"
  obtain ds where ds: "int_digits base (unat ?x) = map digit_char ds" "ds \<noteq> []" "\<forall>d\<in>set ds. d < base"
      "foldr (\<lambda>d v. base * v + d) ds 0 = unat ?x" "last ds = 0 \<longrightarrow> length ds = 1" using int_digits_value [OF assms, of "unat ?x"] by (elim exE conjE)
  have "unat ?x = (if sign then nat \<bar>sint xx\<bar> else unat xx)" using negate_value [of xx] keep_value [of xx] by auto
  moreover have "foldl (\<lambda>v d. base * v + d) 0 (rev ds) = foldr (\<lambda>d v. base * v + d) ds 0" by (simp add: foldl_conv_foldr)
  moreover have "printint_chars xx base sign = (if sign \<and> sint xx < 0 then [45] else []) @ map digit_char (rev ds)"
    using ds(1) by (simp add: printint_chars_def rev_map)
  ultimately show ?thesis using ds by (intro exI [of _ "rev ds"]) (simp add: hd_rev)
qed

theorem printint_prints_value_witness:
  "\<exists>ds. printint_chars (- 2147483648) 10 True = [45] @ map digit_char ds \<and> foldl (\<lambda>v d. 10 * v + d) 0 ds = 2147483648"
  using printint_prints_value [of 10 "- 2147483648" True] by auto

end
