(* ===== verification/User_Memory.thy ===== *)
theory User_Memory
  imports Trap Console_Input
begin

unbundle bit_operations_syntax

text \<open>
  User memory as the kernel uses it: lazy allocation by the page-fault handler, storing and loading through the page
  table, the bounds of pointer arguments, and sleeping for a number of clock ticks.
\<close>

section \<open>Printing from the kernel\<close>

text \<open>Whether the arguments fit the format.\<close>

fun args_ok :: "string \<Rightarrow> carg list \<Rightarrow> bool" where
  "args_ok [] args = True"
| "args_ok (c # fmt) args =
     (if c = CHR 0x00 then True
      else if c \<noteq> CHR ''%'' then args_ok fmt args
      else
        case fmt of
          [] \<Rightarrow> True
        | c # fmt \<Rightarrow>
            if c = CHR 0x00 then True
            else if c = CHR ''d'' \<or> c = CHR ''x'' \<or> c = CHR ''p'' \<or> c = CHR ''c'' then
              (case args of CInt x # args \<Rightarrow> args_ok fmt args | _ \<Rightarrow> False)
            else if c = CHR ''s'' then (case args of CStr a # args \<Rightarrow> args_ok fmt args | _ \<Rightarrow> False)
            else args_ok fmt args)"

definition con_ok :: "console \<Rightarrow> bool" where
  "con_ok s \<longleftrightarrow> on_screen s \<and> \<not> c_panicked s"

lemma con_ok_consputc: "con_ok s \<Longrightarrow> \<exists>t. consputc c s = Ok t \<and> con_ok t"
  using consputc_total by (fastforce simp: con_ok_def same_input_def)

lemma con_ok_consputs: "con_ok s \<Longrightarrow> \<exists>t. consputs cs s = Ok t \<and> con_ok t"
  using consputs_total by (fastforce simp: con_ok_def same_input_def)

lemma bnd_con: "\<exists>t. m = Ok t \<and> con_ok t \<Longrightarrow> (\<And>t. con_ok t \<Longrightarrow> \<exists>u. f t = Ok u \<and> con_ok u) \<Longrightarrow> \<exists>u. bnd m f = Ok u \<and> con_ok u"
  by auto

lemma cprintf_loop_total: "args_ok fmt args \<Longrightarrow> con_ok s \<Longrightarrow> \<exists>t. cprintf_loop fmt args s = Ok t \<and> con_ok t"
proof (induction fmt arbitrary: args s rule: length_induct)
  case (1 fmt)
  have IH: "\<exists>u. cprintf_loop f a t = Ok u \<and> con_ok u" if "length f < length fmt" "args_ok f a" "con_ok t" for f a t
    using 1(1) that by blast
  note pr = con_ok_consputc [OF 1(3)] con_ok_consputs [OF 1(3)]
  show ?case
  proof (cases fmt)
    case (Cons c f)
    show ?thesis
    proof (cases "c = CHR 0x00 \<or> c \<noteq> CHR ''%''")
      case True
      then show ?thesis using 1(2,3) IH [of f args] pr(1) Cons by (cases "c = CHR 0x00") (simp_all add: bnd_con)
    next
      case False
      show ?thesis
      proof (cases f)
        case Nil
        then show ?thesis using Cons False 1(3) by simp
      next
        case (Cons d f')
        have fmt: "fmt = CHR ''%'' # d # f'" using Cons \<open>fmt = c # f\<close> False by simp
        have sub: "\<exists>u. cprintf_loop f' a t = Ok u \<and> con_ok u" if "args_ok f' a" "con_ok t" for a t
          using IH [of f' a t] that fmt by simp
        consider "d = CHR 0x00" | "d \<in> {CHR ''d'', CHR ''x'', CHR ''p'', CHR ''c''}" | "d = CHR ''s''" | "d = CHR ''%''"
          | "d \<notin> {CHR 0x00, CHR ''d'', CHR ''x'', CHR ''p'', CHR ''c'', CHR ''s'', CHR ''%''}" by auto
        then show ?thesis
        proof cases
          case 1
          then show ?thesis using fmt \<open>con_ok s\<close> by simp
        next
          case 2
          then obtain x as where a: "args = CInt x # as" "args_ok f' as"
            using 1(2) fmt by (auto split: list.splits carg.splits)
          show ?thesis using 2 by (elim insertE) (simp_all add: fmt a printint_def bnd_con pr sub)
        next
          case 3
          then obtain x as where a: "args = CStr x # as" "args_ok f' as"
            using 1(2) fmt by (auto split: list.splits carg.splits)
          then show ?thesis using 3 by (cases x) (simp_all add: fmt bnd_con pr sub del: consputs.simps)
        next
          case 4
          then have "args_ok f' args" using 1(2) fmt by simp
          then show ?thesis using 4 by (simp add: fmt bnd_con pr sub)
        next
          case 5
          then have "args_ok f' args" using 1(2) fmt by simp
          then have "\<exists>u. bnd (consputc (of_char d) t) (cprintf_loop f' args) = Ok u \<and> con_ok u" if "con_ok t" for t
            using con_ok_consputc [OF that] sub by (blast intro: bnd_con)
          then show ?thesis using 5 by (simp add: fmt bnd_con pr)
        qed
      qed
    qed
  qed (simp add: 1(3))
qed

lemma print_total:
  "args_ok fmt args \<Longrightarrow> con_ok (m_cons s) \<Longrightarrow> \<exists>c. print fmt args s = Ok (s\<lparr>m_cons := c\<rparr>) \<and> con_ok c"
  using cprintf_loop_total [of fmt args "m_cons s"] by (auto simp: print_def cprintf_def)

section \<open>The page-fault handler\<close>

abbreviation pgdir_of :: "nat \<Rightarrow> machine \<Rightarrow> u32" where
  "pgdir_of me s \<equiv> p_pgdir (proc_of me s)"

abbreviation umem_of :: "nat \<Rightarrow> machine \<Rightarrow> u32 \<Rightarrow> u8 option" where
  "umem_of me s \<equiv> umem (mem_of s) (pgdir_of me s)"

definition user_ok :: "kenv \<Rightarrow> nat \<Rightarrow> machine \<Rightarrow> u32 list \<Rightarrow> bool" where
  "user_ok env me s xs \<longleftrightarrow> uvm_inv (ke_end env) (k_mem s) (pgdir_of me s) xs \<and> me < length (procs (k_pt s))"

lemma page_low: "va < KERNBASE \<Longrightarrow> unat (PGROUNDDOWN va) + 4096 \<le> 2 ^ 31"
proof -
  assume "va < KERNBASE"
  then have "PGROUNDDOWN va < KERNBASE" using same_page_user [of va "PGROUNDDOWN va"] PGROUNDDOWN_aligned by simp
  moreover obtain i where "unat (PGROUNDDOWN va) = 4096 * i" using PGROUNDDOWN_aligned [of va] by (auto simp: page_aligned_def)
  ultimately show ?thesis by (simp add: word_less_nat_alt KERNBASE_def)
qed

lemma one_page: "page_aligned a \<Longrightarrow> in_pages a 1 va \<longleftrightarrow> PGROUNDDOWN va = a"
  using in_pages_Suc [of a 0 va] by (simp add: in_pages_def)

lemma page_fault_lazy:
  assumes U: "user_ok env me s xs" and sz: "PGROUNDUP cr2 \<le> p_sz (proc_of me s)" "cr2 < KERNBASE"
    and err: "tf_get me TF_ERR s \<notin> {5, 7}" and none: "umem_of me s cr2 = None" and free: "2 \<le> length xs"
  shows "\<exists>km ys. page_fault env me cr2 s = Ok (s\<lparr>k_mem := km\<rparr>) \<and> user_ok env me (s\<lparr>k_mem := km\<rparr>) ys \<and>
    only_writes (pt_pages (mem_of s) (pgdir_of me s) \<union> set xs) (mem_of s) (km_mem km) \<and>
    (\<forall>va. umem (km_mem km) (pgdir_of me s) va = (if PGROUNDDOWN va = PGROUNDDOWN cr2 then Some 0 else umem_of me s va))"
proof -
  let ?a = "PGROUNDDOWN cr2" and ?pg = "pgdir_of me s"
  obtain x ys where xs: "xs = x # ys" "ys \<noteq> []" using free by (cases xs; cases "tl xs") auto
  have U0: "uvm_inv (ke_end env) (k_mem s) ?pg (x # ys)" and me: "me < length (procs (k_pt s))"
    using U xs by (simp_all add: user_ok_def)
  have low: "?a < KERNBASE" using same_page_user [of cr2 ?a] sz(2) PGROUNDDOWN_aligned by simp
  obtain s1 where s1: "kalloc (k_mem s) = (x, s1)" "km_mem s1 = mem_of s" "x \<noteq> 0" "valid_page (ke_end env) x"
    using kalloc_Cons [OF uvm_kmem [OF U0]] by metis
  let ?m = "memset (km_mem s1) x 0 PGSIZE"
  have w: "only_writes {x} (mem_of s) ?m" using memset_page_writes s1(2) by simp
  have al: "page_aligned ?a" by (rule PGROUNDDOWN_aligned)
  have "lookup_pte (mem_of s) ?pg ?a = lookup_pte (mem_of s) ?pg cr2" by (rule lookup_pte_page) (simp add: al)
  then have np: "lookup_pte (mem_of s) ?pg ?a AND PTE_P = 0"
    using none sz(2) by (simp add: umem_def upresent_def split: if_splits)
  have cond: "\<not> (PGROUNDUP cr2 > p_sz (proc_of me s) \<or> ?a \<ge> KERNBASE)" using sz(1) low by (simp add: not_less not_le)
  from U0 al np user_perm_less s1(1) w show ?thesis
  proof (cases rule: map_fresh)
    case full
    then show ?thesis using xs(2) by simp
  next
    case (entry s' zs)
    have z: "km_mem s' b = 0" if "in_page x b" for b
      using entry(7) [OF that] that by (simp add: memset_apply in_page_PGSIZE)
    have "grown (ke_end env) ?pg ?a (Suc 0) (k_mem s) (x # ys) s' zs"
      by (rule grown_step [OF grown_refl [OF U0] al _ entry(2) _ entry(4-6) z _ entry(8)])
        (use entry(3) in \<open>simp_all add: or.assoc in_pages_def\<close>)
    then have W: "only_writes (pt_pages (mem_of s) ?pg \<union> set xs) (mem_of s) (km_mem s')"
      unfolding xs(1) grown_def by (elim conjE)
    from \<open>grown _ _ _ _ _ _ _ _\<close> have M: "umem (km_mem s') ?pg va = (if PGROUNDDOWN va = ?a then Some 0 else umem_of me s va)" for va
      using grown_umem [OF U0, of ?a 1 s' zs va] al page_low [OF sz(2)] one_page [OF al, of va] by simp
    have "page_fault env me cr2 s = Ok (s\<lparr>k_mem := s'\<rparr>)"
      using cond err entry(1) s1(1,3) by (simp add: page_fault_def Let_def)
    then show ?thesis using M W entry(2) me by (intro exI [of _ s'] exI [of _ zs]) (simp add: user_ok_def)
  qed
qed

lemma page_fault_kills:
  assumes "p_sz (proc_of me s) < PGROUNDUP cr2" "con_ok (m_cons s)"
  shows "\<exists>c. page_fault env me cr2 s = Ok (set_killed me (s\<lparr>m_cons := c\<rparr>))"
proof -
  let ?args = "[col RED, col CYAN, CInt cr2, col RED, col (getColor (m_cons s))]"
  have "args_ok ''%caddr%c 0x%x%c: illegal memory access -- kill proc\<newline>%c'' ?args"
    "args_ok ''%caddr%c 0x%x%c: page could not be allocated -- kill proc\<newline>%c'' ?args" by simp_all
  from print_total [OF this(1) assms(2)] print_total [OF this(2) assms(2)]
  show ?thesis using assms(1) by (auto simp: page_fault_def Let_def)
qed

lemma present_umem: "upresent (mem_of s) (pgdir_of me s) va \<longleftrightarrow> umem_of me s va \<noteq> None"
  by (simp add: umem_def)

lemma fault_in_present: "umem_of me s va \<noteq> None \<Longrightarrow> fault_in env me va s = Ok s"
  using present_umem by (simp add: fault_in_def)

lemma load_byte: "umem_of me s va = Some b \<Longrightarrow> mem_of s (uaddr me va s) = b"
  by (auto simp: umem_def upresent_def uaddr_def split: if_splits)

lemma lazy_load:
  assumes U: "user_ok env me s xs" and sz: "PGROUNDUP a \<le> p_sz (proc_of me s)" "a < KERNBASE"
    and err: "tf_get me TF_ERR s \<notin> {5, 7}" and none: "umem_of me s a = None" and free: "2 \<le> length xs"
  shows "\<exists>km ys. uload env me a 1 s = Ok ([0], s\<lparr>k_mem := km\<rparr>) \<and> user_ok env me (s\<lparr>k_mem := km\<rparr>) ys \<and>
    only_writes (pt_pages (mem_of s) (pgdir_of me s) \<union> set xs) (mem_of s) (km_mem km) \<and>
    (\<forall>va. umem (km_mem km) (pgdir_of me s) va = (if PGROUNDDOWN va = PGROUNDDOWN a then Some 0 else umem_of me s va))"
proof -
  obtain km ys where pf: "page_fault env me a s = Ok (s\<lparr>k_mem := km\<rparr>)" "user_ok env me (s\<lparr>k_mem := km\<rparr>) ys"
    "only_writes (pt_pages (mem_of s) (pgdir_of me s) \<union> set xs) (mem_of s) (km_mem km)"
    "\<forall>va. umem (km_mem km) (pgdir_of me s) va = (if PGROUNDDOWN va = PGROUNDDOWN a then Some 0 else umem_of me s va)"
    using page_fault_lazy [OF U sz err none free] by (elim exE conjE)
  let ?t = "s\<lparr>k_mem := km\<rparr>"
  have v: "umem_of me ?t a = Some 0" using pf(4) by simp
  have "\<not> upresent (mem_of s) (pgdir_of me s) a" using none present_umem by simp
  moreover have "upresent (mem_of ?t) (pgdir_of me ?t) a" using v present_umem [of ?t me a] by simp
  ultimately have f: "fault_in env me a s = Ok ?t" using pf(1) sz(2) by (simp add: fault_in_def not_le)
  have "uload env me a 1 s = Ok ([0], ?t)" using load_byte [OF v] f by (simp add: uload.simps One_nat_def)
  then show ?thesis using pf(2-4) by (intro exI [of _ km] exI [of _ ys] conjI)
qed

section \<open>Storing and loading\<close>

lemma store_byte:
  fixes b :: u8
  assumes U: "user_ok env me s xs" and p: "umem_of me s va \<noteq> None"
  defines "t \<equiv> set_mem ((mem_of s)(uaddr me va s := b)) s"
  shows "user_ok env me t xs" "umem_of me t = (umem_of me s)(va \<mapsto> b)"
proof -
  let ?pg = "pgdir_of me s" and ?f = "uframe (mem_of s) (pgdir_of me s) va" and ?m = "(mem_of s)(uaddr me va s := b)"
  have U0: "uvm_inv (ke_end env) (k_mem s) ?pg xs" using U by (simp add: user_ok_def)
  have pr: "upresent (mem_of s) ?pg va" using p present_umem by simp
  have f: "valid_page (ke_end env) ?f" "?f \<notin> pt_pages (mem_of s) ?pg" "?f \<notin> set xs" using uvm_inv_frame [OF U0 pr] by auto
  have al: "page_aligned ?f" using f(1) by auto
  have low: "va < KERNBASE" using pr by (simp add: upresent_def)
  then have "\<not> KERNBASE \<le> va" by (simp only: not_le)
  then have ua: "uaddr me va s = ?f + (va - PGROUNDDOWN va)" by (simp only: uaddr_def if_False)
  have w: "only_writes {?f} (mem_of s) ?m" using offset_in_page [OF al, of va] ua by (auto simp: only_writes_def)
  have tm: "mem_of t = ?m" "pgdir_of me t = ?pg" "k_mem t = (k_mem s)\<lparr>km_mem := ?m\<rparr>" "k_pt t = k_pt s" by (simp_all add: t_def set_mem_def)
  show "user_ok env me t xs"
    using uvm_inv_page_write [OF U0 f w] U tm by (simp add: user_ok_def)
  have L: "lookup_pte ?m ?pg v = lookup_pte (mem_of s) ?pg v" for v
  proof (rule lookup_pte_frame)
    fix p a assume p: "p \<in> pt_pages (mem_of s) ?pg" and a: "in_page p a"
    have "page_aligned p" by (rule valid_page_aligned [OF pt_pages_valid [OF uvm_wf [OF U0] p]])
    moreover have "p \<notin> {?f}" using p f(2) by auto
    ultimately show "?m a = mem_of s a" by (intro only_writes_page [OF w _ _ _ a]) (simp_all add: al)
  qed
  show "umem_of me t = (umem_of me s)(va \<mapsto> b)"
  proof
    fix v
    show "umem_of me t v = ((umem_of me s)(va \<mapsto> b)) v"
    proof (cases "upresent (mem_of s) ?pg v \<and> uframe (mem_of s) ?pg v = ?f")
      case True
      then have same: "PGROUNDDOWN v = PGROUNDDOWN va" by (intro uvm_inv_inj [OF U0 _ pr]) auto
      have "umem_of me t v = Some (?m (?f + (v - PGROUNDDOWN v)))" using True tm L by (simp add: umem_def upresent_def uframe_def)
      moreover have "umem_of me s v = Some (mem_of s (?f + (v - PGROUNDDOWN v)))" using True by (simp add: umem_def)
      ultimately show ?thesis using same ua by auto
    next
      case False
      then have "v \<noteq> va" using pr by auto
      moreover have "umem ?m ?pg v = umem_of me s v"
        by (rule umem_kept [OF U0 w _ L]) (use al False in auto)
      ultimately show ?thesis using tm by simp
    qed
  qed
qed

text \<open>The \<open>n\<close> bytes from \<open>a\<close> on are mapped.\<close>

definition mapped :: "nat \<Rightarrow> machine \<Rightarrow> u32 \<Rightarrow> nat \<Rightarrow> bool" where
  "mapped me s a n \<longleftrightarrow> (\<forall>i<n. umem_of me s (a + of_nat i) \<noteq> None)"

lemma mapped_Suc: "mapped me s a (Suc n) \<longleftrightarrow> umem_of me s a \<noteq> None \<and> mapped me s (a + 1) n"
proof -
  have "(\<forall>i<Suc n. umem_of me s (a + of_nat i) \<noteq> None) \<longleftrightarrow> umem_of me s a \<noteq> None \<and> (\<forall>i<n. umem_of me s (a + 1 + of_nat i) \<noteq> None)"
    by (simp add: All_less_Suc2 add.assoc)
  then show ?thesis by (simp only: mapped_def)
qed

lemma uload_spec:
  "mapped me s a n \<Longrightarrow> uload env me a n s = Ok (map (\<lambda>i. the (umem_of me s (a + of_nat i))) [0..<n], s)"
proof (induction n arbitrary: a)
  case (Suc n)
  have h: "umem_of me s a \<noteq> None" "mapped me s (a + 1) n" using Suc.prems mapped_Suc by blast+
  obtain b where b: "umem_of me s a = Some b" using h(1) by blast
  have "map (\<lambda>i. the (umem_of me s (a + of_nat i))) [0..<Suc n] = b # map (\<lambda>i. the (umem_of me s (a + 1 + of_nat i))) [0..<n]"
    using b by (simp add: upt_conv_Cons map_Suc_upt [symmetric] comp_def add.assoc del: upt_Suc)
  then show ?case using Suc.IH [OF h(2)] fault_in_present [OF h(1)] load_byte [OF b] by (simp add: Let_def del: upt_Suc)
qed simp

section \<open>Pointer arguments\<close>

lemma argptr_bounds:
  assumes r: "argptr env me n len s = Ok (Some i, t)" and sz: "p_sz (proc_of me t) \<le> KERNBASE" and len: "len < 2 ^ 31"
  shows "0 \<le> len \<and> unat i + nat len \<le> unat (p_sz (proc_of me t))"
proof -
  let ?sz = "p_sz (proc_of me t)"
  have c: "0 \<le> len" "i < ?sz" "i + word_of_int len \<le> ?sz"
    using r by (auto simp: argptr_def outcome_simps Let_def not_less not_le split: option.splits if_splits)
  have "unat ?sz \<le> 2 ^ 31" using sz by (simp add: word_le_nat_alt KERNBASE_def)
  then have i: "unat i < 2 ^ 31" using c(2) by (simp add: word_less_nat_alt)
  have l: "unat (word_of_int len :: u32) = nat len" using c(1) len by (simp add: unat_eq_nat_uint uint_word_of_int take_bit_int_eq_self)
  have "unat (i + word_of_int len) = unat i + nat len"
    using unat_add_lem [THEN iffD1, of i "word_of_int len"] i l c(1) len by simp
  then show ?thesis using c by (simp add: word_le_nat_alt)
qed

section \<open>Sleeping\<close>

lemma unat_lt_2_32: "unat (n :: u32) < 2 ^ 32"
  using unsigned_less [of n] by simp

lemma tick_procs: "m_ticks (timer_tick env 0 s) = m_ticks s + 1" "length (procs (k_pt (timer_tick env 0 s))) = length (procs (k_pt s))"
  "me < length (procs (k_pt s)) \<Longrightarrow> p_killed (proc_of me (timer_tick env 0 s)) = p_killed (proc_of me s)"
  "me < length (procs (k_pt s)) \<Longrightarrow> p_state (proc_of me s) = SLEEPING \<Longrightarrow> p_chan (proc_of me s) = Some (Ch_addr (ke_ticks env)) \<Longrightarrow>
     p_state (proc_of me (timer_tick env 0 s)) = RUNNABLE"
  by (simp_all add: timer_tick_def wake_def wakeup_def wakeup1_def)

lemma ticks_after: "m_ticks ((timer_tick env 0 ^^ k) s) = m_ticks s + of_nat k"
  by (induction k) (simp_all add: tick_procs)

section \<open>Properties\<close>

definition kenv0 :: kenv where
  "kenv0 = \<lparr>ke_end = 0x80100000, ke_data = 0x80108000, ke_trapret = 0, ke_forkret = 0, ke_log = 0x80109000,
     ke_ticks = 0x8010A000, ke_input = 0x8010B000\<rparr>"

definition machine0 :: machine where
  "machine0 = \<lparr>fdk = fdk fs0, fsb = fsb fs0, icache = icache fs0, k_files = replicate NFILE file_init, k_pipes = (\<lambda>_. None),
     k_mem = kmem2,
     k_pt = \<lparr>procs = (replicate NPROC proc0)[0 := proc0\<lparr>p_state := RUNNING, p_pid := 1, p_pgdir := 0x80200000,
       p_sz := 0x2000, p_tf := 0x80400000\<rparr>], nextpid = 2, initproc = None\<rparr>,
     m_cons = console0, m_ticks = 0, m_first = False, m_shift = 0\<rparr>"

lemma machine0_fields:
  "k_mem machine0 = kmem2" "length (procs (k_pt machine0)) = 64" "p_pgdir (proc_of 0 machine0) = 0x80200000"
  "p_sz (proc_of 0 machine0) = 0x2000" "p_tf (proc_of 0 machine0) = 0x80400000" "m_cons machine0 = console0"
  "p_killed (proc_of 0 machine0) = False" "p_state (proc_of 0 machine0) = RUNNING" "m_ticks machine0 = 0"
  by (simp_all add: machine0_def NPROC_def proc0_def nth_list_update)

lemma machine0_ok: "user_ok kenv0 0 machine0 [0x80300000, 0x80301000]"
  using kmem2_inv by (simp add: user_ok_def machine0_fields kenv0_def)

lemma machine0_umem: "umem_of 0 machine0 va = None"
  using kmem2_empty by (simp add: machine0_fields)

lemma machine0_tf:
  assumes "only_writes {0x80200000, 0x80300000, 0x80301000} (km_mem kmem2) m" "off \<le> 72"
  shows "ld32 m (0x80400000 + off) = 0"
proof -
  have z: "m (0x80400000 + b) = 0" if b: "b < 4096" for b
  proof -
    have "in_page 0x80400000 (0x80400000 + b)" using b by (simp add: in_page_def word_less_nat_alt)
    then have n: "\<not> in_page p (0x80400000 + b)" if "p \<in> {0x80200000, 0x80300000, 0x80301000}" for p
      using that in_page_unique [of p "0x80400000" "0x80400000 + b"] by (auto simp: page_aligned_def)
    then show ?thesis using assms(1) kmem2_zero [of "0x80400000 + b"] by (simp add: only_writes_def)
  qed
  have lt: "off + k < 4096" if "k \<le> 3" for k
    using assms(2) that by (simp add: word_less_nat_alt word_le_nat_alt unat_word_ariths)
  have "off < 4096" using lt [of 0] by simp
  then show ?thesis using lt [of 1] lt [of 2] lt [of 3] z [of off] z [of "off + 1"] z [of "off + 2"] z [of "off + 3"]
    by (simp add: ld32_def join4_def add.assoc word_less_nat_alt word_le_nat_alt)
qed

lemma machine0_pages: "pt_pages (km_mem kmem2) 0x80200000 \<union> set [0x80300000, 0x80301000] = {0x80200000, 0x80300000, 0x80301000}"
  using kmem2_no_tables by (auto simp: pt_pages_def)

lemma machine0_err: "tf_get 0 TF_ERR machine0 = 0"
  using machine0_tf [of "km_mem kmem2" TF_ERR] by (simp add: tf_get_def machine0_fields only_writes_refl TF_ERR_def)

text \<open>A state in which page 0 of the process is mapped and zeroed.\<close>

lemma machine0_touched:
  obtains km ys where "uload kenv0 0 0x10 1 machine0 = Ok ([0], machine0\<lparr>k_mem := km\<rparr>)" "user_ok kenv0 0 (machine0\<lparr>k_mem := km\<rparr>) ys"
    "\<forall>va. va < 0x1000 \<longrightarrow> umem (km_mem km) 0x80200000 va = Some 0" "\<forall>off. off \<le> 72 \<longrightarrow> ld32 (km_mem km) (0x80400000 + off) = 0"
proof -
  have pre: "PGROUNDUP 0x10 \<le> p_sz (proc_of 0 machine0)" "(0x10 :: u32) < KERNBASE" "tf_get 0 TF_ERR machine0 \<notin> {5, 7}"
    "2 \<le> length [0x80300000, 0x80301000 :: u32]"
    by (simp_all add: machine0_fields machine0_err PGROUNDUP_def PGSIZE_def KERNBASE_def)
  obtain km ys where k: "uload kenv0 0 0x10 1 machine0 = Ok ([0], machine0\<lparr>k_mem := km\<rparr>)" "user_ok kenv0 0 (machine0\<lparr>k_mem := km\<rparr>) ys"
    "only_writes (pt_pages (mem_of machine0) (pgdir_of 0 machine0) \<union> set [0x80300000, 0x80301000]) (mem_of machine0) (km_mem km)"
    "\<forall>va. umem (km_mem km) (pgdir_of 0 machine0) va = (if PGROUNDDOWN va = PGROUNDDOWN 0x10 then Some 0 else umem_of 0 machine0 va)"
    using lazy_load [OF machine0_ok pre(1-3) machine0_umem pre(4)] by (elim exE conjE)
  have pg: "PGROUNDDOWN va = PGROUNDDOWN 0x10" if "va < 0x1000" for va
  proof -
    have "unat va div 4096 = 0" using that by (simp add: word_less_nat_alt)
    then show ?thesis by (simp add: word_unat_eq_iff PGROUNDDOWN_unat)
  qed
  show thesis
  proof (rule that [OF k(1,2)])
    show "\<forall>va. va < 0x1000 \<longrightarrow> umem (km_mem km) 0x80200000 va = Some 0"
    proof (intro allI impI)
      fix va :: u32 assume "va < 0x1000"
      from pg [OF this] show "umem (km_mem km) 0x80200000 va = Some 0" using k(4) [rule_format, of va] by (simp add: machine0_fields)
    qed
    show "\<forall>off. off \<le> 72 \<longrightarrow> ld32 (km_mem km) (0x80400000 + off) = 0"
      using machine0_tf [OF k(3) [unfolded machine0_fields machine0_pages]] by (intro allI impI)
  qed
qed

text \<open>
  C30. Memory that \<^verbatim>\<open>sbrk\<close> promised is allocated at the first access: when the kernel reads a byte of the process on a page that
  lies below the break and is not mapped yet, and two free pages are left (one for a page table), the fault handler maps
  one page, the read returns zero, the process is not killed, and its memory is unchanged on all other
  pages. Page tables, frames and free pages stay disjoint.
\<close>

theorem lazy_allocation:
  assumes "user_ok env me s xs" "PGROUNDUP a \<le> p_sz (proc_of me s)" "a < KERNBASE" "tf_get me TF_ERR s \<notin> {5, 7}"
    "umem_of me s a = None" "2 \<le> length xs"
  shows "\<exists>km ys. uload env me a 1 s = Ok ([0], s\<lparr>k_mem := km\<rparr>) \<and> user_ok env me (s\<lparr>k_mem := km\<rparr>) ys \<and>
    (\<forall>va. umem (km_mem km) (pgdir_of me s) va = (if PGROUNDDOWN va = PGROUNDDOWN a then Some 0 else umem_of me s va))"
  using lazy_load [OF assms] by (elim exE conjE) (intro exI conjI)

theorem lazy_allocation_witness:
  "\<exists>km. uload kenv0 0 0x10 1 machine0 = Ok ([0], machine0\<lparr>k_mem := km\<rparr>)"
proof -
  have pre: "PGROUNDUP 0x10 \<le> p_sz (proc_of 0 machine0)" "(0x10 :: u32) < KERNBASE" "tf_get 0 TF_ERR machine0 \<notin> {5, 7}"
    "2 \<le> length [0x80300000, 0x80301000 :: u32]"
    by (simp_all add: machine0_fields machine0_err PGROUNDUP_def PGSIZE_def KERNBASE_def)
  show ?thesis using lazy_allocation [OF machine0_ok pre(1-3) machine0_umem pre(4)] by (elim exE conjE) (rule exI)
qed

text \<open>
  C31. The bound that the fault handler checks is off at both ends of the last page. An address below the break, on the page
  that the break cuts, kills the process; an unmapped address equal to a page-aligned break, outside the
  memory of the process, gets a page.
\<close>

theorem page_fault_at_break:
  assumes "con_ok (m_cons s)" "user_ok env me s xs" "tf_get me TF_ERR s \<notin> {5, 7}" "2 \<le> length xs"
  shows "(a < p_sz (proc_of me s) \<and> p_sz (proc_of me s) < PGROUNDUP a \<longrightarrow>
      (\<exists>t. page_fault env me a s = Ok t \<and> p_killed (proc_of me t) \<and> umem_of me t = umem_of me s)) \<and>
    (a = p_sz (proc_of me s) \<and> PGROUNDUP a = a \<and> a < KERNBASE \<and> umem_of me s a = None \<longrightarrow>
      (\<exists>t. page_fault env me a s = Ok t \<and> p_killed (proc_of me t) = p_killed (proc_of me s) \<and> umem_of me t a = Some 0))"
proof (intro conjI impI)
  have me: "me < length (procs (k_pt s))" using assms(2) by (simp add: user_ok_def)
  assume "a < p_sz (proc_of me s) \<and> p_sz (proc_of me s) < PGROUNDUP a"
  then obtain c where "page_fault env me a s = Ok (set_killed me (s\<lparr>m_cons := c\<rparr>))"
    using page_fault_kills [OF _ assms(1)] by blast
  then show "\<exists>t. page_fault env me a s = Ok t \<and> p_killed (proc_of me t) \<and> umem_of me t = umem_of me s"
    using me by (simp add: set_killed_def set_proc_def upd_proc_def)
next
  assume h: "a = p_sz (proc_of me s) \<and> PGROUNDUP a = a \<and> a < KERNBASE \<and> umem_of me s a = None"
  have "PGROUNDUP a \<le> a" by (rule eq_refl) (use h in blast)
  then have "PGROUNDUP a \<le> p_sz (proc_of me s)" using conjunct1 [OF h] by (simp only:)
  from page_fault_lazy [OF assms(2) this _ assms(3) _ assms(4)] h
  show "\<exists>t. page_fault env me a s = Ok t \<and> p_killed (proc_of me t) = p_killed (proc_of me s) \<and> umem_of me t a = Some 0"
    by auto
qed

theorem page_fault_at_break_witness:
  "\<exists>t. page_fault kenv0 0 0x2000 machine0 = Ok t \<and> \<not> p_killed (proc_of 0 t) \<and> umem_of 0 t 0x2000 = Some 0"
  using page_fault_at_break [OF _ machine0_ok, of "0x2000"] console0_ok machine0_umem
  by (simp add: machine0_fields machine0_err con_ok_def PGROUNDUP_def PGSIZE_def KERNBASE_def)

text \<open>
  C32. A pointer argument that \<^verbatim>\<open>argptr\<close> accepts, with its length, lies within the size of the process, without wrap-around, as
  long as that size does not exceed \<^verbatim>\<open>KERNBASE\<close>.
\<close>

theorem argptr_within_size:
  assumes "argptr env me n len s = Ok (Some i, t)" "p_sz (proc_of me t) \<le> KERNBASE" "len < 2 ^ 31"
  shows "0 \<le> len \<and> unat i + nat len \<le> unat (p_sz (proc_of me t))"
  by (rule argptr_bounds [OF assms])

theorem argptr_within_size_witness:
  "\<exists>i t. argptr kenv0 0 0 16 t = Ok (Some i, t) \<and> unat i + 16 \<le> unat (p_sz (proc_of 0 t))"
proof -
  obtain km ys where k: "uload kenv0 0 0x10 1 machine0 = Ok ([0], machine0\<lparr>k_mem := km\<rparr>)" "user_ok kenv0 0 (machine0\<lparr>k_mem := km\<rparr>) ys"
    "\<forall>va. va < 0x1000 \<longrightarrow> umem (km_mem km) 0x80200000 va = Some 0" "\<forall>off. off \<le> 72 \<longrightarrow> ld32 (km_mem km) (0x80400000 + off) = 0"
    by (rule machine0_touched)
  let ?t = "machine0\<lparr>k_mem := km\<rparr>"
  have esp: "tf_get 0 TF_ESP ?t = 0" using k(4) [rule_format, of TF_ESP] by (simp add: tf_get_def machine0_fields TF_ESP_def)
  have v: "umem (km_mem km) 0x80200000 4 = Some 0" "umem (km_mem km) 0x80200000 5 = Some 0"
    "umem (km_mem km) 0x80200000 6 = Some 0" "umem (km_mem km) 0x80200000 7 = Some 0" using k(3) by simp_all
  have "{..<4} = {0, 1, 2, 3 :: nat}" by auto
  then have m: "mapped 0 ?t 4 4" using v by (simp add: mapped_def machine0_fields Ball_def [symmetric] lessThan_iff [symmetric] del: lessThan_iff)
  have "uload kenv0 0 4 4 ?t = Ok (map (\<lambda>i. the (umem_of 0 ?t (4 + of_nat i))) [0..<4], ?t)" by (rule uload_spec [OF m])
  moreover have "map (\<lambda>i. the (umem_of 0 ?t (4 + of_nat i))) [0..<4] = [0, 0, 0, 0]"
    using v by (simp add: machine0_fields upt_rec)
  ultimately have u: "uload kenv0 0 4 4 ?t = Ok ([0, 0, 0, 0], ?t)" by simp
  have "argptr kenv0 0 0 16 ?t = Ok (Some 0, ?t)"
    by (simp add: argptr_def argint_def fetchint_def esp machine0_fields u bytes_word_def join4_def)
  from argptr_within_size [OF this] this show ?thesis by (intro exI [of _ 0] exI [of _ ?t]) (simp add: machine0_fields KERNBASE_def)
qed

text \<open>
  C33. A process that sleeps for \<open>n\<close> clock ticks is made runnable by every tick, finds its time not over before \<open>n\<close> ticks have
  passed, and returns 0 once they have.
\<close>

theorem sleep_ends_after_ticks:
  assumes "me < length (procs (k_pt s))" "unat n \<le> k" "k < 2 ^ 32"
  shows "sleep_test me (m_ticks s) n ((timer_tick env 0 ^^ k) s) = Ok (Some 0, (timer_tick env 0 ^^ k) s) \<and>
    (j < unat n \<and> \<not> p_killed (proc_of me ((timer_tick env 0 ^^ j) s)) \<longrightarrow> sleep_test me (m_ticks s) n ((timer_tick env 0 ^^ j) s) = Blocked) \<and>
    (p_state (proc_of me s) = SLEEPING \<and> p_chan (proc_of me s) = Some (Ch_addr (ke_ticks env)) \<longrightarrow>
      p_state (proc_of me (timer_tick env 0 s)) = RUNNABLE)"
proof -
  have "\<not> (of_nat k :: u32) < n" using assms(2,3) by (simp add: word_less_nat_alt unat_of_nat take_bit_nat_eq_self)
  moreover have "(of_nat j :: u32) < n" if "j < unat n"
    using that unat_lt_2_32 [of n] by (simp add: word_less_nat_alt unat_of_nat take_bit_nat_eq_self)
  ultimately show ?thesis using tick_procs(4) [OF assms(1)] by (simp add: sleep_test_def ticks_after)
qed

theorem sleep_ends_after_ticks_witness:
  "sleep_test 0 (m_ticks machine0) 3 ((timer_tick kenv0 0 ^^ 5) machine0) = Ok (Some 0, (timer_tick kenv0 0 ^^ 5) machine0)"
  using sleep_ends_after_ticks [of 0 machine0 3 5 kenv0] by (simp add: machine0_fields)

end
