(* ===== verification/User_Grep.thy ===== *)
theory User_Grep
  imports Kernel_Base
begin

text \<open>
  The user program \<^verbatim>\<open>grep\<close>: the regular-expression matcher and the line loop of \<^verbatim>\<open>user/grep.c\<close>. A C string is the list of its
  bytes before the NUL, so that the empty list is the end of the string.
\<close>

definition HAT :: u8 where "HAT = 94"
definition DOT :: u8 where "DOT = 46"
definition STAR :: u8 where "STAR = 42"
definition DOLLAR :: u8 where "DOLLAR = 36"

section \<open>The matcher\<close>

function (sequential) matchhere :: "u8 list \<Rightarrow> u8 list \<Rightarrow> bool"
  and matchstar :: "u8 \<Rightarrow> u8 list \<Rightarrow> u8 list \<Rightarrow> bool" where
  "matchhere [] text = True"
| "matchhere (c # re) text =
     (if re \<noteq> [] \<and> hd re = STAR then matchstar c (tl re) text
      else if c = DOLLAR \<and> re = [] then text = []
      else if text \<noteq> [] \<and> (c = DOT \<or> c = hd text) then matchhere re (tl text)
      else False)"
| "matchstar c re text =
     (if matchhere re text then True
      else if text \<noteq> [] \<and> (hd text = c \<or> c = DOT) then matchstar c re (tl text)
      else False)"
  by pat_completeness auto
termination
  by (relation "inv_image (less_than <*lex*> less_than)
      (\<lambda>x. case x of Inl (re, text) \<Rightarrow> (2 * length re, 0) | Inr (c, re, text) \<Rightarrow> (2 * length re + 1, length text))")
    (auto simp: neq_Nil_conv)

declare matchhere.simps(2) [simp del] matchstar.simps [simp del]

text \<open>The loop of \<^verbatim>\<open>match\<close> tries every suffix of the text, the empty one too.\<close>

fun match_loop :: "u8 list \<Rightarrow> u8 list \<Rightarrow> bool" where
  "match_loop re text =
     (if matchhere re text then True else case text of [] \<Rightarrow> False | _ # text \<Rightarrow> match_loop re text)"

definition match :: "u8 list \<Rightarrow> u8 list \<Rightarrow> bool" where
  "match re text = (if re \<noteq> [] \<and> hd re = HAT then matchhere (tl re) text else match_loop re text)"

declare match_loop.simps [simp del]

section \<open>The line loop\<close>

definition NL :: u8 where "NL = 10"

text \<open>\<^verbatim>\<open>strchr(p, '\n')\<close> on the rest of the buffer, which ends at its NUL: the bytes before the newline and those after it.\<close>

fun split_line :: "u8 list \<Rightarrow> (u8 list \<times> u8 list) option" where
  "split_line [] = None"
| "split_line (c # s) =
     (if c = 0 then None
      else if c = NL then Some ([], s)
      else map_option (\<lambda>(l, r). (c # l, r)) (split_line s))"

lemma split_line_shorter: "split_line s = Some (l, r) \<Longrightarrow> length r < length s"
  by (induction s arbitrary: l) (auto split: if_splits)

text \<open>The inner loop: the lines written, and what is left of the buffer.\<close>

function grep_lines :: "u8 list \<Rightarrow> u8 list \<Rightarrow> u8 list \<times> u8 list" where
  "grep_lines pattern s =
     (case split_line s of
        None \<Rightarrow> ([], s)
      | Some (l, r) \<Rightarrow>
          let (out, rest) = grep_lines pattern r in ((if match pattern l then l @ [NL] else []) @ out, rest))"
  by pat_completeness auto
termination
  by (relation "measure (\<lambda>(pattern, s). length s)") (auto dest: split_line_shorter)

declare grep_lines.simps [simp del]

text \<open>
  The outer loop, with the bytes \<open>m\<close> kept from the last turn. The input is the list of the pieces in which the bytes arrive (lines
  typed, writes to a pipe): a read returns at most the room that is left and leaves the rest of the piece for the next one. With
  a full buffer it returns 0 and the loop ends; a buffer without a newline is dropped.
\<close>

function grep_loop :: "u8 list \<Rightarrow> u8 list \<Rightarrow> u8 list list \<Rightarrow> u8 list" where
  "grep_loop pattern m [] = []"
| "grep_loop pattern m (chunk # chunks) =
     (if chunk = [] \<or> length m \<ge> 1023 then []
      else
        let n = 1023 - length m; s = m @ take n chunk; (out, rest) = grep_lines pattern s;
            chunks = (if length chunk \<le> n then chunks else drop n chunk # chunks)
        in out @ grep_loop pattern (if length rest = length s then [] else rest) chunks)"
  by pat_completeness auto
termination
  by (relation "measure (\<lambda>(pattern, m, chunks). length (concat chunks) + length chunks)") (auto split: if_splits)

definition grep :: "u8 list \<Rightarrow> u8 list list \<Rightarrow> u8 list" where
  "grep pattern chunks = grep_loop pattern [] chunks"

section \<open>What a pattern matches\<close>

text \<open>The patterns as a grammar: a pattern at the beginning of a text.\<close>

inductive here :: "u8 list \<Rightarrow> u8 list \<Rightarrow> bool" where
  empty: "here [] t"
| star: "here re t \<Longrightarrow> \<forall>x\<in>set xs. c = DOT \<or> x = c \<Longrightarrow> here (c # STAR # re) (xs @ t)"
| at_end: "here [DOLLAR] []"
| one: "here re t \<Longrightarrow> c = DOT \<or> x = c \<Longrightarrow> \<not> (re \<noteq> [] \<and> hd re = STAR) \<Longrightarrow> \<not> (c = DOLLAR \<and> re = []) \<Longrightarrow> here (c # re) (x # t)"

inductive_cases here_ConsE: "here (c # re) t"

lemma here_star_iff: "here (c # STAR # re) t \<longleftrightarrow> (\<exists>xs u. t = xs @ u \<and> (\<forall>x\<in>set xs. c = DOT \<or> x = c) \<and> here re u)"
proof
  assume "here (c # STAR # re) t"
  then show "\<exists>xs u. t = xs @ u \<and> (\<forall>x\<in>set xs. c = DOT \<or> x = c) \<and> here re u"
  proof cases
    case (star t' xs)
    then show ?thesis by (intro exI [of _ xs] exI [of _ t'] conjI)
  qed auto
next
  assume "\<exists>xs u. t = xs @ u \<and> (\<forall>x\<in>set xs. c = DOT \<or> x = c) \<and> here re u"
  then obtain xs u where "t = xs @ u" "\<forall>x\<in>set xs. c = DOT \<or> x = c" "here re u" by (elim exE conjE)
  then show "here (c # STAR # re) t" by (simp only: here.star)
qed

lemma here_one_iff:
  assumes "\<not> (re \<noteq> [] \<and> hd re = STAR)" "\<not> (c = DOLLAR \<and> re = [])"
  shows "here (c # re) t \<longleftrightarrow> t \<noteq> [] \<and> (c = DOT \<or> hd t = c) \<and> here re (tl t)"
proof
  assume "here (c # re) t"
  then show "t \<noteq> [] \<and> (c = DOT \<or> hd t = c) \<and> here re (tl t)" using assms by cases auto
next
  assume "t \<noteq> [] \<and> (c = DOT \<or> hd t = c) \<and> here re (tl t)"
  then show "here (c # re) t" using assms here.one [of re "tl t" c "hd t"] by auto
qed

lemma here_end_iff: "here [DOLLAR] t \<longleftrightarrow> t = []"
  by (auto elim: here_ConsE intro: here.at_end)

lemma matcher_correct:
  "matchhere re t \<longleftrightarrow> here re t"
  "matchstar c re t \<longleftrightarrow> (\<exists>xs u. t = xs @ u \<and> (\<forall>x\<in>set xs. c = DOT \<or> x = c) \<and> here re u)"
proof (induction re t and c re t rule: matchhere_matchstar.induct)
  case (1 t)
  then show ?case by (simp add: here.empty)
next
  case (2 c re t)
  consider "re \<noteq> [] \<and> hd re = STAR" | "\<not> (re \<noteq> [] \<and> hd re = STAR)" "c = DOLLAR \<and> re = []"
    | "\<not> (re \<noteq> [] \<and> hd re = STAR)" "\<not> (c = DOLLAR \<and> re = [])" by blast
  then show ?case
  proof cases
    case 1
    then obtain re' where "re = STAR # re'" by (cases re) auto
    then show ?thesis using 1 2 by (simp add: matchhere.simps here_star_iff)
  next
    case 2
    then show ?thesis by (simp add: matchhere.simps here_end_iff)
  next
    case 3
    show ?thesis using 3 "2.IH"(2) [OF 3] unfolding here_one_iff [OF 3] by (auto simp: matchhere.simps(2))
  qed
next
  case (3 c re t)
  let ?R = "\<lambda>t. \<exists>xs u. t = xs @ u \<and> (\<forall>x\<in>set xs. c = DOT \<or> x = c) \<and> here re u"
  have step: "?R t \<longleftrightarrow> here re t \<or> (t \<noteq> [] \<and> (hd t = c \<or> c = DOT) \<and> ?R (tl t))"
  proof
    assume "?R t"
    then obtain xs u where h: "t = xs @ u" "\<forall>x\<in>set xs. c = DOT \<or> x = c" "here re u" by blast
    then show "here re t \<or> (t \<noteq> [] \<and> (hd t = c \<or> c = DOT) \<and> ?R (tl t))" by (cases xs) auto
  next
    assume "here re t \<or> (t \<noteq> [] \<and> (hd t = c \<or> c = DOT) \<and> ?R (tl t))"
    then show "?R t"
    proof
      assume "here re t"
      then show "?R t" by (intro exI [of _ "[]"] exI [of _ t]) simp
    next
      assume h: "t \<noteq> [] \<and> (hd t = c \<or> c = DOT) \<and> ?R (tl t)"
      then obtain xs u where "tl t = xs @ u" "\<forall>x\<in>set xs. c = DOT \<or> x = c" "here re u" by blast
      then show "?R t" using h by (intro exI [of _ "hd t # xs"] exI [of _ u]) (cases t, auto)
    qed
  qed
  show ?case unfolding step using 3 by (subst matchstar.simps) auto
qed

lemma match_loop_iff: "match_loop re t \<longleftrightarrow> (\<exists>u v. t = u @ v \<and> here re v)"
proof (induction t)
  case Nil
  then show ?case by (simp add: matcher_correct match_loop.simps)
next
  case (Cons c t)
  have "(\<exists>u v. c # t = u @ v \<and> here re v) \<longleftrightarrow> here re (c # t) \<or> (\<exists>u v. t = u @ v \<and> here re v)"
  proof
    assume "\<exists>u v. c # t = u @ v \<and> here re v"
    then obtain u v where "c # t = u @ v" "here re v" by (elim exE conjE)
    then show "here re (c # t) \<or> (\<exists>u v. t = u @ v \<and> here re v)" by (cases u) auto
  next
    assume "here re (c # t) \<or> (\<exists>u v. t = u @ v \<and> here re v)"
    then show "\<exists>u v. c # t = u @ v \<and> here re v"
    proof
      assume "here re (c # t)"
      then show ?thesis by (intro exI [of _ "[]"] exI [of _ "c # t"]) simp
    next
      assume "\<exists>u v. t = u @ v \<and> here re v"
      then obtain u v where "t = u @ v" "here re v" by (elim exE conjE)
      then show ?thesis by (intro exI [of _ "c # u"] exI [of _ v]) simp
    qed
  qed
  then show ?case using Cons by (subst match_loop.simps) (simp add: matcher_correct)
qed

section \<open>Lines\<close>

definition plain :: "u8 list \<Rightarrow> bool" where
  "plain l \<longleftrightarrow> 0 \<notin> set l \<and> NL \<notin> set l"

definition text_of :: "u8 list list \<Rightarrow> u8 list" where
  "text_of ls = concat (map (\<lambda>l. l @ [NL]) ls)"

lemma split_line_plain: "plain l \<Longrightarrow> split_line (l @ NL # s) = Some (l, s)"
  by (induction l) (auto simp: plain_def NL_def)

lemma text_of_simps [simp]: "text_of [] = []" "text_of (l # ls) = l @ NL # text_of ls" "text_of (xs @ ys) = text_of xs @ text_of ys"
  by (simp_all add: text_of_def)

lemma split_line_none: "plain t \<Longrightarrow> split_line t = None"
  by (induction t) (auto simp: plain_def)

lemma grep_lines_text:
  "\<forall>l\<in>set ls. plain l \<Longrightarrow> plain t \<Longrightarrow> grep_lines pattern (text_of ls @ t) = (text_of (filter (match pattern) ls), t)"
proof (induction ls)
  case Nil
  then show ?case by (subst grep_lines.simps) (simp add: split_line_none)
next
  case (Cons l ls)
  then have "grep_lines pattern (text_of ls @ t) = (text_of (filter (match pattern) ls), t)" by simp
  moreover have "split_line (text_of (l # ls) @ t) = Some (l, text_of ls @ t)" using split_line_plain [of l] Cons.prems by simp
  ultimately show ?case by (subst grep_lines.simps) simp
qed

text \<open>Bytes without a NUL are complete lines and the beginning of another.\<close>

lemma text_split: "0 \<notin> set s \<Longrightarrow> \<exists>ls t. s = text_of ls @ t \<and> (\<forall>l\<in>set ls. plain l) \<and> plain t"
proof (induction s)
  case Nil
  then show ?case by (intro exI [of _ "[]"]) (simp add: plain_def)
next
  case (Cons c s)
  then obtain ls t where s: "s = text_of ls @ t" "\<forall>l\<in>set ls. plain l" "plain t" by auto
  show ?case
  proof (cases "c = NL")
    case True
    then show ?thesis using s by (intro exI [of _ "[] # ls"] exI [of _ t]) (simp add: plain_def)
  next
    case False
    then have c: "plain [c]" using Cons.prems by (simp add: plain_def)
    show ?thesis
    proof (cases ls)
      case Nil
      then show ?thesis using s c by (intro exI [of _ "[]"] exI [of _ "c # t"]) (simp add: plain_def)
    next
      case (Cons l ls')
      then show ?thesis using s c by (intro exI [of _ "(c # l) # ls'"] exI [of _ t]) (simp add: plain_def)
    qed
  qed
qed

lemma plain_before_newline: "plain l \<Longrightarrow> plain l' \<Longrightarrow> l @ NL # u = l' @ NL # v \<longleftrightarrow> l = l' \<and> u = v"
proof (induction l arbitrary: l')
  case Nil
  then show ?case by (cases l') (auto simp: plain_def)
next
  case (Cons c l)
  then show ?case by (cases l') (auto simp: plain_def)
qed

lemma text_prefix:
  "text_of ls @ u = text_of ks @ t \<Longrightarrow> \<forall>l\<in>set ls. plain l \<Longrightarrow> \<forall>k\<in>set ks. plain k \<Longrightarrow> plain t \<Longrightarrow>
   \<exists>ks'. ks = ls @ ks' \<and> u = text_of ks' @ t"
proof (induction ls arbitrary: ks)
  case (Cons l ls)
  then obtain k ks' where ks: "ks = k # ks'" by (cases ks) (auto simp: plain_def)
  then have "l = k" "text_of ls @ u = text_of ks' @ t" using Cons.prems plain_before_newline [of l k] by auto
  then show ?case using Cons.IH [of ks'] Cons.prems ks by auto
qed simp

section \<open>Reads that keep their lines\<close>

text \<open>Every buffer that \<^verbatim>\<open>grep\<close> works on, except perhaps the last, contains a newline. The bytes after the last newline are \<open>tail_of\<close>.\<close>

definition tail_of :: "u8 list \<Rightarrow> u8 list" where
  "tail_of s = rev (takeWhile (\<lambda>c. c \<noteq> NL) (rev s))"

lemma tail_of_text: "plain t \<Longrightarrow> ls \<noteq> [] \<Longrightarrow> tail_of (text_of ls @ t) = t"
proof -
  assume t: "plain t" and ls: "ls \<noteq> []"
  then obtain ks k where "ls = ks @ [k]" by (cases ls rule: rev_cases) auto
  moreover have "takeWhile (\<lambda>c. c \<noteq> NL) (rev t @ NL # w) = rev t" for w
    using t by (subst takeWhile_append2) (auto simp: plain_def)
  ultimately show ?thesis by (simp add: tail_of_def)
qed

lemma tail_of_append: "NL \<in> set s \<Longrightarrow> tail_of (m @ s) = tail_of s"
  by (simp add: tail_of_def takeWhile_append1 [of NL])

function kept :: "u8 list \<Rightarrow> u8 list list \<Rightarrow> bool" where
  "kept m [] = True"
| "kept m (chunk # chunks) =
     (if chunk = [] \<or> length m \<ge> 1023 then False
      else let n = 1023 - length m; s = m @ take n chunk; chunks = (if length chunk \<le> n then chunks else drop n chunk # chunks)
        in if NL \<in> set s then kept (tail_of s) chunks else chunks = [])"
  by pat_completeness auto
termination
  by (relation "measure (\<lambda>(m, chunks). length (concat chunks) + length chunks)") (auto split: if_splits)

declare kept.simps(2) [simp del] grep_loop.simps(2) [simp del]

lemma grep_loop_kept:
  "kept m chunks \<Longrightarrow> plain m \<Longrightarrow> m @ concat chunks = text_of ls @ t \<Longrightarrow> \<forall>l\<in>set ls. plain l \<Longrightarrow> plain t \<Longrightarrow>
   grep_loop pattern m chunks = text_of (filter (match pattern) ls)"
proof (induction m chunks arbitrary: ls rule: kept.induct)
  case (1 m)
  then have "plain (text_of ls @ t)" by simp
  then have "ls = []" by (cases ls) (auto simp: plain_def)
  then show ?case by simp
next
  case (2 m chunk chunks)
  let ?n = "1023 - length m"
  let ?s = "m @ take ?n chunk" and ?c = "if length chunk \<le> ?n then chunks else drop ?n chunk # chunks"
  have g: "\<not> (chunk = [] \<or> length m \<ge> 1023)" using "2.prems"(1) by (auto simp: kept.simps(2))
  have "take ?n chunk @ concat ?c = chunk @ concat chunks" by (simp flip: append_assoc)
  then have all: "?s @ concat ?c = text_of ls @ t" using "2.prems"(3) by (simp only: append_assoc concat.simps)
  have "0 \<notin> set (text_of ls @ t)" using "2.prems"(4,5) by (auto simp: plain_def text_of_def NL_def)
  then have "0 \<notin> set ?s" unfolding all [symmetric] by auto
  then obtain ls1 t1 where s: "?s = text_of ls1 @ t1" "\<forall>l\<in>set ls1. plain l" "plain t1" using text_split by blast
  have lines: "grep_lines pattern ?s = (text_of (filter (match pattern) ls1), t1)" unfolding s(1) by (rule grep_lines_text [OF s(2,3)])
  have loop: "grep_loop pattern m (chunk # chunks) =
      text_of (filter (match pattern) ls1) @ grep_loop pattern (if length t1 = length ?s then [] else t1) ?c"
    using g lines by (simp add: grep_loop.simps(2) Let_def)
  obtain ls2 where ls2: "ls = ls1 @ ls2" "t1 @ concat ?c = text_of ls2 @ t"
    using text_prefix [of ls1 "t1 @ concat ?c" ls t] all s(1,2) "2.prems"(4,5) by auto
  show ?case
  proof (cases "NL \<in> set ?s")
    case True
    then have ne: "ls1 \<noteq> []" using s by (auto simp: plain_def)
    then have len: "length t1 \<noteq> length ?s" unfolding s(1) by (cases ls1) simp_all
    have tl: "tail_of ?s = t1" unfolding s(1) by (rule tail_of_text [OF s(3) ne])
    have "kept t1 ?c" using "2.prems"(1) g True tl by (simp add: kept.simps(2) Let_def)
    then have "grep_loop pattern t1 ?c = text_of (filter (match pattern) ls2)"
      using "2.IH" [OF g refl refl refl True, of ls2] tl s(3) ls2 "2.prems"(4,5) by simp
    then show ?thesis unfolding loop using len ls2(1) by simp
  next
    case False
    then have c: "?c = []" using "2.prems"(1) g by (simp add: kept.simps(2) Let_def)
    have "ls1 = []" using False s(1) by (cases ls1) auto
    moreover have "ls2 = []" using ls2(2) c s(3) by (cases ls2) (auto simp: plain_def)
    ultimately show ?thesis unfolding loop c using ls2(1) by simp
  qed
qed

lemma kept_pieces:
  "\<forall>p\<in>set ps. NL \<in> set p \<Longrightarrow> successively (\<lambda>p q. length (tail_of p) + length q \<le> 1023) ps \<Longrightarrow>
   (ps \<noteq> [] \<Longrightarrow> length m + length (hd ps) \<le> 1023) \<Longrightarrow> kept m ps"
proof (induction ps arbitrary: m)
  case (Cons p ps)
  have p: "NL \<in> set p" "length m + length p \<le> 1023" using Cons.prems(1,3) by auto
  then have ne: "p \<noteq> []" by auto
  then have lp: "0 < length p" by simp
  then have m: "\<not> length m \<ge> 1023" "length p \<le> 1023 - length m" using p(2) by linarith+
  then have tk: "take (1023 - length m) p = p" by simp
  have s: "successively (\<lambda>p q. length (tail_of p) + length q \<le> 1023) ps" "ps \<noteq> [] \<Longrightarrow> length (tail_of p) + length (hd ps) \<le> 1023"
    using Cons.prems(2) by (auto simp: successively_Cons)
  have "kept (tail_of p) ps" by (rule Cons.IH [OF _ s]) (use Cons.prems(1) in simp_all)
  moreover have "NL \<in> set (m @ p)" using p(1) by simp
  ultimately show ?case using ne m unfolding kept.simps(2) Let_def tk tail_of_append [OF p(1)] by simp
qed simp

text \<open>A full buffer holds a newline when no line is longer than the buffer.\<close>

lemma full_buffer:
  assumes "take 1023 (text_of ls @ t) = s" "length s = 1023" "\<forall>l\<in>set ls. length l \<le> 1022" "length t \<le> 1022"
  shows "NL \<in> set s"
proof (cases ls)
  case Nil
  then have False using assms by auto
  then show ?thesis ..
next
  case (Cons l ks)
  then have "take 1023 (text_of ls @ t) = (l @ [NL]) @ take (1023 - Suc (length l)) (text_of ks @ t)" using assms(3) by (simp add: take_Cons')
  then have "s = (l @ [NL]) @ take (1023 - Suc (length l)) (text_of ks @ t)" using assms(1) by (rule trans [OF sym, rotated])
  then show ?thesis by simp
qed

lemma kept_file:
  "\<forall>l\<in>set ls. plain l \<and> length l \<le> 1022 \<Longrightarrow> plain t \<Longrightarrow> length t \<le> 1022 \<Longrightarrow> plain m \<Longrightarrow> length m \<le> 1022 \<Longrightarrow> c \<noteq> [] \<Longrightarrow>
   m @ c = text_of ls @ t \<Longrightarrow> kept m [c]"
proof (induction "length c" arbitrary: m c ls rule: less_induct)
  case less
  let ?n = "1023 - length m"
  let ?s = "m @ take ?n c"
  show ?case
  proof (cases "length c \<le> ?n")
    case True
    then show ?thesis using less.prems by (simp add: kept.simps(2) Let_def)
  next
    case False
    have len: "length ?s = 1023" using False less.prems(5) by simp
    have tk: "take 1023 (text_of ls @ t) = ?s" using less.prems(5) unfolding less.prems(7) [symmetric] by simp
    have nl: "NL \<in> set ?s" using full_buffer [OF tk len] less.prems(1,3) by blast
    have "0 \<notin> set (text_of ls @ t)" using less.prems(1,2) by (auto simp: plain_def text_of_def NL_def)
    then have "0 \<notin> set ?s" unfolding tk [symmetric] by (auto dest: in_set_takeD)
    then obtain ls1 t1 where s: "?s = text_of ls1 @ t1" "\<forall>l\<in>set ls1. plain l" "plain t1" using text_split by blast
    have ne: "ls1 \<noteq> []" using nl s by (auto simp: plain_def)
    have tl: "tail_of ?s = t1" unfolding s(1) by (rule tail_of_text [OF s(3) ne])
    have "length t1 < length ?s" unfolding s(1) using ne by (cases ls1) simp_all
    then have t1: "length t1 \<le> 1022" using len by simp
    have "?s @ drop ?n c = text_of ls @ t" using less.prems(7) by simp
    then obtain ls2 where ls2: "ls = ls1 @ ls2" "t1 @ drop ?n c = text_of ls2 @ t"
      using text_prefix [of ls1 "t1 @ drop ?n c" ls t] s(1,2) less.prems(1,2) by auto
    have "kept t1 [drop ?n c]"
      by (rule less.hyps [of "drop ?n c" ls2]) (use False less.prems s(3) t1 ls2 in auto)
    then show ?thesis using False less.prems nl tl by (auto simp: kept.simps(2) Let_def)
  qed
qed

text \<open>A buffer without a newline is dropped.\<close>

lemma grep_drops:
  assumes "plain p" "p \<noteq> []" "length p \<le> 1023"
  shows "grep pattern (p # ps) = grep pattern ps"
proof -
  have "grep_lines pattern p = ([], p)" using grep_lines_text [of "[]" p] assms(1) by simp
  then show ?thesis using assms(2,3) by (simp add: grep_def grep_loop.simps(2))
qed

section \<open>Properties\<close>

text \<open>
  C34. The matcher of \<^verbatim>\<open>grep\<close> decides exactly the pattern language: with a leading \<^verbatim>\<open>^\<close> the rest of the pattern matches a
  prefix of the text, otherwise the pattern matches at some place; \<^verbatim>\<open>.\<close> is any byte, \<^verbatim>\<open>c*\<close> any number of \<^verbatim>\<open>c\<close>, and a final
  \<^verbatim>\<open>$\<close> the end of the text.
\<close>

theorem grep_match_correct:
  "match re text \<longleftrightarrow> (if re \<noteq> [] \<and> hd re = HAT then here (tl re) text else (\<exists>u v. text = u @ v \<and> here re v))"
  unfolding match_def matcher_correct(1) match_loop_iff by (rule refl)

text \<open>
  C35. \<^verbatim>\<open>grep\<close> carries a line that is split over reads: when every read delivers a newline, and the unfinished line of one read fits
  in the buffer together with the next read, the output is exactly the complete lines of the whole input that match, in order and
  each with its newline, wherever the input was cut. The newline is needed: a first read without one is dropped, and the rest is
  treated as if it had not been there.
\<close>

theorem grep_filters_lines:
  assumes "\<forall>p\<in>set ps. NL \<in> set p" "ps \<noteq> [] \<Longrightarrow> length (hd ps) \<le> 1023"
    and "successively (\<lambda>p q. length (tail_of p) + length q \<le> 1023) ps"
    and "concat ps = text_of ls @ t" "\<forall>l\<in>set ls. plain l" "plain t"
    and "plain q" "q \<noteq> []" "length q \<le> 1023"
  shows "grep pattern ps = text_of (filter (match pattern) ls) \<and>
    grep pattern (q # ps) = text_of (filter (match pattern) ls)"
proof -
  have "kept [] ps" by (rule kept_pieces [OF assms(1,3)]) (use assms(2) in simp)
  then have "grep pattern ps = text_of (filter (match pattern) ls)"
    unfolding grep_def by (rule grep_loop_kept) (use assms(4-6) in \<open>simp_all add: plain_def\<close>)
  then show ?thesis using grep_drops [OF assms(7-9)] by simp
qed

theorem grep_filters_lines_witness:
  "grep [97] [[98, 97], [99, NL, 97, 98], [99, NL, 100], [100, NL]] = [97, 98, 99, NL] \<and>
   grep [97] [[99, NL, 97, 98], [99, NL, 100], [100, NL]] = [97, 98, 99, NL]"
proof -
  let ?ps = "[[99, NL, 97, 98], [99, NL, 100], [100, NL]]" and ?ls = "[[99], [97, 98, 99], [100, 100]] :: u8 list list"
  have "grep [97] ?ps = text_of (filter (match [97]) ?ls) \<and> grep [97] ([98, 97] # ?ps) = text_of (filter (match [97]) ?ls)"
    by (rule grep_filters_lines [where t = "[]"]) (simp_all add: tail_of_def plain_def NL_def)
  then show ?thesis by (simp add: match_def match_loop.simps matchhere.simps HAT_def DOT_def DOLLAR_def STAR_def)
qed

text \<open>
  C36. \<^verbatim>\<open>grep\<close> on a file of any size whose lines have at most 1022 bytes: it is read in buffers of up to 1023 bytes that
  cut lines anywhere, and the output is exactly the complete lines that match. A last line without a newline is not written.
\<close>

theorem grep_filters_file:
  assumes "\<forall>l\<in>set ls. plain l \<and> length l \<le> 1022" "plain t" "length t \<le> 1022"
  shows "grep pattern [text_of ls @ t] = text_of (filter (match pattern) ls)"
proof (cases "text_of ls @ t = []")
  case True
  then have "ls = []" by (cases ls) simp_all
  then show ?thesis using True by (simp add: grep_def grep_loop.simps(2))
next
  case False
  have "kept [] [text_of ls @ t]" by (rule kept_file [OF assms]) (use False in \<open>simp_all add: plain_def\<close>)
  then show ?thesis
    unfolding grep_def by (rule grep_loop_kept) (use assms in \<open>simp_all add: plain_def\<close>)
qed

theorem grep_filters_file_witness:
  "grep [97] [text_of [replicate 1000 98, 97 # replicate 50 99, [100]] @ [97]] = 97 # replicate 50 99 @ [NL]"
proof -
  let ?ls = "[replicate 1000 98, 97 # replicate 50 99, [100]] :: u8 list list"
  have f: "grep [97] [text_of ?ls @ [97]] = text_of (filter (match [97]) ?ls)"
    by (rule grep_filters_file) (simp_all add: plain_def NL_def)
  have "\<not> match_loop [97] (replicate n 98)" for n
    by (induction n) (simp_all add: match_loop.simps matchhere.simps DOT_def DOLLAR_def STAR_def)
  then show ?thesis unfolding f
    by (simp add: match_def match_loop.simps [of _ "_ # _"] matchhere.simps HAT_def DOT_def DOLLAR_def STAR_def match_loop.simps [of _ "[]"])
qed

end
