(* ===== verification/User_Shell.thy ===== *)
theory User_Shell
  imports Kernel_Base
begin

text \<open>
  The command parser of the shell, \<^verbatim>\<open>user/sh.c\<close>. The line is the list of its bytes before the NUL; a pointer into the line is
  an index, and the end pointer \<^verbatim>\<open>es\<close> is the length. A word of the line is a pair of indices, its first byte and
  the byte after its last. \<^verbatim>\<open>panic\<close> of the shell prints the message and exits: \<open>Panic\<close>.
\<close>

definition whitespace :: "u8 list" where "whitespace = [32, 9, 13, 10, 11]"
definition symbols :: "u8 list" where "symbols = [60, 124, 62, 38, 59, 40, 41]"

datatype cmd =
    EXEC "(nat \<times> nat) list"
  | REDIR cmd nat nat u32 int
  | PIPE cmd cmd
  | LIST cmd cmd
  | BACK cmd

definition MAXARGS :: nat where "MAXARGS = 10"

definition at :: "u8 list \<Rightarrow> nat \<Rightarrow> u8" where
  "at b s = (if s < length b then b ! s else 0)"

section \<open>Tokens\<close>

definition skip :: "u8 list \<Rightarrow> nat \<Rightarrow> nat" where
  "skip b s = s + length (takeWhile (\<lambda>c. c \<in> set whitespace) (drop s b))"

definition word_end :: "u8 list \<Rightarrow> nat \<Rightarrow> nat" where
  "word_end b s = s + length (takeWhile (\<lambda>c. c \<notin> set whitespace \<and> c \<notin> set symbols) (drop s b))"

text \<open>The switch of \<^verbatim>\<open>gettoken\<close>: the kind of the token at \<open>s\<close> and its end.\<close>

definition scan_token :: "u8 list \<Rightarrow> nat \<Rightarrow> u8 \<times> nat" where
  "scan_token b s =
     (let c = at b s in
      if c = 0 then (0, s)
      else if c \<in> {124, 40, 41, 59, 38, 60} then (c, s + 1)
      else if c = 62 then (if at b (s + 1) = 62 then (43, s + 2) else (62, s + 1))
      else (97, word_end b s))"

text \<open>\<^verbatim>\<open>gettoken\<close>: the kind of token, its start, its end, and the next position.\<close>

definition gettoken :: "u8 list \<Rightarrow> nat \<Rightarrow> u8 \<times> nat \<times> nat \<times> nat" where
  "gettoken b s = (let s = skip b s; (ret, e) = scan_token b s in (ret, s, e, skip b e))"

definition peek :: "u8 list \<Rightarrow> nat \<Rightarrow> u8 list \<Rightarrow> bool \<times> nat" where
  "peek b s toks = (let s = skip b s in (at b s \<noteq> 0 \<and> at b s \<in> set toks, s))"

lemma skip_ge: "s \<le> skip b s"
  by (simp add: skip_def)

lemma word_end_ge: "s \<le> word_end b s"
  by (simp add: word_end_def)

lemma drop_at: "s < length b \<Longrightarrow> drop s b = b ! s # drop (Suc s) b"
  by (simp add: Cons_nth_drop_Suc)

lemma word_end_step: "s < length b \<Longrightarrow> b ! s \<notin> set whitespace \<Longrightarrow> b ! s \<notin> set symbols \<Longrightarrow> s < word_end b s"
  by (simp add: word_end_def drop_at)

lemma skip_stop: "skip b s < length b \<Longrightarrow> b ! skip b s \<notin> set whitespace"
proof -
  assume l: "skip b s < length b"
  let ?k = "length (takeWhile (\<lambda>c. c \<in> set whitespace) (drop s b))"
  have "?k < length (drop s b)" using l by (simp add: skip_def)
  then have "drop s b ! ?k \<notin> set whitespace" using nth_length_takeWhile [of "\<lambda>c. c \<in> set whitespace" "drop s b"] by simp
  moreover have "s \<le> length b" using l by (simp add: skip_def)
  ultimately show ?thesis by (simp add: skip_def)
qed

lemma skip_skip [simp]: "skip b (skip b s) = skip b s"
proof (cases "skip b s < length b")
  case True
  then show ?thesis using skip_stop [OF True] by (subst skip_def) (simp add: drop_at)
next
  case False
  then show ?thesis by (subst skip_def) simp
qed

lemma at_neq_0: "at b s \<noteq> 0 \<Longrightarrow> s < length b \<and> at b s = b ! s"
  by (auto simp: at_def split: if_splits)

lemma scan_token_ge: "s \<le> snd (scan_token b s)"
  using word_end_ge [of s b] by (simp add: scan_token_def Let_def)

lemma scan_token_gt: "at b s \<noteq> 0 \<Longrightarrow> b ! s \<notin> set whitespace \<Longrightarrow> s < snd (scan_token b s)"
proof -
  assume a: "at b s \<noteq> 0" "b ! s \<notin> set whitespace"
  have l: "s < length b" "at b s = b ! s" using at_neq_0 [OF a(1)] by auto
  have "b ! s \<in> set symbols \<longleftrightarrow> b ! s \<in> {124, 40, 41, 59, 38, 60} \<or> b ! s = 62" by (auto simp: symbols_def)
  then have "s < word_end b s" if "b ! s \<notin> {124, 40, 41, 59, 38, 60}" "b ! s \<noteq> 62"
    using word_end_step [OF l(1) a(2)] that by blast
  then show ?thesis using a(1) l(2) by (simp add: scan_token_def Let_def)
qed

abbreviation tok :: "u8 \<times> nat \<times> nat \<times> nat \<Rightarrow> u8" where "tok t \<equiv> fst t"
abbreviation tok_q :: "u8 \<times> nat \<times> nat \<times> nat \<Rightarrow> nat" where "tok_q t \<equiv> fst (snd t)"
abbreviation tok_eq :: "u8 \<times> nat \<times> nat \<times> nat \<Rightarrow> nat" where "tok_eq t \<equiv> fst (snd (snd t))"
abbreviation tok_next :: "u8 \<times> nat \<times> nat \<times> nat \<Rightarrow> nat" where "tok_next t \<equiv> snd (snd (snd t))"

lemma peek_pos [simp]: "snd (peek b s toks) = skip b s"
  by (simp add: peek_def Let_def)

lemma gettoken_parts:
  "tok (gettoken b s) = fst (scan_token b (skip b s))" "tok_q (gettoken b s) = skip b s"
  "tok_eq (gettoken b s) = snd (scan_token b (skip b s))" "tok_next (gettoken b s) = skip b (snd (scan_token b (skip b s)))"
  by (simp_all add: gettoken_def Let_def case_prod_unfold)

lemma gettoken_next_ge: "s \<le> tok_next (gettoken b s)"
  unfolding gettoken_parts using skip_ge [of s b] scan_token_ge [of "skip b s" b] skip_ge [of "snd (scan_token b (skip b s))" b] by linarith

lemma gettoken_next_gt: "at b (skip b s) \<noteq> 0 \<Longrightarrow> skip b s < tok_next (gettoken b s)"
proof -
  assume a: "at b (skip b s) \<noteq> 0"
  then have "b ! skip b s \<notin> set whitespace" using skip_stop at_neq_0 by blast
  from scan_token_gt [OF a this] show ?thesis unfolding gettoken_parts
    using skip_ge [of "snd (scan_token b (skip b s))" b] by linarith
qed

lemma peek_gettoken:
  assumes "fst (peek b s toks)"
  shows "s < tok_next (gettoken b (skip b s))" "length b - tok_next (gettoken b (skip b s)) < length b - s"
proof -
  have a: "at b (skip b s) \<noteq> 0" using assms by (simp add: peek_def Let_def)
  have "skip b s < tok_next (gettoken b (skip b s))" using gettoken_next_gt [of b "skip b s"] a by simp
  then show "s < tok_next (gettoken b (skip b s))" using skip_ge [of s b] by linarith
  moreover have "skip b s < length b" using at_neq_0 [OF a] by simp
  ultimately show "length b - tok_next (gettoken b (skip b s)) < length b - s" using skip_ge [of s b] by linarith
qed

section \<open>The parser\<close>

text \<open>The loop of \<^verbatim>\<open>parseline\<close> on ampersands.\<close>

function parse_backs :: "u8 list \<Rightarrow> cmd \<Rightarrow> nat \<Rightarrow> cmd \<times> nat" where
  "parse_backs b c s =
     (if fst (peek b s [38]) then parse_backs b (BACK c) (tok_next (gettoken b (snd (peek b s [38]))))
      else (c, snd (peek b s [38])))"
  by pat_completeness auto
termination
  by (relation "measure (\<lambda>(b, c, s). length b - s)") (auto dest: peek_gettoken)

unbundle bit_operations_syntax

definition RDONLY :: u32 where "RDONLY = 0"
definition WRONLY :: u32 where "WRONLY = 1"
definition CREATE :: u32 where "CREATE = 0x200"

text \<open>\<^verbatim>\<open>parseredirs\<close>: the redirections in order, each a constructor to put around the command.\<close>

definition redir :: "u8 \<Rightarrow> nat \<Rightarrow> nat \<Rightarrow> cmd \<Rightarrow> cmd" where
  "redir t q eq c =
     (if t = 60 then REDIR c q eq RDONLY 0
      else if t = 62 then REDIR c q eq (WRONLY OR CREATE) 1
      else if t = 43 then REDIR c q eq (WRONLY OR CREATE) 1
      else c)"

function parseredirs :: "u8 list \<Rightarrow> nat \<Rightarrow> ((u8 \<times> nat \<times> nat) list \<times> nat) res" where
  "parseredirs b s =
     (if fst (peek b s [60, 62])
      then
        let t1 = gettoken b (snd (peek b s [60, 62])); t2 = gettoken b (tok_next t1) in
        if tok t2 \<noteq> 97 then Panic ''missing file for redirection''
        else bnd (parseredirs b (tok_next t2)) (\<lambda>(rs, s). Ok ((tok t1, tok_q t2, tok_eq t2) # rs, s))
      else Ok ([], snd (peek b s [60, 62])))"
  by pat_completeness auto
termination
proof (relation "measure (\<lambda>(b, s). length b - s)")
  fix b :: "u8 list" and s t1 t2
  assume p: "fst (peek b s [60, 62])" and t: "t1 = gettoken b (snd (peek b s [60, 62]))" "t2 = gettoken b (tok_next t1)"
  have "length b - tok_next t1 < length b - s" using peek_gettoken(2) [OF p] t(1) by simp
  moreover have "tok_next t1 \<le> tok_next t2" unfolding t(2) by (rule gettoken_next_ge)
  ultimately show "((b, tok_next t2), b, s) \<in> measure (\<lambda>(b, s). length b - s)" by simp
qed simp

declare parse_backs.simps [simp del] parseredirs.simps [simp del]

text \<open>The argument loop of \<^verbatim>\<open>parseexec\<close>: the words and the redirections, in order.\<close>

function parse_args :: "u8 list \<Rightarrow> nat \<Rightarrow> nat \<Rightarrow> ((nat \<times> nat) list \<times> (u8 \<times> nat \<times> nat) list \<times> nat) res" where
  "parse_args b argc s =
     (if fst (peek b s [124, 41, 38, 59]) then Ok ([], [], snd (peek b s [124, 41, 38, 59]))
      else
        let t = gettoken b (snd (peek b s [124, 41, 38, 59])) in
        if tok t = 0 then Ok ([], [], tok_next t)
        else if tok t \<noteq> 97 then Panic ''syntax''
        else if argc + 1 \<ge> MAXARGS then Panic ''too many args''
        else
          bnd (parseredirs b (tok_next t)) (\<lambda>(rs, s).
          bnd (parse_args b (argc + 1) s) (\<lambda>(ws, rs', s). Ok ((tok_q t, tok_eq t) # ws, rs @ rs', s))))"
  by pat_completeness auto
termination
  by (relation "measure (\<lambda>(b, argc, s). MAXARGS - argc)") auto

declare parse_args.simps [simp del]

text \<open>The redirections wrap the command in the order they are read.\<close>

definition wrap :: "(u8 \<times> nat \<times> nat) list \<Rightarrow> cmd \<Rightarrow> cmd" where
  "wrap rs c = fold (\<lambda>(t, q, e). redir t q e) rs c"

text \<open>
  The recursive descent, with fuel for the nesting of the calls; running out of it is \<open>Hang\<close>. The length of the line bounds
  the nesting, see \<open>parser_total\<close>.
\<close>

fun parseline :: "nat \<Rightarrow> u8 list \<Rightarrow> nat \<Rightarrow> (cmd \<times> nat) res"
  and parsepipe :: "nat \<Rightarrow> u8 list \<Rightarrow> nat \<Rightarrow> (cmd \<times> nat) res"
  and parseexec :: "nat \<Rightarrow> u8 list \<Rightarrow> nat \<Rightarrow> (cmd \<times> nat) res"
  and parseblock :: "nat \<Rightarrow> u8 list \<Rightarrow> nat \<Rightarrow> (cmd \<times> nat) res" where
  "parseline 0 b s = Hang"
| "parseline (Suc n) b s =
     bnd (parsepipe n b s) (\<lambda>(c, s).
     let (c, s) = parse_backs b c s in
     if fst (peek b s [59])
     then bnd (parseline n b (tok_next (gettoken b (snd (peek b s [59]))))) (\<lambda>(c', s). Ok (LIST c c', s))
     else Ok (c, snd (peek b s [59])))"
| "parsepipe 0 b s = Hang"
| "parsepipe (Suc n) b s =
     bnd (parseexec n b s) (\<lambda>(c, s).
     if fst (peek b s [124])
     then bnd (parsepipe n b (tok_next (gettoken b (snd (peek b s [124]))))) (\<lambda>(c', s). Ok (PIPE c c', s))
     else Ok (c, snd (peek b s [124])))"
| "parseexec 0 b s = Hang"
| "parseexec (Suc n) b s =
     (if fst (peek b s [40]) then parseblock n b (snd (peek b s [40]))
      else
        bnd (parseredirs b (snd (peek b s [40]))) (\<lambda>(rs, s).
        bnd (parse_args b 0 s) (\<lambda>(ws, rs', s). Ok (wrap (rs @ rs') (EXEC ws), s))))"
| "parseblock 0 b s = Hang"
| "parseblock (Suc n) b s =
     (if \<not> fst (peek b s [40]) then Panic ''parseblock''
      else
        bnd (parseline n b (tok_next (gettoken b (snd (peek b s [40]))))) (\<lambda>(c, s).
        if \<not> fst (peek b s [41]) then Panic ''syntax - missing )''
        else
          bnd (parseredirs b (tok_next (gettoken b (snd (peek b s [41]))))) (\<lambda>(rs, s). Ok (wrap rs c, s))))"

fun nulterminate :: "cmd \<Rightarrow> u8 list \<Rightarrow> u8 list" where
  "nulterminate (EXEC ws) b = fold (\<lambda>(q, e) b. b[e := 0]) ws b"
| "nulterminate (REDIR c q e mode fd) b = (nulterminate c b)[e := 0]"
| "nulterminate (PIPE l r) b = nulterminate r (nulterminate l b)"
| "nulterminate (LIST l r) b = nulterminate r (nulterminate l b)"
| "nulterminate (BACK c) b = nulterminate c b"

definition parsecmd :: "u8 list \<Rightarrow> (cmd \<times> u8 list) res" where
  "parsecmd b =
     bnd (parseline (4 * length b + 4) b 0) (\<lambda>(c, s).
     if snd (peek b s []) \<noteq> length b then Panic ''syntax'' else Ok (c, nulterminate c b))"

section \<open>Words\<close>

definition is_word :: "u8 list \<Rightarrow> nat \<times> nat \<Rightarrow> bool" where
  "is_word b w \<longleftrightarrow> fst w < snd w \<and> snd w \<le> length b \<and>
     (\<forall>i. fst w \<le> i \<and> i < snd w \<longrightarrow> b ! i \<notin> set whitespace \<and> b ! i \<notin> set symbols) \<and>
     (snd w < length b \<longrightarrow> b ! snd w \<in> set whitespace \<or> b ! snd w \<in> set symbols)"

fun words :: "cmd \<Rightarrow> (nat \<times> nat) list" where
  "words (EXEC ws) = ws"
| "words (REDIR c q e mode fd) = words c @ [(q, e)]"
| "words (PIPE l r) = words l @ words r"
| "words (LIST l r) = words l @ words r"
| "words (BACK c) = words c"

lemma word_end_spec:
  assumes "s \<le> length b"
  shows "word_end b s \<le> length b" "\<And>i. s \<le> i \<Longrightarrow> i < word_end b s \<Longrightarrow> b ! i \<notin> set whitespace \<and> b ! i \<notin> set symbols"
    "word_end b s < length b \<Longrightarrow> b ! word_end b s \<in> set whitespace \<or> b ! word_end b s \<in> set symbols"
proof -
  let ?P = "\<lambda>c. c \<notin> set whitespace \<and> c \<notin> set symbols"
  let ?w = "takeWhile ?P (drop s b)"
  have "length ?w \<le> length (drop s b)" by (rule length_takeWhile_le)
  then show "word_end b s \<le> length b" using assms by (simp add: word_end_def)
  show "b ! i \<notin> set whitespace \<and> b ! i \<notin> set symbols" if i: "s \<le> i" "i < word_end b s" for i
  proof -
    have k: "i - s < length ?w" using i by (simp add: word_end_def)
    then have "?w ! (i - s) \<in> set ?w" by (rule nth_mem)
    then have "?P (?w ! (i - s))" by (rule set_takeWhileD [THEN conjunct2])
    moreover have "?w ! (i - s) = b ! i" using takeWhile_nth [OF k] i assms by simp
    ultimately show ?thesis by simp
  qed
  show "b ! word_end b s \<in> set whitespace \<or> b ! word_end b s \<in> set symbols" if l: "word_end b s < length b"
  proof -
    have "length ?w < length (drop s b)" using l by (simp add: word_end_def)
    then have "\<not> ?P (drop s b ! length ?w)" by (rule nth_length_takeWhile)
    then show ?thesis using assms by (simp add: word_end_def)
  qed
qed

lemma gettoken_word:
  assumes "tok (gettoken b s) = 97"
  shows "is_word b (tok_q (gettoken b s), tok_eq (gettoken b s))" "s < tok_next (gettoken b s)"
proof -
  let ?s = "skip b s"
  have a: "at b ?s \<noteq> 0" and e: "snd (scan_token b ?s) = word_end b ?s"
    using assms by (auto simp: gettoken_parts scan_token_def Let_def split: if_splits)
  have l: "?s < length b" using at_neq_0 [OF a] by simp
  have "b ! ?s \<notin> set whitespace" by (rule skip_stop [OF l])
  from scan_token_gt [OF a this] have "?s < word_end b ?s" by (simp only: e)
  then show "is_word b (tok_q (gettoken b s), tok_eq (gettoken b s))"
    using word_end_spec [of ?s b] l by (auto simp: is_word_def gettoken_parts e)
  show "s < tok_next (gettoken b s)" using gettoken_next_gt [OF a] skip_ge [of s b] by linarith
qed

text \<open>A parser that ends at a position not before its start, or panics; it neither runs out of fuel nor blocks.\<close>

definition advances :: "nat \<Rightarrow> ('a \<Rightarrow> nat) \<Rightarrow> ('a \<Rightarrow> bool) \<Rightarrow> 'a res \<Rightarrow> bool" where
  "advances s pos P r = (case r of Ok x \<Rightarrow> s \<le> pos x \<and> P x | Panic m \<Rightarrow> True | Blocked \<Rightarrow> False | Hang \<Rightarrow> False)"

lemma advances_simps [simp]:
  "advances s pos P (Ok x) \<longleftrightarrow> s \<le> pos x \<and> P x" "advances s pos P (Panic m)"
  "\<not> advances s pos P Hang" "\<not> advances s pos P Blocked"
  by (simp_all add: advances_def)

lemma advances_bnd:
  assumes "advances s pos P r" "\<And>x. r = Ok x \<Longrightarrow> s \<le> pos x \<Longrightarrow> P x \<Longrightarrow> advances s' pos' Q (f x)"
  shows "advances s' pos' Q (bnd r f)"
  using assms by (cases r) auto

abbreviation redir_words :: "u8 list \<Rightarrow> (u8 \<times> nat \<times> nat) list \<Rightarrow> bool" where
  "redir_words b rs \<equiv> (\<forall>r \<in> set rs. is_word b (snd r))"

abbreviation cmd_words :: "u8 list \<Rightarrow> cmd \<Rightarrow> bool" where
  "cmd_words b c \<equiv> (\<forall>w \<in> set (words c). is_word b w)"

lemma parseredirs_advances:
  "advances s snd (\<lambda>x. redir_words b (fst x)) (parseredirs b s)"
proof (induction b s rule: parseredirs.induct)
  case (1 b s)
  let ?t1 = "gettoken b (skip b s)" and ?t2 = "gettoken b (tok_next (gettoken b (skip b s)))"
  show ?case
  proof (cases "fst (peek b s [60, 62]) \<and> tok ?t2 = 97")
    case False
    then show ?thesis by (subst parseredirs.simps) (auto simp: Let_def skip_ge)
  next
    case True
    have w: "is_word b (snd (tok ?t1, tok_q ?t2, tok_eq ?t2))" using gettoken_word(1) [of b "tok_next ?t1"] True by simp
    have le: "s \<le> tok_next ?t2"
      using peek_gettoken(1) [of b s "[60, 62]"] gettoken_next_ge [of "tok_next ?t1" b] True by linarith
    have "advances (tok_next ?t2) snd (\<lambda>x. redir_words b (fst x)) (parseredirs b (tok_next ?t2))"
      using True by (intro "1.IH" [of ?t1 ?t2]) (simp_all)
    from advances_bnd [OF this, of s snd "\<lambda>x. redir_words b (fst x)"
        "\<lambda>(rs, s). Ok ((tok ?t1, tok_q ?t2, tok_eq ?t2) # rs, s)"]
    show ?thesis using True w le by (subst parseredirs.simps) (simp add: Let_def case_prod_unfold)
  qed
qed

lemma parse_args_advances:
  "advances s (\<lambda>x. snd (snd x)) (\<lambda>x. (\<forall>w \<in> set (fst x). is_word b w) \<and> redir_words b (fst (snd x))) (parse_args b argc s)"
  (is "advances s ?pos ?P _")
proof (induction b argc s rule: parse_args.induct)
  case (1 b argc s)
  let ?t = "gettoken b (skip b s)"
  have ge: "s \<le> tok_next ?t" using gettoken_next_ge [of "skip b s" b] skip_ge [of s b] by linarith
  show ?case
  proof (cases "\<not> fst (peek b s [124, 41, 38, 59]) \<and> tok ?t \<noteq> 0 \<and> tok ?t = 97 \<and> \<not> argc + 1 \<ge> MAXARGS")
    case False
    then show ?thesis using ge skip_ge [of s b] by (subst parse_args.simps) (auto simp: Let_def)
  next
    case True
    have w: "is_word b (tok_q ?t, tok_eq ?t)" using gettoken_word(1) True by blast
    let ?Q = "\<lambda>x. (\<forall>w \<in> set (fst x). is_word b w) \<and> redir_words b (fst (snd x))"
    let ?f = "\<lambda>(rs, s). bnd (parse_args b (argc + 1) s) (\<lambda>(ws, rs', s). Ok ((tok_q ?t, tok_eq ?t) # ws, rs @ rs', s))"
    have "advances s ?pos ?Q (bnd (parseredirs b (tok_next ?t)) ?f)"
    proof (rule advances_bnd [OF parseredirs_advances])
      fix x
      assume x: "parseredirs b (tok_next ?t) = Ok x" "tok_next ?t \<le> snd x" "redir_words b (fst x)"
      have "advances (snd x) ?pos ?Q (parse_args b (argc + 1) (snd x))"
        using True x by (intro "1.IH" [of ?t x "fst x"]) simp_all
      then have "advances s ?pos ?Q (bnd (parse_args b (argc + 1) (snd x))
          (\<lambda>(ws, rs', s). Ok ((tok_q ?t, tok_eq ?t) # ws, fst x @ rs', s)))"
        by (rule advances_bnd) (use x ge w in auto)
      then show "advances s ?pos ?Q (?f x)" by (simp add: case_prod_unfold)
    qed
    then show ?thesis using True by (subst parse_args.simps) (simp add: Let_def)
  qed
qed

lemma parse_backs_advances: "s \<le> snd (parse_backs b c s) \<and> set (words (fst (parse_backs b c s))) = set (words c)"
proof (induction b c s rule: parse_backs.induct)
  case (1 b c s)
  then show ?case
  proof (cases "fst (peek b s [38])")
    case False
    then show ?thesis by (subst (1 2) parse_backs.simps) (simp add: skip_ge)
  next
    case True
    then have "parse_backs b c s = parse_backs b (BACK c) (tok_next (gettoken b (skip b s)))"
      by (subst parse_backs.simps) simp
    then show ?thesis using 1 [OF True] peek_gettoken(1) [OF True] by simp
  qed
qed

lemma words_wrap: "set (words (wrap rs c)) \<subseteq> set (words c) \<union> snd ` set rs"
  unfolding wrap_def by (induction rs arbitrary: c) (fastforce simp: redir_def split: if_splits)+

text \<open>Each level of the descent, from what the level below it does.\<close>

abbreviation parses :: "u8 list \<Rightarrow> nat \<Rightarrow> (cmd \<times> nat) res \<Rightarrow> bool" where
  "parses b s r \<equiv> advances s snd (\<lambda>x. cmd_words b (fst x)) r"

lemma parses_later: "parses b s' r \<Longrightarrow> s \<le> s' \<Longrightarrow> parses b s r"
  by (cases r) auto

lemma parses_wrap: "redir_words b rs \<Longrightarrow> cmd_words b c \<Longrightarrow> cmd_words b (wrap rs c)"
  using subsetD [OF words_wrap [of rs c]] by fastforce

lemma parseexec_parses:
  assumes "fst (peek b s [40]) \<Longrightarrow> parses b (skip b s) (parseblock n b (skip b s))"
  shows "parses b s (parseexec (Suc n) b s)"
proof (cases "fst (peek b s [40])")
  case True
  then show ?thesis using parses_later [OF assms skip_ge] by simp
next
  case False
  let ?f = "\<lambda>rs (ws, rs', s). Ok (wrap (rs @ rs') (EXEC ws), s)"
  have "parses b s (bnd (parseredirs b (skip b s)) (\<lambda>(rs, s). bnd (parse_args b 0 s) (?f rs)))"
  proof (rule advances_bnd [OF parseredirs_advances])
    fix x
    assume x: "skip b s \<le> snd x" "redir_words b (fst x)"
    have "parses b s (bnd (parse_args b 0 (snd x)) (?f (fst x)))"
    proof (rule advances_bnd [OF parse_args_advances])
      fix y
      assume y: "snd x \<le> snd (snd y)" "(\<forall>w \<in> set (fst y). is_word b w) \<and> redir_words b (fst (snd y))"
      have "cmd_words b (wrap (fst x @ fst (snd y)) (EXEC (fst y)))" by (rule parses_wrap) (use x y in auto)
      then show "parses b s (?f (fst x) y)" using x y skip_ge [of s b] by (simp add: case_prod_unfold)
    qed
    then show "parses b s (case x of (rs, s) \<Rightarrow> bnd (parse_args b 0 s) (?f rs))" by (simp add: case_prod_unfold)
  qed
  then show ?thesis using False by simp
qed

lemma parsepipe_parses:
  assumes "parses b s (parseexec n b s)" "\<And>s'. length b - s' < length b - s \<Longrightarrow> parses b s' (parsepipe n b s')"
  shows "parses b s (parsepipe (Suc n) b s)"
  unfolding parsepipe.simps
proof (rule advances_bnd [OF assms(1)])
  fix x
  assume x: "s \<le> snd x" "cmd_words b (fst x)"
  let ?s = "tok_next (gettoken b (skip b (snd x)))"
  have "parses b s (bnd (parsepipe n b ?s) (\<lambda>(c', s). Ok (PIPE (fst x) c', s)))" if p: "fst (peek b (snd x) [124])"
    by (rule advances_bnd [OF assms(2)]) (use peek_gettoken [OF p] x in auto)
  then show "parses b s (case x of (c, s) \<Rightarrow>
      if fst (peek b s [124])
      then bnd (parsepipe n b (tok_next (gettoken b (snd (peek b s [124]))))) (\<lambda>(c', s). Ok (PIPE c c', s))
      else Ok (c, snd (peek b s [124])))"
    using x skip_ge [of "snd x" b] by (simp add: case_prod_unfold)
qed

lemma parseline_parses:
  assumes "parses b s (parsepipe n b s)" "\<And>s'. length b - s' < length b - s \<Longrightarrow> parses b s' (parseline n b s')"
  shows "parses b s (parseline (Suc n) b s)"
  unfolding parseline.simps
proof (rule advances_bnd [OF assms(1)])
  fix x
  assume x: "s \<le> snd x" "cmd_words b (fst x)"
  let ?y = "parse_backs b (fst x) (snd x)"
  let ?s = "tok_next (gettoken b (skip b (snd ?y)))"
  have y: "s \<le> snd ?y" "cmd_words b (fst ?y)" using x parse_backs_advances [of "snd x" b "fst x"] by auto
  have "parses b s (bnd (parseline n b ?s) (\<lambda>(c', s). Ok (LIST (fst ?y) c', s)))" if p: "fst (peek b (snd ?y) [59])"
    by (rule advances_bnd [OF assms(2)]) (use peek_gettoken [OF p] y in auto)
  then show "parses b s (case x of (c, s) \<Rightarrow>
      let (c, s) = parse_backs b c s in
      if fst (peek b s [59])
      then bnd (parseline n b (tok_next (gettoken b (snd (peek b s [59]))))) (\<lambda>(c', s). Ok (LIST c c', s))
      else Ok (c, snd (peek b s [59])))"
    using y skip_ge [of "snd ?y" b] by (simp add: case_prod_unfold Let_def)
qed

lemma parseblock_parses:
  assumes "\<And>s'. length b - s' < length b - s \<Longrightarrow> parses b s' (parseline n b s')"
  shows "parses b s (parseblock (Suc n) b s)"
proof (cases "fst (peek b s [40])")
  case False
  then show ?thesis by simp
next
  case True
  let ?g = "\<lambda>c (rs, s). Ok (wrap rs c, s)"
  let ?s = "tok_next (gettoken b (skip b s))"
  have "parses b s (bnd (parseline n b ?s) (\<lambda>(c, s).
      if \<not> fst (peek b s [41]) then Panic ''syntax - missing )''
      else bnd (parseredirs b (tok_next (gettoken b (skip b s)))) (?g c)))"
  proof (rule advances_bnd [OF assms])
    show "length b - ?s < length b - s" by (rule peek_gettoken(2) [OF True])
    fix x
    assume x: "?s \<le> snd x" "cmd_words b (fst x)"
    have "parses b s (bnd (parseredirs b (tok_next (gettoken b (skip b (snd x))))) (?g (fst x)))" if p: "fst (peek b (snd x) [41])"
    proof (rule advances_bnd [OF parseredirs_advances])
      fix y
      assume y: "tok_next (gettoken b (skip b (snd x))) \<le> snd y" "redir_words b (fst y)"
      have "s \<le> snd y" using x(1) y(1) peek_gettoken(1) [OF p] peek_gettoken(1) [OF True] by linarith
      then show "parses b s (?g (fst x) y)" using parses_wrap [OF y(2) x(2)] by (simp add: case_prod_unfold)
    qed
    then show "parses b s (case x of (c, s) \<Rightarrow>
        if \<not> fst (peek b s [41]) then Panic ''syntax - missing )''
        else bnd (parseredirs b (tok_next (gettoken b (skip b s)))) (?g c))"
      by (simp add: case_prod_unfold)
  qed
  then show ?thesis using True unfolding parseblock.simps peek_pos by simp
qed

lemma parser_total:
  "(4 * (length b - s) + 4 \<le> n \<longrightarrow> parses b s (parseline n b s)) \<and>
   (4 * (length b - s) + 3 \<le> n \<longrightarrow> parses b s (parsepipe n b s)) \<and>
   (4 * (length b - s) + 2 \<le> n \<longrightarrow> parses b s (parseexec n b s)) \<and>
   (4 * (length b - s) + 1 \<le> n \<longrightarrow> parses b s (parseblock n b s))"
proof (induction n arbitrary: s)
  case 0
  then show ?case by simp
next
  case (Suc n)
  have "length b - skip b s \<le> length b - s" using skip_ge [of s b] by linarith
  then have blk: "parses b (skip b s) (parseblock n b (skip b s))" if "4 * (length b - s) + 1 \<le> n"
    using Suc.IH [of "skip b s"] that by linarith
  have line: "parses b s' (parseline n b s')" if "4 * (length b - s) \<le> n" "length b - s' < length b - s" for s'
    using Suc.IH [of s'] that by linarith
  have pipe: "parses b s' (parsepipe n b s')" if "4 * (length b - s) \<le> n" "length b - s' < length b - s" for s'
    using Suc.IH [of s'] that by linarith
  have "parses b s (parseline (Suc n) b s)" if "4 * (length b - s) + 4 \<le> Suc n"
    by (rule parseline_parses) (use Suc.IH [of s] that in linarith, use line that in simp)
  moreover have "parses b s (parsepipe (Suc n) b s)" if "4 * (length b - s) + 3 \<le> Suc n"
    by (rule parsepipe_parses) (use Suc.IH [of s] that in linarith, use pipe that in simp)
  moreover have "parses b s (parseexec (Suc n) b s)" if "4 * (length b - s) + 2 \<le> Suc n"
    by (rule parseexec_parses) (use blk that in linarith)
  moreover have "parses b s (parseblock (Suc n) b s)" if "4 * (length b - s) + 1 \<le> Suc n"
    by (rule parseblock_parses) (use line that in simp)
  ultimately show ?case by blast
qed

section \<open>Termination of the words in place\<close>

lemma nulterminate_nth:
  "length (nulterminate c b) = length b \<and>
   (i < length b \<longrightarrow> nulterminate c b ! i = (if i \<in> snd ` set (words c) then 0 else b ! i))"
proof (induction c arbitrary: b)
  case (EXEC ws)
  show ?case
    by (induction ws arbitrary: b) (simp_all add: nth_list_update case_prod_unfold)
next
  case (REDIR c q e mode fd)
  then show ?case by (cases "i = e") (simp_all add: nth_list_update)
next
  case (PIPE l r)
  then show ?case by (simp add: image_Un)
next
  case (LIST l r)
  then show ?case by (simp add: image_Un)
qed simp

lemma takeWhile_segment:
  assumes "q \<le> e" "e \<le> length b" "\<forall>i. q \<le> i \<and> i < e \<longrightarrow> P (b ! i)" "e < length b \<longrightarrow> \<not> P (b ! e)"
  shows "takeWhile P (drop q b) = drop q (take e b)"
proof -
  have eq: "drop q b = drop q (take e b) @ drop e b"
    using assms(1) by (metis append_take_drop_id drop_append drop_eq_Nil2 length_take min_def self_append_conv2 diff_is_0_eq' drop0 le_cases)
  have "\<forall>x \<in> set (drop q (take e b)). P x"
    using assms by (auto simp: in_set_conv_nth)
  then have "takeWhile P (drop q b) = drop q (take e b) @ takeWhile P (drop e b)"
    unfolding eq by (simp add: takeWhile_append2)
  moreover have "takeWhile P (drop e b) = []" using assms(2,4) by (cases "e < length b") (simp_all add: drop_at)
  ultimately show ?thesis by simp
qed

lemma word_terminated:
  assumes "cmd_words b c" "(q, e) \<in> set (words c)" "0 \<notin> set b"
  shows "takeWhile (\<lambda>x. x \<noteq> 0) (drop q (nulterminate c b)) = drop q (take e b)"
proof -
  let ?b = "nulterminate c b"
  have len: "length ?b = length b" using nulterminate_nth [of c b 0] by blast
  have nth: "?b ! i = (if i \<in> snd ` set (words c) then 0 else b ! i)" if "i < length b" for i
    using nulterminate_nth [of c b i] that by blast
  have w: "is_word b (q, e)" using assms by blast
  have inside: "?b ! i = b ! i" if "q \<le> i" "i < e" for i
  proof -
    have l: "i < length b" using w that by (simp add: is_word_def)
    have "i \<notin> snd ` set (words c)"
    proof
      assume "i \<in> snd ` set (words c)"
      then obtain q' where "(q', i) \<in> set (words c)" by auto
      then have "is_word b (q', i)" using assms(1) by blast
      then have "b ! i \<in> set whitespace \<or> b ! i \<in> set symbols" using l by (simp add: is_word_def)
      then show False using w that by (simp add: is_word_def)
    qed
    then show ?thesis using nth [OF l] by simp
  qed
  have e: "q < e" "e \<le> length b" using w by (simp_all add: is_word_def)
  have "e \<in> snd ` set (words c)" using assms(2) by force
  then have "e < length ?b \<longrightarrow> \<not> ?b ! e \<noteq> 0" using nth [of e] len by simp
  moreover have "\<forall>i. q \<le> i \<and> i < e \<longrightarrow> ?b ! i \<noteq> 0" using inside e assms(3) nth_mem by (metis order_less_le_trans)
  ultimately have "takeWhile (\<lambda>x. x \<noteq> 0) (drop q ?b) = drop q (take e ?b)"
    using takeWhile_segment [of q e ?b] e len by simp
  also have "drop q (take e ?b) = drop q (take e b)"
    by (rule nth_equalityI) (use len e inside in auto)
  finally show ?thesis .
qed

section \<open>Properties\<close>

lemma parsecmd_parses:
  "(\<exists>c. parsecmd b = Ok (c, nulterminate c b) \<and> cmd_words b c) \<or> (\<exists>m. parsecmd b = Panic m)"
proof -
  have "parses b 0 (parseline (4 * length b + 4) b 0)" using parser_total [of b 0 "4 * length b + 4"] by simp
  then show ?thesis by (cases "parseline (4 * length b + 4) b 0") (auto simp: parsecmd_def split: if_splits)
qed

text \<open>
  C37. The shell parses every line: within the fuel \<open>4 * n + 4\<close> for a line of \<open>n\<close> bytes the recursive descent returns a command
  or reports a syntax error; it never runs for ever, whatever the nesting of parentheses, lists and pipes.
\<close>

theorem parsecmd_terminates: "parsecmd b \<noteq> Hang \<and> ((\<exists>c b'. parsecmd b = Ok (c, b')) \<or> (\<exists>m. parsecmd b = Panic m))"
  using parsecmd_parses [of b] by auto

text \<open>
  C38. After a successful parse every word of the command (arguments and file names) is, as a C string in the line, exactly the
  token that was scanned: from its start to the byte before the next blank or operator. The NUL bytes written for the other words
  do not cut it short.
\<close>

theorem parsecmd_words:
  assumes "0 \<notin> set b" "parsecmd b = Ok (c, b')" "(q, e) \<in> set (words c)"
  shows "takeWhile (\<lambda>x. x \<noteq> 0) (drop q b') = drop q (take e b) \<and> q < e \<and>
    (\<forall>x. x \<in> set (drop q (take e b)) \<longrightarrow> x \<notin> set whitespace \<and> x \<notin> set symbols)"
proof -
  have c: "b' = nulterminate c b" "cmd_words b c" using parsecmd_parses [of b] assms(2) by auto
  have w: "is_word b (q, e)" using c(2) assms(3) by blast
  have "\<forall>x. x \<in> set (drop q (take e b)) \<longrightarrow> x \<notin> set whitespace \<and> x \<notin> set symbols"
    using w by (auto simp: is_word_def in_set_conv_nth)
  then show ?thesis using word_terminated [OF c(2) assms(3,1)] w c(1) by (simp add: is_word_def)
qed

text \<open>The line \<^verbatim>\<open>ls>x\<close>.\<close>

lemma parse_ls_x: "parsecmd [108, 115, 62, 120] = Ok (REDIR (EXEC [(0, 2)]) 3 4 (WRONLY OR CREATE) 1, [108, 115, 0, 120])"
  by code_simp

theorem parsecmd_words_witness:
  "parsecmd [108, 115, 62, 120] = Ok (REDIR (EXEC [(0, 2)]) 3 4 (WRONLY OR CREATE) 1, [108, 115, 0, 120]) \<and>
   takeWhile (\<lambda>x. x \<noteq> 0) (drop 0 [108, 115, 0, 120 :: u8]) = drop 0 (take 2 [108, 115, 62, 120])"
proof -
  have z: "0 \<notin> set [108, 115, 62, 120 :: u8]" by simp
  have w: "(0, 2) \<in> set (words (REDIR (EXEC [(0, 2)]) 3 4 (WRONLY OR CREATE) 1))" by simp
  from parsecmd_words [OF z parse_ls_x w] parse_ls_x show ?thesis by (intro conjI) blast+
qed

end
