(* ===== verification/User_Malloc.thy ===== *)
theory User_Malloc
  imports Mem_String
begin

text \<open>
  The storage allocator of the user library, \<^verbatim>\<open>user/umalloc.c\<close>, on the byte memory of the process. A header is two words, the
  pointer and the size in units of eight bytes; the free blocks form a ring through their pointers, in the order of their
  addresses, which starts at the static header \<^verbatim>\<open>base\<close>. The address of \<^verbatim>\<open>base\<close> is the argument \<open>base\<close>. The system call
  \<^verbatim>\<open>sbrk\<close> is a parameter: from the request and the current break it gives its result and the new break.
\<close>

definition hptr :: "memory \<Rightarrow> u32 \<Rightarrow> u32" where "hptr m p = ld32 m p"
definition hsize :: "memory \<Rightarrow> u32 \<Rightarrow> u32" where "hsize m p = ld32 m (p + 4)"
definition set_ptr :: "memory \<Rightarrow> u32 \<Rightarrow> u32 \<Rightarrow> memory" where "set_ptr m p v = st32 m p v"
definition set_size :: "memory \<Rightarrow> u32 \<Rightarrow> u32 \<Rightarrow> memory" where "set_size m p v = st32 m (p + 4) v"

text \<open>\<^verbatim>\<open>p + n\<close> on header pointers.\<close>

definition hplus :: "u32 \<Rightarrow> u32 \<Rightarrow> u32" where "hplus p n = p + 8 * n"

record heap =
  um :: memory
  freep :: u32
  brk :: u32

type_synonym sbrk_call = "u32 \<Rightarrow> u32 \<Rightarrow> u32 \<times> u32"

section \<open>The allocator\<close>

partial_function (option) free_loop :: "memory \<Rightarrow> u32 \<Rightarrow> u32 \<Rightarrow> u32 option" where
  "free_loop m bp p =
     (if bp > p \<and> bp < hptr m p then Some p
      else if p \<ge> hptr m p \<and> (bp > p \<or> bp < hptr m p) then Some p
      else free_loop m bp (hptr m p))"

text \<open>The two joins of \<^verbatim>\<open>free\<close>, with the block above and with the block below.\<close>

definition join_up :: "memory \<Rightarrow> u32 \<Rightarrow> u32 \<Rightarrow> memory" where
  "join_up m bp p =
     (if hplus bp (hsize m bp) = hptr m p
      then let m1 = set_size m bp (hsize m bp + hsize m (hptr m p)) in set_ptr m1 bp (hptr m1 (hptr m1 p))
      else set_ptr m bp (hptr m p))"

definition join_down :: "memory \<Rightarrow> u32 \<Rightarrow> u32 \<Rightarrow> memory" where
  "join_down m bp p =
     (if hplus p (hsize m p) = bp
      then let m1 = set_size m p (hsize m p + hsize m bp) in set_ptr m1 p (hptr m1 bp)
      else set_ptr m p bp)"

definition free :: "u32 \<Rightarrow> heap \<Rightarrow> heap option" where
  "free ap h =
     (let bp = ap - 8 in
      Option.bind (free_loop (um h) bp (freep h)) (\<lambda>p.
      Some (h\<lparr>um := join_down (join_up (um h) bp p) bp p, freep := p\<rparr>)))"

definition morecore :: "sbrk_call \<Rightarrow> u32 \<Rightarrow> heap \<Rightarrow> (u32 \<times> heap) option" where
  "morecore sbrk nu h =
     (let nu = (if nu < 4096 then 4096 else nu);
          (p, b) = sbrk (nu * 8) (brk h);
          h = h\<lparr>brk := b\<rparr>
      in if p = -1 then Some (0, h)
         else
           Option.bind (free (hplus p 1) (h\<lparr>um := set_size (um h) p nu\<rparr>)) (\<lambda>h.
           Some (freep h, h)))"

text \<open>The block is cut from the end of a larger one.\<close>

definition take_block :: "u32 \<Rightarrow> u32 \<Rightarrow> u32 \<Rightarrow> heap \<Rightarrow> u32 \<times> heap" where
  "take_block nunits prevp p h =
     (let m = um h in
      if hsize m p = nunits then (hplus p 1, h\<lparr>um := set_ptr m prevp (hptr m p), freep := prevp\<rparr>)
      else
        let m = set_size m p (hsize m p - nunits);
            p = hplus p (hsize m p)
        in (hplus p 1, h\<lparr>um := set_size m p nunits, freep := prevp\<rparr>))"

partial_function (option) malloc_loop :: "sbrk_call \<Rightarrow> u32 \<Rightarrow> u32 \<Rightarrow> u32 \<Rightarrow> heap \<Rightarrow> (u32 \<times> heap) option" where
  "malloc_loop sbrk nunits prevp p h =
     (if hsize (um h) p \<ge> nunits then Some (take_block nunits prevp p h)
      else if p = freep h
      then
        Option.bind (morecore sbrk nunits h) (\<lambda>(p, h).
        if p = 0 then Some (0, h) else malloc_loop sbrk nunits p (hptr (um h) p) h)
      else malloc_loop sbrk nunits p (hptr (um h) p) h)"

definition malloc :: "sbrk_call \<Rightarrow> u32 \<Rightarrow> u32 \<Rightarrow> heap \<Rightarrow> (u32 \<times> heap) option" where
  "malloc sbrk base nbytes h =
     (let nunits = (nbytes + 8 - 1) div 8 + 1;
          h = (if freep h = 0 then h\<lparr>um := set_size (set_ptr (um h) base base) base 0, freep := base\<rparr> else h)
      in malloc_loop sbrk nunits (freep h) (hptr (um h) (freep h)) h)"

section \<open>Headers in memory\<close>

definition far :: "u32 \<Rightarrow> u32 \<Rightarrow> bool" where
  "far a b \<longleftrightarrow> unat a + 8 \<le> unat b \<or> unat b + 8 \<le> unat a"

lemma unat_plus_small: "unat (a :: u32) + 8 \<le> 2 ^ 32 \<Longrightarrow> j < 8 \<Longrightarrow> unat (a + of_nat j) = unat a + j"
  by (simp add: unat_word_ariths unat_of_nat)

lemma st32_outside: "x \<notin> {a, a + 1, a + 2, a + 3} \<Longrightarrow> st32 m a v x = m x"
  by (simp add: st32_def)

text \<open>The bytes of a header, from 0 to 7.\<close>

definition in_hdr :: "u32 \<Rightarrow> u32 \<Rightarrow> bool" where
  "in_hdr a x \<longleftrightarrow> unat a \<le> unat x \<and> unat x < unat a + 8"

lemma hdr_bytes:
  assumes "unat (a :: u32) + 8 \<le> 2 ^ 32"
  shows "unat (a + 1) = unat a + 1" "unat (a + 2) = unat a + 2" "unat (a + 3) = unat a + 3" "unat (a + 4) = unat a + 4"
    "unat (a + 5) = unat a + 5" "unat (a + 6) = unat a + 6" "unat (a + 7) = unat a + 7"
  using unat_plus_small [OF assms, of 1] unat_plus_small [OF assms, of 2] unat_plus_small [OF assms, of 3] unat_plus_small [OF assms, of 4]
    unat_plus_small [OF assms, of 5] unat_plus_small [OF assms, of 6] unat_plus_small [OF assms, of 7] by simp_all

lemma hdr_words: "a + 4 + 1 = a + 5" "a + 4 + 2 = a + 6" "a + 4 + 3 = (a :: u32) + 7"
  by simp_all

lemma set_hdr_outside:
  assumes "unat a + 8 \<le> 2 ^ 32" "\<not> in_hdr a x"
  shows "set_ptr m a v x = m x" "set_size m a v x = m x"
proof -
  have "x \<noteq> y" if "in_hdr a y" for y using assms(2) that by blast
  moreover have "in_hdr a a" "in_hdr a (a + 1)" "in_hdr a (a + 2)" "in_hdr a (a + 3)" "in_hdr a (a + 4)" "in_hdr a (a + 5)"
    "in_hdr a (a + 6)" "in_hdr a (a + 7)" unfolding in_hdr_def hdr_bytes [OF assms(1)] by simp_all
  ultimately have o: "x \<notin> {a, a + 1, a + 2, a + 3}" "x \<notin> {a + 4, a + 4 + 1, a + 4 + 2, a + 4 + 3}" unfolding hdr_words by blast+
  show "set_ptr m a v x = m x" "set_size m a v x = m x" unfolding set_ptr_def set_size_def by (rule st32_outside [OF o(1)], rule st32_outside [OF o(2)])
qed

lemma hdr_cong:
  assumes "unat a + 8 \<le> 2 ^ 32" "\<And>x. in_hdr a x \<Longrightarrow> m' x = m x"
  shows "hptr m' a = hptr m a" "hsize m' a = hsize m a"
proof -
  have "m' y = m y" if "unat y \<in> {unat a..<unat a + 8}" for y using assms(2) that by (simp add: in_hdr_def)
  then have "m' a = m a" "m' (a + 1) = m (a + 1)" "m' (a + 2) = m (a + 2)" "m' (a + 3) = m (a + 3)"
    "m' (a + 4) = m (a + 4)" "m' (a + 5) = m (a + 5)" "m' (a + 6) = m (a + 6)" "m' (a + 7) = m (a + 7)"
    using hdr_bytes [OF assms(1)] by simp_all
  then show "hptr m' a = hptr m a" "hsize m' a = hsize m a" by (simp_all add: hptr_def hsize_def ld32_def hdr_words)
qed

lemma set_hdr_other:
  assumes "unat a + 8 \<le> 2 ^ 32" "unat b + 8 \<le> 2 ^ 32" "far a b"
  shows "hptr (set_ptr m a v) b = hptr m b" "hsize (set_ptr m a v) b = hsize m b"
    "hptr (set_size m a v) b = hptr m b" "hsize (set_size m a v) b = hsize m b"
proof -
  have "\<not> in_hdr a x" if "in_hdr b x" for x using assms(3) that by (auto simp: in_hdr_def far_def)
  then have *: "in_hdr b x \<Longrightarrow> set_ptr m a v x = m x" "in_hdr b x \<Longrightarrow> set_size m a v x = m x" for x
    using set_hdr_outside [OF assms(1)] by blast+
  show "hptr (set_ptr m a v) b = hptr m b" "hsize (set_ptr m a v) b = hsize m b"
    "hptr (set_size m a v) b = hptr m b" "hsize (set_size m a v) b = hsize m b"
    by (rule hdr_cong [OF assms(2)], erule *)+
qed

lemma set_hdr_same:
  shows "hptr (set_ptr m a v) a = v" "hsize (set_ptr m a v) a = hsize m a"
    "hptr (set_size m a v) a = hptr m a" "hsize (set_size m a v) a = v"
proof -
  show "hptr (set_ptr m a v) a = v" "hsize (set_size m a v) a = v" by (simp_all add: hptr_def set_ptr_def hsize_def set_size_def)
  show "hsize (set_ptr m a v) a = hsize m a" "hptr (set_size m a v) a = hptr m a"
    by (simp_all add: hptr_def set_ptr_def hsize_def set_size_def ld32_def st32_def)
qed

section \<open>Blocks\<close>

text \<open>
  \<open>K\<close> is a set of blocks, each with its size \<open>sz\<close> in units: they lie between \<^verbatim>\<open>base\<close> and the break and do not overlap.
\<close>

definition apart :: "(u32 \<Rightarrow> nat) \<Rightarrow> u32 \<Rightarrow> u32 \<Rightarrow> bool" where
  "apart sz a b \<longleftrightarrow> unat a + 8 * sz a \<le> unat b \<or> unat b + 8 * sz b \<le> unat a"

definition blocks :: "u32 \<Rightarrow> nat \<Rightarrow> (u32 \<Rightarrow> nat) \<Rightarrow> u32 set \<Rightarrow> bool" where
  "blocks base lim sz K \<longleftrightarrow>
     (\<forall>a\<in>K. 0 < sz a \<and> unat base + 8 \<le> unat a \<and> unat a + 8 * sz a \<le> lim) \<and>
     (\<forall>a\<in>K. \<forall>b\<in>K. a \<noteq> b \<longrightarrow> apart sz a b)"

lemma blocksD:
  assumes "blocks base lim sz K" "a \<in> K"
  shows "0 < sz a" "unat base + 8 \<le> unat a" "unat a + 8 * sz a \<le> lim"
  using assms by (auto simp: blocks_def)

lemma blocks_apart: "blocks base lim sz K \<Longrightarrow> a \<in> K \<Longrightarrow> b \<in> K \<Longrightarrow> a \<noteq> b \<Longrightarrow> apart sz a b"
  by (simp add: blocks_def)

lemma blocks_cong: "blocks base lim sz K \<Longrightarrow> (\<And>a. a \<in> K \<Longrightarrow> sz' a = sz a) \<Longrightarrow> blocks base lim sz' K"
  by (simp add: blocks_def apart_def)

lemma blocks_far:
  assumes "blocks base lim sz K" "a \<in> insert base K" "b \<in> insert base K" "a \<noteq> b"
  shows "far a b"
proof -
  consider "a = base" "b \<in> K" | "b = base" "a \<in> K" | "a \<in> K" "b \<in> K" using assms by blast
  then show ?thesis
  proof cases
    case 1
    then show ?thesis using blocksD [OF assms(1) 1(2)] by (simp add: far_def)
  next
    case 2
    then show ?thesis using blocksD [OF assms(1) 2(2)] by (simp add: far_def)
  next
    case 3
    have "8 * 1 \<le> 8 * sz a" "8 * 1 \<le> 8 * sz b" using blocksD(1) [OF assms(1)] 3 by (simp_all add: Suc_le_eq)
    then show ?thesis using blocks_apart [OF assms(1) 3 assms(4)] unfolding far_def apart_def by linarith
  qed
qed

lemma blocks_top:
  assumes "blocks base lim sz K" "a \<in> insert base K" "K \<noteq> {} \<or> unat base + 8 \<le> lim"
  shows "unat a + 8 \<le> lim"
proof -
  have *: "unat c + 8 \<le> lim" if "c \<in> K" for c
  proof -
    have "8 * 1 \<le> 8 * sz c" using blocksD(1) [OF assms(1) that] by (simp add: Suc_le_eq)
    then show ?thesis using blocksD(3) [OF assms(1) that] by linarith
  qed
  show ?thesis
  proof (cases "a \<in> K")
    case False
    then have "a = base" using assms(2) by blast
    then show ?thesis using assms(3) * blocksD(2) [OF assms(1)] by fastforce
  qed (rule *)
qed

lemma blocks_join:
  assumes "blocks base lim sz K" "a \<in> K" "b \<in> K" "a \<noteq> b" "unat a + 8 * sz a = unat b"
  shows "blocks base lim (sz(a := sz a + sz b)) (K - {b})"
proof -
  let ?s = "sz(a := sz a + sz b)"
  have *: "apart ?s a c" if c: "c \<in> K" "c \<noteq> a" "c \<noteq> b" for c
    using blocks_apart [OF assms(1,2) c(1)] blocks_apart [OF assms(1,3) c(1)] c assms(4,5) blocksD(1) [OF assms(1) c(1)]
    unfolding apart_def by auto
  have "apart ?s c d" if c: "c \<in> K - {b}" "d \<in> K - {b}" "c \<noteq> d" for c d
  proof -
    consider "c = a" | "d = a" | "c \<noteq> a" "d \<noteq> a" by blast
    then show ?thesis
    proof cases
      case 1
      then show ?thesis using * [of d] c by simp
    next
      case 2
      then show ?thesis using * [of c] c by (auto simp: apart_def)
    next
      case 3
      then show ?thesis using blocks_apart [OF assms(1)] c by (simp add: apart_def)
    qed
  qed
  moreover have "0 < ?s c \<and> unat base + 8 \<le> unat c \<and> unat c + 8 * ?s c \<le> lim" if "c \<in> K - {b}" for c
    using blocksD [OF assms(1), of c] blocksD [OF assms(1,3)] blocksD(1) [OF assms(1,2)] assms(5) that by auto
  ultimately show ?thesis unfolding blocks_def by blast
qed

lemma blocks_add:
  assumes "blocks base lim sz K" "n > 0" "unat b + 8 * n \<le> lim'" "lim \<le> unat b" "unat base + 8 \<le> unat b"
  shows "blocks base lim' (sz(b := n)) (insert b K)" "b \<notin> K"
proof -
  have le: "unat c + 8 * sz c \<le> unat b" if "c \<in> K" for c using blocksD(3) [OF assms(1) that] assms(4) by linarith
  show nb: "b \<notin> K" using le [of b] blocksD(1) [OF assms(1), of b] by fastforce
  have "apart (sz(b := n)) c d" if "c \<in> insert b K" "d \<in> insert b K" "c \<noteq> d" for c d
    using that le blocks_apart [OF assms(1), of c d] nb by (auto simp: apart_def)
  moreover have "0 < (sz(b := n)) c \<and> unat base + 8 \<le> unat c \<and> unat c + 8 * (sz(b := n)) c \<le> lim'" if "c \<in> insert b K" for c
    using that assms nb blocksD [OF assms(1), of c] by auto
  ultimately show "blocks base lim' (sz(b := n)) (insert b K)" unfolding blocks_def by blast
qed

lemma blocks_split:
  assumes "blocks base lim sz K" "p \<in> K" "0 < k" "k < sz p" "unat q = unat p + 8 * (sz p - k)"
  shows "blocks base lim (sz(p := sz p - k, q := k)) (insert q K)" "q \<notin> insert base K"
proof -
  let ?s = "sz(p := sz p - k, q := k)"
  have end_q: "unat q + 8 * k = unat p + 8 * sz p" "unat p + 8 \<le> unat q" using assms(3-5) by auto
  have other: "unat c + 8 * sz c \<le> unat p \<or> unat p + 8 * sz p \<le> unat c" if "c \<in> K" "c \<noteq> p" for c
    using blocks_apart [OF assms(1) that(1) assms(2) that(2)] by (auto simp: apart_def)
  have nq: "q \<noteq> c" if "c \<in> K" for c
    using other [OF that] blocksD(1) [OF assms(1) that] end_q assms(3) that by (cases "c = p") auto
  moreover have "q \<noteq> base" using blocksD(2) [OF assms(1,2)] end_q by auto
  ultimately show "q \<notin> insert base K" by blast
  have pq: "q \<noteq> p" using nq [OF assms(2)] .
  have new: "apart ?s q c" "c \<noteq> p \<Longrightarrow> apart ?s p c" if "c \<in> K" for c
    using other [OF that] end_q pq nq [OF that] assms(3-5) by (cases "c = p"; auto simp: apart_def)+
  have sym: "apart ?s x y \<Longrightarrow> apart ?s y x" for x y by (auto simp: apart_def)
  have "apart ?s c d" if c: "c \<in> insert q K" "d \<in> insert q K" "c \<noteq> d" for c d
  proof -
    consider "c = q" | "d = q" | "c = p" "d \<in> K" | "d = p" "c \<in> K" | "c \<in> K - {p}" "d \<in> K - {p}" "c \<noteq> q" "d \<noteq> q" using c by blast
    then show ?thesis
    proof cases
      case 5
      then show ?thesis using blocks_apart [OF assms(1), of c d] c(3) by (simp add: apart_def)
    qed (use c new sym in blast)+
  qed
  moreover have "0 < ?s c \<and> unat base + 8 \<le> unat c \<and> unat c + 8 * ?s c \<le> lim" if "c \<in> insert q K" for c
    using that blocksD [OF assms(1), of c] blocksD [OF assms(1,2)] end_q assms(3-5) pq by auto
  ultimately show "blocks base lim ?s (insert q K)" unfolding blocks_def by blast
qed

section \<open>The ring\<close>

primrec chain :: "(u32 \<Rightarrow> u32) \<Rightarrow> u32 list \<Rightarrow> u32 \<Rightarrow> bool" where
  "chain P [] e \<longleftrightarrow> True"
| "chain P (x # xs) e \<longleftrightarrow> P x = hd (xs @ [e]) \<and> chain P xs e"

lemma chain_append: "chain P (xs @ ys) e \<longleftrightarrow> chain P xs (hd (ys @ [e])) \<and> chain P ys e"
  by (induction xs) (auto simp: hd_append)

lemma chain_cong: "(\<And>x. x \<in> set xs \<Longrightarrow> P x = Q x) \<Longrightarrow> chain P xs e = chain Q xs e"
  by (induction xs) auto

text \<open>The search of \<^verbatim>\<open>free\<close> passes every node but the last one below the block.\<close>

lemma free_loop_pass:
  assumes "chain (hptr m) (us @ q # v # vs) e" "q < v" "v < bp \<or> bp < q"
  shows "free_loop m bp q = free_loop m bp v"
proof -
  have "hptr m q = v" using assms(1) by (simp add: chain_append)
  then show ?thesis using assms(2,3) by (subst free_loop.simps) auto
qed

lemma free_loop_below:
  assumes "chain (hptr m) (us @ xs @ p # ys) base" "sorted_wrt (<) (xs @ p # ys)" "p < bp"
    "free_loop m bp p = Some p" "q \<in> set xs"
  shows "free_loop m bp q = Some p"
  using assms
proof (induction xs arbitrary: us q)
  case (Cons x xs)
  have IH: "free_loop m bp r = Some p" if "r \<in> set xs" for r
    using Cons.IH [of "us @ [x]" r] Cons.prems that by simp
  have x: "free_loop m bp x = Some p"
  proof (cases xs)
    case Nil
    then show ?thesis using free_loop_pass [of m us x p ys base bp] Cons.prems by simp
  next
    case (Cons z zs)
    then have "z < bp" using Cons.prems(2,3) by auto
    then have "free_loop m bp x = free_loop m bp z"
      using free_loop_pass [of m us x z "zs @ p # ys" base bp] Cons.prems Cons by simp
    then show ?thesis using IH [of z] Cons by simp
  qed
  show ?case using x IH Cons.prems(5) by auto
qed simp

lemma free_loop_above:
  assumes "chain (hptr m) (us @ ys) base" "sorted_wrt (<) (base # ys)" "\<forall>y\<in>set ys. bp < y" "base < bp"
    "free_loop m bp base = Some p" "q \<in> set ys"
  shows "free_loop m bp q = Some p"
  using assms
proof (induction ys arbitrary: us q)
  case (Cons y ys)
  have IH: "free_loop m bp r = Some p" if "r \<in> set ys" for r
    using Cons.IH [of "us @ [y]" r] Cons.prems that by simp
  have y: "free_loop m bp y = Some p"
  proof (cases ys)
    case Nil
    then have "hptr m y = base" using Cons.prems(1) by (simp add: chain_append)
    moreover have "bp < y" "base < y" using Cons.prems by auto
    ultimately have "free_loop m bp y = free_loop m bp base" using Cons.prems(4) by (subst free_loop.simps) auto
    then show ?thesis using Cons.prems(5) by simp
  next
    case (Cons z zs)
    then have "free_loop m bp y = free_loop m bp z"
      using free_loop_pass [of m us y z zs base bp] Cons.prems Cons by simp
    then show ?thesis using IH [of z] Cons by simp
  qed
  show ?case using y IH Cons.prems(6) by auto
qed simp

lemma free_loop_stop:
  assumes "chain (hptr m) (us @ p # ys) base" "p < bp" "\<forall>y\<in>set ys. bp < y" "base \<le> p"
  shows "free_loop m bp p = Some p"
proof (cases ys)
  case Nil
  then have "hptr m p = base" using assms(1) by (simp add: chain_append)
  then show ?thesis using assms by (subst free_loop.simps) auto
next
  case (Cons y zs)
  then have "hptr m p = y" using assms(1) by (simp add: chain_append)
  then show ?thesis using assms Cons by (subst free_loop.simps) auto
qed

lemma free_loop_finds:
  assumes c: "chain (hptr m) ns base" and s: "sorted_wrt (<) ns" and ns: "ns \<noteq> []" "hd ns = base"
    and bp: "bp \<notin> set ns" "base < bp" and f: "f \<in> set ns"
  shows "\<exists>xs p ys. ns = xs @ p # ys \<and> free_loop m bp f = Some p \<and> (\<forall>x\<in>set xs. x < p) \<and> p < bp \<and> (\<forall>y\<in>set ys. bp < y)"
proof -
  define l ys where "l = takeWhile (\<lambda>x. x < bp) ns" and "ys = dropWhile (\<lambda>x. x < bp) ns"
  have split: "ns = l @ ys" by (simp add: l_def ys_def)
  have "l \<noteq> []" using ns bp(2) by (cases ns) (auto simp: l_def)
  then obtain xs p where l: "l = xs @ [p]" by (metis append_butlast_last_id)
  have "x < bp" if "x \<in> set l" for x using that set_takeWhileD unfolding l_def by metis
  then have p: "p < bp" using l by simp
  have hd_ys: "\<not> hd ys < bp" if "ys \<noteq> []" using hd_dropWhile [of "\<lambda>x. x < bp" ns] that unfolding ys_def by blast
  have eq: "ns = xs @ p # ys" using split l by simp
  have sr: "sorted_wrt (<) (xs @ p # ys)" using s unfolding eq .
  have above: "\<forall>y\<in>set ys. bp < y"
  proof (cases ys)
    case (Cons z zs)
    then have "\<not> z < bp" using hd_ys by simp
    moreover have "z \<noteq> bp" using bp(1) eq Cons by auto
    ultimately have "bp < z" by simp
    moreover have "\<forall>y\<in>set zs. z < y" using sr by (simp add: Cons sorted_wrt_append)
    ultimately show ?thesis using Cons by auto
  qed simp
  have base: "base \<le> p" using sr ns(2) unfolding eq by (cases xs) auto
  have stop: "free_loop m bp p = Some p" by (rule free_loop_stop [of m xs p ys base bp]) (use c eq p above base in simp_all)
  have below: "free_loop m bp q = Some p" if "q \<in> set xs" for q
    by (rule free_loop_below [of m "[]" xs p ys base bp]) (use c eq sr p stop that in simp_all)
  have b: "free_loop m bp base = Some p"
  proof (cases xs)
    case Nil
    then have "base = p" using ns(2) unfolding eq by simp
    then show ?thesis using stop by simp
  next
    case (Cons x xs')
    then have "base = x" using ns(2) unfolding eq by simp
    then show ?thesis using below Cons by simp
  qed
  have "sorted_wrt (<) (base # ys)" using sr base by (auto simp: sorted_wrt_append)
  then have "free_loop m bp q = Some p" if "q \<in> set ys" for q
    by (rule free_loop_above [of m "xs @ [p]" ys base bp, rotated]) (use c eq above bp(2) b that in simp_all)
  then have "free_loop m bp f = Some p" using f below stop unfolding eq by auto
  then show ?thesis using eq p above sr by (intro exI [of _ xs] exI [of _ p] exI [of _ ys]) (auto simp: sorted_wrt_append)
qed

section \<open>The invariant\<close>

abbreviation szof :: "memory \<Rightarrow> u32 \<Rightarrow> nat" where
  "szof m \<equiv> (\<lambda>a. unat (hsize m a))"

text \<open>\<open>ns\<close> are the nodes of the ring from \<^verbatim>\<open>base\<close> on, \<open>L\<close> the headers of the blocks in use.\<close>

definition heap_ok :: "u32 \<Rightarrow> u32 set \<Rightarrow> u32 list \<Rightarrow> heap \<Rightarrow> bool" where
  "heap_ok base L ns h \<longleftrightarrow>
     ns \<noteq> [] \<and> hd ns = base \<and> sorted_wrt (<) ns \<and> chain (hptr (um h)) ns base \<and> freep h \<in> set ns \<and>
     base \<noteq> 0 \<and> hsize (um h) base = 0 \<and> unat base + 8 \<le> unat (brk h) \<and> L \<inter> set ns = {} \<and>
     blocks base (unat (brk h)) (szof (um h)) (set ns - {base} \<union> L)"

definition hdrs :: "u32 set \<Rightarrow> bool" where
  "hdrs A \<longleftrightarrow> (\<forall>a\<in>A. unat a + 8 \<le> 2 ^ 32) \<and> (\<forall>a\<in>A. \<forall>b\<in>A. a \<noteq> b \<longrightarrow> far a b)"

lemma blocks_hdrs:
  assumes "blocks base (unat (l :: u32)) sz K" "unat base + 8 \<le> unat l"
  shows "hdrs (insert base K)"
proof -
  have "unat l < 2 ^ 32" using unsigned_less [of l, where 'a = nat] by simp
  then have "unat a + 8 \<le> 2 ^ 32" if "a \<in> insert base K" for a using blocks_top [OF assms(1) that] assms(2) by fastforce
  then show ?thesis unfolding hdrs_def using blocks_far [OF assms(1)] by blast
qed

lemma hdrs_mono: "hdrs A \<Longrightarrow> B \<subseteq> A \<Longrightarrow> hdrs B"
  by (auto simp: hdrs_def)

lemma hdr_upd:
  assumes "hdrs A" "a \<in> A" "b \<in> A"
  shows "hptr (set_ptr m a v) b = (if b = a then v else hptr m b)" "hsize (set_ptr m a v) b = hsize m b"
    "hptr (set_size m a v) b = hptr m b" "hsize (set_size m a v) b = (if b = a then v else hsize m b)"
proof -
  have *: "unat a + 8 \<le> 2 ^ 32" "unat b + 8 \<le> 2 ^ 32" "a \<noteq> b \<Longrightarrow> far a b" using assms by (auto simp: hdrs_def)
  show "hptr (set_ptr m a v) b = (if b = a then v else hptr m b)" "hsize (set_ptr m a v) b = hsize m b"
    "hptr (set_size m a v) b = hptr m b" "hsize (set_size m a v) b = (if b = a then v else hsize m b)"
    by (cases "a = b"; simp add: set_hdr_same set_hdr_other [OF *])+
qed

lemma unat_hplus:
  assumes "unat a + 8 * unat n < 2 ^ 32"
  shows "unat (hplus a n) = unat a + 8 * unat n"
proof -
  have "unat (8 * n) = 8 * unat n" using assms by (simp add: unat_word_ariths)
  then show ?thesis using assms unfolding hplus_def by (subst unat_add_lem [THEN iffD1]) simp_all
qed

lemma unat_plus_blocks: "8 * (unat (a :: u32) + unat b) < 2 ^ 32 \<Longrightarrow> unat (a + b) = unat a + unat b"
  by (subst unat_add_lem [THEN iffD1]) simp_all

lemma u32_less: "unat (l :: u32) < 2 ^ 32"
  using unsigned_less [of l, where 'a = nat] by simp

section \<open>Freeing a block\<close>

lemma join_up_effect:
  assumes "hdrs A" "bp \<in> A" "p \<in> A" "hptr m p \<in> A" "bp \<noteq> p" "bp \<noteq> hptr m p" "b \<in> A"
  shows "hplus bp (hsize m bp) = hptr m p \<Longrightarrow> hptr (join_up m bp p) b = (if b = bp then hptr m (hptr m p) else hptr m b)"
    "hplus bp (hsize m bp) = hptr m p \<Longrightarrow> hsize (join_up m bp p) b = (if b = bp then hsize m bp + hsize m (hptr m p) else hsize m b)"
    "hplus bp (hsize m bp) \<noteq> hptr m p \<Longrightarrow> hptr (join_up m bp p) b = (if b = bp then hptr m p else hptr m b)"
    "hplus bp (hsize m bp) \<noteq> hptr m p \<Longrightarrow> hsize (join_up m bp p) b = hsize m b"
  using assms by (simp_all add: join_up_def Let_def hdr_upd [OF assms(1)])

lemma join_down_effect:
  assumes "hdrs A" "bp \<in> A" "p \<in> A" "bp \<noteq> p" "b \<in> A"
  shows "hplus p (hsize m p) = bp \<Longrightarrow> hptr (join_down m bp p) b = (if b = p then hptr m bp else hptr m b)"
    "hplus p (hsize m p) = bp \<Longrightarrow> hsize (join_down m bp p) b = (if b = p then hsize m p + hsize m bp else hsize m b)"
    "hplus p (hsize m p) \<noteq> bp \<Longrightarrow> hptr (join_down m bp p) b = (if b = p then bp else hptr m b)"
    "hplus p (hsize m p) \<noteq> bp \<Longrightarrow> hsize (join_down m bp p) b = hsize m b"
  using assms by (simp_all add: join_down_def Let_def hdr_upd [OF assms(1)])

text \<open>A join only changes bytes of headers.\<close>

lemma join_outside:
  assumes "unat bp + 8 \<le> 2 ^ 32" "unat p + 8 \<le> 2 ^ 32" "\<not> in_hdr bp x" "\<not> in_hdr p x"
  shows "join_up m bp p x = m x" "join_down m bp p x = m x"
  using assms by (simp_all add: join_up_def join_down_def Let_def set_hdr_outside)

text \<open>After the first join the block points to what follows \<open>p\<close> in the ring, with the block above it joined if they touch.\<close>

lemma join_up_ok:
  fixes l :: u32
  assumes hd: "hd (xs @ p # ys) = base" and s: "sorted_wrt (<) (xs @ p # ys)" and c: "chain (hptr m) (xs @ p # ys) base"
    and b: "blocks base (unat l) (szof m) (set (xs @ p # ys) - {base} \<union> L)" and d: "L \<inter> set (xs @ p # ys) = {}"
    and bp: "bp \<in> L" "\<forall>y\<in>set ys. bp < y" and l: "unat base + 8 \<le> unat l"
  shows "\<exists>ys'. set ys' \<subseteq> set ys \<and> sorted_wrt (<) (xs @ p # ys') \<and> chain (hptr (join_up m bp p)) xs p \<and>
    chain (hptr (join_up m bp p)) ys' base \<and> hptr (join_up m bp p) bp = hd (ys' @ [base]) \<and>
    blocks base (unat l) (szof (join_up m bp p)) (set (xs @ p # ys') - {base} \<union> L) \<and> szof m bp \<le> szof (join_up m bp p) bp \<and>
    (\<forall>b\<in>set (xs @ p # ys) \<union> L - {bp}. hsize (join_up m bp p) b = hsize m b)"
proof -
  let ?A = "set (xs @ p # ys) \<union> L" and ?K = "set (xs @ p # ys) - {base} \<union> L" and ?m = "join_up m bp p"
  have ba: "base \<in> set (xs @ p # ys)" using hd list.set_sel(1) [of "xs @ p # ys"] by simp
  then have "insert base ?K = ?A" by auto
  then have A: "hdrs ?A" using blocks_hdrs [OF b l] by simp
  have hp: "hptr m p = hd (ys @ [base])" using c by (simp add: chain_append)
  then have "hptr m p \<in> set (xs @ p # ys)" using ba by (cases ys) auto
  then have in_A: "bp \<in> ?A" "p \<in> ?A" "hptr m p \<in> ?A" "bp \<noteq> p" "bp \<noteq> hptr m p" using bp(1) d by auto
  note eff = join_up_effect [OF A in_A]
  have c_xs: "chain (hptr m) xs p" and c_ys: "chain (hptr m) ys base" using c by (simp_all add: chain_append)
  have bpK: "bp \<in> ?K" using bp(1) by simp
  have ends: "unat (hplus bp (hsize m bp)) = unat bp + 8 * szof m bp"
    by (rule unat_hplus) (use blocksD(3) [OF b bpK] u32_less [of l] in linarith)
  have notin: "bp \<notin> set xs" "bp \<notin> set ys" using bp(1) d by auto
  have keep: "hptr ?m x = hptr m x \<and> hsize ?m x = hsize m x" if "x \<in> ?A" "x \<noteq> bp" for x
    using eff [OF that(1)] that(2) by (cases "hplus bp (hsize m bp) = hptr m p") simp_all
  have k_xs: "chain (hptr ?m) xs p" using c_xs keep notin by (subst chain_cong [of xs "hptr ?m" "hptr m"]) auto
  have k_ys: "chain (hptr ?m) ys base" using c_ys keep notin by (subst chain_cong [of ys "hptr ?m" "hptr m"]) auto
  show ?thesis
  proof (cases "hplus bp (hsize m bp) = hptr m p")
    case False
    have sz: "hsize ?m x = hsize m x" if "x \<in> ?A" for x using eff(4) [OF that False] .
    have "blocks base (unat l) (szof ?m) ?K" by (rule blocks_cong [OF b]) (use sz in auto)
    then show ?thesis
      using s k_xs k_ys eff(3) [OF in_A(1) False] sz in_A(1) hp by (intro exI [of _ ys]) simp
  next
    case True
    have "ys \<noteq> []" using True ends hp blocksD(2) [OF b bpK] by auto
    then obtain y zs where ys: "ys = y # zs" by (cases ys) auto
    have y: "hptr m p = y" using hp ys by simp
    have yK: "y \<in> ?K" using blocksD(1,2) [OF b bpK] ends True y ys by auto
    have adj: "unat bp + 8 * szof m bp = unat y" using ends True y by simp
    have "unat bp + 8 * (szof m bp + szof m y) < 2 ^ 32"
      using blocksD(3) [OF b yK] adj u32_less [of l] unfolding distrib_left by linarith
    then have sum: "unat (hsize m bp + hsize m y) = szof m bp + szof m y" by (intro unat_plus_blocks) linarith
    have "bp \<noteq> y" using in_A(5) y by simp
    from blocks_join [OF b bpK yK this adj]
    have "blocks base (unat l) ((szof m)(bp := szof m bp + szof m y)) (?K - {y})" .
    then have "blocks base (unat l) (szof ?m) (?K - {y})"
      by (rule blocks_cong) (use eff(2) [OF _ True] y sum in auto)
    moreover have "?K - {y} = set (xs @ p # zs) - {base} \<union> L" using s d by (auto simp: ys sorted_wrt_append)
    moreover have "chain (hptr ?m) zs base" using k_ys by (simp add: ys)
    moreover have "hptr ?m bp = hd (zs @ [base])" using eff(1) [OF in_A(1) True] y c_ys by (simp add: ys)
    moreover have "sorted_wrt (<) (xs @ p # zs)" using s by (auto simp: ys sorted_wrt_append)
    moreover have "szof m bp \<le> szof ?m bp" using eff(2) [OF in_A(1) True] sum y by simp
    moreover have "\<forall>b\<in>?A - {bp}. hsize ?m b = hsize m b" using keep by blast
    ultimately show ?thesis using k_xs by (intro exI [of _ zs]) (simp add: ys subset_insertI)
  qed
qed

text \<open>The second join puts the block into the ring after \<open>p\<close>, or makes it part of \<open>p\<close> if they touch.\<close>

lemma join_down_ok:
  fixes l :: u32
  assumes hd: "hd (xs @ p # ys) = base" and s: "sorted_wrt (<) (xs @ p # ys)"
    and c: "chain (hptr m) xs p" "chain (hptr m) ys base" "hptr m bp = hd (ys @ [base])"
    and b: "blocks base (unat l) (szof m) (set (xs @ p # ys) - {base} \<union> L)" and d: "L \<inter> set (xs @ p # ys) = {}"
    and bp: "bp \<in> L" "p < bp" "\<forall>y\<in>set ys. bp < y" and l: "unat base + 8 \<le> unat l" and z: "hsize m base = 0"
  shows "\<exists>ns. ns \<noteq> [] \<and> hd ns = base \<and> sorted_wrt (<) ns \<and> chain (hptr (join_down m bp p)) ns base \<and> p \<in> set ns \<and>
    (L - {bp}) \<inter> set ns = {} \<and> blocks base (unat l) (szof (join_down m bp p)) (set ns - {base} \<union> (L - {bp})) \<and>
    hsize (join_down m bp p) base = 0 \<and> (\<exists>a\<in>set ns. szof m bp \<le> szof (join_down m bp p) a) \<and>
    (\<forall>b\<in>L - {bp}. hsize (join_down m bp p) b = hsize m b)"
proof -
  let ?A = "set (xs @ p # ys) \<union> L" and ?K = "set (xs @ p # ys) - {base} \<union> L" and ?m = "join_down m bp p"
  have ba: "base \<in> set (xs @ p # ys)" using hd list.set_sel(1) [of "xs @ p # ys"] by simp
  then have "insert base ?K = ?A" by auto
  then have A: "hdrs ?A" using blocks_hdrs [OF b l] by simp
  have in_A: "bp \<in> ?A" "p \<in> ?A" "bp \<noteq> p" "base \<in> ?A" using bp d ba by auto
  note eff = join_down_effect [OF A in_A(1-3)]
  have bpK: "bp \<in> ?K" using bp(1) by simp
  have dist: "p \<notin> set xs" "p \<notin> set ys" "bp \<notin> set (xs @ p # ys)" using s bp(1) d by (auto simp: sorted_wrt_append)
  have keep: "hptr ?m x = hptr m x \<and> hsize ?m x = hsize m x" if "x \<in> ?A" "x \<noteq> p" for x
    using eff [OF that(1)] that(2) by (cases "hplus p (hsize m p) = bp") simp_all
  have k_xs: "chain (hptr ?m) xs p" using c(1) keep dist by (subst chain_cong [of xs "hptr ?m" "hptr m"]) auto
  have k_ys: "chain (hptr ?m) ys base" using c(2) keep dist by (subst chain_cong [of ys "hptr ?m" "hptr m"]) auto
  have k_L: "\<forall>b\<in>L - {bp}. hsize ?m b = hsize m b" using keep d by auto
  show ?thesis
  proof (cases "hplus p (hsize m p) = bp")
    case False
    let ?ns = "xs @ p # bp # ys"
    have sz: "hsize ?m x = hsize m x" if "x \<in> ?A" for x using eff(4) [OF that False] .
    have "hptr ?m p = bp" "hptr ?m bp = hd (ys @ [base])" using eff(3) [OF in_A(2) False] keep [OF in_A(1,3)] c(3) by simp_all
    then have "chain (hptr ?m) ?ns base" using k_xs k_ys by (simp add: chain_append)
    moreover have "sorted_wrt (<) ?ns" using s bp by (auto simp: sorted_wrt_append)
    moreover have "hd ?ns = base" using hd by (cases xs) simp_all
    moreover have "set ?ns - {base} \<union> (L - {bp}) = ?K" using bp(1) d ba by auto
    moreover have "blocks base (unat l) (szof ?m) ?K" by (rule blocks_cong [OF b]) (use sz in auto)
    moreover have "\<exists>a\<in>set ?ns. szof m bp \<le> szof ?m a" by (rule bexI [of _ bp]) (use sz [OF in_A(1)] in simp_all)
    moreover have "(L - {bp}) \<inter> set ?ns = {}" using d by auto
    ultimately show ?thesis using sz [OF in_A(4)] z k_L by (intro exI [of _ ?ns]) simp
  next
    case True
    let ?ns = "xs @ p # ys"
    have "p \<noteq> base" using True z in_A(3) by (auto simp: hplus_def)
    then have pK: "p \<in> ?K" by simp
    have "unat p + 8 * szof m p < 2 ^ 32" using blocksD(3) [OF b pK] u32_less [of l] by linarith
    then have adj: "unat p + 8 * szof m p = unat bp" using unat_hplus [of p "hsize m p"] True by simp
    have "unat p + 8 * (szof m p + szof m bp) < 2 ^ 32"
      using blocksD(3) [OF b bpK] adj u32_less [of l] unfolding distrib_left by linarith
    then have sum: "unat (hsize m p + hsize m bp) = szof m p + szof m bp" by (intro unat_plus_blocks) linarith
    have "blocks base (unat l) ((szof m)(p := szof m p + szof m bp)) (?K - {bp})" by (rule blocks_join [OF b pK bpK in_A(3) [symmetric] adj])
    then have "blocks base (unat l) (szof ?m) (?K - {bp})" by (rule blocks_cong) (use eff(2) [OF _ True] sum in auto)
    moreover have "set ?ns - {base} \<union> (L - {bp}) = ?K - {bp}" using dist by auto
    moreover have "chain (hptr ?m) ?ns base" using k_xs k_ys eff(1) [OF in_A(2) True] c(3) by (simp add: chain_append)
    moreover have "\<exists>a\<in>set ?ns. szof m bp \<le> szof ?m a" by (rule bexI [of _ p]) (use eff(2) [OF in_A(2) True] sum in simp_all)
    moreover have "hsize ?m base = 0" using keep [OF in_A(4)] \<open>p \<noteq> base\<close> z by simp
    ultimately show ?thesis using s hd d k_L by (intro exI [of _ ?ns]) auto
  qed
qed

lemma heap_okD:
  assumes "heap_ok base L ns h"
  shows "ns \<noteq> []" "hd ns = base" "sorted_wrt (<) ns" "chain (hptr (um h)) ns base" "freep h \<in> set ns" "base \<noteq> 0" "hsize (um h) base = 0"
    "unat base + 8 \<le> unat (brk h)" "L \<inter> set ns = {}" "blocks base (unat (brk h)) (szof (um h)) (set ns - {base} \<union> L)"
    "base \<in> set ns" "hdrs (set ns \<union> L)"
proof -
  show ok: "ns \<noteq> []" "hd ns = base" "sorted_wrt (<) ns" "chain (hptr (um h)) ns base" "freep h \<in> set ns" "base \<noteq> 0" "hsize (um h) base = 0"
    "unat base + 8 \<le> unat (brk h)" "L \<inter> set ns = {}" "blocks base (unat (brk h)) (szof (um h)) (set ns - {base} \<union> L)"
    using assms unfolding heap_ok_def by blast+
  show ba: "base \<in> set ns" using ok(1,2) list.set_sel(1) by blast
  have "insert base (set ns - {base} \<union> L) = set ns \<union> L" using ba by auto
  then show "hdrs (set ns \<union> L)" using blocks_hdrs [OF ok(10,8)] by simp
qed

lemma heap_ok_live:
  assumes "heap_ok base L ns h" "b \<in> L"
  shows "base < b" "0 < szof (um h) b" "unat b + 8 * szof (um h) b \<le> unat (brk h)"
  using blocksD [OF heap_okD(10) [OF assms(1)], of b] assms(2) by (auto simp: word_less_nat_alt)

text \<open>\<^verbatim>\<open>free\<close> takes the block back and touches nothing but headers.\<close>

lemma free_ok:
  assumes ok: "heap_ok base L ns h" and bp: "bp \<in> L"
  shows "\<exists>h' ns'. free (hplus bp 1) h = Some h' \<and> heap_ok base (L - {bp}) ns' h' \<and> brk h' = brk h \<and>
    (\<exists>a\<in>set ns'. szof (um h) bp \<le> szof (um h') a) \<and> (\<forall>b\<in>L - {bp}. hsize (um h') b = hsize (um h) b) \<and>
    (\<forall>x. (\<forall>a\<in>set ns \<union> L. \<not> in_hdr a x) \<longrightarrow> um h' x = um h x)"
proof -
  note o = heap_okD [OF ok]
  have nbp: "bp \<notin> set ns" using bp o(9) by blast
  obtain xs p ys where ns: "ns = xs @ p # ys" and p: "free_loop (um h) bp (freep h) = Some p" "p < bp" "\<forall>y\<in>set ys. bp < y"
    using free_loop_finds [OF o(4,3,1,2) nbp heap_ok_live(1) [OF ok bp] o(5)] by (elim exE conjE)
  let ?m1 = "join_up (um h) bp p"
  let ?m2 = "join_down ?m1 bp p"
  obtain zs where u: "set zs \<subseteq> set ys" "sorted_wrt (<) (xs @ p # zs)" "chain (hptr ?m1) xs p" "chain (hptr ?m1) zs base"
    "hptr ?m1 bp = hd (zs @ [base])" "blocks base (unat (brk h)) (szof ?m1) (set (xs @ p # zs) - {base} \<union> L)"
    "szof (um h) bp \<le> szof ?m1 bp" "\<forall>b\<in>set ns \<union> L - {bp}. hsize ?m1 b = hsize (um h) b"
    using join_up_ok [OF o(2-4,10,9) [unfolded ns] bp p(3) o(8)] unfolding ns by (elim exE conjE)
  have hd: "hd (xs @ p # zs) = base" using o(2) ns by (cases xs) simp_all
  have d: "L \<inter> set (xs @ p # zs) = {}" and above: "\<forall>y\<in>set zs. bp < y" using o(9) ns u(1) p(3) by auto
  have "base \<in> set ns \<union> L - {bp}" using o(11) nbp by auto
  then have z: "hsize ?m1 base = 0" using u(8) o(7) by (simp only: Ball_def)
  obtain ns' where v: "ns' \<noteq> []" "hd ns' = base" "sorted_wrt (<) ns'" "chain (hptr ?m2) ns' base" "p \<in> set ns'"
    "(L - {bp}) \<inter> set ns' = {}" "blocks base (unat (brk h)) (szof ?m2) (set ns' - {base} \<union> (L - {bp}))"
    "hsize ?m2 base = 0" "\<exists>a\<in>set ns'. szof ?m1 bp \<le> szof ?m2 a" "\<forall>b\<in>L - {bp}. hsize ?m2 b = hsize ?m1 b"
    using join_down_ok [OF hd u(2,3,4,5,6) d bp p(2) above o(8) z] by (elim exE conjE)
  let ?h = "h\<lparr>um := ?m2, freep := p\<rparr>"
  have "free (hplus bp 1) h = Some ?h" using p(1) by (simp add: free_def hplus_def)
  moreover have "heap_ok base (L - {bp}) ns' ?h" using v o(6,8) by (simp add: heap_ok_def)
  moreover have "\<exists>a\<in>set ns'. szof (um h) bp \<le> szof ?m2 a" using v(9) u(7) order_trans by blast
  moreover have "\<forall>b\<in>L - {bp}. hsize ?m2 b = hsize (um h) b" using v(10) u(8) by simp
  moreover have "?m2 x = um h x" if "\<forall>a\<in>set ns \<union> L. \<not> in_hdr a x" for x
    using join_outside [of bp p x] o(12) that bp ns by (simp add: hdrs_def)
  ultimately show ?thesis by (intro exI [of _ ?h] exI [of _ ns']) simp
qed

section \<open>What the program sees\<close>

text \<open>Blocks in use keep their size and the bytes after their header.\<close>

definition keeps :: "u32 set \<Rightarrow> heap \<Rightarrow> heap \<Rightarrow> bool" where
  "keeps L h h' \<longleftrightarrow> (\<forall>b\<in>L. hsize (um h') b = hsize (um h) b \<and>
     (\<forall>x. unat b + 8 \<le> unat x \<and> unat x < unat b + 8 * szof (um h) b \<longrightarrow> um h' x = um h x))"

lemma keeps_refl: "um h' = um h \<Longrightarrow> keeps L h h'"
  by (simp add: keeps_def)

lemma keeps_trans: "keeps L h h' \<Longrightarrow> keeps L h' h'' \<Longrightarrow> keeps L h h''"
  by (simp add: keeps_def)

lemma keeps_mono: "keeps L h h' \<Longrightarrow> L' \<subseteq> L \<Longrightarrow> keeps L' h h'"
  by (auto simp: keeps_def)

lemma payload_outside:
  assumes "blocks base lim sz K" "b \<in> K" "unat b + 8 \<le> unat x" "unat x < unat b + 8 * sz b" "a \<in> insert base K"
  shows "\<not> in_hdr a x"
proof (cases "a = b")
  case True
  then show ?thesis using assms(3) by (simp add: in_hdr_def)
next
  case False
  show ?thesis
  proof (cases "a \<in> K")
    case True
    have "8 * 1 \<le> 8 * sz a" using blocksD(1) [OF assms(1) True] by (simp add: Suc_le_eq)
    then show ?thesis using blocks_apart [OF assms(1) True assms(2) False] assms(3,4) unfolding apart_def in_hdr_def by linarith
  next
    case False
    then have "a = base" using assms(5) by blast
    then show ?thesis using blocksD(2) [OF assms(1,2)] assms(3) by (simp add: in_hdr_def)
  qed
qed

text \<open>A change that only touches headers of a set of blocks keeps the blocks in use among them.\<close>

lemma keeps_outside:
  assumes "blocks base lim sz K" "L \<subseteq> K" "\<And>b. b \<in> L \<Longrightarrow> sz b = szof (um h) b \<and> hsize (um h') b = hsize (um h) b"
    "\<And>x. \<forall>a\<in>insert base K. \<not> in_hdr a x \<Longrightarrow> um h' x = um h x"
  shows "keeps L h h'"
  unfolding keeps_def
proof (intro ballI conjI allI impI)
  fix b x :: u32
  assume b: "b \<in> L" and x: "unat b + 8 \<le> unat x \<and> unat x < unat b + 8 * szof (um h) b"
  have "\<not> in_hdr a x" if "a \<in> insert base K" for a
    by (rule payload_outside [OF assms(1) _ _ _ that, of b]) (use assms(2,3) b x in auto)
  then show "um h' x = um h x" using assms(4) by blast
qed (use assms(3) in blast)

lemma free_keeps:
  assumes "heap_ok base L ns h" "bp \<in> L"
  shows "\<exists>h' ns'. free (hplus bp 1) h = Some h' \<and> heap_ok base (L - {bp}) ns' h' \<and> brk h' = brk h \<and>
    (\<exists>a\<in>set ns'. szof (um h) bp \<le> szof (um h') a) \<and> keeps (L - {bp}) h h'"
proof -
  obtain h' ns' where f: "free (hplus bp 1) h = Some h'" "heap_ok base (L - {bp}) ns' h'" "brk h' = brk h"
    "\<exists>a\<in>set ns'. szof (um h) bp \<le> szof (um h') a" "\<forall>b\<in>L - {bp}. hsize (um h') b = hsize (um h) b"
    "\<forall>x. (\<forall>a\<in>set ns \<union> L. \<not> in_hdr a x) \<longrightarrow> um h' x = um h x"
    using free_ok [OF assms] by (elim exE conjE)
  have "insert base (set ns - {base} \<union> L) = set ns \<union> L" using heap_okD(11) [OF assms(1)] by auto
  then have "keeps (L - {bp}) h h'" using f(5,6) by (intro keeps_outside [OF heap_okD(10) [OF assms(1)]]) auto
  then show ?thesis using f(1-4) by (intro exI [of _ h'] exI [of _ ns'] conjI)
qed

section \<open>Taking a block\<close>

lemma chain_next:
  assumes "chain P ns e" "q \<in> set ns" "P q \<noteq> e"
  shows "\<exists>xs ys. ns = xs @ q # P q # ys"
proof -
  obtain xs zs where ns: "ns = xs @ q # zs" using split_list [OF assms(2)] by blast
  then have "P q = hd (zs @ [e])" using assms(1) by (simp add: chain_append)
  then show ?thesis using assms(3) ns by (cases zs) auto
qed

lemma take_exact:
  assumes ok: "heap_ok base L ns h" and q: "q \<in> set ns" "hptr (um h) q = p" and n: "0 < n" "hsize (um h) p = n"
  shows "\<exists>ns'. heap_ok base (insert p L) ns' (h\<lparr>um := set_ptr (um h) q (hptr (um h) p), freep := q\<rparr>) \<and> p \<notin> L \<and>
    hsize (set_ptr (um h) q (hptr (um h) p)) p = n \<and> keeps L h (h\<lparr>um := set_ptr (um h) q (hptr (um h) p), freep := q\<rparr>)"
proof -
  note o = heap_okD [OF ok]
  have pb: "p \<noteq> base" using n o(7) by auto
  obtain xs ys where ns: "ns = xs @ q # p # ys" using chain_next [OF o(4) q(1)] q(2) pb by auto
  let ?m = "set_ptr (um h) q (hptr (um h) p)" and ?ns = "xs @ q # ys"
  let ?h = "h\<lparr>um := ?m, freep := q\<rparr>"
  have dist: "q \<notin> set xs" "q \<notin> set ys" "p \<noteq> q" "p \<notin> set xs" "p \<notin> set ys" using o(3) by (auto simp: ns sorted_wrt_append)
  have sz: "hsize ?m x = hsize (um h) x" if "x \<in> set ns \<union> L" for x using hdr_upd(2) [OF o(12) _ that, of q] q(1) by simp
  have pt: "hptr ?m x = (if x = q then hptr (um h) p else hptr (um h) x)" if "x \<in> set ns \<union> L" for x
    using hdr_upd(1) [OF o(12) _ that, of q] q(1) by simp
  have c: "chain (hptr (um h)) xs q" "hptr (um h) p = hd (ys @ [base])" "chain (hptr (um h)) ys base" using o(4) by (simp_all add: ns chain_append)
  have "chain (hptr ?m) xs q" using c(1) by (subst chain_cong [of xs "hptr ?m" "hptr (um h)"]) (use pt dist ns in auto)
  moreover have "chain (hptr ?m) ys base" using c(3) by (subst chain_cong [of ys "hptr ?m" "hptr (um h)"]) (use pt dist ns in auto)
  ultimately have chain: "chain (hptr ?m) ?ns base" using pt [of q] c(2) q(1) by (simp add: chain_append)
  have K: "set ?ns - {base} \<union> insert p L = set ns - {base} \<union> L" using pb by (auto simp: ns)
  have bl: "blocks base (unat (brk h)) (szof ?m) (set ns - {base} \<union> L)" by (rule blocks_cong [OF o(10)]) (use sz in auto)
  have "hd ?ns = base" using o(2) by (cases xs) (simp_all add: ns)
  moreover have "sorted_wrt (<) ?ns" using o(3) by (auto simp: ns sorted_wrt_append)
  moreover have "insert p L \<inter> set ?ns = {}" using o(9) dist by (auto simp: ns)
  ultimately have "heap_ok base (insert p L) ?ns ?h"
    unfolding heap_ok_def K using chain bl o(6-8) sz [of base] o(11) by simp
  moreover have "keeps L h ?h"
  proof (rule keeps_outside [OF o(10)])
    fix x
    assume "\<forall>a\<in>insert base (set ns - {base} \<union> L). \<not> in_hdr a x"
    then have "\<not> in_hdr q x" using q(1) by blast
    moreover have "unat q + 8 \<le> 2 ^ 32" using o(12) q(1) by (simp add: hdrs_def)
    ultimately show "um ?h x = um h x" by (simp add: set_hdr_outside)
  qed (use sz in auto)
  moreover have "p \<notin> L" "hsize ?m p = n" using o(9) ns sz [of p] n by auto
  ultimately show ?thesis by blast
qed

lemma take_split:
  assumes ok: "heap_ok base L ns h" and q: "q \<in> set ns" and p: "p \<in> set ns" and n: "0 < n" "n < hsize (um h) p"
    and a: "a = hplus p (hsize (um h) p - n)" and h': "h' = h\<lparr>um := set_size (set_size (um h) p (hsize (um h) p - n)) a n, freep := q\<rparr>"
  shows "heap_ok base (insert a L) ns h' \<and> a \<notin> L \<and> hsize (um h') a = n \<and> keeps L h h'"
proof -
  note o = heap_okD [OF ok]
  let ?K = "set ns - {base} \<union> L" and ?m1 = "set_size (um h) p (hsize (um h) p - n)"
  let ?s = "(szof (um h))(p := szof (um h) p - unat n, a := unat n)"
  have pb: "p \<noteq> base" using n o(7) by auto
  then have pK: "p \<in> ?K" using p by blast
  have n': "unat (hsize (um h) p - n) = szof (um h) p - unat n" "unat n < szof (um h) p" "0 < unat n"
    using n by (auto simp: unat_sub_if_size word_less_nat_alt unat_gt_0)
  have "unat p + 8 * (szof (um h) p - unat n) < 2 ^ 32" using blocksD(3) [OF o(10) pK] u32_less [of "brk h"] by linarith
  then have ua: "unat a = unat p + 8 * (szof (um h) p - unat n)" using unat_hplus [of p "hsize (um h) p - n"] n'(1) unfolding a by simp
  have bl: "blocks base (unat (brk h)) ?s (insert a ?K)" and new: "a \<notin> insert base ?K"
    using blocks_split [OF o(10) pK n'(3,2) ua] .
  have A: "insert base (insert a ?K) = insert a (set ns \<union> L)" using o(11) by auto
  then have hd: "hdrs (insert a (set ns \<union> L))" using blocks_hdrs [OF bl o(8)] by simp
  have pA: "p \<in> insert a (set ns \<union> L)" "a \<in> insert a (set ns \<union> L)" using p by auto
  have sz: "hsize (um h') x = (if x = a then n else if x = p then hsize (um h) p - n else hsize (um h) x)"
    and pt: "hptr (um h') x = hptr (um h) x" if "x \<in> insert a (set ns \<union> L)" for x
    using hdr_upd(3,4) [OF hd _ that] pA by (simp_all add: h')
  have nAp: "a \<noteq> p" "a \<noteq> base" "a \<notin> set ns" "a \<notin> L" using new pK p by auto
  have "blocks base (unat (brk h)) (szof (um h')) (insert a ?K)" by (rule blocks_cong [OF bl]) (use sz n' nAp in auto)
  moreover have "insert a ?K = set ns - {base} \<union> insert a L" by auto
  moreover have "chain (hptr (um h')) ns base" using o(4) by (subst chain_cong [of ns "hptr (um h')" "hptr (um h)"]) (use pt in auto)
  moreover have "hsize (um h') base = 0" using sz [of base] o(7,11) pb nAp by simp
  moreover have "brk h' = brk h" "freep h' = q" "insert a L \<inter> set ns = {}" using nAp o(9) by (auto simp: h')
  ultimately have "heap_ok base (insert a L) ns h'" using o(1-3,6,8) q unfolding heap_ok_def by (simp only: simp_thms)
  moreover have "keeps L h h'"
  proof (rule keeps_outside [OF bl])
    fix x
    assume "\<forall>c\<in>insert base (insert a ?K). \<not> in_hdr c x"
    then have "\<not> in_hdr p x" "\<not> in_hdr a x" using p by blast+
    moreover have "unat p + 8 \<le> 2 ^ 32" "unat a + 8 \<le> 2 ^ 32" using hd p by (simp_all add: hdrs_def)
    ultimately show "um h' x = um h x" by (simp add: set_hdr_outside h')
  qed (use sz nAp p o(9) in auto)
  ultimately show ?thesis using nAp sz [of a] by simp
qed

lemma take_block_ok:
  assumes ok: "heap_ok base L ns h" and q: "q \<in> set ns" "hptr (um h) q = p" "p \<in> set ns" and n: "0 < n" "n \<le> hsize (um h) p"
  shows "\<exists>a h' ns'. take_block n q p h = (hplus a 1, h') \<and> a \<notin> L \<and> heap_ok base (insert a L) ns' h' \<and> hsize (um h') a = n \<and> keeps L h h'"
proof (cases "hsize (um h) p = n")
  case True
  then show ?thesis using take_exact [OF ok q(1,2) n(1) True] by (force simp: take_block_def Let_def)
next
  case False
  have "n < hsize (um h) p" using n(2) False by simp
  moreover have "hsize (set_size (um h) p (hsize (um h) p - n)) p = hsize (um h) p - n" by (rule set_hdr_same)
  ultimately show ?thesis using take_split [OF ok q(1,3) n(1) _ refl refl] False unfolding take_block_def Let_def by auto
qed

section \<open>Growing the heap\<close>

text \<open>What the allocator relies on: \<^verbatim>\<open>sbrk\<close> returns the old break and moves it without wrapping around, or fails.\<close>

definition sbrk_ok :: "sbrk_call \<Rightarrow> bool" where
  "sbrk_ok sbrk \<longleftrightarrow> (\<forall>n b. sbrk n b = (-1, b) \<or> (sbrk n b = (b, b + n) \<and> unat b + unat n < 2 ^ 32))"

lemma heap_ok_nonzero: "heap_ok base L ns h \<Longrightarrow> x \<in> set ns \<Longrightarrow> x \<noteq> 0"
proof -
  assume ok: "heap_ok base L ns h" and x: "x \<in> set ns"
  note o = heap_okD [OF ok]
  have "base \<le> x" using o(1-3) x by (cases ns) auto
  then show "x \<noteq> 0" using o(6) by auto
qed

definition core_units :: "u32 \<Rightarrow> u32" where
  "core_units nu = (if nu < 4096 then 4096 else nu)"

lemma core_units: "nu \<le> core_units nu" "0 < unat (core_units nu)"
  by (auto simp: core_units_def word_le_nat_alt word_less_nat_alt)

lemma new_core_ok:
  assumes ok: "heap_ok base L ns h" and b: "b = brk h + 8 * n" "unat (brk h) + 8 * unat n < 2 ^ 32" and n: "0 < unat n"
    and h': "h' = h\<lparr>brk := b, um := set_size (um h) (brk h) n\<rparr>"
  shows "heap_ok base (insert (brk h) L) ns h'" "brk h \<notin> L" "hsize (um h') (brk h) = n" "keeps L h h'"
proof -
  note o = heap_okD [OF ok]
  let ?K = "set ns - {base} \<union> L" and ?s = "(szof (um h))(brk h := unat n)"
  have ub: "unat b = unat (brk h) + 8 * unat n" using unat_hplus [OF b(2)] by (simp add: hplus_def b(1))
  have bl: "blocks base (unat b) ?s (insert (brk h) ?K)" and new: "brk h \<notin> ?K"
    using blocks_add [OF o(10) n, of "brk h" "unat b"] ub o(8) by simp_all
  have base: "unat base + 8 \<le> unat b" "brk h \<noteq> base" using o(8) ub by auto
  have "insert base (insert (brk h) ?K) = insert (brk h) (set ns \<union> L)" using o(11) by auto
  then have hd: "hdrs (insert (brk h) (set ns \<union> L))" using blocks_hdrs [OF bl base(1)] by simp
  have sz: "hsize (um h') x = (if x = brk h then n else hsize (um h) x)" and pt: "hptr (um h') x = hptr (um h) x"
    if "x \<in> insert (brk h) (set ns \<union> L)" for x
    using hdr_upd(3,4) [OF hd _ that, of "brk h"] by (simp_all add: h')
  have "blocks base (unat b) (szof (um h')) (insert (brk h) ?K)" by (rule blocks_cong [OF bl]) (use sz in auto)
  moreover have "insert (brk h) ?K = set ns - {base} \<union> insert (brk h) L" by auto
  moreover have "chain (hptr (um h')) ns base" using o(4) by (subst chain_cong [of ns "hptr (um h')" "hptr (um h)"]) (use pt in auto)
  moreover have "insert (brk h) L \<inter> set ns = {}" using new base(2) o(9) by auto
  moreover have "hsize (um h') base = 0" using sz [of base] o(7,11) base(2) by auto
  moreover have "brk h' = b" "freep h' = freep h" by (simp_all add: h')
  ultimately show "heap_ok base (insert (brk h) L) ns h'" unfolding heap_ok_def using o(1-3,5,6) base(1) by (simp only: simp_thms)
  show "brk h \<notin> L" "hsize (um h') (brk h) = n" using new sz by auto
  show "keeps L h h'"
  proof (rule keeps_outside [OF bl])
    fix x
    assume "\<forall>c\<in>insert base (insert (brk h) ?K). \<not> in_hdr c x"
    moreover have "unat (brk h) + 8 \<le> 2 ^ 32" using hd by (simp add: hdrs_def)
    ultimately show "um h' x = um h x" by (simp add: set_hdr_outside h')
  qed (use sz new in auto)
qed

lemma morecore_ok:
  assumes ok: "heap_ok base L ns h" and sb: "sbrk_ok sbrk" and n: "8 * unat (core_units n) < 2 ^ 32"
  shows "\<exists>r h'. morecore sbrk n h = Some (r, h') \<and> keeps L h h' \<and>
    (r = 0 \<and> heap_ok base L ns h' \<and> fst (sbrk (core_units n * 8) (brk h)) = -1 \<or>
     r = freep h' \<and> r \<noteq> 0 \<and> (\<exists>ns'. heap_ok base L ns' h' \<and> (\<exists>a\<in>set ns'. n \<le> hsize (um h') a)))"
proof (cases "sbrk (core_units n * 8) (brk h) = (-1, brk h)")
  case True
  then have "morecore sbrk n h = Some (0, h)" by (simp add: morecore_def core_units_def Let_def)
  then show ?thesis using True ok keeps_refl [of h h L] by simp
next
  case False
  let ?n = "core_units n"
  let ?h = "h\<lparr>brk := brk h + 8 * ?n, um := set_size (um h) (brk h) ?n\<rparr>"
  have w: "unat (?n * 8) = 8 * unat ?n" using n by (simp add: unat_word_ariths mult.commute)
  have s: "sbrk (?n * 8) (brk h) = (brk h, brk h + ?n * 8)" "unat (brk h) + 8 * unat ?n < 2 ^ 32"
    using sb False w unfolding sbrk_ok_def by metis+
  have "brk h \<noteq> -1"
  proof
    assume "brk h = -1"
    then have "unat (brk h) = 2 ^ 32 - 1" by (simp add: unsigned_minus_1_eq_mask mask_eq_exp_minus_1)
    then show False using s(2) core_units(2) [of n] by simp
  qed
  then have m: "morecore sbrk n h = Option.bind (free (hplus (brk h) 1) ?h) (\<lambda>h. Some (freep h, h))"
    using s(1) by (simp add: morecore_def core_units_def [symmetric] mult.commute Let_def)
  note c = new_core_ok [OF ok refl s(2) core_units(2) refl]
  obtain h' ns' where f: "free (hplus (brk h) 1) ?h = Some h'" "heap_ok base (insert (brk h) L - {brk h}) ns' h'"
    "\<exists>a\<in>set ns'. szof (um ?h) (brk h) \<le> szof (um h') a" "keeps (insert (brk h) L - {brk h}) ?h h'"
    using free_keeps [OF c(1) insertI1] by (elim exE conjE)
  have L: "insert (brk h) L - {brk h} = L" using c(2) by simp
  have "\<exists>a\<in>set ns'. n \<le> hsize (um h') a" using f(3) core_units(1) [of n] unfolding c(3) word_le_nat_alt by (blast intro: order_trans)
  moreover have "keeps L h h'" using keeps_trans [OF c(4) f(4) [unfolded L]] .
  moreover have "freep h' \<noteq> 0" using heap_ok_nonzero [OF f(2)] heap_okD(5) [OF f(2)] by blast
  moreover have "morecore sbrk n h = Some (freep h', h')" using m f(1) by simp
  ultimately show ?thesis using f(2) unfolding L by blast
qed

section \<open>The search\<close>

text \<open>The loop of \<^verbatim>\<open>malloc\<close> along the nodes \<open>ts\<close> that follow \<open>q\<close>, up to \<^verbatim>\<open>freep\<close>.\<close>

lemma malloc_walk:
  assumes "chain (hptr (um h)) (q # ts) e" "ts \<noteq> []" "last ts = freep h" "freep h \<notin> set (butlast ts)"
  shows "(\<exists>s p. s \<in> set (q # ts) \<and> p \<in> set ts \<and> hptr (um h) s = p \<and> n \<le> hsize (um h) p \<and>
      malloc_loop sbrk n q (hd ts) h = Some (take_block n s p h)) \<or>
    (\<forall>t\<in>set ts. \<not> n \<le> hsize (um h) t) \<and>
      malloc_loop sbrk n q (hd ts) h = Option.bind (morecore sbrk n h) (\<lambda>(p, h).
        if p = 0 then Some (0, h) else malloc_loop sbrk n p (hptr (um h) p) h)"
  using assms
proof (induction ts arbitrary: q)
  case (Cons t ts)
  have q: "hptr (um h) q = t" using Cons.prems(1) by simp
  show ?case
  proof (cases "n \<le> hsize (um h) t")
    case True
    then have "malloc_loop sbrk n q t h = Some (take_block n q t h)" by (subst malloc_loop.simps) simp
    then show ?thesis using q True by (intro disjI1 exI [of _ q] exI [of _ t]) simp
  next
    case False
    show ?thesis
    proof (cases "ts = []")
      case True
      then have "t = freep h" using Cons.prems(3) by simp
      then have "malloc_loop sbrk n q t h = Option.bind (morecore sbrk n h) (\<lambda>(p, h).
        if p = 0 then Some (0, h) else malloc_loop sbrk n p (hptr (um h) p) h)"
        using False by (subst malloc_loop.simps) simp
      then show ?thesis using True False by simp
    next
      case nonempty: False
      then have "t \<noteq> freep h" "hptr (um h) t = hd ts" using Cons.prems by auto
      then have step: "malloc_loop sbrk n q t h = malloc_loop sbrk n t (hd ts) h"
        using False by (subst malloc_loop.simps) simp
      have "chain (hptr (um h)) (t # ts) e" "last ts = freep h" "freep h \<notin> set (butlast ts)" using Cons.prems nonempty by auto
      from Cons.IH [OF this(1) nonempty this(2,3)] show ?thesis
      proof (elim disjE exE conjE)
        fix s p
        assume "s \<in> set (t # ts)" "p \<in> set ts" "hptr (um h) s = p" "n \<le> hsize (um h) p"
          "malloc_loop sbrk n t (hd ts) h = Some (take_block n s p h)"
        then show ?thesis using step by (intro disjI1 exI [of _ s] exI [of _ p]) simp
      next
        assume "\<forall>t\<in>set ts. \<not> n \<le> hsize (um h) t" "malloc_loop sbrk n t (hd ts) h = Option.bind (morecore sbrk n h) (\<lambda>(p, h).
          if p = 0 then Some (0, h) else malloc_loop sbrk n p (hptr (um h) p) h)"
        then show ?thesis using step False by (intro disjI2) simp
      qed
    qed
  qed
qed simp

lemma malloc_search:
  assumes ok: "heap_ok base L ns h"
  shows "(\<exists>s p. s \<in> set ns \<and> p \<in> set ns \<and> hptr (um h) s = p \<and> n \<le> hsize (um h) p \<and>
      malloc_loop sbrk n (freep h) (hptr (um h) (freep h)) h = Some (take_block n s p h)) \<or>
    (\<forall>t\<in>set ns. \<not> n \<le> hsize (um h) t) \<and>
      malloc_loop sbrk n (freep h) (hptr (um h) (freep h)) h = Option.bind (morecore sbrk n h) (\<lambda>(p, h).
        if p = 0 then Some (0, h) else malloc_loop sbrk n p (hptr (um h) p) h)"
proof -
  note o = heap_okD [OF ok]
  obtain us vs where ns: "ns = us @ freep h # vs" using split_list [OF o(5)] by blast
  let ?ts = "vs @ us @ [freep h]"
  have "base = hd (us @ [freep h])" using o(2) by (cases us) (simp_all add: ns)
  then have c: "chain (hptr (um h)) (freep h # ?ts) (hptr (um h) (freep h))" using o(4)
    by (cases vs) (auto simp: ns chain_append hd_append)
  have f: "freep h \<notin> set (butlast ?ts)" using o(3) by (auto simp: ns sorted_wrt_append butlast_append)
  have st: "set ?ts = set ns" "set (freep h # ?ts) = set ns" "hd ?ts = hptr (um h) (freep h)"
    using c by (auto simp: ns hd_append)
  show ?thesis using malloc_walk [OF c _ _ f, of n sbrk] unfolding st by simp
qed

lemma malloc_loop_ok:
  assumes ok: "heap_ok base L ns h" and sb: "sbrk_ok sbrk" and n: "0 < n" "8 * unat (core_units n) < 2 ^ 32"
  shows "\<exists>r h'. malloc_loop sbrk n (freep h) (hptr (um h) (freep h)) h = Some (r, h') \<and> keeps L h h' \<and>
    (r = 0 \<and> (\<exists>ns'. heap_ok base L ns' h') \<and> fst (sbrk (core_units n * 8) (brk h)) = -1 \<or>
     (\<exists>a ns'. r = hplus a 1 \<and> a \<notin> L \<and> heap_ok base (insert a L) ns' h' \<and> hsize (um h') a = n))"
proof -
  have found: "\<exists>r h'. malloc_loop sbrk n (freep g) (hptr (um g) (freep g)) g = Some (r, h') \<and> keeps L g h' \<and>
      (\<exists>a ns'. r = hplus a 1 \<and> a \<notin> L \<and> heap_ok base (insert a L) ns' h' \<and> hsize (um h') a = n)"
    if g: "heap_ok base L gs g" and s: "s \<in> set gs" "p \<in> set gs" "hptr (um g) s = p" "n \<le> hsize (um g) p"
      "malloc_loop sbrk n (freep g) (hptr (um g) (freep g)) g = Some (take_block n s p g)" for g gs s p
  proof -
    obtain a h' ns' where "take_block n s p g = (hplus a 1, h')" "a \<notin> L" "heap_ok base (insert a L) ns' h'"
      "hsize (um h') a = n" "keeps L g h'"
      using take_block_ok [OF g s(1,3,2) n(1) s(4)] by (elim exE conjE)
    then show ?thesis using s(5) by auto
  qed
  from malloc_search [OF ok, of n sbrk] show ?thesis
  proof (elim disjE exE conjE)
    fix s p
    assume "s \<in> set ns" "p \<in> set ns" "hptr (um h) s = p" "n \<le> hsize (um h) p"
      "malloc_loop sbrk n (freep h) (hptr (um h) (freep h)) h = Some (take_block n s p h)"
    from found [OF ok this] show ?thesis by blast
  next
    assume loop: "malloc_loop sbrk n (freep h) (hptr (um h) (freep h)) h = Option.bind (morecore sbrk n h) (\<lambda>(p, h).
      if p = 0 then Some (0, h) else malloc_loop sbrk n p (hptr (um h) p) h)"
    obtain r g where g: "morecore sbrk n h = Some (r, g)" "keeps L h g"
      "r = 0 \<and> heap_ok base L ns g \<and> fst (sbrk (core_units n * 8) (brk h)) = -1 \<or>
       r = freep g \<and> r \<noteq> 0 \<and> (\<exists>ns'. heap_ok base L ns' g \<and> (\<exists>a\<in>set ns'. n \<le> hsize (um g) a))"
      using morecore_ok [OF ok sb n(2)] by (elim exE conjE)
    from g(3) show ?thesis
    proof (elim disjE exE conjE)
      assume "r = 0" "heap_ok base L ns g" "fst (sbrk (core_units n * 8) (brk h)) = -1"
      then show ?thesis using loop g(1,2) by auto
    next
      fix gs
      assume r: "r = freep g" "r \<noteq> 0" and gs: "heap_ok base L gs g" "\<exists>a\<in>set gs. n \<le> hsize (um g) a"
      have l: "malloc_loop sbrk n (freep h) (hptr (um h) (freep h)) h = malloc_loop sbrk n (freep g) (hptr (um g) (freep g)) g"
        using loop g(1) r by simp
      obtain s p where "s \<in> set gs" "p \<in> set gs" "hptr (um g) s = p" "n \<le> hsize (um g) p"
        "malloc_loop sbrk n (freep g) (hptr (um g) (freep g)) g = Some (take_block n s p g)"
        using malloc_search [OF gs(1), of n sbrk] gs(2) by blast
      from found [OF gs(1) this] show ?thesis unfolding l using keeps_trans [OF g(2)] by blast
    qed
  qed
qed

section \<open>Properties\<close>

text \<open>The allocator before its first call, or with a ring.\<close>

definition heap_state :: "u32 \<Rightarrow> u32 set \<Rightarrow> heap \<Rightarrow> bool" where
  "heap_state base L h \<longleftrightarrow>
     (freep h = 0 \<and> L = {} \<and> base \<noteq> 0 \<and> unat base + 8 \<le> unat (brk h)) \<or> (\<exists>ns. heap_ok base L ns h)"

lemma first_call:
  assumes "base \<noteq> 0" "unat base + 8 \<le> unat (brk h)"
  shows "heap_ok base {} [base] (h\<lparr>um := set_size (set_ptr (um h) base base) base 0, freep := base\<rparr>)"
  using assms by (simp add: heap_ok_def set_hdr_same blocks_def)

lemma nunits:
  assumes "unat (nbytes :: u32) \<le> 2 ^ 31"
  shows "unat ((nbytes + 8 - 1) div 8 + 1) = (unat nbytes + 7) div 8 + 1"
proof -
  have e: "nbytes + 8 - 1 = nbytes + 7" by simp
  have s: "unat (nbytes + 7) = unat nbytes + 7" using assms by (simp add: unat_word_ariths)
  have d: "unat ((nbytes + 7) div 8) = (unat nbytes + 7) div 8" unfolding unat_div s by simp
  have "(unat nbytes + 7) div 8 \<le> (2 ^ 31 + 7) div 8" using assms by (intro div_le_mono) simp
  then have "unat ((nbytes + 7) div 8) + unat (1 :: u32) < 2 ^ LENGTH(32)" unfolding d by simp
  then have "unat ((nbytes + 7) div 8 + 1) = unat ((nbytes + 7) div 8) + unat (1 :: u32)" by (rule unat_add_lem [THEN iffD1])
  then show ?thesis unfolding e d by simp
qed

lemma malloc_ok:
  assumes st: "heap_state base L h" and sb: "sbrk_ok sbrk" and nb: "unat nbytes \<le> 2 ^ 31"
  shows "\<exists>r h'. malloc sbrk base nbytes h = Some (r, h') \<and> keeps L h h' \<and>
    (r = 0 \<and> heap_state base L h' \<and> fst (sbrk (core_units ((nbytes + 8 - 1) div 8 + 1) * 8) (brk h)) = -1 \<or>
     r \<noteq> 0 \<and> r - 8 \<notin> L \<and> heap_state base (insert (r - 8) L) h' \<and> unat nbytes + 8 \<le> 8 * szof (um h') (r - 8))"
proof -
  let ?n = "(nbytes + 8 - 1) div 8 + 1"
  let ?h = "if freep h = 0 then h\<lparr>um := set_size (set_ptr (um h) base base) base 0, freep := base\<rparr> else h"
  have "\<exists>ns. heap_ok base L ns ?h \<and> keeps L h ?h \<and> brk ?h = brk h"
  proof (cases "freep h = 0")
    case True
    then have "\<not> heap_ok base L ns h" for ns using heap_ok_nonzero heap_okD(5) by blast
    then show ?thesis using st True first_call [of base h] by (auto simp: heap_state_def keeps_def)
  next
    case False
    then show ?thesis using st keeps_refl [of h h L] by (auto simp: heap_state_def)
  qed
  then obtain ns where g: "heap_ok base L ns ?h" "keeps L h ?h" "brk ?h = brk h" by (elim exE conjE)
  have u: "unat ?n = (unat nbytes + 7) div 8 + 1" by (rule nunits [OF nb])
  have "(unat nbytes + 7) div 8 \<le> (2 ^ 31 + 7) div 8" using nb by (intro div_le_mono) simp
  then have "8 * unat ?n < 2 ^ 32" unfolding u by simp
  then have n1: "8 * unat (core_units ?n) < 2 ^ 32" by (simp only: core_units_def split: if_split) simp
  have n0: "0 < ?n" unfolding word_less_nat_alt u by simp
  obtain r h' where m: "malloc_loop sbrk ?n (freep ?h) (hptr (um ?h) (freep ?h)) ?h = Some (r, h')" "keeps L ?h h'"
    "r = 0 \<and> (\<exists>ns'. heap_ok base L ns' h') \<and> fst (sbrk (core_units ?n * 8) (brk ?h)) = -1 \<or>
     (\<exists>a ns'. r = hplus a 1 \<and> a \<notin> L \<and> heap_ok base (insert a L) ns' h' \<and> hsize (um h') a = ?n)"
    using malloc_loop_ok [OF g(1) sb n0 n1] by (elim exE conjE)
  have "malloc sbrk base nbytes h = Some (r, h')" using m(1) by (simp only: malloc_def Let_def)
  moreover have "keeps L h h'" by (rule keeps_trans [OF g(2) m(2)])
  moreover have "r = 0 \<and> heap_state base L h' \<and> fst (sbrk (core_units ?n * 8) (brk h)) = -1 \<or>
     r \<noteq> 0 \<and> r - 8 \<notin> L \<and> heap_state base (insert (r - 8) L) h' \<and> unat nbytes + 8 \<le> 8 * szof (um h') (r - 8)"
    using m(3)
  proof (elim disjE exE conjE)
    fix ns'
    assume "r = 0" "heap_ok base L ns' h'" "fst (sbrk (core_units ?n * 8) (brk ?h)) = -1"
    then show ?thesis using g(3) by (auto simp only: heap_state_def)
  next
    fix a ns'
    assume a: "r = hplus a 1" "a \<notin> L" "heap_ok base (insert a L) ns' h'" "hsize (um h') a = ?n"
    have r8: "r - 8 = a" using a(1) by (simp add: hplus_def)
    have s: "8 * 1 \<le> 8 * szof (um h') a" using heap_ok_live(2) [OF a(3) insertI1] by (simp add: Suc_le_eq)
    then have "unat a + 8 * unat (1 :: u32) < 2 ^ 32"
      using heap_ok_live(3) [OF a(3) insertI1] u32_less [of "brk h'"] by simp
    then have "unat r = unat a + 8" using unat_hplus [of a 1] a(1) by simp
    then have "r \<noteq> 0" by auto
    moreover have "unat nbytes + 8 \<le> 8 * szof (um h') a" unfolding a(4) u by simp
    moreover have "heap_state base (insert a L) h'" using a(3) by (auto simp: heap_state_def)
    ultimately show ?thesis unfolding r8 using a(2) by blast
  qed
  ultimately show ?thesis by blast
qed

text \<open>
  C40. In every state of the allocator that \<^verbatim>\<open>malloc\<close> and \<^verbatim>\<open>free\<close> can reach, both return: \<^verbatim>\<open>malloc\<close> gives a new block with room for the
  request, or 0 when the system has no more memory, \<^verbatim>\<open>free\<close> takes back any block in use; the ring of free blocks stays well formed, no
  two blocks overlap, and neither call changes the contents of a block in use.
\<close>

theorem malloc_free_correct:
  assumes "sbrk_ok sbrk" "heap_state base L h" "unat nbytes \<le> 2 ^ 31"
  shows "(\<exists>r h'. malloc sbrk base nbytes h = Some (r, h') \<and> keeps L h h' \<and>
      (r = 0 \<and> heap_state base L h' \<and> fst (sbrk (core_units ((nbytes + 8 - 1) div 8 + 1) * 8) (brk h)) = -1 \<or>
       r \<noteq> 0 \<and> r - 8 \<notin> L \<and> heap_state base (insert (r - 8) L) h' \<and> unat nbytes + 8 \<le> 8 * szof (um h') (r - 8))) \<and>
    (\<forall>a\<in>L. \<exists>h'. free (a + 8) h = Some h' \<and> heap_state base (L - {a}) h' \<and> keeps (L - {a}) h h')"
proof (intro conjI ballI)
  fix a
  assume a: "a \<in> L"
  then obtain ns where "heap_ok base L ns h" using assms(2) by (auto simp: heap_state_def)
  from free_keeps [OF this a] show "\<exists>h'. free (a + 8) h = Some h' \<and> heap_state base (L - {a}) h' \<and> keeps (L - {a}) h h'"
    by (auto simp: heap_state_def hplus_def)
qed (rule malloc_ok [OF assms(2,1,3)])

definition sbrk0 :: sbrk_call where
  "sbrk0 n b = (if unat b + unat n < 2 ^ 32 then (b, b + n) else (-1, b))"

definition heap0 :: heap where
  "heap0 = \<lparr>um = (\<lambda>_. 0), freep = 0, brk = 0x2000\<rparr>"

lemma sbrk0_ok: "sbrk_ok sbrk0"
  by (simp add: sbrk_ok_def sbrk0_def)

theorem malloc_free_correct_witness:
  "\<exists>r h1 h2. malloc sbrk0 0x1000 100 heap0 = Some (r, h1) \<and> r \<noteq> 0 \<and> 108 \<le> 8 * szof (um h1) (r - 8) \<and>
     free r h1 = Some h2 \<and> heap_state 0x1000 {} h2"
proof -
  have st: "heap_state 0x1000 {} heap0" by (simp add: heap_state_def heap0_def)
  have n: "unat (100 :: u32) \<le> 2 ^ 31" by simp
  have "fst (sbrk0 (core_units ((100 + 8 - 1) div 8 + 1) * 8) (brk heap0)) = 0x2000"
    by (simp add: sbrk0_def core_units_def heap0_def)
  then obtain r h1 where m: "malloc sbrk0 0x1000 100 heap0 = Some (r, h1)" "r \<noteq> 0" "heap_state 0x1000 {r - 8} h1"
    "unat (100 :: u32) + 8 \<le> 8 * szof (um h1) (r - 8)"
    using malloc_free_correct [OF sbrk0_ok st n, THEN conjunct1] by auto
  obtain h2 where "free (r - 8 + 8) h1 = Some h2" "heap_state 0x1000 ({r - 8} - {r - 8}) h2"
    using malloc_free_correct [OF sbrk0_ok m(3) n, THEN conjunct2] by blast
  then show ?thesis using m by auto
qed

text \<open>The computation of the size wraps around: the largest request is served like a request of no bytes.\<close>

lemma malloc_largest: "malloc sbrk base (-1) h = malloc sbrk base 0 h"
  by (simp add: malloc_def)

end
