(* ===== verification/Spec2Isabelle.thy ===== *)
theory Spec2Isabelle
  imports Uvm Proc_Table Fs_Crash Log_Space Fs_Dir Fs_File Pipe Ide User_Memory User_Grep User_Shell User_Malloc
begin

text \<open>
  A verification library for the xv6 kernel of this repository: 32-bit x86, with a colour console, process priorities,
  \<^verbatim>\<open>dup2\<close> and \<^verbatim>\<open>sbrk\<close> memory that is allocated at the first access.

  \<^bold>\<open>Parts and how they interact.\<close>
  User programs enter the kernel through \<^verbatim>\<open>trap.c\<close>, which dispatches interrupts, page faults and, through \<^verbatim>\<open>syscall.c\<close>,
  the system calls of \<^verbatim>\<open>sysproc.c\<close> and \<^verbatim>\<open>sysfile.c\<close>. Process calls work on the process table (\<^verbatim>\<open>proc.c\<close>), page tables (\<^verbatim>\<open>vm.c\<close>)
  and the page allocator (\<^verbatim>\<open>kalloc.c\<close>). File calls work on open files (\<^verbatim>\<open>file.c\<close>), which are pipes (\<^verbatim>\<open>pipe.c\<close>), devices
  (\<^verbatim>\<open>console.c\<close>, \<^verbatim>\<open>kbd.c\<close>, \<^verbatim>\<open>uart.c\<close>) or inodes (\<^verbatim>\<open>fs.c\<close>). Inodes live in blocks that are written through the log (\<^verbatim>\<open>log.c\<close>) and
  the buffer cache (\<^verbatim>\<open>bio.c\<close>) to the disk (\<^verbatim>\<open>memide.c\<close>). Spin locks (\<^verbatim>\<open>spinlock.c\<close>) and sleep locks (\<^verbatim>\<open>sleeplock.c\<close>) order the
  processors and the processes.

  \<^bold>\<open>Conventions.\<close>
  Machine words are \<open>u8\<close>, \<open>u16\<close>, \<open>u32\<close> with their wrap-around; memory is a function from \<open>u32\<close> addresses to bytes; C ints that
  do not wrap are \<open>int\<close>. A kernel function returns an outcome \<open>'a res\<close>: a value, a panic with its message, \<open>Blocked\<close> where the
  process goes to sleep (this outcome carries no state, so what the call changed before it slept is not followed), or \<open>Hang\<close> where a loop never ends. Code between \<^verbatim>\<open>acquire\<close> and \<^verbatim>\<open>release\<close> of one spin lock is one
  step, which \<^verbatim>\<open>Locks\<close> justifies; interleavings of such steps are the \<open>inductive\<close> relations of \<^verbatim>\<open>Locks\<close>, \<^verbatim>\<open>Proc_Table\<close>, \<^verbatim>\<open>Log_Space\<close> and
  \<^verbatim>\<open>Pipe\<close>. Addresses that the linker chooses and what devices deliver are arguments.

  \<^bold>\<open>Theories.\<close>
  \<^item> \<^verbatim>\<open>Kernel_Base\<close>: the prelude, words, outcomes and shared lemmas.
  \<^item> \<^verbatim>\<open>Mem_String\<close> (\<^verbatim>\<open>string.c\<close>, \<^verbatim>\<open>x86.h\<close>): memory and string routines. \<^verbatim>\<open>memmove\<close> copies overlapping ranges correctly, the two
    branches of \<^verbatim>\<open>memset\<close> agree, \<^verbatim>\<open>safestrcpy\<close> always terminates its result.
  \<^item> \<^verbatim>\<open>Kalloc\<close> (\<^verbatim>\<open>kalloc.c\<close>): the free list threaded through the free pages; \<^verbatim>\<open>kalloc\<close> and \<^verbatim>\<open>kfree\<close> are pop and push,
    \<^verbatim>\<open>freerange\<close> frees exactly the whole pages of its range.
  \<^item> \<^verbatim>\<open>Vm\<close>, \<^verbatim>\<open>Uvm\<close> (\<^verbatim>\<open>vm.c\<close>): page tables in memory, and the memory a process sees through them. Growing adds zeroed pages or
    changes nothing; shrinking unmaps and frees exactly the pages of the range.
  \<^item> \<^verbatim>\<open>Locks\<close> (\<^verbatim>\<open>spinlock.c\<close>, \<^verbatim>\<open>sleeplock.c\<close>): mutual exclusion for any number of processors, nesting of \<^verbatim>\<open>pushcli\<close> and \<^verbatim>\<open>popcli\<close>.
  \<^item> \<^verbatim>\<open>Proc_Table\<close> (\<^verbatim>\<open>proc.c\<close>, \<^verbatim>\<open>proc.h\<close>): the table and its operations; every reachable table is well formed, the scheduler
    runs the HIGH processes first whatever the running processes do, and \<^verbatim>\<open>kill(0)\<close> marks a free slot.
  \<^item> \<^verbatim>\<open>Bcache\<close> (\<^verbatim>\<open>bio.c\<close>, \<^verbatim>\<open>buf.h\<close>, \<^verbatim>\<open>memide.c\<close>): the cache refines a plain array of blocks.
    \<^verbatim>\<open>Ide\<close> (\<^verbatim>\<open>ide.c\<close>): the interrupt-driven driver of the hardware disk; over a controller that behaves as documented it
    completes requests in order, each with the effect of the memory disk.
  \<^item> \<^verbatim>\<open>Block_Codec\<close>: little-endian fields of disk blocks. \<^verbatim>\<open>Fs_Log\<close>, \<^verbatim>\<open>Fs_Crash\<close>, \<^verbatim>\<open>Log_Space\<close> (\<^verbatim>\<open>log.c\<close>): the log. A commit is atomic
    with respect to crashes, also during recovery; space reservation is safe with one more log block than \<^verbatim>\<open>mkfs\<close> makes, and
    overruns with what it makes.
  \<^item> \<^verbatim>\<open>Fs_Inode\<close>, \<^verbatim>\<open>Fs_Dir\<close> (\<^verbatim>\<open>fs.c\<close>, \<^verbatim>\<open>fs.h\<close>, \<^verbatim>\<open>stat.h\<close>): block allocation, inodes, file contents, directories, paths.
    Directory entries round-trip, the inode cache keeps one entry per inode, path elements are the pieces between slashes.
    \<^verbatim>\<open>Fs_File\<close>: seen through the log and the cache, a file is a sequence of bytes; \<^verbatim>\<open>readi\<close> takes a piece of it, \<^verbatim>\<open>writei\<close> replaces a piece,
    grows the file, allocates its blocks and leaves the blocks of other files alone; \<^verbatim>\<open>ilock\<close> loads
    what \<^verbatim>\<open>iupdate\<close> wrote.
  \<^item> \<^verbatim>\<open>Ring\<close>, \<^verbatim>\<open>Pipe\<close> (\<^verbatim>\<open>pipe.c\<close>): ring buffers with wrapping counters; a pipe is a bounded queue that
    delivers bytes in order, and a write that slept goes on with the bytes it had left.
  \<^item> \<^verbatim>\<open>Console\<close>, \<^verbatim>\<open>Console_Correct\<close>, \<^verbatim>\<open>Console_Input\<close> (\<^verbatim>\<open>console.c\<close>, \<^verbatim>\<open>graphics.h\<close>, \<^verbatim>\<open>uart.c\<close>): printing stays on the screen, colours
    round-trip, lines are drawn as they should be where they are flat, input lines behave as an editor. \<^verbatim>\<open>Kbd\<close> (\<^verbatim>\<open>kbd.c\<close>, \<^verbatim>\<open>kbd.h\<close>): the driver implements
    a keyboard of modifier keys, locks and characters.
  \<^item> \<^verbatim>\<open>Kern\<close> (\<^verbatim>\<open>file.c\<close>, \<^verbatim>\<open>pipe.c\<close>): the state of the whole kernel and the file table. \<^verbatim>\<open>Machine\<close> (\<^verbatim>\<open>proc.c\<close>, \<^verbatim>\<open>trap.c\<close>): page faults, user memory,
    devices, fork, exit, wait. \<^verbatim>\<open>Syscall\<close> (\<^verbatim>\<open>syscall.c\<close>, \<^verbatim>\<open>sysproc.c\<close>, \<^verbatim>\<open>lapic.c\<close>), \<^verbatim>\<open>Sysfile\<close> (\<^verbatim>\<open>sysfile.c\<close>, \<^verbatim>\<open>exec.c\<close>) and \<^verbatim>\<open>Trap\<close>
    (\<^verbatim>\<open>syscall.c\<close>, \<^verbatim>\<open>trap.c\<close>): the system calls and the dispatch.
  \<^item> \<^verbatim>\<open>User_Memory\<close>: lazy allocation gives zeroed pages and keeps the rest, with its wrong bound at the break; pointer arguments stay within the process; \<^verbatim>\<open>sleep\<close> ends after its ticks.
  \<^item> \<^verbatim>\<open>User_Grep\<close> (\<^verbatim>\<open>user/grep.c\<close>): the matcher decides its pattern language; the matching lines of
    its input are written, also those that reads split, except for what a buffer without a newline loses.
    \<^verbatim>\<open>User_Shell\<close> (\<^verbatim>\<open>user/sh.c\<close>): the parser returns for every line, and the words it ends in place are the tokens it scanned.
    \<^verbatim>\<open>User_Malloc\<close> (\<^verbatim>\<open>user/umalloc.c\<close>): \<^verbatim>\<open>malloc\<close> and \<^verbatim>\<open>free\<close> on the byte memory of the process always return, hand out blocks that
    do not overlap and leave the contents of the blocks in use alone, as long as \<^verbatim>\<open>sbrk\<close> does not wrap around.

  \<^bold>\<open>Bounds.\<close>
  Only the recursive descent of the shell parser has fuel, four calls for every byte of the line and four more; \<^verbatim>\<open>User_Shell\<close>
  shows that this is always enough. Loops over words that may wrap around end in \<open>Hang\<close> when the counter comes back to its
  start; loops that may run for ever are partial functions, with \<open>None\<close> for not returning; all other loops have a termination
  proof.

  \<^bold>\<open>Not modelled.\<close>
  Assembly code and register set-up (\<^verbatim>\<open>swtch.S\<close>, \<^verbatim>\<open>trapasm.S\<close>, \<^verbatim>\<open>entry.S\<close>, \<^verbatim>\<open>bootasm.S\<close>, \<^verbatim>\<open>seginit\<close>, \<^verbatim>\<open>switchuvm\<close>, \<^verbatim>\<open>tvinit\<close>), because they
  act on processor state that no modelled function reads; code that only programs hardware (\<^verbatim>\<open>ioapic.c\<close>,
  \<^verbatim>\<open>picirq.c\<close>, the interrupt controller part of \<^verbatim>\<open>lapic.c\<close>, \<^verbatim>\<open>mp.c\<close>); the boot loader and \<^verbatim>\<open>main.c\<close>; the other user
  programs under \<^verbatim>\<open>user/\<close>; \<^verbatim>\<open>mkfs.c\<close>, which runs on the host; the messages that \<^verbatim>\<open>allocuvm\<close> prints. A call that goes to sleep is followed up to that point only, except where
  the model has a step relation.
\<close>

end
